(* ===== verification/Prelude.thy ===== *)
theory Prelude
  imports Main "HOL-Library.Multiset" "HOL-Library.AList" "HOL-Library.Sublist"
begin

text \<open>
  Shared vocabulary of the development.  Python exceptions are values of \<open>py_error\<close>;
  a function that may raise returns \<open>'a res\<close>, with \<open>Inl\<close> for the exception.
  \<open>OutOfFuel\<close> is not a Python exception: it is the result of a bounded unfolding of a
  \<open>while\<close> loop that ran out of its bound, and every component proves that its bound is enough.
  The file also holds the integer helpers of \<open>utils/misc.py\<close> and the generic list lemmas
  (aligned prefixes, dictionaries as association lists, paged slices) the components share.
\<close>

section \<open>Exceptions as values\<close>

datatype py_error =
    AssertionError
  | KeyError
  | IndexError
  | ValueError
  | RuntimeError
  | NotImplementedError
  | ZeroDivisionError
  | TypeError
  | AttributeError
  | KeyboardInterrupt
  | StopIteration
  | OutOfFuel

type_synonym 'a res = "py_error + 'a"

type_synonym token = int
type_synonym slot = nat

definition res_bind :: "'a res \<Rightarrow> ('a \<Rightarrow> 'b res) \<Rightarrow> 'b res" where
  "res_bind m f = (case m of Inl e \<Rightarrow> Inl e | Inr x \<Rightarrow> f x)"

definition py_assert :: "bool \<Rightarrow> unit res" where
  "py_assert b = (if b then Inr () else Inl AssertionError)"

lemma res_bind_simps [simp]:
  "res_bind (Inr x) f = f x"
  "res_bind (Inl e) f = Inl e"
  by (simp_all add: res_bind_def)

lemma res_bind_eq_Inr: "res_bind m f = Inr y \<longleftrightarrow> (\<exists>x. m = Inr x \<and> f x = Inr y)"
  by (cases m) auto

lemma res_bind_cong [fundef_cong]:
  "m = m' \<Longrightarrow> (\<And>x. m' = Inr x \<Longrightarrow> f x = f' x) \<Longrightarrow> res_bind m f = res_bind m' f'"
  by (cases m') auto

lemma py_assert_simps [simp]:
  "b \<Longrightarrow> py_assert b = Inr ()"
  "\<not> b \<Longrightarrow> py_assert b = Inl AssertionError"
  "(py_assert b = Inr u) = b"
  by (simp_all add: py_assert_def)

section \<open>Integer helpers of utils/misc.py\<close>

definition div_even :: "int \<Rightarrow> int \<Rightarrow> bool \<Rightarrow> int res" where
  "div_even a b allow_replicate =
     (if allow_replicate \<and> b > a then
        res_bind (py_assert (b mod a = 0)) (\<lambda>_. Inr 1)
      else res_bind (py_assert (a mod b = 0)) (\<lambda>_. Inr (a div b)))"

definition div_ceil :: "'a::semiring_modulo \<Rightarrow> 'a \<Rightarrow> 'a" where
  "div_ceil a b = (a + b - 1) div b"

definition align_ceil :: "'a::semiring_modulo \<Rightarrow> 'a \<Rightarrow> 'a" where
  "align_ceil a b = div_ceil a b * b"

definition align_down :: "'a::semiring_modulo \<Rightarrow> 'a \<Rightarrow> 'a" where
  "align_down a b = (a div b) * b"

named_theorems align

lemma align_down_le [align, simp]: "align_down (a::nat) b \<le> a"
  by (simp add: align_down_def)

lemma align_down_dvd [align, simp]: "b dvd align_down (a::nat) b"
  by (simp add: align_down_def)

lemma align_down_id [align]: "b dvd (a::nat) \<Longrightarrow> align_down a b = a"
  by (simp add: align_down_def)

lemma align_down_0 [align, simp]: "align_down (0::nat) b = 0"
  by (simp add: align_down_def)

lemma align_down_greatest: "b dvd (k::nat) \<Longrightarrow> k \<le> a \<Longrightarrow> k \<le> align_down a b"
  unfolding align_down_def by (metis div_le_mono dvd_div_mult_self mult_le_mono1)

lemma align_down_mono: "a \<le> (c::nat) \<Longrightarrow> align_down a b \<le> align_down c b"
  by (simp add: align_down_def div_le_mono)

lemma align_down_add: "b dvd (a::nat) \<Longrightarrow> align_down (a + c) b = a + align_down c b"
  unfolding align_down_def by (cases "b = 0") (auto simp: dvd_def add_mult_distrib)

lemma align_down_less: "0 < b \<Longrightarrow> a < align_down a b + (b::nat)"
  unfolding align_down_def using mod_less_divisor [of b a] div_mult_mod_eq [of a b] by linarith

lemma align_down_eq_self_iff: "align_down (a::nat) b = a \<longleftrightarrow> b dvd a"
  by (metis align_down_dvd align_down_id)

lemma align_ceil_dvd [align, simp]: "b dvd align_ceil (a::nat) b"
  by (simp add: align_ceil_def)

lemma align_ceil_ge [align]: "0 < b \<Longrightarrow> (a::nat) \<le> align_ceil a b"
proof -
  assume b: "0 < b"
  have "(a + b - 1) mod b < b" using b by simp
  then show ?thesis unfolding align_ceil_def div_ceil_def
    using div_mult_mod_eq [of "a + b - 1" b] by linarith
qed

lemma div_ceil_mult [simp]: "0 < b \<Longrightarrow> div_ceil (q * b) (b::nat) = q"
proof -
  assume b: "0 < b"
  have "q * b + b - 1 = (b - 1) + q * b" using b by simp
  then have "(q * b + b - 1) div b = (b - 1) div b + q" using b by (simp only: div_mult_self1)
  then show ?thesis using b by (simp add: div_ceil_def)
qed

lemma align_ceil_id [align]: "b dvd (a::nat) \<Longrightarrow> 0 < b \<Longrightarrow> align_ceil a b = a"
  unfolding align_ceil_def by (auto elim!: dvdE simp: mult.commute [of b])

lemma align_ceil_least: "0 < b \<Longrightarrow> b dvd (k::nat) \<Longrightarrow> a \<le> k \<Longrightarrow> align_ceil a b \<le> k"
proof -
  assume b: "0 < b" and k: "b dvd k" and ak: "a \<le> k"
  obtain q where q: "k = b * q" using k by (auto simp: dvd_def)
  have "(a + b - 1) div b \<le> (k + b - 1) div b" using ak by (simp add: div_le_mono)
  also have "(k + b - 1) div b = q"
    using div_ceil_mult [OF b, of q] by (simp add: q div_ceil_def mult.commute)
  finally show ?thesis by (simp add: align_ceil_def div_ceil_def q mult.commute)
qed

lemma div_ceil_mono: "(a::nat) \<le> c \<Longrightarrow> div_ceil a b \<le> div_ceil c b"
  by (simp add: div_ceil_def div_le_mono)

section \<open>Common prefixes\<close>

fun match_len :: "'a list \<Rightarrow> 'a list \<Rightarrow> nat" where
  "match_len [] ys = 0"
| "match_len (x # xs) [] = 0"
| "match_len (x # xs) (y # ys) = (if x = y then Suc (match_len xs ys) else 0)"

lemma match_len_le [simp]: "match_len xs ys \<le> length xs" "match_len xs ys \<le> length ys"
  by (induction xs ys rule: match_len.induct) auto

lemma match_len_take: "take (match_len xs ys) xs = take (match_len xs ys) ys"
  by (induction xs ys rule: match_len.induct) auto

lemma match_len_greatest:
  "take k xs = take k ys \<Longrightarrow> k \<le> length xs \<Longrightarrow> k \<le> length ys \<Longrightarrow> k \<le> match_len xs ys"
proof (induction xs ys arbitrary: k rule: match_len.induct)
  case (3 x xs y ys)
  then show ?case by (cases k) auto
qed auto

lemma match_len_eq_prefix: "k \<le> match_len xs ys \<Longrightarrow> take k xs = take k ys"
proof -
  assume k: "k \<le> match_len xs ys"
  have "take k (take (match_len xs ys) xs) = take k (take (match_len xs ys) ys)"
    by (simp add: match_len_take [of xs ys])
  with k show ?thesis by (simp add: min_absorb1)
qed

lemma match_len_append: "match_len (zs @ xs) (zs @ ys) = length zs + match_len xs ys"
  by (induction zs) auto

lemma match_len_append_left:
  "match_len xs ys < length xs \<Longrightarrow> match_len (xs @ zs) ys = match_len xs ys"
  by (induction xs ys rule: match_len.induct) auto

lemma match_len_full: "match_len xs ys = length xs \<Longrightarrow> take (length xs) ys = xs"
  using match_len_take [of xs ys] by simp

lemma match_len_self [simp]: "match_len xs xs = length xs"
  by (induction xs) auto

section \<open>Dictionaries as association lists\<close>

text \<open>
  \<open>AList.update\<close> replaces an entry in place or appends it and \<open>AList.delete\<close> removes it,
  as Python's insertion-ordered \<open>dict\<close> does.
\<close>

lemma map_of_in_set: "distinct (map fst xs) \<Longrightarrow> (k, v) \<in> set xs \<longleftrightarrow> map_of xs k = Some v"
  by (rule map_of_eq_Some_iff [symmetric]) simp

lemma set_update_new:
  "k \<notin> fst ` set xs \<Longrightarrow> set (AList.update k v xs) = insert (k, v) (set xs)"
  by (induction xs) auto

lemma set_update_old:
  "distinct (map fst xs) \<Longrightarrow>
   set (AList.update k v xs) = insert (k, v) {p \<in> set xs. fst p \<noteq> k}"
  by (induction xs) (auto simp: image_iff)

lemma distinct_update_fst: "distinct (map fst xs) \<Longrightarrow> distinct (map fst (AList.update k v xs))"
  by (rule distinct_update)

lemma set_delete_alist: "set (AList.delete k xs) = {p \<in> set xs. fst p \<noteq> k}"
  by (auto simp: AList.delete_eq)

lemma distinct_delete_fst: "distinct (map fst xs) \<Longrightarrow> distinct (map fst (AList.delete k xs))"
  by (rule distinct_delete)

section \<open>Bounded deques\<close>

text \<open>\<open>deque(maxlen=n).append\<close>\<close>

definition deque_append :: "nat \<Rightarrow> 'a \<Rightarrow> 'a list \<Rightarrow> 'a list" where
  "deque_append n x xs = drop (length xs + 1 - n) (xs @ [x])"

lemma length_deque_append [simp]: "0 < n \<Longrightarrow> length xs \<le> n \<Longrightarrow> length (deque_append n x xs) \<le> n"
  by (simp add: deque_append_def)

lemma set_deque_append: "set (deque_append n x xs) \<subseteq> insert x (set xs)"
  using set_drop_subset[of "length xs + 1 - n" "xs @ [x]"] by (simp add: deque_append_def)

text \<open>Adding to the last \<open>n\<close> elements of a history gives the last \<open>n\<close> of the longer history.\<close>

lemma deque_append_history:
  "deque_append n x (drop (length h - n) h) = drop (length (h @ [x]) - n) (h @ [x])"
proof (cases "n \<le> length h")
  case True
  then show ?thesis by (cases n) (simp_all add: deque_append_def Suc_diff_Suc Suc_le_eq)
next
  case False
  then show ?thesis by (simp add: deque_append_def)
qed

end
