(* ===== verification/PrefixCache.thy ===== *)
theory PrefixCache
  imports Prelude
begin

text \<open>
  The interface of \<open>runtime/kvcache/base.py\<close> (\<open>BasePrefixCache\<close>, \<open>BaseCacheHandle\<close>,
  \<open>SizeInfo\<close>): the methods a prefix cache offers to the cache manager, and the contract
  between the two as the locale \<open>prefix_cache\<close>.  Slot lists move between them in whole
  pages; \<open>paged\<close> says so.
\<close>

section \<open>Page runs\<close>

definition page_to_token :: "nat \<Rightarrow> slot list \<Rightarrow> slot list" where
  "page_to_token page_size pages =
     (if page_size = 1 then pages
      else concat (map (\<lambda>p. map (\<lambda>offset. p + offset) [0..<page_size]) pages))"

text \<open>Python's \<open>xs[::page_size]\<close>.\<close>

definition stride :: "nat \<Rightarrow> 'a list \<Rightarrow> 'a list" where
  "stride page_size xs = map (\<lambda>i. xs ! (i * page_size)) [0..<div_ceil (length xs) page_size]"

definition paged :: "nat \<Rightarrow> slot list \<Rightarrow> bool" where
  "paged page_size xs \<longleftrightarrow>
     (\<exists>ps. (\<forall>p\<in>set ps. page_size dvd p) \<and> xs = page_to_token page_size ps)"

lemma page_to_token_append [simp]:
  "page_to_token n (ps @ qs) = page_to_token n ps @ page_to_token n qs"
  by (simp add: page_to_token_def)

lemma page_to_token_Nil [simp]: "page_to_token n [] = []"
  by (simp add: page_to_token_def)

lemma page_to_token_Cons: "page_to_token n (p # ps) = [p..<p + n] @ page_to_token n ps"
proof -
  have "map ((+) p) [0..<n] = [p..<p + n]" by (induction n) auto
  then show ?thesis by (simp add: page_to_token_def)
qed

lemma length_page_to_token [simp]: "length (page_to_token n ps) = length ps * n"
  by (induction ps) (auto simp: page_to_token_Cons)

lemma take_page_to_token: "take (k * n) (page_to_token n ps) = page_to_token n (take k ps)"
proof (induction ps arbitrary: k)
  case (Cons p ps)
  then show ?case by (cases k) (simp_all add: page_to_token_Cons)
qed simp

lemma drop_page_to_token: "drop (k * n) (page_to_token n ps) = page_to_token n (drop k ps)"
proof (induction ps arbitrary: k)
  case (Cons p ps)
  then show ?case by (cases k) (simp_all add: page_to_token_Cons)
qed simp

lemma nth_page_to_token: "0 < n \<Longrightarrow> i < length ps \<Longrightarrow> page_to_token n ps ! (i * n) = ps ! i"
proof (induction ps arbitrary: i)
  case (Cons p ps)
  then show ?case by (cases i) (simp_all add: page_to_token_Cons nth_append)
qed simp

lemma stride_page_to_token [simp]: "0 < n \<Longrightarrow> stride n (page_to_token n ps) = ps"
  by (rule nth_equalityI) (simp_all add: stride_def nth_page_to_token)

lemma pagedE:
  assumes "paged n xs" "0 < n"
  shows "page_to_token n (stride n xs) = xs" "\<forall>p\<in>set (stride n xs). n dvd p" "n dvd length xs"
  using assms by (auto simp: paged_def)

lemma paged_Nil [simp]: "paged n []"
  unfolding paged_def by (rule exI[of _ "[]"]) simp

lemma paged_append: "paged n xs \<Longrightarrow> paged n ys \<Longrightarrow> paged n (xs @ ys)"
  unfolding paged_def
  by (elim exE conjE, rename_tac ps qs, rule_tac x = "ps @ qs" in exI) auto

lemma paged_concat: "(\<And>xs. xs \<in> set xss \<Longrightarrow> paged n xs) \<Longrightarrow> paged n (concat xss)"
  by (induction xss) (auto intro: paged_append)

lemma paged_take: "paged n xs \<Longrightarrow> n dvd k \<Longrightarrow> paged n (take k xs)"
  unfolding paged_def dvd_def
  by (elim exE conjE) (metis take_page_to_token mult.commute in_set_takeD)

lemma paged_drop: "paged n xs \<Longrightarrow> n dvd k \<Longrightarrow> paged n (drop k xs)"
  unfolding paged_def dvd_def
  by (elim exE conjE) (metis drop_page_to_token mult.commute in_set_dropD)

lemma paged_page_to_token: "\<forall>p\<in>set ps. n dvd p \<Longrightarrow> paged n (page_to_token n ps)"
  by (auto simp: paged_def)

section \<open>The methods of a prefix cache\<close>

text \<open>
  \<open>match_prefix\<close> and \<open>insert_prefix\<close> take the readings of the monotonic clock they make.
  \<open>op_indices\<close> is \<open>get_matched_indices\<close> and \<open>op_cached_len\<close> the field of the handle.
\<close>

record ('c, 'h) cache_ops =
  op_lock :: "'h \<Rightarrow> bool \<Rightarrow> 'c \<Rightarrow> 'c res"
  op_match :: "int \<Rightarrow> token list \<Rightarrow> 'c \<Rightarrow> ('h \<times> 'c) res"
  op_insert :: "int \<Rightarrow> int \<Rightarrow> token list \<Rightarrow> slot list \<Rightarrow> 'c \<Rightarrow> (nat \<times> 'h \<times> 'c) res"
  op_evict :: "int \<Rightarrow> 'c \<Rightarrow> (slot list \<times> 'c) res"
  op_size_info :: "'c \<Rightarrow> int \<times> int"
  op_indices :: "'h \<Rightarrow> 'c \<Rightarrow> slot list res"
  op_cached_len :: "'h \<Rightarrow> nat"

text \<open>
  The contract.  \<open>inv ps c H\<close>: the cache \<open>c\<close> is consistent at page size \<open>ps\<close> while the handles
  \<open>H\<close> are locked; \<open>valid c h\<close>: the handle denotes a path of the cache, with tokens \<open>key c h\<close> and
  canonical slots \<open>val c h\<close>; \<open>slots c\<close>: the slots the cache owns.
\<close>

locale prefix_cache =
  fixes ops :: "('c, 'h) cache_ops"
    and inv :: "nat \<Rightarrow> 'c \<Rightarrow> 'h multiset \<Rightarrow> bool"
    and valid :: "'c \<Rightarrow> 'h \<Rightarrow> bool"
    and key :: "'c \<Rightarrow> 'h \<Rightarrow> token list"
    and val :: "'c \<Rightarrow> 'h \<Rightarrow> slot list"
    and slots :: "'c \<Rightarrow> slot multiset"
  assumes page_pos: "inv ps c H \<Longrightarrow> 0 < ps"
    and held: "inv ps c H \<Longrightarrow> h \<in># H \<Longrightarrow> valid c h"
    and lengths: "inv ps c H \<Longrightarrow> valid c h \<Longrightarrow>
        length (key c h) = op_cached_len ops h \<and> length (val c h) = op_cached_len ops h \<and>
        ps dvd op_cached_len ops h \<and> paged ps (val c h)"
    and indices: "inv ps c H \<Longrightarrow> valid c h \<Longrightarrow> 0 < op_cached_len ops h \<Longrightarrow>
        op_indices ops h c = Inr (val c h)"
    and sizes: "inv ps c H \<Longrightarrow> 0 \<le> fst (op_size_info ops c) \<and> 0 \<le> snd (op_size_info ops c) \<and>
        fst (op_size_info ops c) + snd (op_size_info ops c) = int (size (slots c)) \<and>
        int ps dvd fst (op_size_info ops c) \<and> int ps dvd snd (op_size_info ops c)"
    and empty_law: "inv ps c H \<Longrightarrow> valid c h \<Longrightarrow> op_cached_len ops h = 0 \<Longrightarrow>
        inv ps c (add_mset h H)"
    and idle: "inv ps c {#} \<Longrightarrow> snd (op_size_info ops c) = 0"
    and lock_law: "inv ps c H \<Longrightarrow> valid c h \<Longrightarrow>
        \<exists>c'. op_lock ops h False c = Inr c' \<and> inv ps c' (add_mset h H) \<and> slots c' = slots c \<and>
          (\<forall>g. valid c g \<longrightarrow> valid c' g \<and> key c' g = key c g \<and> val c' g = val c g)"
    and unlock_law: "inv ps c (add_mset h H) \<Longrightarrow>
        \<exists>c'. op_lock ops h True c = Inr c' \<and> inv ps c' H \<and> slots c' = slots c \<and>
          (\<forall>g. valid c g \<longrightarrow> valid c' g \<and> key c' g = key c g \<and> val c' g = val c g)"
    and lock_unlock: "inv ps c H \<Longrightarrow> valid c h \<Longrightarrow> op_lock ops h False c = Inr c1 \<Longrightarrow>
        op_lock ops h True c1 = Inr c2 \<Longrightarrow> op_size_info ops c2 = op_size_info ops c"
    and match_law: "inv ps c H \<Longrightarrow>
        \<exists>h c'. op_match ops tic ids c = Inr (h, c') \<and> inv ps c' H \<and> slots c' = slots c \<and>
          op_size_info ops c' = op_size_info ops c \<and>
          (\<forall>g. valid c g \<longrightarrow> valid c' g \<and> key c' g = key c g \<and> val c' g = val c g) \<and>
          valid c' h \<and> op_cached_len ops h \<le> length ids \<and>
          key c' h = take (op_cached_len ops h) ids"
    and insert_law: "inv ps c H \<Longrightarrow> length ids \<le> length inds \<Longrightarrow>
        paged ps (take (align_down (length ids) ps) inds) \<Longrightarrow>
        \<exists>l h c'. op_insert ops tic tic' ids inds c = Inr (l, h, c') \<and> inv ps c' H \<and>
          (\<forall>g. valid c g \<longrightarrow> valid c' g \<and> key c' g = key c g \<and> val c' g = val c g) \<and>
          valid c' h \<and> l \<le> op_cached_len ops h \<and> op_cached_len ops h \<le> length ids \<and> ps dvd l \<and>
          key c' h = take (op_cached_len ops h) ids \<and>
          drop l (val c' h) = drop l (take (op_cached_len ops h) inds) \<and>
          slots c' = slots c + mset (drop l (take (op_cached_len ops h) inds)) \<and>
          (\<forall>g. valid c g \<longrightarrow> op_cached_len ops g \<le> length ids \<longrightarrow>
             key c g = take (op_cached_len ops g) ids \<longrightarrow>
             op_cached_len ops g \<le> l \<and> take (op_cached_len ops g) (val c' h) = val c g)"
    and evict_law: "inv ps c H \<Longrightarrow> 0 < n \<Longrightarrow> n \<le> fst (op_size_info ops c) \<Longrightarrow>
        \<exists>vs c'. op_evict ops n c = Inr (vs, c') \<and> inv ps c' H \<and> slots c = slots c' + mset vs \<and>
          paged ps vs \<and> n \<le> int (length vs) \<and>
          (\<forall>g\<in>#H. key c' g = key c g \<and> val c' g = val c g)"

end
