(* ===== verification/Request.thy ===== *)
theory Request
  imports Complex_Main Prelude
begin

text \<open>
  The request and the batch of \<open>core.py\<close> (\<open>SamplingParams\<close>, \<open>Req\<close>, \<open>Batch\<close>) and
  \<open>ChunkedReq\<close> of \<open>runtime/scheduler/prefill.py\<close>.  A request is a value: the scheduler's
  operations return the updated request.  Fields that only carry tensors, timing or drafts for
  the device are left out; \<open>r_mm\<close> says whether \<open>mm_embeds\<close> is set and \<open>r_chunked\<close> whether the
  object is a \<open>ChunkedReq\<close>.  Temperatures are rational numbers, floating point values that are
  not numbers are outside the model.
\<close>

record sampling_params =
  temperature :: rat
  top_k :: int
  top_p :: rat
  ignore_eos :: bool
  max_tokens :: int
  stop_strs :: "string list"

definition default_sampling :: sampling_params where
  "default_sampling = \<lparr>temperature = 0, top_k = -1, top_p = 1, ignore_eos = False,
     max_tokens = 1024, stop_strs = []\<rparr>"

definition is_greedy :: "sampling_params \<Rightarrow> bool" where
  "is_greedy p \<longleftrightarrow> temperature p \<le> 0 \<or> top_k p = 1"

record 'h req =
  r_input_ids :: "token list"
  r_table_idx :: nat
  r_cached_len :: nat
  r_output_len :: int
  r_uid :: int
  r_sampling :: sampling_params
  r_handle :: 'h
  r_mm :: bool
  r_checkpoint_endpoints :: "nat list"
  r_linear_slot :: "nat option"
  r_ping_pong :: "(nat \<times> nat) option"
  r_next_track :: nat
  r_last_track :: "nat option"
  r_restore_src :: "nat option"
  r_swa_evicted :: nat
  r_decode_idx :: nat
  r_anchor :: "nat option"
  r_aborted :: bool
  r_overadvanced :: bool
  r_chunked :: bool
  r_device_len :: nat
  r_allocated_len :: nat
  r_max_device_len :: nat
  r_kv_end :: int

text \<open>The constructor with \<open>__post_init__\<close>.\<close>

definition mk_req ::
  "bool \<Rightarrow> token list \<Rightarrow> nat \<Rightarrow> nat \<Rightarrow> int \<Rightarrow> int \<Rightarrow> 'h \<Rightarrow> sampling_params \<Rightarrow> bool \<Rightarrow> 'h req res" where
  "mk_req chunked input_ids table_idx cached_len output_len uid cache_handle sampling mm =
     res_bind (py_assert (cached_len < length input_ids \<and>
                          int (length input_ids) \<le> int (length input_ids) + output_len)) (\<lambda>_.
     Inr \<lparr>r_input_ids = input_ids, r_table_idx = table_idx, r_cached_len = cached_len,
          r_output_len = output_len, r_uid = uid, r_sampling = sampling, r_handle = cache_handle,
          r_mm = mm, r_checkpoint_endpoints = [], r_linear_slot = None, r_ping_pong = None,
          r_next_track = 0, r_last_track = None, r_restore_src = None, r_swa_evicted = 0,
          r_decode_idx = 0, r_anchor = None, r_aborted = False, r_overadvanced = False,
          r_chunked = chunked, r_device_len = length input_ids, r_allocated_len = cached_len,
          r_max_device_len = length input_ids + nat output_len,
          r_kv_end = int (length input_ids) + output_len\<rparr>)"

definition remain_len :: "'h req \<Rightarrow> int" where
  "remain_len r = int (r_max_device_len r) - int (r_device_len r)"

definition extend_len :: "'h req \<Rightarrow> int" where
  "extend_len r = int (r_device_len r) - int (r_cached_len r)"

definition complete_one :: "'h req \<Rightarrow> 'h req" where
  "complete_one r = r\<lparr>r_cached_len := r_device_len r, r_device_len := r_device_len r + 1\<rparr>"

definition append_host :: "token list \<Rightarrow> 'h req \<Rightarrow> 'h req res" where
  "append_host next_token r =
     (if r_chunked r then Inl NotImplementedError
      else res_bind (py_assert (length (r_input_ids r) + length next_token \<le> r_max_device_len r)) (\<lambda>_.
        Inr (r\<lparr>r_input_ids := r_input_ids r @ next_token\<rparr>)))"

definition can_decode :: "'h req \<Rightarrow> bool" where
  "can_decode r \<longleftrightarrow> \<not> r_chunked r \<and> 0 < remain_len r"

datatype phase = Prefill | Decode | Verify

record 'h batch =
  b_reqs :: "'h req list"
  b_phase :: phase
  b_log_new_tokens :: int
  b_log_cached_tokens :: int
  b_prompt_admissions :: "(int \<times> nat \<times> nat) list"

definition mk_batch :: "'h req list \<Rightarrow> phase \<Rightarrow> 'h batch" where
  "mk_batch reqs ph = \<lparr>b_reqs = reqs, b_phase = ph, b_log_new_tokens = 0, b_log_cached_tokens = 0,
     b_prompt_admissions = []\<rparr>"

definition is_prefill :: "'h batch \<Rightarrow> bool" where
  "is_prefill b \<longleftrightarrow> b_phase b = Prefill"

definition is_decode :: "'h batch \<Rightarrow> bool" where
  "is_decode b \<longleftrightarrow> b_phase b \<in> {Decode, Verify}"

definition is_verify :: "'h batch \<Rightarrow> bool" where
  "is_verify b \<longleftrightarrow> b_phase b = Verify"

definition uses_prefill_kernels :: "'h batch \<Rightarrow> bool" where
  "uses_prefill_kernels b \<longleftrightarrow> b_phase b \<in> {Prefill, Verify}"

section \<open>The lengths of a request\<close>

definition req_ok :: "'h req \<Rightarrow> bool" where
  "req_ok r \<longleftrightarrow> r_cached_len r < r_device_len r \<and> r_device_len r \<le> r_max_device_len r + 1 \<and>
     r_cached_len r \<le> r_max_device_len r"

lemma mk_req_ok:
  "mk_req ch ids t c out u h sp mm = Inr r \<Longrightarrow>
   req_ok r \<and> r_device_len r = length ids \<and> r_cached_len r = c \<and> r_allocated_len r = c \<and>
   r_input_ids r = ids \<and> r_table_idx r = t \<and> r_handle r = h \<and> r_mm r = mm \<and> r_chunked r = ch \<and>
   r_uid r = u \<and> 0 \<le> remain_len r \<and> remain_len r = out"
  by (auto simp: mk_req_def res_bind_eq_Inr req_ok_def remain_len_def)

lemma mk_req_iff:
  "(\<exists>r. mk_req ch ids t c out u h sp mm = Inr r) \<longleftrightarrow> c < length ids \<and> 0 \<le> out"
  by (auto simp: mk_req_def res_bind_eq_Inr)

lemma complete_one_ok:
  "req_ok r \<Longrightarrow> r_device_len r \<le> r_max_device_len r \<Longrightarrow> req_ok (complete_one r) \<and>
     extend_len (complete_one r) = 1 \<and> remain_len (complete_one r) = remain_len r - 1"
  by (simp add: req_ok_def complete_one_def extend_len_def remain_len_def)

end
