(* ===== verification/SwaPool.thy ===== *)
theory SwaPool
  imports Complex_Main Prelude
begin

text \<open>
  The slot allocator of the sliding-window KV pool (\<open>runtime/kvcache/hybrid_swa_pool.py\<close>,
  global-paged mode) and its sizing formulas.  The dense mapping from full slots to window slots
  is a list whose last entry is the sentinel for index -1; entry 0 means that no window slot is
  live.  \<open>swa_ok\<close>: the free list and the live entries together are the allocatable slots, each
  once.  The buffers themselves are device memory and stay outside.
\<close>

section \<open>Allocator\<close>

record swa_pool =
  swa_paged :: bool
  swa_free :: "int list"
  full_to_swa :: "int list"
  swa_num_tokens :: nat
  full_num_tokens :: nat
  swa_page_size :: nat

definition init_swa_paged_state :: "swa_pool \<Rightarrow> swa_pool" where
  "init_swa_paged_state p =
     p\<lparr>full_to_swa := replicate (full_num_tokens p + swa_page_size p) 0 @ [-1],
       swa_free := [1..int (swa_num_tokens p) - 1]\<rparr>"

text \<open>\<open>xs[idx] = vals\<close> for index and value lists of one length.\<close>

fun scatter :: "nat list \<Rightarrow> 'a list \<Rightarrow> 'a list \<Rightarrow> 'a list" where
  "scatter (i # is) (v # vs) xs = scatter is vs (xs[i := v])"
| "scatter _ _ xs = xs"

definition alloc_swa :: "nat list \<Rightarrow> swa_pool \<Rightarrow> swa_pool res" where
  "alloc_swa full_indices p =
     res_bind (py_assert (swa_paged p)) (\<lambda>_.
       let n = length full_indices in
       if n = 0 then Inr p
       else if length (swa_free p) < n then Inl RuntimeError
       else if \<exists>i\<in>set full_indices. length (full_to_swa p) \<le> i then Inl IndexError
       else Inr (p\<lparr>swa_free := drop n (swa_free p),
                   full_to_swa := scatter full_indices (take n (swa_free p)) (full_to_swa p)\<rparr>))"

definition free_swa :: "nat list \<Rightarrow> swa_pool \<Rightarrow> swa_pool res" where
  "free_swa full_indices p =
     res_bind (py_assert (swa_paged p)) (\<lambda>_.
       if full_indices = [] then Inr p
       else if \<exists>i\<in>set full_indices. length (full_to_swa p) \<le> i then Inl IndexError
       else let swa = filter (\<lambda>x. 0 < x) (map (\<lambda>i. full_to_swa p ! i) full_indices) in
         Inr (p\<lparr>swa_free := swa_free p @ swa,
                full_to_swa := scatter full_indices (replicate (length full_indices) 0) (full_to_swa p)\<rparr>))"

definition swa_available_size :: "swa_pool \<Rightarrow> nat" where
  "swa_available_size p = length (swa_free p)"

definition translate_loc_from_full_to_swa :: "nat list \<Rightarrow> swa_pool \<Rightarrow> int list" where
  "translate_loc_from_full_to_swa out_loc p = map (\<lambda>i. full_to_swa p ! i) out_loc"

definition swa_rebuild :: "nat \<Rightarrow> nat option \<Rightarrow> swa_pool \<Rightarrow> swa_pool" where
  "swa_rebuild num_full_pages num_swa_tokens p =
     (let full = num_full_pages * swa_page_size p;
          p1 = p\<lparr>full_num_tokens := full,
                 swa_num_tokens := (case num_swa_tokens of Some n \<Rightarrow> n | None \<Rightarrow> full)\<rparr>
      in if swa_paged p1 then init_swa_paged_state p1 else p1)"

section \<open>Conservation\<close>

definition swa_ok :: "swa_pool \<Rightarrow> bool" where
  "swa_ok p \<longleftrightarrow>
     mset (swa_free p) + filter_mset (\<lambda>x. 0 < x) (mset (full_to_swa p)) =
     mset [1..int (swa_num_tokens p) - 1]"

lemma length_scatter [simp]: "length (scatter is vs xs) = length xs"
  by (induction "is" vs xs rule: scatter.induct) auto

lemma nth_scatter_notin: "j \<notin> set is \<Longrightarrow> scatter is vs xs ! j = xs ! j"
  by (induction "is" vs xs rule: scatter.induct) auto

lemma nth_scatter:
  "distinct is \<Longrightarrow> length is = length vs \<Longrightarrow> k < length is \<Longrightarrow> is ! k < length xs \<Longrightarrow>
   scatter is vs xs ! (is ! k) = vs ! k"
proof (induction "is" vs xs arbitrary: k rule: scatter.induct)
  case (1 i "is" v vs xs)
  then show ?case by (cases k) (auto simp: nth_scatter_notin)
qed auto

lemma mset_scatter:
  "distinct is \<Longrightarrow> length is = length vs \<Longrightarrow> \<forall>i\<in>set is. i < length xs \<Longrightarrow>
   mset (scatter is vs xs) + mset (map (\<lambda>i. xs ! i) is) = mset xs + mset vs"
proof (induction "is" vs xs rule: scatter.induct)
  case (1 i "is" v vs xs)
  then have IH: "mset (scatter is vs (xs[i := v])) + mset (map (\<lambda>j. xs[i := v] ! j) is) =
      mset (xs[i := v]) + mset vs" by simp
  have e: "map (\<lambda>j. xs[i := v] ! j) is = map (\<lambda>j. xs ! j) is"
    using 1(2) by (intro map_cong refl) (metis distinct.simps(2) nth_list_update_neq)
  have u: "add_mset (xs ! i) (mset (xs[i := v])) = add_mset v (mset xs)"
    using 1(4) by (simp add: mset_update)
  have "add_mset (xs ! i) (mset (scatter is vs (xs[i := v])) + mset (map (\<lambda>j. xs ! j) is)) =
      add_mset (xs ! i) (mset (xs[i := v])) + mset vs"
    using IH unfolding e by simp
  then show ?case unfolding u by simp
qed auto

lemma no_pos_zeros [simp]: "filter_mset ((<) 0) (replicate_mset k (0::int)) = {#}"
  by (induction k) auto

lemma init_swa_ok: "swa_ok (init_swa_paged_state p)"
  by (simp add: swa_ok_def init_swa_paged_state_def)

lemma alloc_swa_ok:
  assumes ok: "swa_ok p" "swa_paged p" and n: "length is \<le> swa_available_size p"
    and idx: "distinct is" "\<forall>i\<in>set is. i < length (full_to_swa p) \<and> full_to_swa p ! i = 0"
  shows "\<exists>p'. alloc_swa is p = Inr p' \<and> swa_ok p' \<and> swa_paged p' \<and>
     swa_available_size p' + length is = swa_available_size p \<and>
     length (full_to_swa p') = length (full_to_swa p) \<and> swa_num_tokens p' = swa_num_tokens p \<and>
     (\<forall>i\<in>set is. 0 < full_to_swa p' ! i) \<and>
     (\<forall>i. i \<notin> set is \<longrightarrow> full_to_swa p' ! i = full_to_swa p ! i)"
proof (cases "is = []")
  case True
  then show ?thesis using ok by (simp add: alloc_swa_def)
next
  case False
  let ?vs = "take (length is) (swa_free p)"
  let ?p = "p\<lparr>swa_free := drop (length is) (swa_free p), full_to_swa := scatter is ?vs (full_to_swa p)\<rparr>"
  have len: "length ?vs = length is" using n by (simp add: swa_available_size_def)
  have eq: "alloc_swa is p = Inr ?p"
    using False n ok(2) idx(2) by (auto simp: alloc_swa_def Let_def swa_available_size_def)
  have pos: "\<forall>x\<in>set (swa_free p). 0 < x"
  proof
    fix x assume "x \<in> set (swa_free p)"
    then have "x \<in># mset [1..int (swa_num_tokens p) - 1]"
      using ok(1) unfolding swa_ok_def by (metis in_multiset_in_set union_iff)
    then show "0 < x" by simp
  qed
  have "map (\<lambda>i. full_to_swa p ! i) is = replicate (length is) 0"
    using idx(2) by (intro nth_equalityI) auto
  then have m: "mset (scatter is ?vs (full_to_swa p)) + mset (replicate (length is) 0) =
      mset (full_to_swa p) + mset ?vs"
    using mset_scatter[OF idx(1) len[symmetric], of "full_to_swa p"] idx(2) by simp
  have "filter_mset (\<lambda>x. 0 < x) (mset (scatter is ?vs (full_to_swa p))) =
      filter_mset (\<lambda>x. 0 < x) (mset (full_to_swa p)) + filter_mset (\<lambda>x. 0 < x) (mset ?vs)"
    using arg_cong[OF m, of "filter_mset (\<lambda>x. 0 < x)"] by simp
  also have "filter_mset (\<lambda>x. 0 < x) (mset ?vs) = mset ?vs"
    using pos by (intro filter_mset_eq_conv[THEN iffD2]) (auto dest: in_set_takeD)
  finally have f: "filter_mset (\<lambda>x. 0 < x) (mset (scatter is ?vs (full_to_swa p))) =
      filter_mset (\<lambda>x. 0 < x) (mset (full_to_swa p)) + mset ?vs" .
  have "mset (swa_free p) = mset (drop (length is) (swa_free p)) + mset ?vs"
    by (metis append_take_drop_id mset_append union_commute)
  then have "swa_ok ?p" using ok(1) f by (simp add: swa_ok_def ac_simps)
  moreover have "0 < scatter is ?vs (full_to_swa p) ! i" if i: "i \<in> set is" for i
  proof -
    obtain k where k: "k < length is" "i = is ! k" using i by (auto simp: in_set_conv_nth)
    then have "scatter is ?vs (full_to_swa p) ! i = ?vs ! k"
      using nth_scatter[OF idx(1) len[symmetric] k(1)] idx(2) by simp
    moreover have "?vs ! k \<in> set (swa_free p)"
      using k(1) len by (metis in_set_takeD nth_mem)
    ultimately show ?thesis using pos by simp
  qed
  ultimately show ?thesis
    using eq ok(2) n by (auto simp: swa_available_size_def nth_scatter_notin)
qed

lemma free_swa_ok:
  assumes ok: "swa_ok p" "swa_paged p"
    and idx: "distinct is" "\<forall>i\<in>set is. i < length (full_to_swa p)"
  shows "\<exists>p'. free_swa is p = Inr p' \<and> swa_ok p' \<and> swa_paged p' \<and>
     swa_available_size p' = swa_available_size p + length (filter (\<lambda>i. 0 < full_to_swa p ! i) is) \<and>
     length (full_to_swa p') = length (full_to_swa p) \<and> swa_num_tokens p' = swa_num_tokens p \<and>
     (\<forall>i\<in>set is. full_to_swa p' ! i = 0) \<and>
     (\<forall>i. i \<notin> set is \<longrightarrow> full_to_swa p' ! i = full_to_swa p ! i)"
proof (cases "is = []")
  case True
  then show ?thesis using ok by (simp add: free_swa_def)
next
  case False
  let ?z = "replicate (length is) (0::int)" and ?old = "map (\<lambda>i. full_to_swa p ! i) is"
  let ?p = "p\<lparr>swa_free := swa_free p @ filter (\<lambda>x. 0 < x) ?old, full_to_swa := scatter is ?z (full_to_swa p)\<rparr>"
  have eq: "free_swa is p = Inr ?p"
    using False ok(2) idx(2) by (auto simp: free_swa_def Let_def)
  have m: "mset (scatter is ?z (full_to_swa p)) + mset ?old = mset (full_to_swa p) + mset ?z"
    using mset_scatter[OF idx(1), of ?z "full_to_swa p"] idx(2) by simp
  have "filter_mset (\<lambda>x. 0 < x) (mset (scatter is ?z (full_to_swa p))) + filter_mset (\<lambda>x. 0 < x) (mset ?old) =
      filter_mset (\<lambda>x. 0 < x) (mset (full_to_swa p))"
    using arg_cong[OF m, of "filter_mset (\<lambda>x. 0 < x)"] by simp
  then have "swa_ok ?p" using ok(1) by (simp add: swa_ok_def union_ac)
  moreover have "scatter is ?z (full_to_swa p) ! i = 0" if i: "i \<in> set is" for i
  proof -
    obtain k where k: "k < length is" "i = is ! k" using i by (auto simp: in_set_conv_nth)
    then show ?thesis using nth_scatter[OF idx(1), of ?z k "full_to_swa p"] idx(2) by simp
  qed
  ultimately show ?thesis
    using eq ok(2) by (auto simp: swa_available_size_def nth_scatter_notin filter_map o_def)
qed

section \<open>Sizing\<close>

text \<open>
  The configuration values that the formulas read.  A KV group is a flag for sliding window, its
  window and its bytes per token.  The ratio is a rational number; \<open>int\<close> truncates it.  The window
  of the first sliding group is looked up in two ways: one asserts that there is a group, the
  other takes \<open>next\<close> of an empty generator; \<open>sc_window\<close> takes the exception as an argument.
\<close>

record swa_config =
  sc_page_size :: nat
  sc_swa_radix :: bool
  sc_groups :: "(bool \<times> nat \<times> nat) list"
  sc_max_running :: nat
  sc_max_forward :: nat
  sc_ratio :: rat
  sc_override :: "nat option"
  sc_interval :: nat
  sc_retain_gap :: nat
  sc_special_ckpt :: bool

definition sc_window :: "py_error \<Rightarrow> swa_config \<Rightarrow> nat res" where
  "sc_window e c = (case find fst (sc_groups c) of Some (_, w, _) \<Rightarrow> Inr w | None \<Rightarrow> Inl e)"

definition naive_swa_num_tokens :: "swa_config \<Rightarrow> nat res" where
  "naive_swa_num_tokens c = res_bind (sc_window AssertionError c) (\<lambda>w.
     Inr ((sc_max_running c + 1) * align_ceil (w + sc_max_forward c + 1) 32))"

definition swa_per_req_swa_floor :: "swa_config \<Rightarrow> nat res" where
  "swa_per_req_swa_floor c = res_bind (sc_window StopIteration c) (\<lambda>w.
     let ps = sc_page_size c;
         locked = ((w + sc_retain_gap c + ps - 1) div ps) * ps;
         floor = locked + w + sc_interval c + 2 * ps
     in Inr (if sc_special_ckpt c then floor + w + sc_retain_gap c + sc_interval c else floor))"

definition swa_pool_floor :: "swa_config \<Rightarrow> nat res" where
  "swa_pool_floor c = res_bind (swa_per_req_swa_floor c) (\<lambda>f. Inr (sc_max_running c * f))"

definition trunc :: "rat \<Rightarrow> nat" where
  "trunc x = nat \<lfloor>x\<rfloor>"

definition swa_paged_num_tokens :: "swa_config \<Rightarrow> nat \<Rightarrow> nat option \<Rightarrow> nat res" where
  "swa_paged_num_tokens c num_full_pages num_swa_pages = res_bind (swa_pool_floor c) (\<lambda>floor.
     case (case num_swa_pages of Some n \<Rightarrow> Some n | None \<Rightarrow> sc_override c) of
       Some n \<Rightarrow> Inr (max floor n + 1)
     | None \<Rightarrow> Inr (max floor (trunc (sc_ratio c * of_nat (num_full_pages * sc_page_size c))) + 1))"

text \<open>Bytes per page and fixed bytes, group by group.\<close>

fun kv_cost_groups :: "swa_config \<Rightarrow> nat option \<Rightarrow> (bool \<times> nat \<times> nat) list \<Rightarrow> nat \<times> nat \<Rightarrow> (nat \<times> nat) res" where
  "kv_cost_groups c pin [] acc = Inr acc"
| "kv_cost_groups c pin ((is_swa, _, bytes) # gs) (page, fixed) =
     (if \<not> is_swa then kv_cost_groups c pin gs (page + bytes * sc_page_size c, fixed)
      else let page1 = page + 8 * sc_page_size c in
        if \<not> sc_swa_radix c
        then res_bind (naive_swa_num_tokens c) (\<lambda>n. kv_cost_groups c pin gs (page1, fixed + bytes * n))
        else res_bind (swa_pool_floor c) (\<lambda>floor.
          case pin of
            Some n \<Rightarrow> kv_cost_groups c pin gs (page1, fixed + bytes * (max floor n + 1))
          | None \<Rightarrow> kv_cost_groups c pin gs
              (page1 + trunc (of_nat (bytes * sc_page_size c) * sc_ratio c), fixed + bytes * floor)))"

definition kv_cost :: "swa_config \<Rightarrow> nat option \<Rightarrow> (nat \<times> nat) res" where
  "kv_cost c num_swa_pages =
     kv_cost_groups c (case num_swa_pages of Some n \<Rightarrow> Some n | None \<Rightarrow> sc_override c) (sc_groups c) (0, 0)"

definition rebuild_from_config :: "swa_config \<Rightarrow> nat \<Rightarrow> nat option \<Rightarrow> swa_pool \<Rightarrow> swa_pool res" where
  "rebuild_from_config c num_pages num_swa_pages p =
     res_bind (if sc_swa_radix c then swa_paged_num_tokens c (num_pages + 1) num_swa_pages
               else naive_swa_num_tokens c)
       (\<lambda>n. Inr (swa_rebuild (num_pages + 1) (Some n) p))"

section \<open>Properties\<close>

text \<open>
  C16: allocating window slots for full slots that have none and freeing them again gives back the
  mapping and the number of free slots; in between every slot has a positive window slot, and
  no window slot is lost or given twice.  Asking for more than is free raises.
\<close>

theorem swa_alloc_free:
  assumes "swa_ok p" "swa_paged p" "distinct is" "\<forall>i\<in>set is. i < length (full_to_swa p) \<and> full_to_swa p ! i = 0"
  shows "if length is \<le> swa_available_size p
     then \<exists>p1 p2. alloc_swa is p = Inr p1 \<and> free_swa is p1 = Inr p2 \<and> swa_ok p1 \<and> swa_ok p2 \<and>
       swa_available_size p1 = swa_available_size p - length is \<and>
       swa_available_size p2 = swa_available_size p \<and> full_to_swa p2 = full_to_swa p \<and>
       (\<forall>x\<in>set (translate_loc_from_full_to_swa is p1). 0 < x)
     else alloc_swa is p = Inl RuntimeError"
proof (cases "length is \<le> swa_available_size p")
  case False
  then have "is \<noteq> []" by auto
  then show ?thesis using assms(2) False by (simp add: alloc_swa_def swa_available_size_def Let_def)
next
  case True
  obtain p1 where p1: "alloc_swa is p = Inr p1" "swa_ok p1" "swa_paged p1"
    "swa_available_size p1 + length is = swa_available_size p" "length (full_to_swa p1) = length (full_to_swa p)"
    "\<forall>i\<in>set is. 0 < full_to_swa p1 ! i" "\<forall>i. i \<notin> set is \<longrightarrow> full_to_swa p1 ! i = full_to_swa p ! i"
    using alloc_swa_ok[OF assms(1,2) True assms(3,4)] by blast
  have idx: "\<forall>i\<in>set is. i < length (full_to_swa p1)" using assms(4) p1(5) by simp
  obtain p2 where p2: "free_swa is p1 = Inr p2" "swa_ok p2"
    "swa_available_size p2 = swa_available_size p1 + length (filter (\<lambda>i. 0 < full_to_swa p1 ! i) is)"
    "length (full_to_swa p2) = length (full_to_swa p1)" "\<forall>i\<in>set is. full_to_swa p2 ! i = 0"
    "\<forall>i. i \<notin> set is \<longrightarrow> full_to_swa p2 ! i = full_to_swa p1 ! i"
    using free_swa_ok[OF p1(2,3) assms(3) idx] by blast
  have "filter (\<lambda>i. 0 < full_to_swa p1 ! i) is = is" using p1(6) by (simp add: filter_id_conv)
  then have "swa_available_size p2 = swa_available_size p" using p2(3) p1(4) by simp
  moreover have "full_to_swa p2 = full_to_swa p"
  proof (rule nth_equalityI)
    show "length (full_to_swa p2) = length (full_to_swa p)" using p2(4) p1(5) by simp
    fix i
    show "full_to_swa p2 ! i = full_to_swa p ! i"
      using p1(7) p2(5,6) assms(4) by (cases "i \<in> set is") simp_all
  qed
  moreover have "\<forall>x\<in>set (translate_loc_from_full_to_swa is p1). 0 < x"
    using p1(6) by (auto simp: translate_loc_from_full_to_swa_def)
  ultimately show ?thesis using p1(1,2,4) p2(1,2) True by auto
qed

definition demo_swa :: swa_pool where
  "demo_swa = init_swa_paged_state \<lparr>swa_paged = True, swa_free = [], full_to_swa = [], swa_num_tokens = 4,
     full_num_tokens = 6, swa_page_size = 1\<rparr>"

theorem swa_alloc_free_witness:
  "\<exists>p1 p2. alloc_swa [2, 5] demo_swa = Inr p1 \<and> free_swa [2, 5] p1 = Inr p2 \<and>
     swa_available_size p1 = 1 \<and> swa_available_size p2 = 3 \<and> full_to_swa p2 = full_to_swa demo_swa"
proof -
  have a: "swa_available_size demo_swa = 3"
    by (simp add: demo_swa_def init_swa_paged_state_def swa_available_size_def)
  have "swa_ok demo_swa" "swa_paged demo_swa" unfolding demo_swa_def
    by (rule init_swa_ok) (simp add: init_swa_paged_state_def)
  moreover have "\<forall>i\<in>set [2, 5]. i < length (full_to_swa demo_swa) \<and> full_to_swa demo_swa ! i = 0"
    by (simp add: demo_swa_def init_swa_paged_state_def nth_append)
  ultimately show ?thesis using swa_alloc_free[of demo_swa "[2, 5]"] a by auto
qed

text \<open>
  What one running request can pin in the window pool, written out over token positions: the
  pages that touch the trailing window and the retain gap of its committed prefix, and its own
  growth until the next out-of-window pass frees something.
\<close>

definition pinned_by_request :: "swa_config \<Rightarrow> nat \<Rightarrow> nat" where
  "pinned_by_request c w =
     card {p. \<exists>t < w + sc_retain_gap c. p = t div sc_page_size c} * sc_page_size c +
     (w + 2 * sc_page_size c + sc_interval c) +
     (if sc_special_ckpt c then w + sc_retain_gap c + sc_interval c else 0)"

definition window_target :: "swa_config \<Rightarrow> nat \<Rightarrow> nat option \<Rightarrow> nat" where
  "window_target c num_full_pages pin =
     (case pin of Some n \<Rightarrow> n | None \<Rightarrow>
        (case sc_override c of Some n \<Rightarrow> n
         | None \<Rightarrow> trunc (sc_ratio c * of_nat (num_full_pages * sc_page_size c))))"

lemma touched_pages:
  assumes "0 < ps"
  shows "card {p. \<exists>t < n. p = t div ps} = (n + ps - 1) div ps"
proof -
  have "{p. \<exists>t < n. p = t div ps} = {..<(n + ps - 1) div ps}"
  proof (intro set_eqI iffI)
    fix p assume "p \<in> {p. \<exists>t < n. p = t div ps}"
    then obtain t where t: "t < n" "p = t div ps" by blast
    have "(t + ps) div ps \<le> (n + ps - 1) div ps" using t(1) by (intro div_le_mono) simp
    then show "p \<in> {..<(n + ps - 1) div ps}" using assms t(2) by simp
  next
    fix p assume "p \<in> {..<(n + ps - 1) div ps}"
    then have "Suc p \<le> (n + ps - 1) div ps" by simp
    then have "Suc p * ps \<le> n + ps - 1" using assms by (simp add: less_eq_div_iff_mult_less_eq)
    then have "p * ps < n" using assms by simp
    then show "p \<in> {p. \<exists>t < n. p = t div ps}" using assms by (intro CollectI exI[of _ "p * ps"]) simp
  qed
  then show ?thesis by simp
qed

text \<open>
  C17: the pool that \<open>rebuild_from_config\<close> makes has, besides the sentinel slot, exactly as many slots as
  the larger of two numbers.  With the radix cache: what all running requests together can pin,
  so that a full batch always fits, and the target, which is the size asked for, else the configured
  override, else the ratio of the full pool.  Without it: a window buffer for every running
  request and one more.  A model without a sliding group raises, and the new state is consistent.
\<close>

theorem swa_rebuild_room:
  assumes "swa_paged p" "0 < sc_page_size c"
  shows "case find fst (sc_groups c) of
      None \<Rightarrow> rebuild_from_config c num_pages pin p = Inl (if sc_swa_radix c then StopIteration else AssertionError)
    | Some (sliding, w, b) \<Rightarrow>
        \<exists>p'. rebuild_from_config c num_pages pin p = Inr p' \<and> swa_ok p' \<and>
          length (full_to_swa p') = (num_pages + 2) * swa_page_size p + 1 \<and>
          swa_available_size p' =
            (if sc_swa_radix c
             then max (sc_max_running c * pinned_by_request c w) (window_target c (num_pages + 1) pin)
             else (sc_max_running c + 1) * align_ceil (w + sc_max_forward c + 1) 32 - 1)"
proof (cases "find fst (sc_groups c)")
  case None
  then show ?thesis
    by (simp add: rebuild_from_config_def swa_paged_num_tokens_def swa_pool_floor_def swa_per_req_swa_floor_def
        naive_swa_num_tokens_def sc_window_def)
next
  case (Some g)
  obtain sl w b where g: "g = (sl, w, b)" using prod_cases3 by blast
  have win: "sc_window e c = Inr w" for e using Some by (simp add: sc_window_def g)
  have floor: "swa_per_req_swa_floor c = Inr (pinned_by_request c w)"
    using touched_pages[OF assms(2), of "w + sc_retain_gap c"]
    by (simp add: swa_per_req_swa_floor_def win pinned_by_request_def Let_def)
  define n where "n = (if sc_swa_radix c
      then max (sc_max_running c * pinned_by_request c w) (window_target c (num_pages + 1) pin) + 1
      else (sc_max_running c + 1) * align_ceil (w + sc_max_forward c + 1) 32)"
  have run: "rebuild_from_config c num_pages pin p = Inr (swa_rebuild (num_pages + 1) (Some n) p)"
    unfolding rebuild_from_config_def swa_paged_num_tokens_def swa_pool_floor_def floor naive_swa_num_tokens_def win n_def
    by (simp add: window_target_def split: option.split)
  let ?p = "swa_rebuild (num_pages + 1) (Some n) p"
  have p': "?p = init_swa_paged_state (p\<lparr>full_num_tokens := (num_pages + 1) * swa_page_size p, swa_num_tokens := n\<rparr>)"
    using assms(1) by (simp add: swa_rebuild_def Let_def)
  have "swa_ok ?p" "swa_available_size ?p = n - 1" "length (full_to_swa ?p) = (num_pages + 2) * swa_page_size p + 1"
    unfolding p' by (rule init_swa_ok) (simp_all add: swa_available_size_def init_swa_paged_state_def)
  then show ?thesis using run unfolding Some g by (simp add: n_def)
qed

definition demo_swa_config :: swa_config where
  "demo_swa_config = \<lparr>sc_page_size = 1, sc_swa_radix = True, sc_groups = [(False, 0, 64), (True, 8, 32)],
     sc_max_running = 2, sc_max_forward = 32, sc_ratio = 1 / 2, sc_override = None, sc_interval = 4,
     sc_retain_gap = 1, sc_special_ckpt = False\<rparr>"

theorem swa_rebuild_room_witness:
  "\<exists>p'. rebuild_from_config demo_swa_config 20 None demo_swa = Inr p' \<and> swa_available_size p' = 46"
proof -
  have fl: "\<lfloor>21 / 2 :: rat\<rfloor> = 10" by (simp add: floor_eq_iff)
  have "swa_paged demo_swa" "0 < sc_page_size demo_swa_config"
    by (simp_all add: demo_swa_config_def demo_swa_def init_swa_paged_state_def)
  moreover have "pinned_by_request demo_swa_config 8 = 23" "window_target demo_swa_config 21 None = 10"
    using touched_pages[of 1 9] by (simp_all add: pinned_by_request_def window_target_def demo_swa_config_def trunc_def fl)
  moreover have "find fst (sc_groups demo_swa_config) = Some (True, 8, 32)" "sc_swa_radix demo_swa_config"
    "sc_max_running demo_swa_config = 2"
    by (simp_all add: demo_swa_config_def)
  ultimately show ?thesis using swa_rebuild_room[of demo_swa demo_swa_config 20 None] by auto
qed

end
