(* ===== verification/CacheManager.thy ===== *)
theory CacheManager
  imports PrefixCache Request SwaPool
begin

text \<open>
  \<open>CacheManager\<close> of \<open>runtime/scheduler/cache.py\<close> with a prefix cache that is used through
  the methods of \<open>BasePrefixCache\<close> (cache types \<open>radix\<close> and \<open>naive\<close>, the latter also with a
  sliding-window pool): the free pages, the page table, allocation with eviction, committing a
  request to the cache, returning its pages, the integrity check, rebuilding, and the region in
  which frees are deferred.  \<open>exact_endpoints\<close> is absent with these cache types.

  A page is named by its first slot.  A row of the page table is a list of slots.
\<close>

section \<open>State\<close>

record 'c cman =
  free_slots :: "slot list"
  pcache :: 'c
  num_pages :: nat
  page_size :: nat
  page_table :: "nat \<Rightarrow> slot list"
  swa :: "swa_pool option"
  lazy_free_list :: "slot list list option"

definition cm_init ::
  "nat \<Rightarrow> nat \<Rightarrow> (nat \<Rightarrow> slot list) \<Rightarrow> swa_pool option \<Rightarrow> 'c \<Rightarrow> 'c cman" where
  "cm_init n_pages ps table sp cache =
     \<lparr>free_slots = map (\<lambda>i. i * ps) [0..<n_pages], pcache = cache, num_pages = n_pages,
      page_size = ps, page_table = table, swa = sp, lazy_free_list = None\<rparr>"

definition cm_swa_paged :: "('c, 'x) cman_scheme \<Rightarrow> bool" where
  "cm_swa_paged s = (case swa s of Some p \<Rightarrow> swa_paged p | None \<Rightarrow> False)"

definition with_cache :: "'c res \<Rightarrow> ('c, 'x) cman_scheme \<Rightarrow> ('c, 'x) cman_scheme res" where
  "with_cache r s = res_bind r (\<lambda>c. Inr (s\<lparr>pcache := c\<rparr>))"

definition with_swa :: "(swa_pool \<Rightarrow> swa_pool res) \<Rightarrow> ('c, 'x) cman_scheme \<Rightarrow> ('c, 'x) cman_scheme res" where
  "with_swa f s = (case swa s of None \<Rightarrow> Inr s | Some p \<Rightarrow> res_bind (f p) (\<lambda>p'. Inr (s\<lparr>swa := Some p'\<rparr>)))"

section \<open>Operations\<close>

definition cm_available_size :: "('c, 'h) cache_ops \<Rightarrow> 'c cman \<Rightarrow> int" where
  "cm_available_size ops s =
     fst (op_size_info ops (pcache s)) + int (length (free_slots s) * page_size s)"

definition page_usage :: "('c, 'h) cache_ops \<Rightarrow> 'c cman \<Rightarrow> int \<times> int" where
  "page_usage ops s =
     (int (num_pages s) - int (length (free_slots s)) -
        fst (op_size_info ops (pcache s)) div int (page_size s),
      int (num_pages s))"

definition match_req ::
  "('c, 'h) cache_ops \<Rightarrow> int \<Rightarrow> token list \<Rightarrow> bool \<Rightarrow> 'c cman \<Rightarrow> ('h \<times> 'c cman) res" where
  "match_req ops tic ids mm s =
     res_bind (py_assert (0 < length ids)) (\<lambda>_.
     res_bind (op_match ops tic (if mm then [] else take (length ids - 1) ids) (pcache s)) (\<lambda>(h, c).
       Inr (h, s\<lparr>pcache := c\<rparr>)))"

definition cm_lock :: "('c, 'h) cache_ops \<Rightarrow> 'h \<Rightarrow> 'c cman \<Rightarrow> 'c cman res" where
  "cm_lock ops h s = with_cache (op_lock ops h False (pcache s)) s"

definition cm_unlock :: "('c, 'h) cache_ops \<Rightarrow> 'h \<Rightarrow> 'c cman \<Rightarrow> 'c cman res" where
  "cm_unlock ops h s = with_cache (op_lock ops h True (pcache s)) s"

definition cm_free_swa :: "slot list \<Rightarrow> ('c, 'x) cman_scheme \<Rightarrow> ('c, 'x) cman_scheme res" where
  "cm_free_swa inds s = (if inds = [] then Inr s else with_swa (free_swa inds) s)"

definition cm_free :: "slot list \<Rightarrow> ('c, 'x) cman_scheme \<Rightarrow> ('c, 'x) cman_scheme" where
  "cm_free inds s =
     (case lazy_free_list s of
        Some l \<Rightarrow> s\<lparr>lazy_free_list := Some (l @ [stride (page_size s) inds])\<rparr>
      | None \<Rightarrow> if inds = [] then s
                else s\<lparr>free_slots := free_slots s @ stride (page_size s) inds\<rparr>)"

definition lazy_free_enter :: "('c, 'x) cman_scheme \<Rightarrow> ('c, 'x) cman_scheme" where
  "lazy_free_enter s = s\<lparr>lazy_free_list := Some []\<rparr>"

definition lazy_free_exit :: "('c, 'x) cman_scheme \<Rightarrow> ('c, 'x) cman_scheme" where
  "lazy_free_exit s =
     s\<lparr>lazy_free_list := None,
       free_slots := free_slots s @ concat (case lazy_free_list s of Some l \<Rightarrow> l | None \<Rightarrow> [])\<rparr>"

definition cm_allocate ::
  "('c, 'h) cache_ops \<Rightarrow> nat \<Rightarrow> 'c cman \<Rightarrow> (slot list \<times> 'c cman) res" where
  "cm_allocate ops needed s =
     res_bind
       (if length (free_slots s) < needed then
          res_bind (op_evict ops (int ((needed - length (free_slots s)) * page_size s)) (pcache s))
            (\<lambda>(evicted, c).
              let s1 = s\<lparr>pcache := c, free_slots := free_slots s @ stride (page_size s) evicted\<rparr> in
              res_bind (py_assert (needed \<le> length (free_slots s1))) (\<lambda>_. Inr s1))
        else Inr s)
       (\<lambda>s1. Inr (take needed (free_slots s1), s1\<lparr>free_slots := drop needed (free_slots s1)\<rparr>))"

text \<open>
  \<open>_write_page_table\<close>: the entries of \<open>info\<close> are a row, its first page and the page after its
  last.  \<open>put xs pos vs\<close> is \<open>xs[pos : pos + len(vs)] = vs\<close> within the row.
\<close>

definition put :: "'a list \<Rightarrow> nat \<Rightarrow> 'a list \<Rightarrow> 'a list" where
  "put xs pos vs = take pos xs @ vs @ drop (pos + length vs) xs"

fun write_rows ::
  "nat \<Rightarrow> (nat \<times> nat \<times> nat) list \<Rightarrow> slot list \<Rightarrow> (nat \<Rightarrow> slot list) \<Rightarrow> (nat \<Rightarrow> slot list)" where
  "write_rows ps [] alloc table = table"
| "write_rows ps ((t, first, stop) # info) alloc table =
     (let n = stop * ps - first * ps
      in write_rows ps info (drop n alloc)
           (table(t := put (table t) (first * ps) (take n alloc))))"

definition write_page_table ::
  "(nat \<Rightarrow> slot list) \<Rightarrow> slot list \<Rightarrow> (nat \<times> nat \<times> nat) list \<Rightarrow> nat \<Rightarrow> (nat \<Rightarrow> slot list) res" where
  "write_page_table table alloc info ps =
     res_bind (py_assert (sum_list (map (\<lambda>(t, first, stop). stop * ps - first * ps) info) = length alloc)) (\<lambda>_.
       if \<exists>(t, first, stop) \<in> set info. length (table t) < stop * ps then Inl IndexError
       else Inr (write_rows ps info alloc table))"

definition page_span :: "nat \<Rightarrow> 'h req \<Rightarrow> nat \<times> nat" where
  "page_span ps r = (div_ceil (max (r_cached_len r) (r_allocated_len r)) ps, div_ceil (r_device_len r) ps)"

definition note_allocated :: "'h req \<Rightarrow> 'h req" where
  "note_allocated r = r\<lparr>r_allocated_len := max (r_allocated_len r) (r_device_len r)\<rparr>"

definition allocation_info :: "nat \<Rightarrow> 'h req list \<Rightarrow> (nat \<times> nat \<times> nat) list" where
  "allocation_info ps reqs =
     map (\<lambda>r. (r_table_idx r, page_span ps r)) (filter (\<lambda>r. fst (page_span ps r) < snd (page_span ps r)) reqs)"

definition needed_pages :: "nat \<Rightarrow> 'h req list \<Rightarrow> nat" where
  "needed_pages ps reqs = sum_list (map (\<lambda>(t, first, stop). stop - first) (allocation_info ps reqs))"

definition allocate_paged ::
  "('c, 'h) cache_ops \<Rightarrow> 'h req list \<Rightarrow> 'c cman \<Rightarrow> ('h req list \<times> 'c cman) res" where
  "allocate_paged ops reqs s =
     (let ps = page_size s; info = allocation_info ps reqs; needed = needed_pages ps reqs in
      res_bind
        (if 0 < needed then
           res_bind (cm_allocate ops needed s) (\<lambda>(pages, s1).
             let allocated = page_to_token ps pages in
             res_bind (if cm_swa_paged s1 then with_swa (alloc_swa allocated) s1 else Inr s1) (\<lambda>s2.
             res_bind (write_page_table (page_table s2) allocated info ps) (\<lambda>table.
               Inr (s2\<lparr>page_table := table\<rparr>))))
         else Inr s)
        (\<lambda>s1. Inr (map note_allocated reqs, s1)))"

definition owned_end :: "nat \<Rightarrow> 'h req \<Rightarrow> nat" where
  "owned_end ps r = div_ceil (max (r_cached_len r) (r_allocated_len r)) ps * ps"

definition padded_tail :: "'h req \<Rightarrow> nat \<Rightarrow> ('c, 'x) cman_scheme \<Rightarrow> slot list" where
  "padded_tail r start s =
     drop start (take (owned_end (page_size s) r) (page_table s (r_table_idx r)))"

text \<open>Returning slots to both pools, as the code does when \<open>swa_paged\<close> holds.\<close>

definition free_both :: "slot list \<Rightarrow> ('c, 'x) cman_scheme \<Rightarrow> ('c, 'x) cman_scheme res" where
  "free_both inds s =
     res_bind (if cm_swa_paged s then cm_free_swa inds s else Inr s) (\<lambda>s1. Inr (cm_free inds s1))"

definition slice :: "nat \<Rightarrow> nat \<Rightarrow> 'a list \<Rightarrow> 'a list" where
  "slice a b xs = drop a (take b xs)"

definition cache_req ::
  "('c, 'h) cache_ops \<Rightarrow> int \<Rightarrow> int \<Rightarrow> 'h req \<Rightarrow> bool \<Rightarrow> 'c cman \<Rightarrow> ('h req \<times> 'c cman) res" where
  "cache_req ops tic tic' r finished s =
     (let t = r_table_idx r; page_indices = take (r_cached_len r) (page_table s t);
          old = r_handle r; old_len = op_cached_len ops old in
      if r_mm r then
        res_bind (cm_unlock ops old s) (\<lambda>s1.
          if finished
          then res_bind (free_both (padded_tail r old_len s1) s1) (\<lambda>s2. Inr (r, s2))
          else Inr (r, s1))
      else
        res_bind (op_insert ops tic tic' (take (r_cached_len r) (r_input_ids r)) page_indices (pcache s))
          (\<lambda>(cached_len, new, c).
          let s1 = s\<lparr>pcache := c\<rparr>; new_len = op_cached_len ops new in
          res_bind (cm_unlock ops old s1) (\<lambda>s2.
          res_bind (free_both (slice old_len cached_len page_indices) s2) (\<lambda>s3.
            if finished then
              res_bind (free_both (padded_tail r new_len s3) s3) (\<lambda>s4. Inr (r, s4))
            else
              res_bind (if old_len < cached_len
                        then res_bind (op_indices ops new (pcache s3)) (\<lambda>canonical.
                               Inr (s3\<lparr>page_table := (page_table s3)
                                 (t := put (page_table s3 t) old_len (slice old_len cached_len canonical))\<rparr>))
                        else Inr s3) (\<lambda>s4.
              res_bind (cm_lock ops new s4) (\<lambda>s5. Inr (r\<lparr>r_handle := new\<rparr>, s5)))))))"

definition cm_check_integrity :: "('c, 'h) cache_ops \<Rightarrow> 'c cman \<Rightarrow> unit res" where
  "cm_check_integrity ops s =
     (let (e, p) = op_size_info ops (pcache s); cache_pages = (e + p) div int (page_size s) in
      if int (length (free_slots s)) + cache_pages \<noteq> int (num_pages s) then Inl RuntimeError
      else if 1 < page_size s
           then py_assert (\<forall>x\<in>set (free_slots s). x mod page_size s = 0)
           else Inr ())"

definition cm_rebuild :: "nat \<Rightarrow> (nat \<Rightarrow> slot list) \<Rightarrow> 'c \<Rightarrow> 'c cman \<Rightarrow> 'c cman" where
  "cm_rebuild n_pages table fresh s =
     s\<lparr>num_pages := n_pages, page_table := table,
       free_slots := map (\<lambda>i. i * page_size s) [0..<n_pages], pcache := fresh\<rparr>"

end
