(* ===== verification/Managers.thy ===== *)
theory Managers
  imports Request
begin

text \<open>
  \<open>TableManager\<close> (\<open>runtime/scheduler/table.py\<close>), the rows of the page table, and
  \<open>DecodeManager\<close> (\<open>runtime/scheduler/decode.py\<close>), the requests that decode.  The set of
  running requests is a list without two requests of the same uid; its order is not
  observable, since the batch is sorted.
\<close>

section \<open>Page-table rows\<close>

record table_man =
  max_running_reqs :: nat
  tm_free :: "nat list"
  token_pool :: "nat \<Rightarrow> token list"

definition table_init :: "nat \<Rightarrow> nat \<Rightarrow> table_man" where
  "table_init n width = \<lparr>max_running_reqs = n, tm_free = [0..<n],
     token_pool = (\<lambda>_. replicate width 0)\<rparr>"

definition tm_available :: "table_man \<Rightarrow> nat" where
  "tm_available t = length (tm_free t)"

definition tm_allocate :: "table_man \<Rightarrow> (nat \<times> table_man) res" where
  "tm_allocate t = (if tm_free t = [] then Inl IndexError
     else Inr (last (tm_free t), t\<lparr>tm_free := butlast (tm_free t)\<rparr>))"

definition tm_release :: "nat \<Rightarrow> table_man \<Rightarrow> table_man" where
  "tm_release slot t = t\<lparr>tm_free := tm_free t @ [slot]\<rparr>"

definition tm_rebuild :: "nat \<Rightarrow> table_man \<Rightarrow> table_man" where
  "tm_rebuild width t = t\<lparr>token_pool := (\<lambda>_. replicate width 0), tm_free := [0..<max_running_reqs t]\<rparr>"

text \<open>The free rows and the rows \<open>U\<close> in use are all the rows, each once.\<close>

definition table_ok :: "table_man \<Rightarrow> nat set \<Rightarrow> bool" where
  "table_ok t U \<longleftrightarrow> distinct (tm_free t) \<and> finite U \<and> set (tm_free t) \<inter> U = {} \<and>
     set (tm_free t) \<union> U = {..<max_running_reqs t}"

lemma table_init_ok: "table_ok (table_init n w) {}"
  by (auto simp: table_ok_def table_init_def)

lemma tm_rebuild_ok: "table_ok (tm_rebuild w t) {}"
  by (auto simp: table_ok_def tm_rebuild_def)

lemma tm_allocate_ok:
  assumes "table_ok t U" "card U < max_running_reqs t"
  shows "\<exists>i t'. tm_allocate t = Inr (i, t') \<and> i \<notin> U \<and> i < max_running_reqs t \<and> table_ok t' (insert i U) \<and>
     max_running_reqs t' = max_running_reqs t \<and> token_pool t' = token_pool t"
proof (cases "tm_free t" rule: rev_cases)
  case Nil
  then have "U = {..<max_running_reqs t}" using assms(1) by (simp add: table_ok_def)
  then show ?thesis using assms(2) by simp
next
  case (snoc xs x)
  then show ?thesis using assms(1) by (auto simp: tm_allocate_def table_ok_def)
qed

lemma tm_release_ok:
  "table_ok t U \<Longrightarrow> i \<in> U \<Longrightarrow> table_ok (tm_release i t) (U - {i})"
  by (auto simp: table_ok_def tm_release_def)

lemma tm_available_ok: "table_ok t U \<Longrightarrow> tm_available t = max_running_reqs t - card U"
proof -
  assume t: "table_ok t U"
  have "card (set (tm_free t) \<union> U) = card (set (tm_free t)) + card U"
    using t by (intro card_Un_disjoint) (auto simp: table_ok_def)
  then show ?thesis using t by (simp add: table_ok_def tm_available_def distinct_card)
qed

section \<open>Running requests\<close>

record 'h decode_man =
  dm_page_size :: nat
  running_reqs :: "'h req list"

text \<open>
  \<open>self.running_reqs.union(reqs)\<close>: the objects in \<open>reqs\<close> are the current versions of the
  requests they share a uid with.
\<close>

definition union_reqs :: "'h req list \<Rightarrow> 'h req list \<Rightarrow> 'h req list" where
  "union_reqs run reqs = filter (\<lambda>r. r_uid r \<notin> r_uid ` set reqs) run @ reqs"

definition filter_reqs :: "'h req list \<Rightarrow> 'h decode_man \<Rightarrow> 'h decode_man" where
  "filter_reqs reqs d = d\<lparr>running_reqs := filter can_decode (union_reqs (running_reqs d) reqs)\<rparr>"

definition remove_req :: "'h req \<Rightarrow> 'h decode_man \<Rightarrow> 'h decode_man" where
  "remove_req r d = d\<lparr>running_reqs := filter (\<lambda>x. r_uid x \<noteq> r_uid r) (running_reqs d)\<rparr>"

definition dm_abort_req :: "int \<Rightarrow> 'h decode_man \<Rightarrow> 'h req option \<times> 'h decode_man" where
  "dm_abort_req uid d =
     (case find (\<lambda>r. r_uid r = uid) (running_reqs d) of
        None \<Rightarrow> (None, d)
      | Some r \<Rightarrow> (Some r, remove_req r d))"

definition inflight_tokens :: "'h decode_man \<Rightarrow> int" where
  "inflight_tokens d =
     sum_list (map remain_len (running_reqs d)) +
     (int (dm_page_size d) - 1) * int (length (running_reqs d))"

definition dm_runnable :: "'h decode_man \<Rightarrow> bool" where
  "dm_runnable d \<longleftrightarrow> 0 < length (running_reqs d)"

definition dm_schedule_next_batch :: "'h decode_man \<Rightarrow> 'h batch option" where
  "dm_schedule_next_batch d =
     (if dm_runnable d then Some (mk_batch (sort_key r_uid (running_reqs d)) Decode) else None)"

definition decode_ok :: "'h decode_man \<Rightarrow> bool" where
  "decode_ok d \<longleftrightarrow> distinct (map r_uid (running_reqs d)) \<and> (\<forall>r\<in>set (running_reqs d). can_decode r)"

lemma filter_reqs_ok:
  assumes "decode_ok d" "distinct (map r_uid reqs)"
  shows "decode_ok (filter_reqs reqs d)"
proof -
  have "distinct (map r_uid (union_reqs (running_reqs d) reqs))"
    using assms by (auto simp: decode_ok_def union_reqs_def distinct_map inj_on_def)
  then show ?thesis by (auto simp: decode_ok_def filter_reqs_def distinct_map_filter)
qed

lemma remove_req_ok: "decode_ok d \<Longrightarrow> decode_ok (remove_req r d)"
  by (auto simp: decode_ok_def remove_req_def distinct_map_filter)

lemma dm_abort_ok:
  "decode_ok d \<Longrightarrow> dm_abort_req uid d = (o', d') \<Longrightarrow>
   decode_ok d' \<and> uid \<notin> r_uid ` set (running_reqs d') \<and>
   (o' = None \<longleftrightarrow> uid \<notin> r_uid ` set (running_reqs d))"
  by (auto simp: dm_abort_req_def decode_ok_def remove_req_def distinct_map_filter find_None_iff
      find_Some_iff split: option.splits)

section \<open>Properties\<close>

text \<open>
  C18: after a batch, a request runs on exactly if it can decode and it was in the batch or ran before,
  in the version the batch left behind when it was in it; each runs once.  The next decode batch
  has exactly these, in order of their uid, and there is no batch exactly when there are none.
  Aborting a uid takes out that request and no other.
\<close>

theorem decode_batch:
  assumes "decode_ok d" "distinct (map r_uid reqs)"
  shows "decode_ok (filter_reqs reqs d) \<and>
     (\<forall>r. r \<in> set (running_reqs (filter_reqs reqs d)) \<longleftrightarrow>
        can_decode r \<and> (r \<in> set reqs \<or> r \<in> set (running_reqs d) \<and> r_uid r \<notin> r_uid ` set reqs)) \<and>
     (case dm_schedule_next_batch (filter_reqs reqs d) of
        None \<Rightarrow> running_reqs (filter_reqs reqs d) = []
      | Some b \<Rightarrow> mset (b_reqs b) = mset (running_reqs (filter_reqs reqs d)) \<and> is_decode b \<and>
          sorted_wrt (<) (map r_uid (b_reqs b)) \<and> b_reqs b \<noteq> []) \<and>
     (\<forall>uid. set (running_reqs (snd (dm_abort_req uid (filter_reqs reqs d)))) =
        {r \<in> set (running_reqs (filter_reqs reqs d)). r_uid r \<noteq> uid})"
proof -
  let ?d = "filter_reqs reqs d"
  have ok: "decode_ok ?d" by (rule filter_reqs_ok[OF assms])
  have "\<forall>r. r \<in> set (running_reqs ?d) \<longleftrightarrow>
      can_decode r \<and> (r \<in> set reqs \<or> r \<in> set (running_reqs d) \<and> r_uid r \<notin> r_uid ` set reqs)"
    by (auto simp: filter_reqs_def union_reqs_def)
  moreover have "sorted_wrt (<) (map r_uid (sort_key r_uid (running_reqs ?d)))"
  proof -
    have "distinct (map r_uid (sort_key r_uid (running_reqs ?d)))"
      using ok by (simp add: decode_ok_def distinct_map)
    then show ?thesis by (simp add: strict_sorted_iff)
  qed
  moreover have "sort_key r_uid (running_reqs ?d) \<noteq> []" if "dm_runnable ?d"
    using that by (metis dm_runnable_def length_greater_0_conv length_sort)
  moreover have "set (running_reqs (snd (dm_abort_req uid ?d))) = {r \<in> set (running_reqs ?d). r_uid r \<noteq> uid}" for uid
    by (auto simp: dm_abort_req_def remove_req_def find_None_iff find_Some_iff split: option.split)
  ultimately show ?thesis
    using ok by (auto simp: dm_schedule_next_batch_def mk_batch_def is_decode_def dm_runnable_def)
qed

definition demo_running :: "int \<Rightarrow> unit req" where
  "demo_running uid = projr (mk_req False [1, 2] 0 0 3 uid () default_sampling False)"

theorem decode_batch_witness:
  "\<exists>b. dm_schedule_next_batch (filter_reqs [demo_running 7, demo_running 3]
       \<lparr>dm_page_size = 1, running_reqs = [demo_running 5]\<rparr>) = Some b \<and>
     mset (b_reqs b) = {#demo_running 3, demo_running 5, demo_running 7#}"
proof -
  let ?d = "\<lparr>dm_page_size = 1, running_reqs = [demo_running 5]\<rparr>"
  have u: "r_uid (demo_running n) = n" "can_decode (demo_running n)" for n
    by (simp_all add: demo_running_def mk_req_def can_decode_def remain_len_def)
  have r: "running_reqs (filter_reqs [demo_running 7, demo_running 3] ?d) = [demo_running 5, demo_running 7, demo_running 3]"
    by (simp add: filter_reqs_def union_reqs_def u)
  have "decode_ok ?d" "distinct (map r_uid [demo_running 7, demo_running 3])" by (simp_all add: decode_ok_def u)
  from decode_batch[OF this] show ?thesis unfolding r by (auto simp: add_mset_commute split: option.splits)
qed

text \<open>
  C19: page-table rows are handed out once: while a row is free one is returned that is not in use,
  releasing it gives the same set of rows back, and when all rows are in use the allocation raises.
\<close>

theorem table_rows:
  assumes "table_ok t U"
  shows "if card U < max_running_reqs t
     then \<exists>i t'. tm_allocate t = Inr (i, t') \<and> i \<notin> U \<and> i < max_running_reqs t \<and> table_ok t' (insert i U) \<and>
       table_ok (tm_release i t') U \<and> tm_available t' + 1 = tm_available t
     else tm_allocate t = Inl IndexError"
proof (cases "card U < max_running_reqs t")
  case True
  obtain i t' where t': "tm_allocate t = Inr (i, t')" "i \<notin> U" "i < max_running_reqs t" "table_ok t' (insert i U)"
    "max_running_reqs t' = max_running_reqs t" using tm_allocate_ok[OF assms True] by blast
  moreover have "table_ok (tm_release i t') U" using tm_release_ok[OF t'(4), of i] t'(2) by simp
  moreover have "tm_available t' + 1 = tm_available t"
    using tm_available_ok[OF t'(4)] tm_available_ok[OF assms] t'(2,5) True assms by (simp add: table_ok_def)
  ultimately show ?thesis using True by auto
next
  case False
  then have "tm_available t = 0" using tm_available_ok[OF assms] by simp
  then show ?thesis using False by (simp add: tm_available_def tm_allocate_def)
qed

theorem table_rows_witness:
  "\<exists>i t'. tm_allocate (table_init 2 8) = Inr (i, t') \<and> table_ok t' {i}"
  using table_rows[OF table_init_ok[of 2 8]] by (auto simp: table_init_def)

end
