(* ===== verification/Prefill.thy ===== *)
theory Prefill
  imports CacheManager Managers
begin

text \<open>
  \<open>PrefillAdder\<close> and \<open>PrefillManager\<close> of \<open>runtime/scheduler/prefill.py\<close> with \<open>PendingReq\<close> of
  \<open>runtime/scheduler/utils.py\<close>: admission of pending requests against the token budget, the free
  pages, the recurrent-state slots and the sliding-window slots, chunking of long prompts, and
  abort.  The cache manager is used through the record \<open>admission\<close>.  \<open>exact_endpoints\<close> and
  \<open>prefix_retention\<close> are absent, as they are unless exact checkpoints are configured; the branches
  they guard are outside the model.
\<close>

section \<open>The cache manager as the adder uses it\<close>

record ('m, 'h) admission =
  ad_page_size :: "'m \<Rightarrow> nat"
  ad_available :: "'m \<Rightarrow> int"
  ad_match :: "int \<Rightarrow> token list \<Rightarrow> bool \<Rightarrow> 'm \<Rightarrow> ('h \<times> nat option \<times> 'm) res"
  ad_lock :: "'h \<Rightarrow> 'm \<Rightarrow> 'm res"
  ad_unlock :: "'h \<Rightarrow> 'm \<Rightarrow> 'm res"
  ad_cached_len :: "'h \<Rightarrow> nat"
  ad_matched :: "'h \<Rightarrow> 'm \<Rightarrow> slot list res"
  ad_row :: "nat \<Rightarrow> 'm \<Rightarrow> slot list"
  ad_set_row :: "nat \<Rightarrow> slot list \<Rightarrow> 'm \<Rightarrow> 'm"
  ad_is_hybrid :: bool
  ad_free_states :: "'m \<Rightarrow> nat"
  ad_ensure_states :: "nat \<Rightarrow> 'm \<Rightarrow> 'm res"
  ad_alloc_states :: "nat \<Rightarrow> 'm \<Rightarrow> (nat list \<times> 'm) res"
  ad_release_states :: "nat list \<Rightarrow> 'm \<Rightarrow> 'm"
  ad_swa_paged :: "'m \<Rightarrow> bool"
  ad_window :: "'m \<Rightarrow> nat"
  ad_swa_available :: "'m \<Rightarrow> int"

text \<open>The plain cache manager.\<close>

definition plain_admission :: "nat \<Rightarrow> ('c, 'h) cache_ops \<Rightarrow> ('c cman, 'h) admission" where
  "plain_admission window ops =
     \<lparr>ad_page_size = page_size, ad_available = cm_available_size ops,
      ad_match = (\<lambda>tic ids mm s. res_bind (match_req ops tic ids mm s) (\<lambda>(h, s1). Inr (h, None, s1))),
      ad_lock = cm_lock ops, ad_unlock = cm_unlock ops, ad_cached_len = op_cached_len ops,
      ad_matched = (\<lambda>h s. op_indices ops h (pcache s)),
      ad_row = (\<lambda>t s. page_table s t),
      ad_set_row = (\<lambda>t row s. s\<lparr>page_table := (page_table s)(t := row)\<rparr>),
      ad_is_hybrid = False, ad_free_states = (\<lambda>s. 0), ad_ensure_states = (\<lambda>n s. Inr s),
      ad_alloc_states = (\<lambda>n s. Inl RuntimeError), ad_release_states = (\<lambda>l s. s),
      ad_swa_paged = cm_swa_paged, ad_window = (\<lambda>s. window),
      ad_swa_available = (\<lambda>s. case swa s of Some p \<Rightarrow> int (swa_available_size p) | None \<Rightarrow> 0)\<rparr>"

section \<open>Pending requests\<close>

record 'h pending =
  p_uid :: int
  p_input_ids :: "token list"
  p_sampling :: sampling_params
  p_chunked :: "'h req option"
  p_mm :: bool
  p_endpoints :: "nat list"

definition input_len :: "'h pending \<Rightarrow> nat" where
  "input_len p = length (p_input_ids p)"

definition output_len :: "'h pending \<Rightarrow> int" where
  "output_len p = max_tokens (p_sampling p)"

record adder =
  token_budget :: int
  reserved_size :: int
  reserved_swa :: int
  initial_token_budget :: int

definition mk_adder :: "int \<Rightarrow> int \<Rightarrow> adder" where
  "mk_adder budget reserved = \<lparr>token_budget = budget, reserved_size = reserved, reserved_swa = 0,
     initial_token_budget = budget\<rparr>"

section \<open>Admission\<close>

definition reservation :: "'h pending \<Rightarrow> nat \<Rightarrow> int" where
  "reservation p cached = int (input_len p) - int cached + output_len p"

text \<open>\<open>xs[a : a + len(vs)].copy_(vs)\<close>, which raises when the row is too short.\<close>

definition copy_into :: "nat \<Rightarrow> 'a list \<Rightarrow> 'a list \<Rightarrow> 'a list res" where
  "copy_into pos vs xs = (if pos + length vs \<le> length xs then Inr (put xs pos vs) else Inl RuntimeError)"

definition set_tokens :: "nat \<Rightarrow> nat \<Rightarrow> token list \<Rightarrow> table_man \<Rightarrow> table_man res" where
  "set_tokens t pos vs tm =
     res_bind (copy_into pos vs (token_pool tm t)) (\<lambda>row.
       Inr (tm\<lparr>token_pool := (token_pool tm)(t := row)\<rparr>))"

type_synonym 'h resource = "'h \<times> nat \<times> nat option \<times> (nat \<times> nat) option \<times> nat option"

definition try_allocate_one ::
  "('m, 'h) admission \<Rightarrow> int \<Rightarrow> 'h pending \<Rightarrow> adder \<Rightarrow> 'm \<Rightarrow> table_man \<Rightarrow>
   ('h resource option \<times> 'm \<times> table_man) res" where
  "try_allocate_one ad tic p a m tm =
     (if tm_available tm = 0 then Inr (None, m, tm)
      else res_bind (ad_match ad tic (p_input_ids p) (p_mm p) m) (\<lambda>(h, mamba_value, m1).
        let cached = ad_cached_len ad h;
            extend = int (input_len p) - int cached;
            needed = reservation p cached + reserved_size a
        in if ad_available ad m1 < needed then Inr (None, m1, tm)
        else res_bind (ad_lock ad h m1) (\<lambda>m2.
        if ad_available ad m2 < needed
        then res_bind (ad_unlock ad h m2) (\<lambda>m3. Inr (None, m3, tm))
        else res_bind (if ad_is_hybrid ad \<and> ad_free_states ad m2 < 3 then ad_ensure_states ad 3 m2 else Inr m2) (\<lambda>m3.
        if ad_is_hybrid ad \<and> ad_free_states ad m3 < 3
        then res_bind (ad_unlock ad h m3) (\<lambda>m4. Inr (None, m4, tm))
        else
        let ps = int (ad_page_size ad m3);
            need_swa = div_ceil (min (max extend 1) (int (ad_window ad m3)) + 1) ps * ps
        in if ad_swa_paged ad m3 \<and> ad_swa_available ad m3 - reserved_swa a < need_swa
        then res_bind (ad_unlock ad h m3) (\<lambda>m4. Inr (None, m4, tm))
        else
        res_bind (tm_allocate tm) (\<lambda>(t, tm1).
        res_bind (if 0 < cached then set_tokens t 0 (take cached (p_input_ids p)) tm1 else Inr tm1) (\<lambda>tm2.
        res_bind (if 0 < cached
                  then res_bind (ad_matched ad h m3) (\<lambda>matched.
                       res_bind (copy_into (cached - length matched) matched (ad_row ad t m3)) (\<lambda>row.
                         Inr (ad_set_row ad t row m3)))
                  else Inr m3) (\<lambda>m4.
        if ad_is_hybrid ad
        then res_bind (ad_alloc_states ad 1 m4) (\<lambda>(live, m5).
             res_bind (ad_alloc_states ad 2 m5) (\<lambda>(pp, m6).
               Inr (Some (h, t, Some (hd live), Some (pp ! 0, pp ! 1), mamba_value), m6, tm2)))
        else Inr (Some (h, t, None, None, mamba_value), m4, tm2))))))))"

text \<open>
  The length of the next chunk: the budget, the next checkpoint endpoint, and with a
  sliding-window pool the slots that remain there, counting in whole pages.  \<open>None\<close> is the early
  return, when no whole page fits.
\<close>

definition swa_chunk ::
  "('m, 'h) admission \<Rightarrow> 'h \<Rightarrow> nat \<Rightarrow> nat \<Rightarrow> int \<Rightarrow> adder \<Rightarrow> 'm \<Rightarrow> int \<Rightarrow> (int \<times> int) option" where
  "swa_chunk ad h cached evicted remain a m chunk0 =
     (let window = int (ad_window ad m); ps = int (ad_page_size ad m); c = int cached;
          new_evicted = align_down (c - window - ps) ps;
          self_reclaim = max 0 (new_evicted - max (int evicted) (int (ad_cached_len ad h)));
          swa_budget = ad_swa_available ad m + self_reclaim - reserved_swa a;
          max_end = (div_ceil c ps + max swa_budget 0 div ps) * ps;
          chunk1 = min chunk0 (max (max_end - c) 0);
          aligned = align_down (c + chunk1) ps - c
      in if 0 < chunk1 \<and> chunk1 < remain \<and> aligned \<le> 0 then None
         else let chunk = (if 0 < chunk1 \<and> chunk1 < remain then aligned else chunk1)
              in Some (chunk, (div_ceil (c + chunk) ps - div_ceil c ps) * ps))"

definition chunk_size ::
  "('m, 'h) admission \<Rightarrow> 'h pending \<Rightarrow> 'h \<Rightarrow> nat \<Rightarrow> nat \<Rightarrow> adder \<Rightarrow> 'm \<Rightarrow> (int \<times> int) option" where
  "chunk_size ad p h cached evicted a m =
     (let remain = int (input_len p) - int cached;
          c0 = min (token_budget a) remain;
          c1 = (if p_endpoints p \<noteq> [] \<and> \<not> p_mm p
                then case find (\<lambda>n. cached < n) (p_endpoints p) of
                       None \<Rightarrow> c0 | Some b \<Rightarrow> min c0 (int b - int cached)
                else c0)
      in if ad_swa_paged ad m then swa_chunk ad h cached evicted remain a m c1 else Some (c1, 0))"

definition add_one_req ::
  "('m, 'h) admission \<Rightarrow> 'h pending \<Rightarrow> 'h \<Rightarrow> nat \<Rightarrow> nat \<Rightarrow> nat option \<Rightarrow> (nat \<times> nat) option \<Rightarrow> nat \<Rightarrow>
   nat option \<Rightarrow> nat \<Rightarrow> nat option \<Rightarrow> adder \<Rightarrow> 'm \<Rightarrow> table_man \<Rightarrow>
   ('h req option \<times> adder \<times> table_man) res" where
  "add_one_req ad p h t cached live pp next_track restore evicted allocated a m tm =
     (let remain = int (input_len p) - int cached in
      if p_mm p \<and> token_budget a < remain
      then (if token_budget a < initial_token_budget a then Inr (None, a, tm) else Inl NotImplementedError)
      else case chunk_size ad p h cached evicted a m of
        None \<Rightarrow> Inr (None, a, tm)
      | Some (chunk, swa_cost) \<Rightarrow>
          let is_chunked = chunk < remain;
              a1 = a\<lparr>reserved_swa := reserved_swa a + swa_cost,
                     token_budget := token_budget a - chunk,
                     reserved_size := reserved_size a + reservation p cached\<rparr>;
              stop = nat (int cached + chunk)
          in res_bind (set_tokens t cached (slice cached stop (p_input_ids p)) tm) (\<lambda>tm1.
             if is_chunked \<and> p_mm p then Inl NotImplementedError
             else res_bind (mk_req is_chunked (take stop (p_input_ids p)) t cached (output_len p) (p_uid p) h
                              (p_sampling p) (p_mm p)) (\<lambda>r.
               let r1 = r\<lparr>r_checkpoint_endpoints := p_endpoints p,
                          r_kv_end := int (input_len p) + output_len p,
                          r_linear_slot := live, r_ping_pong := pp, r_next_track := next_track,
                          r_restore_src := restore, r_swa_evicted := evicted\<rparr>;
                   r2 = (case allocated of None \<Rightarrow> r1
                         | Some l \<Rightarrow> r1\<lparr>r_allocated_len := max (r_allocated_len r1) l\<rparr>)
               in Inr (Some r2, a1, tm1))))"

definition try_add_one ::
  "('m, 'h) admission \<Rightarrow> int \<Rightarrow> 'h pending \<Rightarrow> adder \<Rightarrow> 'm \<Rightarrow> table_man \<Rightarrow>
   ('h req option \<times> adder \<times> 'm \<times> table_man) res" where
  "try_add_one ad tic p a m tm =
     (if token_budget a \<le> 0 then Inr (None, a, m, tm)
      else case p_chunked p of
        Some c \<Rightarrow>
          res_bind (add_one_req ad p (r_handle c) (r_table_idx c) (r_cached_len c) (r_linear_slot c)
                      (r_ping_pong c) (r_next_track c) None (r_swa_evicted c) (Some (r_allocated_len c)) a m tm)
            (\<lambda>(r, a1, tm1). Inr (r, a1, m, tm1))
      | None \<Rightarrow>
          res_bind (try_allocate_one ad tic p a m tm) (\<lambda>(got, m1, tm1).
            case got of
              None \<Rightarrow> Inr (None, a, m1, tm1)
            | Some (h, t, live, pp, restore) \<Rightarrow>
                res_bind (add_one_req ad p h t (ad_cached_len ad h) live pp 0 restore 0 None a m1 tm1)
                  (\<lambda>(r, a1, tm2).
                    case r of
                      Some r' \<Rightarrow> Inr (Some r', a1, m1, tm2)
                    | None \<Rightarrow>
                        res_bind (ad_unlock ad h m1) (\<lambda>m2.
                          let m3 = (case (live, pp) of
                                (Some l, Some (x, y)) \<Rightarrow> ad_release_states ad [l, x, y] m2 | _ \<Rightarrow> m2)
                          in Inr (None, a1, m3, tm_release t tm2)))))"

section \<open>The prefill manager\<close>

definition pm_add_one_req ::
  "int \<Rightarrow> token list \<Rightarrow> sampling_params \<Rightarrow> bool \<Rightarrow> 'h pending list \<Rightarrow> 'h pending list" where
  "pm_add_one_req uid ids sp mm pend =
     pend @ [\<lparr>p_uid = uid, p_input_ids = ids, p_sampling = sp, p_chunked = None, p_mm = mm,
              p_endpoints = []\<rparr>]"

record 'h prefill_acc =
  pa_reqs :: "'h req list"
  pa_chunked :: "'h pending list"
  pa_remaining :: "'h pending list"
  pa_admissions :: "(int \<times> nat \<times> nat) list"
  pa_new :: int
  pa_cached :: int

text \<open>The loop over \<open>pending_list\<close>; the first request that cannot be added ends it.\<close>

fun prefill_loop ::
  "('m, 'h) admission \<Rightarrow> int \<Rightarrow> 'h pending list \<Rightarrow> adder \<Rightarrow> 'm \<Rightarrow> table_man \<Rightarrow> 'h prefill_acc \<Rightarrow>
   ('h prefill_acc \<times> adder \<times> 'm \<times> table_man) res" where
  "prefill_loop ad tic [] a m tm acc = Inr (acc, a, m, tm)"
| "prefill_loop ad tic (p # ps) a m tm acc =
     res_bind (try_add_one ad tic p a m tm) (\<lambda>(got, a1, m1, tm1).
       case got of
         None \<Rightarrow> Inr (acc\<lparr>pa_remaining := pa_remaining acc @ p # ps\<rparr>, a1, m1, tm1)
       | Some r \<Rightarrow>
           let fresh = (p_chunked p = None);
               acc1 = acc\<lparr>pa_reqs := pa_reqs acc @ [r],
                 pa_chunked := pa_chunked acc @ (if r_chunked r then [p\<lparr>p_chunked := Some r\<rparr>] else []),
                 pa_admissions := pa_admissions acc @
                   (if fresh then [(r_uid r, input_len p, r_cached_len r)] else []),
                 pa_new := pa_new acc + extend_len r,
                 pa_cached := pa_cached acc + (if fresh then int (r_cached_len r) else 0)\<rparr>
           in prefill_loop ad tic ps a1 m1 tm1 acc1)"

definition pm_schedule_next_batch ::
  "('m, 'h) admission \<Rightarrow> int \<Rightarrow> int \<Rightarrow> 'h decode_man \<Rightarrow> 'h pending list \<Rightarrow> 'm \<Rightarrow> table_man \<Rightarrow>
   ('h batch option \<times> 'h pending list \<times> 'm \<times> table_man) res" where
  "pm_schedule_next_batch ad tic budget d pend m tm =
     (if pend = [] then Inr (None, pend, m, tm)
      else res_bind (prefill_loop ad tic pend (mk_adder budget (inflight_tokens d)) m tm
             \<lparr>pa_reqs = [], pa_chunked = [], pa_remaining = [], pa_admissions = [], pa_new = 0, pa_cached = 0\<rparr>)
        (\<lambda>(acc, a, m1, tm1).
          if pa_reqs acc = [] then Inr (None, pend, m1, tm1)
          else Inr (Some (mk_batch (pa_reqs acc) Prefill
                     \<lparr>b_log_new_tokens := pa_new acc, b_log_cached_tokens := pa_cached acc,
                      b_prompt_admissions := pa_admissions acc\<rparr>),
                    pa_chunked acc @ pa_remaining acc, m1, tm1)))"

fun pm_abort_req :: "int \<Rightarrow> 'h pending list \<Rightarrow> 'h req option \<times> 'h pending list" where
  "pm_abort_req uid [] = (None, [])"
| "pm_abort_req uid (p # ps) =
     (if p_uid p = uid then (p_chunked p, ps)
      else let (r, ps') = pm_abort_req uid ps in (r, p # ps'))"

definition pm_runnable :: "'h pending list \<Rightarrow> bool" where
  "pm_runnable pend \<longleftrightarrow> 0 < length pend"

end
