(* ===== verification/CacheManagerInv.thy ===== *)
theory CacheManagerInv
  imports CacheManager
begin

text \<open>
  The page-conservation invariant of the cache manager and its preservation, proved once
  against the contract \<open>prefix_cache\<close>.  \<open>R\<close> lists the requests that hold pages.  A request owns
  the part of its row behind its handle's prefix, up to the end of its last allocated page;
  in front of that its row shows the cache's canonical slots.  Free pages, the slots of the
  cache and the slots owned by requests are together all slots of the pool, each once.
\<close>

section \<open>The invariant\<close>

definition all_free :: "('c, 'x) cman_scheme \<Rightarrow> slot list" where
  "all_free s = free_slots s @ concat (case lazy_free_list s of Some l \<Rightarrow> l | None \<Rightarrow> [])"

definition owned_row :: "('c, 'h) cache_ops \<Rightarrow> nat \<Rightarrow> (nat \<Rightarrow> slot list) \<Rightarrow> 'h req \<Rightarrow> slot list" where
  "owned_row ops ps table r =
     drop (op_cached_len ops (r_handle r)) (take (owned_end ps r) (table (r_table_idx r)))"

definition req_mem ::
  "('c, 'h) cache_ops \<Rightarrow> ('c \<Rightarrow> 'h \<Rightarrow> token list) \<Rightarrow> ('c \<Rightarrow> 'h \<Rightarrow> slot list) \<Rightarrow> nat \<Rightarrow> 'c \<Rightarrow>
   (nat \<Rightarrow> slot list) \<Rightarrow> 'h req \<Rightarrow> bool" where
  "req_mem ops key val ps c table r \<longleftrightarrow>
     (let hl = op_cached_len ops (r_handle r); row = table (r_table_idx r) in
      hl \<le> r_cached_len r \<and> owned_end ps r \<le> length row \<and> take hl row = val c (r_handle r) \<and>
      paged ps (owned_row ops ps table r) \<and> r_cached_len r \<le> length (r_input_ids r) \<and>
      (if r_mm r then hl = 0 else key c (r_handle r) = take hl (r_input_ids r)))"

definition cm_inv ::
  "('c, 'h) cache_ops \<Rightarrow> (nat \<Rightarrow> 'c \<Rightarrow> 'h multiset \<Rightarrow> bool) \<Rightarrow> ('c \<Rightarrow> 'h \<Rightarrow> token list) \<Rightarrow>
   ('c \<Rightarrow> 'h \<Rightarrow> slot list) \<Rightarrow> ('c \<Rightarrow> slot multiset) \<Rightarrow> 'c cman \<Rightarrow> 'h req list \<Rightarrow> bool" where
  "cm_inv ops ok key val slots s R \<longleftrightarrow>
     ok (page_size s) (pcache s) (mset (map r_handle R)) \<and> \<not> cm_swa_paged s \<and>
     distinct (map r_table_idx R) \<and>
     (\<forall>r\<in>set R. req_mem ops key val (page_size s) (pcache s) (page_table s) r) \<and>
     (\<forall>p\<in>set (all_free s). page_size s dvd p) \<and>
     mset (page_to_token (page_size s) (all_free s)) + slots (pcache s) +
       (\<Sum>r\<leftarrow>R. mset (owned_row ops (page_size s) (page_table s) r)) =
     mset [0..<num_pages s * page_size s]"

section \<open>Arithmetic of pages and rows\<close>

lemma owned_end_ge: "0 < ps \<Longrightarrow> r_cached_len r \<le> owned_end ps r" "0 < ps \<Longrightarrow> r_allocated_len r \<le> owned_end ps r"
  using align_ceil_ge[of ps "max (r_cached_len r) (r_allocated_len r)"]
  by (simp_all add: owned_end_def align_ceil_def)

lemma owned_end_dvd [simp]: "ps dvd owned_end ps r"
  by (simp add: owned_end_def)

lemma div_ceil_max: "div_ceil (max a b) (p::nat) = max (div_ceil a p) (div_ceil b p)"
  by (metis div_ceil_mono max_def nle_le)

lemma owned_end_note:
  "owned_end ps (note_allocated r) = max (owned_end ps r) (div_ceil (r_device_len r) ps * ps)"
proof -
  have "max (r_cached_len r) (max (r_allocated_len r) (r_device_len r)) =
    max (max (r_cached_len r) (r_allocated_len r)) (r_device_len r)" by simp
  then have "div_ceil (max (r_cached_len r) (max (r_allocated_len r) (r_device_len r))) ps =
    max (div_ceil (max (r_cached_len r) (r_allocated_len r)) ps) (div_ceil (r_device_len r) ps)"
    by (simp only: div_ceil_max)
  then show ?thesis
    by (simp add: owned_end_def note_allocated_def nat_mult_max_left)
qed

lemma length_put [simp]: "pos + length vs \<le> length xs \<Longrightarrow> length (put xs pos vs) = length xs"
  by (simp add: put_def)

lemma take_put_before: "k \<le> pos \<Longrightarrow> pos \<le> length xs \<Longrightarrow> take k (put xs pos vs) = take k xs"
  by (simp add: put_def min_absorb1)

lemma take_put_end: "pos \<le> length xs \<Longrightarrow> take (pos + length vs) (put xs pos vs) = take pos xs @ vs"
  by (simp add: put_def min_absorb2)

lemma drop_put_after: "pos + length vs \<le> k \<Longrightarrow> pos \<le> length xs \<Longrightarrow> drop k (put xs pos vs) = drop k xs"
  by (simp add: put_def min_absorb2 drop_drop)

lemma mset_stride: "paged ps vs \<Longrightarrow> 0 < ps \<Longrightarrow> mset (page_to_token ps (stride ps vs)) = mset vs"
  by (simp add: pagedE(1))

lemma length_stride: "0 < ps \<Longrightarrow> ps dvd length vs \<Longrightarrow> length (stride ps vs) * ps = length vs"
  by (auto simp: stride_def elim!: dvdE) (metis div_ceil_mult mult.commute)

lemma all_free_update [simp]:
  "all_free (s\<lparr>pcache := c\<rparr>) = all_free s" "all_free (s\<lparr>page_table := t\<rparr>) = all_free s"
  by (simp_all add: all_free_def)

text \<open>
  Writing freshly allocated pages into the rows of some requests: every owned part grows by the
  request's share and nothing else changes.
\<close>

definition row_fits :: "('c, 'h) cache_ops \<Rightarrow> nat \<Rightarrow> (nat \<Rightarrow> slot list) \<Rightarrow> 'h req \<Rightarrow> bool" where
  "row_fits ops ps table r \<longleftrightarrow>
     op_cached_len ops (r_handle r) \<le> owned_end ps r \<and> owned_end ps r \<le> length (table (r_table_idx r)) \<and>
     div_ceil (r_device_len r) ps * ps \<le> length (table (r_table_idx r)) \<and>
     paged ps (owned_row ops ps table r)"

definition rows_written ::
  "('c, 'h) cache_ops \<Rightarrow> nat \<Rightarrow> 'h req list \<Rightarrow> slot list \<Rightarrow> (nat \<Rightarrow> slot list) \<Rightarrow> (nat \<Rightarrow> slot list) \<Rightarrow> bool"
where
  "rows_written ops ps reqs alloc table table' \<longleftrightarrow>
     (\<forall>t. t \<notin> r_table_idx ` set reqs \<longrightarrow> table' t = table t) \<and>
     (\<forall>t. length (table' t) = length (table t)) \<and>
     (\<forall>r\<in>set reqs.
        take (owned_end ps r) (table' (r_table_idx r)) = take (owned_end ps r) (table (r_table_idx r)) \<and>
        paged ps (owned_row ops ps table' (note_allocated r)) \<and>
        owned_end ps (note_allocated r) \<le> length (table (r_table_idx r))) \<and>
     (\<Sum>r\<leftarrow>reqs. mset (owned_row ops ps table' (note_allocated r))) =
       (\<Sum>r\<leftarrow>reqs. mset (owned_row ops ps table r)) + mset alloc"

lemma note_handle [simp]: "r_handle (note_allocated r) = r_handle r" "r_table_idx (note_allocated r) = r_table_idx r"
  by (simp_all add: note_allocated_def)

lemma note_comp [simp]: "r_handle \<circ> note_allocated = r_handle" "r_table_idx \<circ> note_allocated = r_table_idx"
  by (simp_all add: fun_eq_iff)

lemma rows_written_one:
  assumes ps: "0 < ps" and fits: "row_fits ops ps table r" and pages: "\<forall>p\<in>set pages. ps dvd p"
    and span: "page_span ps r = (first, stop)" "first < stop" "length pages = stop - first"
  defines "row \<equiv> put (table (r_table_idx r)) (first * ps) (page_to_token ps pages)"
  shows "length row = length (table (r_table_idx r))"
    "take (owned_end ps r) row = take (owned_end ps r) (table (r_table_idx r))"
    "drop (op_cached_len ops (r_handle r)) (take (owned_end ps (note_allocated r)) row) =
       owned_row ops ps table r @ page_to_token ps pages"
    "owned_end ps (note_allocated r) \<le> length (table (r_table_idx r))"
proof -
  let ?row = "table (r_table_idx r)" and ?hl = "op_cached_len ops (r_handle r)"
  have F: "?hl \<le> first * ps" "first * ps \<le> length ?row" "stop * ps \<le> length ?row" "owned_end ps r = first * ps"
    using fits span(1) by (auto simp: row_fits_def page_span_def owned_end_def)
  have e: "first * ps + length (page_to_token ps pages) = stop * ps"
    using span(2,3) by (simp add: add_mult_distrib[symmetric])
  have e': "owned_end ps (note_allocated r) = stop * ps"
    using span(1,2) F(4) by (simp add: owned_end_note page_span_def max_def)
  show "length row = length ?row" unfolding row_def using e F(3) by (intro length_put) simp
  show "take (owned_end ps r) row = take (owned_end ps r) ?row"
    unfolding row_def F(4) using F(2) by (intro take_put_before) simp_all
  have "take (stop * ps) row = take (first * ps) ?row @ page_to_token ps pages"
    unfolding row_def e[symmetric] using F(2) by (rule take_put_end)
  then show "drop ?hl (take (owned_end ps (note_allocated r)) row) = owned_row ops ps table r @ page_to_token ps pages"
    unfolding e' owned_row_def F(4) using F(1,2) by simp
  show "owned_end ps (note_allocated r) \<le> length ?row" unfolding e' by (rule F(3))
qed

lemma owned_row_cong:
  "table' (r_table_idx r) = table (r_table_idx r) \<Longrightarrow> owned_row ops ps table' r = owned_row ops ps table r"
  by (simp add: owned_row_def)

lemma allocation_info_Cons:
  "allocation_info ps (r # reqs) =
     (if fst (page_span ps r) < snd (page_span ps r) then [(r_table_idx r, page_span ps r)] else []) @
     allocation_info ps reqs"
  by (simp add: allocation_info_def)

lemma needed_pages_Cons:
  "needed_pages ps (r # reqs) =
     (snd (page_span ps r) - fst (page_span ps r)) + needed_pages ps reqs"
  by (cases "page_span ps r") (simp add: needed_pages_def allocation_info_Cons)

lemma write_rows_ok:
  assumes ps: "0 < ps"
  shows "distinct (map r_table_idx reqs) \<Longrightarrow> \<forall>r\<in>set reqs. row_fits ops ps table r \<Longrightarrow>
    \<forall>p\<in>set pages. ps dvd p \<Longrightarrow> length pages = needed_pages ps reqs \<Longrightarrow>
    rows_written ops ps reqs (page_to_token ps pages) table
      (write_rows ps (allocation_info ps reqs) (page_to_token ps pages) table)"
proof (induction reqs arbitrary: table pages)
  case Nil
  then show ?case by (simp add: rows_written_def allocation_info_def needed_pages_def)
next
  case (Cons r reqs)
  obtain first stop where span: "page_span ps r = (first, stop)" by (cases "page_span ps r")
  let ?t = "r_table_idx r"
  have rnot: "?t \<notin> r_table_idx ` set reqs" using Cons.prems(1) by simp
  have other: "r_table_idx x \<noteq> ?t" if "x \<in> set reqs" for x using rnot that by (metis image_eqI)
  define k where "k = stop - first"
  define table1 where "table1 = (if first < stop
    then table(?t := put (table ?t) (first * ps) (page_to_token ps (take k pages))) else table)"
  have len: "length pages = k + needed_pages ps reqs"
    using Cons.prems(4) by (simp add: needed_pages_Cons span k_def)
  have fits: "row_fits ops ps table r" using Cons.prems(2) by simp
  have kk: "stop * ps - first * ps = k * ps" by (simp add: k_def diff_mult_distrib)
  have k0: "\<not> first < stop \<longrightarrow> k = 0" by (simp add: k_def)
  have W: "write_rows ps (allocation_info ps (r # reqs)) (page_to_token ps pages) table =
      write_rows ps (allocation_info ps reqs) (page_to_token ps (drop k pages)) table1"
    by (simp add: allocation_info_Cons span table1_def Let_def kk take_page_to_token drop_page_to_token k0)
  have t1: "table1 t = table t" if "t \<noteq> ?t" for t using that by (simp add: table1_def)
  have "\<forall>x\<in>set reqs. row_fits ops ps table1 x"
    using Cons.prems(2) other t1 by (simp add: row_fits_def owned_row_def)
  then have IH: "rows_written ops ps reqs (page_to_token ps (drop k pages)) table1
      (write_rows ps (allocation_info ps reqs) (page_to_token ps (drop k pages)) table1)"
    (is "rows_written _ _ _ _ _ ?new")
    using Cons.prems(1,3) len by (intro Cons.IH) (auto dest: in_set_dropD)
  have new: "?new ?t = table1 ?t" using IH rnot by (simp add: rows_written_def)
  have R: "length (table1 ?t) = length (table ?t) \<and>
     take (owned_end ps r) (table1 ?t) = take (owned_end ps r) (table ?t) \<and>
     drop (op_cached_len ops (r_handle r)) (take (owned_end ps (note_allocated r)) (table1 ?t)) =
       owned_row ops ps table r @ page_to_token ps (take k pages) \<and>
     owned_end ps (note_allocated r) \<le> length (table ?t)"
  proof (cases "first < stop")
    case True
    have "\<forall>p\<in>set (take k pages). ps dvd p" using Cons.prems(3) by (auto dest: in_set_takeD)
    note O = rows_written_one[OF ps fits this span True]
    show ?thesis using O len True by (simp add: table1_def k_def)
  next
    case False
    then have "div_ceil (r_device_len r) ps * ps \<le> owned_end ps r"
      using span by (auto simp: page_span_def owned_end_def intro!: mult_le_mono1)
    then have "owned_end ps (note_allocated r) = owned_end ps r"
      by (simp only: owned_end_note max_absorb1)
    then show ?thesis using False fits by (simp add: table1_def k_def row_fits_def owned_row_def)
  qed
  have own: "owned_row ops ps ?new (note_allocated r) = owned_row ops ps table r @ page_to_token ps (take k pages)"
    using R new by (simp add: owned_row_def)
  have pg: "paged ps (owned_row ops ps ?new (note_allocated r))"
    unfolding own using fits Cons.prems(3)
    by (auto simp: row_fits_def intro!: paged_append paged_page_to_token dest: in_set_takeD)
  have sums: "(\<Sum>x\<leftarrow>reqs. mset (owned_row ops ps table1 x)) = (\<Sum>x\<leftarrow>reqs. mset (owned_row ops ps table x))"
    using other t1 by (intro arg_cong[of _ _ sum_list] map_cong refl) (simp add: owned_row_def)
  have "mset (page_to_token ps (take k pages)) + mset (page_to_token ps (drop k pages)) =
      mset (page_to_token ps pages)" by (simp flip: mset_append page_to_token_append)
  then have S: "(\<Sum>x\<leftarrow>r # reqs. mset (owned_row ops ps ?new (note_allocated x))) =
      (\<Sum>x\<leftarrow>r # reqs. mset (owned_row ops ps table x)) + mset (page_to_token ps pages)"
    using IH own sums by (simp add: rows_written_def)
  have "\<forall>t. t \<notin> r_table_idx ` set (r # reqs) \<longrightarrow> ?new t = table t"
    using IH t1 by (simp add: rows_written_def)
  moreover have "\<forall>t. length (?new t) = length (table t)"
    using IH R t1 by (metis rows_written_def)
  moreover have "\<forall>x\<in>set (r # reqs).
        take (owned_end ps x) (?new (r_table_idx x)) = take (owned_end ps x) (table (r_table_idx x)) \<and>
        paged ps (owned_row ops ps ?new (note_allocated x)) \<and>
        owned_end ps (note_allocated x) \<le> length (table (r_table_idx x))"
    using IH R pg new other t1 by (auto simp: rows_written_def)
  ultimately show ?case using S unfolding W rows_written_def by blast
qed

lemma page_to_token_all: "0 < ps \<Longrightarrow> page_to_token ps (map (\<lambda>i. i * ps) [0..<n]) = [0..<n * ps]"
proof (induction n)
  case (Suc n)
  then show ?case
    by (simp add: page_to_token_Cons add.commute[of ps] upt_add_eq_append[of 0 "n * ps" ps])
qed simp

section \<open>Client lemmas over the contract\<close>

text \<open>The cache manager as a client of the contract.\<close>

locale cache_manager = prefix_cache ops inv valid key val slots
  for ops :: "('c, 'h) cache_ops" and inv :: "nat \<Rightarrow> 'c \<Rightarrow> 'h multiset \<Rightarrow> bool"
    and valid :: "'c \<Rightarrow> 'h \<Rightarrow> bool" and key :: "'c \<Rightarrow> 'h \<Rightarrow> token list"
    and val :: "'c \<Rightarrow> 'h \<Rightarrow> slot list" and slots :: "'c \<Rightarrow> slot multiset"
begin

abbreviation minv :: "'c cman \<Rightarrow> 'h req list \<Rightarrow> bool" where
  "minv \<equiv> cm_inv ops inv key val slots"

abbreviation own :: "'c cman \<Rightarrow> 'h req \<Rightarrow> slot list" where
  "own s r \<equiv> owned_row ops (page_size s) (page_table s) r"

lemma minvD:
  assumes "minv s R"
  shows "inv (page_size s) (pcache s) (mset (map r_handle R))" "\<not> cm_swa_paged s"
    "distinct (map r_table_idx R)"
    "r \<in> set R \<Longrightarrow> req_mem ops key val (page_size s) (pcache s) (page_table s) r"
    "\<forall>p\<in>set (all_free s). page_size s dvd p"
    "mset (page_to_token (page_size s) (all_free s)) + slots (pcache s) + (\<Sum>r\<leftarrow>R. mset (own s r)) =
     mset [0..<num_pages s * page_size s]"
    "0 < page_size s"
  using assms page_pos[of "page_size s"] by (auto simp: cm_inv_def)

lemma minv_perm: "mset R = mset R' \<Longrightarrow> minv s R = minv s R'"
proof -
  assume m: "mset R = mset R'"
  have "mset (map r_handle R) = mset (map r_handle R')" using m by simp
  moreover have "mset (map r_table_idx R) = mset (map r_table_idx R')" using m by simp
  then have "distinct (map r_table_idx R) = distinct (map r_table_idx R')" by (rule mset_eq_imp_distinct_iff)
  moreover have "set R = set R'" using m by (rule mset_eq_setD)
  moreover have "mset (map (\<lambda>r. mset (own s r)) R) = mset (map (\<lambda>r. mset (own s r)) R')" using m by simp
  then have "(\<Sum>r\<leftarrow>R. mset (own s r)) = (\<Sum>r\<leftarrow>R'. mset (own s r))" by (metis sum_mset_sum_list)
  ultimately show ?thesis by (simp add: cm_inv_def)
qed

text \<open>Allocation of pages, with eviction when the free list is short.\<close>

lemma allocate_law:
  assumes m: "minv s R" and lazy: "lazy_free_list s = None"
    and fits: "int (n * page_size s) \<le> cm_available_size ops s"
  shows "\<exists>pages s1. cm_allocate ops n s = Inr (pages, s1) \<and> length pages = n \<and>
     (\<forall>p\<in>set pages. page_size s dvd p) \<and>
     inv (page_size s) (pcache s1) (mset (map r_handle R)) \<and>
     (\<forall>g\<in>#mset (map r_handle R). key (pcache s1) g = key (pcache s) g \<and> val (pcache s1) g = val (pcache s) g) \<and>
     page_table s1 = page_table s \<and> page_size s1 = page_size s \<and> num_pages s1 = num_pages s \<and>
     swa s1 = swa s \<and> lazy_free_list s1 = None \<and> (\<forall>p\<in>set (free_slots s1). page_size s dvd p) \<and>
     mset (page_to_token (page_size s) pages) + mset (page_to_token (page_size s) (free_slots s1)) +
       slots (pcache s1) =
     mset (page_to_token (page_size s) (free_slots s)) + slots (pcache s)"
proof -
  let ?ps = "page_size s" and ?H = "mset (map r_handle R)"
  note D = minvD[OF m]
  have fr: "\<forall>p\<in>set (free_slots s). ?ps dvd p" using D(5) by (simp add: all_free_def lazy)
  have split: "mset (page_to_token ?ps (take n xs)) + mset (page_to_token ?ps (drop n xs)) =
      mset (page_to_token ?ps xs)" for xs
    by (simp flip: mset_append page_to_token_append)
  show ?thesis
  proof (cases "length (free_slots s) < n")
    case False
    then have "cm_allocate ops n s = Inr (take n (free_slots s), s\<lparr>free_slots := drop n (free_slots s)\<rparr>)"
      by (simp add: cm_allocate_def)
    then show ?thesis
      using False D(1) lazy fr split[of "free_slots s"]
      by (intro exI[of _ "take n (free_slots s)"] exI[of _ "s\<lparr>free_slots := drop n (free_slots s)\<rparr>"])
        (auto dest: in_set_takeD in_set_dropD)
  next
    case True
    let ?need = "int ((n - length (free_slots s)) * ?ps)"
    have "0 < ?need" using True D(7) by simp
    moreover have "?need \<le> fst (op_size_info ops (pcache s))"
      using fits True by (simp add: cm_available_size_def of_nat_diff left_diff_distrib diff_mult_distrib)
    ultimately obtain vs c where ev: "op_evict ops ?need (pcache s) = Inr (vs, c)"
      "inv ?ps c ?H" "slots (pcache s) = slots c + mset vs" "paged ?ps vs" "?need \<le> int (length vs)"
      "\<forall>g\<in>#?H. key c g = key (pcache s) g \<and> val c g = val (pcache s) g"
      using evict_law[OF D(1)] by blast
    note P = pagedE[OF ev(4) D(7)]
    have "(n - length (free_slots s)) * ?ps \<le> length (stride ?ps vs) * ?ps"
      using ev(5) length_stride[OF D(7) P(3)] by linarith
    then have enough: "n \<le> length (free_slots s @ stride ?ps vs)" using D(7) by simp
    let ?f = "free_slots s @ stride ?ps vs"
    have "cm_allocate ops n s = Inr (take n ?f, s\<lparr>pcache := c, free_slots := drop n ?f\<rparr>)"
      using True ev(1) enough by (simp add: cm_allocate_def Let_def)
    moreover have "mset (page_to_token ?ps (take n ?f)) + mset (page_to_token ?ps (drop n ?f)) + slots c =
        mset (page_to_token ?ps (free_slots s)) + slots (pcache s)"
      unfolding split ev(3) by (simp add: P(1) ac_simps)
    moreover have "\<forall>p\<in>set ?f. ?ps dvd p" using fr P(2) by auto
    ultimately show ?thesis
      using ev(2,6) enough lazy
      by (intro exI[of _ "take n ?f"] exI[of _ "s\<lparr>pcache := c, free_slots := drop n ?f\<rparr>"])
        (auto simp del: take_append drop_append dest: in_set_takeD in_set_dropD)
  qed
qed

lemma needed_0: "needed_pages ps reqs = 0 \<Longrightarrow> allocation_info ps reqs = []"
proof (induction reqs)
  case (Cons r reqs)
  then show ?case by (auto simp: needed_pages_Cons allocation_info_Cons)
qed (simp add: allocation_info_def)

lemma info_tokens:
  "sum_list (map (\<lambda>(t, first, stop). stop * ps - first * ps) (allocation_info ps reqs)) = needed_pages ps reqs * ps"
  unfolding needed_pages_def
  by (induction reqs)
    (auto simp: allocation_info_Cons allocation_info_def algebra_simps diff_mult_distrib split: prod.splits)

lemma req_mem_fits:
  assumes "0 < page_size s" "req_mem ops key val (page_size s) (pcache s) (page_table s) r"
    and "div_ceil (r_device_len r) (page_size s) * page_size s \<le> length (page_table s (r_table_idx r))"
  shows "row_fits ops (page_size s) (page_table s) r"
  using assms owned_end_ge(1)[OF assms(1), of r] by (auto simp: req_mem_def row_fits_def Let_def)

text \<open>The manager after new pages were written into the rows of \<open>reqs\<close>.\<close>

lemma minv_rows_written:
  assumes m: "minv s (reqs @ rest)"
    and w: "rows_written ops (page_size s) reqs alloc (page_table s) (page_table s')"
    and same: "page_size s' = page_size s" "num_pages s' = num_pages s" "swa s' = swa s"
    and cache: "inv (page_size s) (pcache s') (mset (map r_handle (reqs @ rest)))"
    and paths: "\<forall>g\<in>#mset (map r_handle (reqs @ rest)).
        key (pcache s') g = key (pcache s) g \<and> val (pcache s') g = val (pcache s) g"
    and free: "\<forall>p\<in>set (all_free s'). page_size s dvd p"
    and total: "mset alloc + mset (page_to_token (page_size s) (all_free s')) + slots (pcache s') =
       mset (page_to_token (page_size s) (all_free s)) + slots (pcache s)"
  shows "minv s' (map note_allocated reqs @ rest)"
proof -
  let ?ps = "page_size s" and ?T = "page_table s" and ?T' = "page_table s'"
  note D = minvD[OF m]
  have dist: "distinct (map r_table_idx (reqs @ rest))" by (rule D(3))
  then have rest: "?T' (r_table_idx r) = ?T (r_table_idx r)" if "r \<in> set rest" for r
    using w that dist by (auto simp: rows_written_def)
  have mem: "req_mem ops key val ?ps (pcache s') ?T' r" if r: "r \<in> set (map note_allocated reqs @ rest)" for r
  proof (cases "r \<in> set rest")
    case True
    then show ?thesis
      using D(4)[of r] rest[OF True] paths by (auto simp: req_mem_def owned_row_def Let_def)
  next
    case False
    then obtain r0 where r0: "r0 \<in> set reqs" "r = note_allocated r0" using r by auto
    have m0: "req_mem ops key val ?ps (pcache s) ?T r0" using D(4) r0(1) by simp
    let ?hl = "op_cached_len ops (r_handle r0)"
    have hl: "?hl \<le> owned_end ?ps r0"
      using m0 owned_end_ge(1)[OF D(7), of r0] by (auto simp: req_mem_def Let_def)
    have W: "take (owned_end ?ps r0) (?T' (r_table_idx r0)) = take (owned_end ?ps r0) (?T (r_table_idx r0))"
      "paged ?ps (owned_row ops ?ps ?T' r)" "owned_end ?ps r \<le> length (?T' (r_table_idx r0))"
      using w r0 by (auto simp: rows_written_def)
    have "take ?hl (?T' (r_table_idx r0)) = take ?hl (?T (r_table_idx r0))"
      using arg_cong[OF W(1), of "take ?hl"] hl by (simp add: min_absorb1)
    moreover have "key (pcache s') (r_handle r0) = key (pcache s) (r_handle r0) \<and>
        val (pcache s') (r_handle r0) = val (pcache s) (r_handle r0)"
      using paths r0(1) by simp
    ultimately show ?thesis
      using m0 W(2,3) unfolding req_mem_def Let_def r0(2)
      by (simp add: note_allocated_def)
  qed
  have "(\<Sum>r\<leftarrow>rest. mset (owned_row ops ?ps ?T' r)) = (\<Sum>r\<leftarrow>rest. mset (owned_row ops ?ps ?T r))"
    using rest by (intro arg_cong[of _ _ sum_list] map_cong refl) (simp add: owned_row_def)
  then have "(\<Sum>r\<leftarrow>map note_allocated reqs @ rest. mset (owned_row ops ?ps ?T' r)) =
      (\<Sum>r\<leftarrow>reqs @ rest. mset (owned_row ops ?ps ?T r)) + mset alloc"
    using w by (simp add: rows_written_def o_def ac_simps)
  then have "mset (page_to_token ?ps (all_free s')) + slots (pcache s') +
       (\<Sum>r\<leftarrow>map note_allocated reqs @ rest. mset (owned_row ops ?ps ?T' r)) =
     (mset alloc + mset (page_to_token ?ps (all_free s')) + slots (pcache s')) +
       (\<Sum>r\<leftarrow>reqs @ rest. mset (owned_row ops ?ps ?T r))" by (simp only: ac_simps)
  then have "mset (page_to_token ?ps (all_free s')) + slots (pcache s') +
       (\<Sum>r\<leftarrow>map note_allocated reqs @ rest. mset (owned_row ops ?ps ?T' r)) = mset [0..<num_pages s * ?ps]"
    unfolding total D(6) .
  moreover have "\<not> cm_swa_paged s'" using D(2) same(3) by (simp add: cm_swa_paged_def)
  ultimately show ?thesis
    unfolding cm_inv_def same using cache free mem dist by simp
qed

theorem allocate_paged_law:
  assumes m: "minv s (reqs @ rest)" and lazy: "lazy_free_list s = None"
    and rows: "\<forall>r\<in>set reqs. div_ceil (r_device_len r) (page_size s) * page_size s \<le> length (page_table s (r_table_idx r))"
    and fits: "int (needed_pages (page_size s) reqs * page_size s) \<le> cm_available_size ops s"
  shows "\<exists>s'. allocate_paged ops reqs s = Inr (map note_allocated reqs, s') \<and>
     minv s' (map note_allocated reqs @ rest) \<and> lazy_free_list s' = None \<and>
     page_size s' = page_size s \<and> num_pages s' = num_pages s \<and>
     (\<forall>r\<in>set reqs. take (owned_end (page_size s) r) (page_table s' (r_table_idx r)) =
        take (owned_end (page_size s) r) (page_table s (r_table_idx r))) \<and>
     (\<forall>t. t \<notin> r_table_idx ` set reqs \<longrightarrow> page_table s' t = page_table s t) \<and>
     (\<forall>t. length (page_table s' t) = length (page_table s t))"
proof -
  let ?ps = "page_size s" and ?n = "needed_pages (page_size s) reqs" and ?info = "allocation_info (page_size s) reqs"
  note D = minvD[OF m]
  have fit: "\<forall>r\<in>set reqs. row_fits ops ?ps (page_table s) r"
    using req_mem_fits[OF D(7) D(4)] rows by simp
  have dist: "distinct (map r_table_idx reqs)" using D(3) by simp
  show ?thesis
  proof (cases "0 < ?n")
    case False
    then have info: "?info = []" by (intro needed_0) simp
    have "rows_written ops ?ps reqs [] (page_table s) (page_table s)"
      using write_rows_ok[OF D(7) dist fit, of "[]"] False info by simp
    from minv_rows_written[OF m this refl refl refl D(1) _ D(5)] this False lazy
    show ?thesis by (intro exI[of _ s]) (simp add: allocate_paged_def Let_def rows_written_def)
  next
    case True
    obtain pages s1 where a: "cm_allocate ops ?n s = Inr (pages, s1)" "length pages = ?n"
      "\<forall>p\<in>set pages. ?ps dvd p" "inv ?ps (pcache s1) (mset (map r_handle (reqs @ rest)))"
      "\<forall>g\<in>#mset (map r_handle (reqs @ rest)). key (pcache s1) g = key (pcache s) g \<and> val (pcache s1) g = val (pcache s) g"
      "page_table s1 = page_table s" "page_size s1 = ?ps" "num_pages s1 = num_pages s" "swa s1 = swa s"
      "lazy_free_list s1 = None" "\<forall>p\<in>set (free_slots s1). ?ps dvd p"
      "mset (page_to_token ?ps pages) + mset (page_to_token ?ps (free_slots s1)) + slots (pcache s1) =
       mset (page_to_token ?ps (free_slots s)) + slots (pcache s)"
      using allocate_law[OF m lazy fits] by blast
    let ?alloc = "page_to_token ?ps pages"
    let ?T' = "write_rows ?ps ?info ?alloc (page_table s)"
    let ?s' = "s1\<lparr>page_table := ?T'\<rparr>"
    have w: "rows_written ops ?ps reqs ?alloc (page_table s) ?T'"
      using write_rows_ok[OF D(7) dist fit a(3,2)] .
    have "\<forall>(t, first, stop) \<in> set ?info. stop * ?ps \<le> length (page_table s t)"
      using rows by (auto simp: allocation_info_def page_span_def)
    then have wr: "write_page_table (page_table s) ?alloc ?info ?ps = Inr ?T'"
      using info_tokens[of ?ps reqs] a(2) by (fastforce simp: write_page_table_def)
    have nsw: "\<not> cm_swa_paged s1" using D(2) a(9) by (simp add: cm_swa_paged_def)
    have "allocate_paged ops reqs s = Inr (map note_allocated reqs, ?s')"
      using True a(1,6,7) wr nsw by (simp add: allocate_paged_def Let_def)
    moreover have "minv ?s' (map note_allocated reqs @ rest)"
      by (rule minv_rows_written[OF m, of ?alloc])
        (use a w lazy in \<open>simp_all add: all_free_def\<close>)
    ultimately show ?thesis using w a(7,8,10) by (intro exI[of _ ?s']) (simp add: rows_written_def)
  qed
qed

text \<open>Freeing whole pages.\<close>

lemma cm_free_simps [simp]:
  "pcache (cm_free inds s) = pcache s" "page_table (cm_free inds s) = page_table s"
  "page_size (cm_free inds s) = page_size s" "num_pages (cm_free inds s) = num_pages s"
  "swa (cm_free inds s) = swa s"
  by (simp_all add: cm_free_def split: option.splits)

lemma stride_Nil [simp]: "stride n [] = []"
  by (cases n) (simp_all add: stride_def div_ceil_def)

lemma all_free_cm_free: "all_free (cm_free inds s) = all_free s @ stride (page_size s) inds"
  by (auto simp: cm_free_def all_free_def split: option.splits)

lemma free_both_eq: "\<not> cm_swa_paged s \<Longrightarrow> free_both inds s = Inr (cm_free inds s)"
  by (simp add: free_both_def)

lemma paged_slice: "paged ps xs \<Longrightarrow> ps dvd a \<Longrightarrow> ps dvd b \<Longrightarrow> paged ps (slice a b xs)"
  by (simp add: slice_def paged_take paged_drop)

text \<open>
  The row of a request: the canonical prefix and the owned part; and the manager seen without
  the request.
\<close>

lemma row_split:
  assumes m: "minv s (r # R)"
  defines "hl \<equiv> op_cached_len ops (r_handle r)" and "row \<equiv> page_table s (r_table_idx r)"
    and "e \<equiv> owned_end (page_size s) r"
  shows "hl \<le> r_cached_len r" "r_cached_len r \<le> e" "e \<le> length row" "take hl row = val (pcache s) (r_handle r)"
    "take e row = take hl row @ own s r" "paged (page_size s) (take e row)" "page_size s dvd hl"
    "length (take (r_cached_len r) row) = r_cached_len r"
proof -
  note D = minvD[OF m]
  have q: "req_mem ops key val (page_size s) (pcache s) (page_table s) r" using D(4) by simp
  then show 1: "hl \<le> r_cached_len r" "e \<le> length row" "take hl row = val (pcache s) (r_handle r)"
    by (simp_all add: req_mem_def Let_def hl_def row_def e_def)
  show 2: "r_cached_len r \<le> e" using owned_end_ge(1)[OF D(7)] by (simp add: e_def)
  then show "length (take (r_cached_len r) row) = r_cached_len r" using 1(2) by simp
  have "take hl row = take hl (take e row)" using 1(1) 2 by (simp add: min_absorb1)
  then show 3: "take e row = take hl row @ own s r"
    by (metis append_take_drop_id e_def hl_def owned_row_def row_def)
  have v: "valid (pcache s) (r_handle r)" using held[OF D(1)] by simp
  then show "page_size s dvd hl" using lengths[OF D(1) v] by (simp add: hl_def)
  have "paged (page_size s) (val (pcache s) (r_handle r))" using lengths[OF D(1) v] by simp
  moreover have "paged (page_size s) (own s r)" using q by (simp add: req_mem_def Let_def)
  ultimately show "paged (page_size s) (take e row)" unfolding 3 1(3) by (rule paged_append)
qed

lemma req_mem_same:
  assumes "req_mem ops key val ps c table r"
    and "key c' (r_handle r) = key c (r_handle r)" "val c' (r_handle r) = val c (r_handle r)"
    and "table' (r_table_idx r) = table (r_table_idx r)"
  shows "req_mem ops key val ps c' table' r"
  using assms by (simp add: req_mem_def owned_row_def Let_def)

lemma own_sum_same:
  assumes "\<And>r. r \<in> set R \<Longrightarrow> table' (r_table_idx r) = table (r_table_idx r)"
  shows "(\<Sum>r\<leftarrow>R. mset (owned_row ops ps table' r)) = (\<Sum>r\<leftarrow>R. mset (owned_row ops ps table r))"
  using assms by (intro arg_cong[of _ _ sum_list] map_cong refl) (simp add: owned_row_def)

text \<open>The multimodal path: nothing is inserted; the handle is that of the empty prefix.\<close>

lemma cache_req_mm:
  assumes m: "minv s (r # R)" and mm: "r_mm r"
  shows "\<exists>s'. cache_req ops tic tic' r finished s = Inr (r, s') \<and>
     minv s' (if finished then R else r # R) \<and> page_size s' = page_size s \<and> num_pages s' = num_pages s \<and>
     page_table s' = page_table s"
proof -
  let ?ps = "page_size s" and ?h = "r_handle r" and ?row = "page_table s (r_table_idx r)"
  note D = minvD[OF m] and S = row_split[OF m]
  have hl: "op_cached_len ops ?h = 0" using D(4)[of r] mm by (simp add: req_mem_def Let_def)
  have v: "valid (pcache s) ?h" using held[OF D(1)] by simp
  obtain c where c: "op_lock ops ?h True (pcache s) = Inr c" "inv ?ps c (mset (map r_handle R))"
    "slots c = slots (pcache s)"
    "\<forall>g. valid (pcache s) g \<longrightarrow> valid c g \<and> key c g = key (pcache s) g \<and> val c g = val (pcache s) g"
    using unlock_law[of ?ps "pcache s" ?h "mset (map r_handle R)"] D(1) by auto
  let ?s1 = "s\<lparr>pcache := c\<rparr>"
  have un: "cm_unlock ops ?h s = Inr ?s1" using c(1) by (simp add: cm_unlock_def with_cache_def)
  have mem: "req_mem ops key val ?ps c (page_table s) x" if "x \<in> set (r # R)" for x
    using req_mem_same[OF D(4)[OF that], of c "page_table s"] c(4) held[OF D(1), of "r_handle x"] that by auto
  have af: "all_free ?s1 = all_free s" by (simp add: all_free_def)
  have sw: "\<not> cm_swa_paged ?s1" using D(2) by (simp add: cm_swa_paged_def)
  show ?thesis
  proof (cases finished)
    case False
    have "inv ?ps c (mset (map r_handle (r # R)))" using empty_law[OF c(2) _ hl] c(4) v by simp
    then have "minv ?s1 (r # R)"
      using D mem c(3) af sw unfolding cm_inv_def by simp
    then show ?thesis using False mm un by (intro exI[of _ ?s1]) (simp add: cache_req_def Let_def)
  next
    case True
    let ?tail = "padded_tail r (op_cached_len ops ?h) ?s1" and ?s2 = "cm_free (padded_tail r (op_cached_len ops ?h) ?s1) ?s1"
    have tail: "?tail = own s r" by (simp add: padded_tail_def owned_row_def)
    have pt: "paged ?ps (own s r)" using D(4)[of r] by (simp add: req_mem_def Let_def)
    have free: "all_free ?s2 = all_free s @ stride ?ps (own s r)"
      unfolding all_free_cm_free af tail by simp
    have "minv ?s2 R"
      unfolding cm_inv_def free
      using c(2,3) D mem sw pagedE(1,2)[OF pt D(7)]
      by (auto simp: cm_swa_paged_def ac_simps)
    then show ?thesis
      using True mm un free_both_eq[OF sw] by (intro exI[of _ ?s2]) (simp add: cache_req_def Let_def)
  qed
qed

text \<open>
  The effect of committing: \<open>insert_prefix\<close>, then \<open>unlock\<close> of the old handle, then the free of
  the span other requests cached in the meantime.
\<close>

definition committed ::
  "'c cman \<Rightarrow> 'h req \<Rightarrow> 'h req list \<Rightarrow> nat \<Rightarrow> 'h \<Rightarrow> 'c \<Rightarrow> bool" where
  "committed s r R l new c \<longleftrightarrow>
     (let hl = op_cached_len ops (r_handle r); nl = op_cached_len ops new;
          row = page_table s (r_table_idx r); e = owned_end (page_size s) r in
      inv (page_size s) c (mset (map r_handle R)) \<and> valid c new \<and>
      (\<forall>x\<in>set R. key c (r_handle x) = key (pcache s) (r_handle x) \<and>
                 val c (r_handle x) = val (pcache s) (r_handle x)) \<and>
      hl \<le> l \<and> l \<le> nl \<and> nl \<le> r_cached_len r \<and> page_size s dvd l \<and> page_size s dvd nl \<and>
      key c new = take nl (r_input_ids r) \<and> length (val c new) = nl \<and>
      take hl (val c new) = take hl row \<and> drop l (val c new) = slice l nl row \<and>
      slots c = slots (pcache s) + mset (slice l nl row))"

lemma commit_law:
  assumes m: "minv s (r # R)" and mm: "\<not> r_mm r"
  shows "\<exists>l new c1 c. op_insert ops tic tic' (take (r_cached_len r) (r_input_ids r))
       (take (r_cached_len r) (page_table s (r_table_idx r))) (pcache s) = Inr (l, new, c1) \<and>
     op_lock ops (r_handle r) True c1 = Inr c \<and> committed s r R l new c"
proof -
  let ?ps = "page_size s" and ?h = "r_handle r" and ?row = "page_table s (r_table_idx r)" and ?n = "r_cached_len r"
  let ?hl = "op_cached_len ops (r_handle r)" and ?ids = "take (r_cached_len r) (r_input_ids r)"
  note D = minvD[OF m] and S = row_split[OF m]
  have q: "?n \<le> length (r_input_ids r)" "key (pcache s) ?h = take ?hl (r_input_ids r)"
    using D(4)[of r] mm by (simp_all add: req_mem_def Let_def)
  have v: "valid (pcache s) ?h" using held[OF D(1)] by simp
  have len: "length ?ids = ?n" using q(1) by simp
  have "take (align_down (length ?ids) ?ps) (take ?n ?row) = take (align_down ?n ?ps) (take (owned_end ?ps r) ?row)"
    using S(2) unfolding len by (simp add: min_absorb1 order_trans[OF align_down_le])
  then have pg: "paged ?ps (take (align_down (length ?ids) ?ps) (take ?n ?row))"
    using paged_take[OF S(6), of "align_down ?n ?ps"] by simp
  have le: "length ?ids \<le> length (take ?n ?row)" unfolding len S(8) ..
  obtain l new c1 where i: "op_insert ops tic tic' ?ids (take ?n ?row) (pcache s) = Inr (l, new, c1)"
    "inv ?ps c1 (mset (map r_handle (r # R)))"
    "\<forall>g. valid (pcache s) g \<longrightarrow> valid c1 g \<and> key c1 g = key (pcache s) g \<and> val c1 g = val (pcache s) g"
    "valid c1 new" "l \<le> op_cached_len ops new" "op_cached_len ops new \<le> length ?ids" "?ps dvd l"
    "key c1 new = take (op_cached_len ops new) ?ids"
    "drop l (val c1 new) = drop l (take (op_cached_len ops new) (take ?n ?row))"
    "slots c1 = slots (pcache s) + mset (drop l (take (op_cached_len ops new) (take ?n ?row)))"
    "\<forall>g. valid (pcache s) g \<longrightarrow> op_cached_len ops g \<le> length ?ids \<longrightarrow>
       key (pcache s) g = take (op_cached_len ops g) ?ids \<longrightarrow>
       op_cached_len ops g \<le> l \<and> take (op_cached_len ops g) (val c1 new) = val (pcache s) g"
    using insert_law[OF D(1) le pg, of tic tic'] by blast
  have "key (pcache s) ?h = take ?hl ?ids" using q(2) S(1) by (simp add: min_absorb1)
  then have old: "?hl \<le> l" "take ?hl (val c1 new) = take ?hl ?row"
    using i(11) v len S(1,4) by simp_all
  obtain c where c: "op_lock ops ?h True c1 = Inr c" "inv ?ps c (mset (map r_handle R))" "slots c = slots c1"
    "\<forall>g. valid c1 g \<longrightarrow> valid c g \<and> key c g = key c1 g \<and> val c g = val c1 g"
    using unlock_law[of ?ps c1 ?h "mset (map r_handle R)"] i(2) by auto
  have nl: "op_cached_len ops new \<le> ?n" using i(6) len by simp
  have sl: "drop l (take (op_cached_len ops new) (take ?n ?row)) = slice l (op_cached_len ops new) ?row"
    using nl by (simp add: slice_def min_absorb1)
  have "key c1 new = take (op_cached_len ops new) (r_input_ids r)" using i(8) nl by (simp add: min_absorb1)
  moreover have "?ps dvd op_cached_len ops new" "length (val c1 new) = op_cached_len ops new"
    using lengths[OF i(2,4)] by simp_all
  moreover have "key c (r_handle x) = key (pcache s) (r_handle x) \<and> val c (r_handle x) = val (pcache s) (r_handle x)"
    if "x \<in> set R" for x
  proof -
    have "valid (pcache s) (r_handle x)" using held[OF D(1), of "r_handle x"] that by simp
    then show ?thesis using i(3) c(4) by simp
  qed
  ultimately have "committed s r R l new c"
    using i(4,5,7,9,10) c old nl unfolding committed_def Let_def sl by simp
  then show ?thesis using i(1) c(1) by blast
qed

lemma slice_append: "a \<le> b \<Longrightarrow> b \<le> c \<Longrightarrow> slice a b xs @ slice b c xs = slice a c xs"
  using take_add[of "b - a" "c - b" "drop a xs"] by (simp add: slice_def drop_take)

text \<open>The plain path of \<open>cache_req\<close>, for a finished request and for one that goes on.\<close>

lemma cache_req_finished:
  assumes m: "minv s (r # R)" and mm: "\<not> r_mm r"
  shows "\<exists>s'. cache_req ops tic tic' r True s = Inr (r, s') \<and> minv s' R \<and>
     page_size s' = page_size s \<and> num_pages s' = num_pages s \<and> page_table s' = page_table s"
proof -
  let ?ps = "page_size s" and ?row = "page_table s (r_table_idx r)" and ?e = "owned_end (page_size s) r"
  let ?hl = "op_cached_len ops (r_handle r)" and ?inds = "take (r_cached_len r) (page_table s (r_table_idx r))"
  note D = minvD[OF m] and S = row_split[OF m]
  obtain l new c1 c where i: "op_insert ops tic tic' (take (r_cached_len r) (r_input_ids r)) ?inds (pcache s) = Inr (l, new, c1)"
    "op_lock ops (r_handle r) True c1 = Inr c" "committed s r R l new c"
    using commit_law[OF m mm] by blast
  let ?nl = "op_cached_len ops new"
  have C: "inv ?ps c (mset (map r_handle R))" "?hl \<le> l" "l \<le> ?nl" "?nl \<le> r_cached_len r" "?ps dvd l" "?ps dvd ?nl"
    "slots c = slots (pcache s) + mset (slice l ?nl ?row)"
    "\<And>x. x \<in> set R \<Longrightarrow> key c (r_handle x) = key (pcache s) (r_handle x) \<and> val c (r_handle x) = val (pcache s) (r_handle x)"
    using i(3) by (simp_all add: committed_def Let_def)
  define s2 where "s2 = s\<lparr>pcache := c\<rparr>"
  define s3 where "s3 = cm_free (slice ?hl l ?row) s2"
  define s4 where "s4 = cm_free (padded_tail r ?nl s3) s3"
  have e1: "slice ?hl l ?inds = slice ?hl l ?row" using C(3,4) by (simp add: slice_def min_absorb1)
  have tail: "padded_tail r ?nl s3 = slice ?nl ?e ?row" by (simp add: padded_tail_def slice_def s3_def s2_def)
  have sw: "\<not> cm_swa_paged s2" "\<not> cm_swa_paged s3" using D(2) by (simp_all add: s2_def s3_def cm_swa_paged_def)
  have run: "cache_req ops tic tic' r True s = Inr (r, s4)"
    using mm i(1,2) free_both_eq[OF sw(1)] free_both_eq[OF sw(2)]
    by (simp add: cache_req_def Let_def cm_unlock_def with_cache_def e1 s2_def[symmetric] s3_def[symmetric] s4_def)
  have pe: "paged ?ps (slice a b ?row)" if "?ps dvd a" "?ps dvd b" "b \<le> ?e" for a b
  proof -
    have "slice a b ?row = slice a b (take ?e ?row)" using that(3) by (simp add: slice_def min_absorb1)
    then show ?thesis using paged_slice[OF S(6) that(1,2)] by simp
  qed
  have le: "?nl \<le> ?e" "l \<le> ?e" using C(3,4) S(2) by simp_all
  note P1 = pe[OF S(7) C(5) le(2)] and P2 = pe[OF C(6) owned_end_dvd order_refl]
  have af: "all_free s4 = all_free s @ stride ?ps (slice ?hl l ?row) @ stride ?ps (slice ?nl ?e ?row)"
    unfolding s4_def tail all_free_cm_free by (simp add: s3_def s2_def all_free_cm_free)
  have F: "page_size s4 = ?ps" "num_pages s4 = num_pages s" "page_table s4 = page_table s" "pcache s4 = c" "swa s4 = swa s"
    by (simp_all add: s4_def s3_def s2_def)
  have own: "own s r = slice ?hl l ?row @ slice l ?nl ?row @ slice ?nl ?e ?row"
    using C(2,3) le by (simp add: slice_append) (simp add: owned_row_def slice_def)
  have sum: "mset (page_to_token ?ps (all_free s4)) + slots c + (\<Sum>x\<leftarrow>R. mset (own s x)) = mset [0..<num_pages s * ?ps]"
    unfolding af C(7) D(6)[symmetric] by (simp add: own pagedE(1)[OF P1 D(7)] pagedE(1)[OF P2 D(7)] ac_simps)
  have "minv s4 R"
    unfolding cm_inv_def F
    using C(1) D(2,3,5) sum req_mem_same[OF D(4)] C(8) pagedE(2)[OF P1 D(7)] pagedE(2)[OF P2 D(7)]
    by (auto simp: cm_swa_paged_def F af)
  then show ?thesis using run F by blast
qed

lemma cache_req_unfinished:
  assumes m: "minv s (r # R)" and mm: "\<not> r_mm r"
  shows "\<exists>r' s'. cache_req ops tic tic' r False s = Inr (r', s') \<and> minv s' (r' # R) \<and>
     (\<exists>new. r' = r\<lparr>r_handle := new\<rparr> \<and>
        take (op_cached_len ops new) (page_table s' (r_table_idx r)) = val (pcache s') new) \<and>
     page_size s' = page_size s \<and> num_pages s' = num_pages s \<and>
     (\<forall>t. length (page_table s' t) = length (page_table s t))"
proof -
  let ?ps = "page_size s" and ?t = "r_table_idx r" and ?row = "page_table s (r_table_idx r)"
  let ?e = "owned_end (page_size s) r" and ?h = "r_handle r"
  let ?hl = "op_cached_len ops (r_handle r)" and ?inds = "take (r_cached_len r) (page_table s (r_table_idx r))"
  note D = minvD[OF m] and S = row_split[OF m]
  obtain l new c1 c where i: "op_insert ops tic tic' (take (r_cached_len r) (r_input_ids r)) ?inds (pcache s) = Inr (l, new, c1)"
    "op_lock ops ?h True c1 = Inr c" "committed s r R l new c"
    using commit_law[OF m mm] by blast
  let ?nl = "op_cached_len ops new"
  have C: "inv ?ps c (mset (map r_handle R))" "valid c new" "?hl \<le> l" "l \<le> ?nl" "?nl \<le> r_cached_len r"
    "?ps dvd l" "?ps dvd ?nl" "key c new = take ?nl (r_input_ids r)" "length (val c new) = ?nl"
    "take ?hl (val c new) = take ?hl ?row" "drop l (val c new) = slice l ?nl ?row"
    "slots c = slots (pcache s) + mset (slice l ?nl ?row)"
    "\<And>x. x \<in> set R \<Longrightarrow> key c (r_handle x) = key (pcache s) (r_handle x) \<and> val c (r_handle x) = val (pcache s) (r_handle x)"
    using i(3) by (simp_all add: committed_def Let_def)
  obtain c3 where c3: "op_lock ops new False c = Inr c3" "inv ?ps c3 (mset (map r_handle (r\<lparr>r_handle := new\<rparr> # R)))"
    "slots c3 = slots c" "\<forall>g. valid c g \<longrightarrow> valid c3 g \<and> key c3 g = key c g \<and> val c3 g = val c g"
    using lock_law[OF C(1,2)] by auto
  define row' where "row' = (if ?hl < l then put ?row ?hl (slice ?hl l (val c new)) else ?row)"
  define s2 where "s2 = s\<lparr>pcache := c\<rparr>"
  define s3 where "s3 = cm_free (slice ?hl l ?row) s2"
  define s4 where "s4 = (if ?hl < l then s3\<lparr>page_table := (page_table s)(?t := row')\<rparr> else s3)"
  define s5 where "s5 = s4\<lparr>pcache := c3\<rparr>"
  let ?r = "r\<lparr>r_handle := new\<rparr>"
  have e1: "slice ?hl l ?inds = slice ?hl l ?row" using C(4,5) by (simp add: slice_def min_absorb1)
  have sw: "\<not> cm_swa_paged s2" using D(2) by (simp add: s2_def cm_swa_paged_def)
  have F3: "page_table s3 = page_table s" "page_size s3 = ?ps" "num_pages s3 = num_pages s" "pcache s3 = c" "swa s3 = swa s"
    by (simp_all add: s3_def s2_def)
  have idx: "op_indices ops new c = Inr (val c new)" if "?hl < l"
    using indices[OF C(1,2)] that C(4) by simp
  have run: "cache_req ops tic tic' r False s = Inr (?r, s5)"
    using mm i(1,2) free_both_eq[OF sw] idx c3(1)
    by (simp add: cache_req_def Let_def cm_unlock_def cm_lock_def with_cache_def e1 s2_def[symmetric]
        s3_def[symmetric] F3 s4_def s5_def row'_def)
  have F: "page_size s5 = ?ps" "num_pages s5 = num_pages s" "pcache s5 = c3" "swa s5 = swa s"
    by (simp_all add: s5_def s4_def F3)
  have T: "page_table s5 ?t = row'" "page_table s5 t = page_table s t" if "t \<noteq> ?t" for t
    using that by (simp_all add: s5_def s4_def F3 row'_def)
  have T': "page_table s5 ?t = row'" by (simp add: s5_def s4_def F3 row'_def)
  have le: "?nl \<le> ?e" "l \<le> ?e" "l \<le> length ?row" using C(4,5) S(2,3) by simp_all
  have cl: "length (slice ?hl l (val c new)) = l - ?hl" using C(4,9) by (simp add: slice_def)
  have len: "length row' = length ?row" using cl le(3) C(3) by (simp add: row'_def)
  have pre: "take l row' = take l (val c new)"
  proof (cases "?hl < l")
    case True
    have "take l row' = take ?hl ?row @ slice ?hl l (val c new)"
      using take_put_end[of ?hl ?row "slice ?hl l (val c new)"] cl True le(3) by (simp add: row'_def)
    also have "\<dots> = take ?hl (take l (val c new)) @ drop ?hl (take l (val c new))"
      using True C(10) by (simp add: slice_def min_absorb1)
    also have "\<dots> = take l (val c new)" by (rule append_take_drop_id)
    finally show ?thesis .
  next
    case False
    then show ?thesis using C(3,10) by (simp add: row'_def)
  qed
  have post: "drop l row' = drop l ?row"
    using cl C(3) le(3) by (simp add: row'_def drop_put_after)
  have canon: "take ?nl row' = val c new"
  proof -
    have "take ?nl row' = take l row' @ take (?nl - l) (drop l row')"
      using take_add[of l "?nl - l" row'] C(4) by simp
    also have "\<dots> = take l (val c new) @ drop l (val c new)"
      unfolding pre post C(11) by (simp add: slice_def drop_take)
    finally show ?thesis by simp
  qed
  have "slice ?nl ?e row' = slice ?nl ?e ?row"
  proof -
    have "drop ?nl row' = drop ?nl ?row" using arg_cong[OF post, of "drop (?nl - l)"] C(4) by simp
    then show ?thesis by (simp add: slice_def drop_take)
  qed
  then have own': "owned_row ops ?ps (page_table s5) ?r = slice ?nl ?e ?row"
    by (simp add: owned_row_def owned_end_def slice_def T')
  have own: "own s r = slice ?hl l ?row @ slice l ?nl ?row @ slice ?nl ?e ?row"
    using C(3,4) le by (simp add: slice_append) (simp add: owned_row_def slice_def)
  have pe: "paged ?ps (slice a b ?row)" if "?ps dvd a" "?ps dvd b" "b \<le> ?e" for a b
  proof -
    have "slice a b ?row = slice a b (take ?e ?row)" using that(3) by (simp add: slice_def min_absorb1)
    then show ?thesis using paged_slice[OF S(6) that(1,2)] by simp
  qed
  note P1 = pe[OF S(7) C(6) le(2)] and P2 = pe[OF C(7) owned_end_dvd order_refl]
  have af: "all_free s5 = all_free s @ stride ?ps (slice ?hl l ?row)"
  proof -
    have "all_free s5 = all_free s3" by (simp add: s5_def s4_def)
    then show ?thesis by (simp add: s3_def s2_def all_free_cm_free)
  qed
  have other: "r_table_idx x \<noteq> ?t" if "x \<in> set R" for x using D(3) that by (metis distinct.simps(2) image_eqI list.set_map list.simps(9))
  have rest: "(\<Sum>x\<leftarrow>R. mset (owned_row ops ?ps (page_table s5) x)) = (\<Sum>x\<leftarrow>R. mset (own s x))"
    by (rule own_sum_same) (use T(2) other in blast)
  have sum: "mset (page_to_token ?ps (all_free s5)) + slots c3 +
      (\<Sum>x\<leftarrow>?r # R. mset (owned_row ops ?ps (page_table s5) x)) = mset [0..<num_pages s * ?ps]"
    unfolding af c3(3) C(12) D(6)[symmetric]
    by (simp add: own own' rest pagedE(1)[OF P1 D(7)] ac_simps)
  have val3: "val c3 new = val c new" "key c3 new = key c new" using c3(4) C(2) by simp_all
  have mem: "req_mem ops key val ?ps c3 (page_table s5) ?r"
    using C(5,8) S(3) P2 D(4)[of r] mm canon val3 len own'
    by (simp add: req_mem_def Let_def T' owned_end_def)
  have memR: "req_mem ops key val ?ps c3 (page_table s5) x" if x: "x \<in> set R" for x
  proof (rule req_mem_same[of ?ps "pcache s" "page_table s"])
    show "req_mem ops key val ?ps (pcache s) (page_table s) x" using D(4) x by simp
    have "valid c (r_handle x)" using held[OF C(1), of "r_handle x"] x by simp
    then show "key c3 (r_handle x) = key (pcache s) (r_handle x)" "val c3 (r_handle x) = val (pcache s) (r_handle x)"
      using C(13)[OF x] c3(4) by simp_all
    show "page_table s5 (r_table_idx x) = page_table s (r_table_idx x)" using T(2) other[OF x] by blast
  qed
  have "minv s5 (?r # R)"
    unfolding cm_inv_def F
    using c3(2) D(2,3,5) sum mem memR pagedE(2)[OF P1 D(7)]
    by (auto simp: cm_swa_paged_def F af)
  moreover have "length (page_table s5 t) = length (page_table s t)" for t
    using T(2)[of t] T' len by (cases "t = ?t") simp_all
  ultimately show ?thesis using run F canon val3 T' by auto
qed

end

end
