(* ===== verification/CacheManagerUse.thy ===== *)
theory CacheManagerUse
  imports CacheManagerInv
begin

text \<open>
  The remaining operations of the cache manager over the interface of the prefix cache: the
  initial state, rebuilding, the reported sizes, the idle integrity check, and the admission of
  a request.
\<close>

lemma count_mset_le: "distinct xs \<longleftrightarrow> (\<forall>x. count (mset xs) x \<le> 1)"
proof (induction xs)
  case (Cons a xs)
  show ?case
  proof
    assume d: "distinct (a # xs)"
    then have z: "count (mset xs) a = 0" by (simp add: count_mset_0_iff)
    have "\<forall>x. count (mset xs) x \<le> 1" using d Cons by simp
    moreover have "count (mset (a # xs)) x = (if a = x then 1 else count (mset xs) x)" for x
      using z by auto
    ultimately have "count (mset (a # xs)) x \<le> 1" for x by presburger
    then show "\<forall>x. count (mset (a # xs)) x \<le> 1" by blast
  next
    assume c: "\<forall>x. count (mset (a # xs)) x \<le> 1"
    have "count (mset xs) x \<le> count (mset (a # xs)) x" for x by simp
    then have "count (mset xs) x \<le> 1" for x using c order_trans by blast
    moreover have "count (mset xs) a = 0" using c[rule_format, of a] by simp
    ultimately show "distinct (a # xs)" using Cons by (simp add: count_mset_0_iff)
  qed
qed simp

context cache_manager
begin

text \<open>The initial state, the deferred frees, and the sizes.\<close>

lemma minv_init:
  assumes "inv ps c {#}" "slots c = {#}" "\<not> cm_swa_paged (cm_init n ps table sp c)"
  shows "minv (cm_init n ps table sp c) []"
  using assms page_to_token_all[OF page_pos[OF assms(1)], of n]
  by (auto simp: cm_inv_def cm_init_def all_free_def)

lemma minv_lazy:
  assumes "minv s R"
  shows "lazy_free_list s = None \<Longrightarrow> minv (lazy_free_enter s) R" "minv (lazy_free_exit s) R"
proof -
  have "lazy_free_list s = None \<Longrightarrow> all_free (lazy_free_enter s) = all_free s"
    "all_free (lazy_free_exit s) = all_free s"
    by (simp_all add: all_free_def lazy_free_enter_def lazy_free_exit_def)
  then show "lazy_free_list s = None \<Longrightarrow> minv (lazy_free_enter s) R" "minv (lazy_free_exit s) R"
    using assms
    by (simp_all add: cm_inv_def cm_swa_paged_def lazy_free_enter_def lazy_free_exit_def)
qed

lemma minv_rebuild:
  assumes "inv (page_size s) c {#}" "slots c = {#}" "\<not> cm_swa_paged s" "lazy_free_list s = None"
  shows "minv (cm_rebuild n table c s) []"
  using assms page_to_token_all[OF page_pos[OF assms(1)], of n]
  by (auto simp: cm_inv_def cm_rebuild_def all_free_def cm_swa_paged_def)

text \<open>Pages are accounted for: free, evictable, protected and owned tokens add up to the pool.\<close>

lemma minv_sizes:
  assumes m: "minv s R" and lazy: "lazy_free_list s = None"
  shows "int (length (free_slots s) * page_size s) + fst (op_size_info ops (pcache s)) +
       snd (op_size_info ops (pcache s)) + int (\<Sum>r\<leftarrow>R. length (own s r)) =
     int (num_pages s * page_size s)"
proof -
  note D = minvD[OF m]
  have "size (\<Sum>r\<leftarrow>R. mset (own s r)) = (\<Sum>r\<leftarrow>R. length (own s r))"
    by (induction R) simp_all
  then have "length (free_slots s) * page_size s + size (slots (pcache s)) + (\<Sum>r\<leftarrow>R. length (own s r)) =
      num_pages s * page_size s"
    using arg_cong[OF D(6), of size] lazy by (simp add: all_free_def)
  then show ?thesis using sizes[OF D(1)] by linarith
qed

lemma check_integrity_idle:
  assumes m: "minv s []" and lazy: "lazy_free_list s = None"
  shows "cm_check_integrity ops s = Inr ()"
proof -
  let ?ps = "page_size s" and ?e = "fst (op_size_info ops (pcache s))" and ?p = "snd (op_size_info ops (pcache s))"
  note D = minvD[OF m]
  have "int ?ps dvd ?e" "int ?ps dvd ?p" using sizes[OF D(1)] by blast+
  then have "int ?ps dvd ?e + ?p" by (rule dvd_add)
  then obtain k where k: "?e + ?p = int ?ps * k" by (auto simp: dvd_def)
  have "int ?ps * (int (length (free_slots s)) + k) = int ?ps * int (num_pages s)"
    using minv_sizes[OF m lazy] k by (simp add: algebra_simps)
  then have "int (length (free_slots s)) + k = int (num_pages s)" using D(7) by simp
  moreover have "(?e + ?p) div int ?ps = k" using k D(7) by simp
  moreover have "\<forall>x\<in>set (free_slots s). x mod ?ps = 0" using D(5) by (auto simp: all_free_def)
  ultimately show ?thesis by (simp add: cm_check_integrity_def Let_def case_prod_unfold)
qed

lemma page_usage_running:
  assumes m: "minv s R" and lazy: "lazy_free_list s = None"
  shows "page_usage ops s = (u, n) \<Longrightarrow> n = int (num_pages s) \<and>
     u * int (page_size s) = snd (op_size_info ops (pcache s)) + int (\<Sum>r\<leftarrow>R. length (own s r))"
proof -
  let ?ps = "page_size s" and ?e = "fst (op_size_info ops (pcache s))"
  note D = minvD[OF m]
  obtain k where k: "?e = int ?ps * k" using sizes[OF D(1)] by (auto simp: dvd_def)
  have "?e div int ?ps = k" using k D(7) by simp
  moreover assume "page_usage ops s = (u, n)"
  ultimately have u: "u = int (num_pages s) - int (length (free_slots s)) - k" "n = int (num_pages s)"
    by (auto simp: page_usage_def)
  have "u * int ?ps = snd (op_size_info ops (pcache s)) + int (\<Sum>r\<leftarrow>R. length (own s r))"
    unfolding u(1) using minv_sizes[OF m lazy] k by (simp add: algebra_simps)
  with u(2) show ?thesis by simp
qed

text \<open>No slot has two owners.\<close>

lemma minv_disjoint:
  assumes m: "minv s R"
  shows "distinct (page_to_token (page_size s) (all_free s) @ concat (map (own s) R))"
    "set_mset (slots (pcache s)) \<inter> set (page_to_token (page_size s) (all_free s) @ concat (map (own s) R)) = {}"
proof -
  note D = minvD[OF m]
  let ?xs = "page_to_token (page_size s) (all_free s) @ concat (map (own s) R)"
  have "mset (concat (map (own s) R)) = (\<Sum>r\<leftarrow>R. mset (own s r))"
    by (induction R) simp_all
  then have tot: "mset ?xs + slots (pcache s) = mset [0..<num_pages s * page_size s]"
    using D(6) by (simp add: ac_simps)
  have le: "count (mset ?xs) x + count (slots (pcache s)) x \<le> 1" for x
    using iffD1[OF count_mset_le, of "[0..<num_pages s * page_size s]", THEN spec, of x]
    by (simp only: tot[symmetric] count_union distinct_upt)
  have "count (mset ?xs) x \<le> 1" for x using le[of x] by linarith
  then show "distinct ?xs" unfolding count_mset_le by blast
  have "x \<notin> set ?xs" if "x \<in># slots (pcache s)" for x
  proof
    assume "x \<in> set ?xs"
    then have "0 < count (mset ?xs) x" "0 < count (slots (pcache s)) x"
      using that by (simp_all only: count_greater_zero_iff set_mset_mset)
    then show False using le[of x] by linarith
  qed
  then show "set_mset (slots (pcache s)) \<inter> set ?xs = {}" by blast
qed

lemma minv_covers:
  assumes m: "minv s R"
  shows "set_mset (slots (pcache s)) \<union> set (page_to_token (page_size s) (all_free s) @ concat (map (own s) R)) =
    {0..<num_pages s * page_size s}"
proof -
  note D = minvD[OF m]
  have "mset (concat (map (own s) R)) = (\<Sum>r\<leftarrow>R. mset (own s r))"
    by (induction R) simp_all
  then have "mset (page_to_token (page_size s) (all_free s) @ concat (map (own s) R)) + slots (pcache s) =
      mset [0..<num_pages s * page_size s]"
    using D(6) by (simp add: ac_simps)
  from arg_cong[OF this, of set_mset] show ?thesis by (simp only: set_mset_union set_mset_mset set_upt Un_commute)
qed

text \<open>
  Admission of a request: match, lock, and copy the canonical slots of the matched prefix into
  the row that the request was given.
\<close>

lemma minv_match:
  assumes m: "minv s R" and ids: "ids \<noteq> []"
  shows "\<exists>h s1. match_req ops tic ids mm s = Inr (h, s1) \<and> minv s1 R \<and> valid (pcache s1) h \<and>
     cm_available_size ops s1 = cm_available_size ops s \<and> page_table s1 = page_table s \<and>
     page_size s1 = page_size s \<and> num_pages s1 = num_pages s \<and> lazy_free_list s1 = lazy_free_list s \<and>
     op_cached_len ops h < length ids \<and> (mm \<longrightarrow> op_cached_len ops h = 0) \<and>
     key (pcache s1) h = take (op_cached_len ops h) ids"
proof -
  note D = minvD[OF m]
  let ?ids = "if mm then [] else take (length ids - 1) ids"
  obtain h c where c: "op_match ops tic ?ids (pcache s) = Inr (h, c)"
    "inv (page_size s) c (mset (map r_handle R))" "slots c = slots (pcache s)"
    "op_size_info ops c = op_size_info ops (pcache s)"
    "\<forall>g. valid (pcache s) g \<longrightarrow> valid c g \<and> key c g = key (pcache s) g \<and> val c g = val (pcache s) g"
    "valid c h" "op_cached_len ops h \<le> length ?ids" "key c h = take (op_cached_len ops h) ?ids"
    using match_law[OF D(1), of tic ?ids] by blast
  let ?s = "s\<lparr>pcache := c\<rparr>"
  have "req_mem ops key val (page_size s) c (page_table s) r" if "r \<in> set R" for r
    using req_mem_same[OF D(4)[OF that], of c "page_table s"] c(5) held[OF D(1), of "r_handle r"] that by simp
  then have "minv ?s R" using D c(2,3) by (simp add: cm_inv_def cm_swa_paged_def)
  moreover have "op_cached_len ops h < length ids" "mm \<longrightarrow> op_cached_len ops h = 0"
    using c(7) ids by (cases mm; cases ids; simp)+
  moreover have "key c h = take (op_cached_len ops h) ids"
    using c(7,8) by (auto split: if_splits simp: min_def)
  ultimately show ?thesis
    using c ids
    by (intro exI[of _ h] exI[of _ ?s]) (simp add: match_req_def cm_available_size_def)
qed

lemma minv_admit:
  assumes m: "minv s R" and v: "valid (pcache s) (r_handle r)"
    and t: "r_table_idx r \<notin> r_table_idx ` set R"
    and len: "r_cached_len r = op_cached_len ops (r_handle r)" "r_allocated_len r = r_cached_len r"
      "r_cached_len r \<le> length (page_table s (r_table_idx r))" "r_cached_len r \<le> length (r_input_ids r)"
    and key: "key (pcache s) (r_handle r) = take (r_cached_len r) (r_input_ids r)" "r_mm r \<Longrightarrow> r_cached_len r = 0"
  shows "\<exists>s1. cm_lock ops (r_handle r) s = Inr s1 \<and>
     minv (s1\<lparr>page_table := (page_table s)(r_table_idx r :=
        put (page_table s (r_table_idx r)) 0 (val (pcache s) (r_handle r)))\<rparr>) (r # R) \<and>
     page_table s1 = page_table s \<and> pcache s1 = pcache s1 \<and> page_size s1 = page_size s \<and>
     num_pages s1 = num_pages s \<and> free_slots s1 = free_slots s \<and> lazy_free_list s1 = lazy_free_list s \<and>
     val (pcache s1) (r_handle r) = val (pcache s) (r_handle r) \<and> valid (pcache s1) (r_handle r)"
proof -
  let ?ps = "page_size s" and ?h = "r_handle r" and ?t = "r_table_idx r"
  note D = minvD[OF m]
  obtain c where c: "op_lock ops ?h False (pcache s) = Inr c" "inv ?ps c (add_mset ?h (mset (map r_handle R)))"
    "slots c = slots (pcache s)"
    "\<forall>g. valid (pcache s) g \<longrightarrow> valid c g \<and> key c g = key (pcache s) g \<and> val c g = val (pcache s) g"
    using lock_law[OF D(1) v] by blast
  let ?row = "put (page_table s ?t) 0 (val (pcache s) ?h)"
  let ?T = "(page_table s)(?t := ?row)"
  let ?s = "s\<lparr>pcache := c, page_table := ?T\<rparr>"
  have L: "length (val (pcache s) ?h) = r_cached_len r" "?ps dvd r_cached_len r"
    using lengths[OF D(1) v] len(1) by simp_all
  have e: "owned_end ?ps r = r_cached_len r"
    using align_ceil_id[OF L(2) D(7)] len(2) by (simp add: owned_end_def align_ceil_def)
  have row: "length ?row = length (page_table s ?t)" "take (r_cached_len r) ?row = val (pcache s) ?h"
    using L(1) len(3) by (simp_all add: put_def)
  have mem: "req_mem ops key val ?ps c ?T r"
    using len key row e c(4) v L by (simp add: req_mem_def Let_def owned_row_def)
  have other: "r_table_idx x \<noteq> ?t" if "x \<in> set R" for x using t that by (metis image_eqI)
  have memR: "req_mem ops key val ?ps c ?T x" if x: "x \<in> set R" for x
    using req_mem_same[OF D(4)[OF x], of c ?T] c(4) held[OF D(1), of "r_handle x"] x other[OF x] by simp
  have own: "owned_row ops ?ps ?T r = []" using len(1) e by (simp add: owned_row_def)
  have "(\<Sum>x\<leftarrow>R. mset (owned_row ops ?ps ?T x)) = (\<Sum>x\<leftarrow>R. mset (own s x))"
    by (rule own_sum_same) (use other in simp)
  then have "minv ?s (r # R)"
    using D c(2,3) mem memR t own by (auto simp: cm_inv_def cm_swa_paged_def)
  moreover have "cm_lock ops ?h s = Inr (s\<lparr>pcache := c\<rparr>)" using c(1) by (simp add: cm_lock_def with_cache_def)
  ultimately show ?thesis using c(4) v by (intro exI[of _ "s\<lparr>pcache := c\<rparr>"]) simp
qed

text \<open>
  A step of the model: the request's lengths advance within what is allocated, and the sampled
  token is appended to the host's sequence.
\<close>

lemma minv_advance:
  assumes m: "minv s (r # R)"
    and r': "r_handle r' = r_handle r" "r_table_idx r' = r_table_idx r" "r_mm r' = r_mm r"
      "r_allocated_len r' = r_allocated_len r" "r_cached_len r \<le> r_cached_len r'"
      "r_cached_len r' \<le> max (r_cached_len r) (r_allocated_len r)" "r_cached_len r' \<le> length (r_input_ids r')"
      "take (length (r_input_ids r)) (r_input_ids r') = r_input_ids r"
  shows "minv s (r' # R)"
proof -
  note D = minvD[OF m]
  have "max (r_cached_len r') (r_allocated_len r') = max (r_cached_len r) (r_allocated_len r)"
    using r'(4-6) by linarith
  then have e: "owned_end (page_size s) r' = owned_end (page_size s) r" by (simp add: owned_end_def)
  have own: "own s r' = own s r" using e r'(1,2) by (simp add: owned_row_def)
  have r: "req_mem ops key val (page_size s) (pcache s) (page_table s) r" using D(4) by simp
  then have le: "op_cached_len ops (r_handle r) \<le> length (r_input_ids r)"
    by (auto simp: req_mem_def Let_def)
  have "take (op_cached_len ops (r_handle r)) (r_input_ids r') =
      take (op_cached_len ops (r_handle r)) (take (length (r_input_ids r)) (r_input_ids r'))"
    using le by (simp add: min_absorb1)
  then have "take (op_cached_len ops (r_handle r)) (r_input_ids r') =
      take (op_cached_len ops (r_handle r)) (r_input_ids r)" by (simp only: r'(8))
  then have "req_mem ops key val (page_size s) (pcache s) (page_table s) r'"
    using r r' own e by (auto simp: req_mem_def Let_def)
  then show ?thesis using D r' own by (simp add: cm_inv_def)
qed

lemma minv_complete:
  assumes "minv s (r # R)" "r_cached_len r \<le> r_device_len r" "r_device_len r \<le> r_allocated_len r"
    "r_device_len r \<le> length (r_input_ids r)"
  shows "minv s (complete_one r # R)"
  by (rule minv_advance[OF assms(1)]) (use assms(2-4) in \<open>simp_all add: complete_one_def\<close>)

lemma minv_append:
  assumes m: "minv s (r # R)" and a: "append_host toks r = Inr r'"
  shows "minv s (r' # R)"
proof -
  have r': "r' = r\<lparr>r_input_ids := r_input_ids r @ toks\<rparr>"
    using a by (auto simp: append_host_def res_bind_eq_Inr split: if_splits)
  have "r_cached_len r \<le> length (r_input_ids r)" using minvD(4)[OF m, of r] by (simp add: req_mem_def Let_def)
  then show ?thesis by (intro minv_advance[OF m]) (simp_all add: r')
qed

end

end
