(* ===== verification/PrefillInv.thy ===== *)
theory PrefillInv
  imports Prefill CacheManagerUse
begin

text \<open>
  Admission keeps the page accounting: the lemmas on \<open>try_allocate_one\<close>, \<open>add_one_req\<close> and the loop
  of \<open>schedule_next_batch\<close> over a plain cache manager, in the context of the contract.  \<open>chunks\<close> are
  the requests behind the pending entries that wait for their next chunk; they hold pages too.
\<close>

lemma plain_admission_simps [simp]:
  "ad_page_size (plain_admission w ops) = page_size" "ad_available (plain_admission w ops) = cm_available_size ops"
  "ad_match (plain_admission w ops) tic ids mm s =
     res_bind (match_req ops tic ids mm s) (\<lambda>(h, s1). Inr (h, None, s1))"
  "ad_lock (plain_admission w ops) = cm_lock ops" "ad_unlock (plain_admission w ops) = cm_unlock ops"
  "ad_cached_len (plain_admission w ops) = op_cached_len ops"
  "ad_matched (plain_admission w ops) h s = op_indices ops h (pcache s)"
  "ad_row (plain_admission w ops) t s = page_table s t"
  "ad_set_row (plain_admission w ops) t row s = s\<lparr>page_table := (page_table s)(t := row)\<rparr>"
  "ad_is_hybrid (plain_admission w ops) = False" "ad_swa_paged (plain_admission w ops) = cm_swa_paged"
  by (simp_all add: plain_admission_def)

definition chunks :: "'h pending list \<Rightarrow> 'h req list" where
  "chunks ps = List.map_filter p_chunked ps"

lemma chunks_simps [simp]:
  "chunks [] = []" "chunks (p # ps) = (case p_chunked p of None \<Rightarrow> [] | Some c \<Rightarrow> [c]) @ chunks ps"
  "chunks (ps @ qs) = chunks ps @ chunks qs"
  by (simp_all add: chunks_def List.map_filter_def split: option.splits)

text \<open>The shape of a request that has just been admitted, and the rows of the tables.\<close>

definition fresh_req :: "('c, 'h) cache_ops \<Rightarrow> 'h pending \<Rightarrow> 'h \<Rightarrow> nat \<Rightarrow> 'h req \<Rightarrow> bool" where
  "fresh_req ops p h t r \<longleftrightarrow> r_handle r = h \<and> r_table_idx r = t \<and> r_cached_len r = op_cached_len ops h \<and>
     r_allocated_len r = op_cached_len ops h \<and> op_cached_len ops h \<le> length (r_input_ids r) \<and>
     r_input_ids r = take (length (r_input_ids r)) (p_input_ids p) \<and> r_mm r = p_mm p"

definition rows_ok :: "nat \<Rightarrow> ('c, 'x) cman_scheme \<Rightarrow> table_man \<Rightarrow> bool" where
  "rows_ok width s tm \<longleftrightarrow> (\<forall>t. length (page_table s t) = width \<and> length (token_pool tm t) = width)"

text \<open>A request that carries the first tokens of one of the prompts \<open>ps\<close>.\<close>

definition prefix_of :: "'h pending list \<Rightarrow> 'h req \<Rightarrow> bool" where
  "prefix_of ps r \<longleftrightarrow> r_device_len r = length (r_input_ids r) \<and>
     (\<exists>p\<in>set ps. r_uid r = p_uid p \<and> r_input_ids r = take (length (r_input_ids r)) (p_input_ids p) \<and>
        (r_chunked r \<longleftrightarrow> length (r_input_ids r) < input_len p))"

lemma prefix_of_Cons: "prefix_of ps r \<Longrightarrow> prefix_of (p # ps) r"
  by (auto simp: prefix_of_def)

text \<open>A pending request that can be admitted, and the tokens still reserved for started ones.\<close>

definition pend_ok :: "nat \<Rightarrow> 'h pending \<Rightarrow> bool" where
  "pend_ok width p \<longleftrightarrow> p_input_ids p \<noteq> [] \<and> input_len p \<le> width \<and> 0 \<le> output_len p \<and>
     (case p_chunked p of None \<Rightarrow> True
      | Some c \<Rightarrow> r_cached_len c < input_len p \<and> r_cached_len c \<le> r_allocated_len c \<and> r_mm c = p_mm p \<and>
          r_input_ids c = take (r_cached_len c) (p_input_ids p))"

definition same_pool :: "('c, 'x) cman_scheme \<Rightarrow> ('c, 'x) cman_scheme \<Rightarrow> bool" where
  "same_pool s s' \<longleftrightarrow> page_size s' = page_size s \<and> num_pages s' = num_pages s \<and> lazy_free_list s' = lazy_free_list s"

definition waiting :: "'h pending list \<Rightarrow> int" where
  "waiting ps = sum_list (map (\<lambda>p. case p_chunked p of None \<Rightarrow> 0 | Some c \<Rightarrow> reservation p (r_cached_len c)) ps)"

definition chunks_first :: "'h pending list \<Rightarrow> bool" where
  "chunks_first ps \<longleftrightarrow> (\<exists>xs ys. ps = xs @ ys \<and> (\<forall>p\<in>set xs. p_chunked p \<noteq> None) \<and> (\<forall>p\<in>set ys. p_chunked p = None))"

lemma chunks_first_Cons:
  "chunks_first (p # ps) \<Longrightarrow> chunks_first ps \<and> (p_chunked p = None \<longrightarrow> waiting ps = 0)"
proof -
  assume "chunks_first (p # ps)"
  then obtain xs ys where x: "p # ps = xs @ ys" "\<forall>p\<in>set xs. p_chunked p \<noteq> None" "\<forall>p\<in>set ys. p_chunked p = None"
    by (auto simp: chunks_first_def)
  have w: "waiting zs = 0" if "\<forall>p\<in>set zs. p_chunked p = None" for zs :: "'h pending list"
    using that by (induction zs) (simp_all add: waiting_def)
  show ?thesis
  proof (cases xs)
    case Nil
    then have n: "\<forall>q\<in>set ps. p_chunked q = None" using x by auto
    then have "chunks_first ps"
      unfolding chunks_first_def by (intro exI[of _ "[]"] exI[of _ ps]) simp
    then show ?thesis using w[OF n] by simp
  next
    case (Cons z zs)
    then show ?thesis using x by (auto simp: chunks_first_def)
  qed
qed

lemma waiting_nonneg: "\<forall>p\<in>set ps. pend_ok width p \<Longrightarrow> 0 \<le> waiting ps"
proof (induction ps)
  case (Cons p ps)
  then show ?case by (auto simp: waiting_def pend_ok_def reservation_def split: option.splits)
qed (simp add: waiting_def)

lemma no_chunks: "chunks ps = [] \<Longrightarrow> chunks_first ps \<and> waiting ps = 0"
proof -
  assume "chunks ps = []"
  then have n: "\<forall>p\<in>set ps. p_chunked p = None" by (induction ps) (auto split: option.splits)
  then have "chunks_first ps" unfolding chunks_first_def by (intro exI[of _ "[]"] exI[of _ ps]) simp
  moreover have "waiting ps = 0" using n by (induction ps) (simp_all add: waiting_def)
  ultimately show ?thesis ..
qed

lemma copy_into_ok: "pos + length vs \<le> length xs \<Longrightarrow> copy_into pos vs xs = Inr (put xs pos vs)"
  by (simp add: copy_into_def)

lemma set_tokens_ok:
  assumes "pos + length vs \<le> length (token_pool tm t)"
  shows "set_tokens t pos vs tm = Inr (tm\<lparr>token_pool := (token_pool tm)(t := put (token_pool tm t) pos vs)\<rparr>)"
  using assms by (simp add: set_tokens_def copy_into_ok)

lemma put_Nil [simp]: "put xs 0 [] = xs"
  by (simp add: put_def)

lemma table_ok_pool [simp]: "table_ok (tm\<lparr>token_pool := f\<rparr>) U = table_ok tm U"
  by (simp add: table_ok_def)

lemma ex_fresh_req:
  assumes "op_cached_len ops h \<le> length (p_input_ids p)"
  shows "\<exists>r. fresh_req ops p h t r"
  using assms
  by (intro exI[of _ "\<lparr>r_input_ids = p_input_ids p, r_table_idx = t, r_cached_len = op_cached_len ops h,
        r_output_len = 0, r_uid = 0, r_sampling = default_sampling, r_handle = h, r_mm = p_mm p,
        r_checkpoint_endpoints = [], r_linear_slot = None, r_ping_pong = None, r_next_track = 0,
        r_last_track = None, r_restore_src = None, r_swa_evicted = 0, r_decode_idx = 0, r_anchor = None,
        r_aborted = False, r_overadvanced = False, r_chunked = False, r_device_len = 0,
        r_allocated_len = op_cached_len ops h, r_max_device_len = 0, r_kv_end = 0\<rparr>"])
    (simp add: fresh_req_def)

text \<open>What \<open>add_one_req\<close> returns for a chunk of \<open>n\<close> tokens.\<close>

definition added_chunk ::
  "'h pending \<Rightarrow> 'h \<Rightarrow> nat \<Rightarrow> nat \<Rightarrow> nat option \<Rightarrow> adder \<Rightarrow> table_man \<Rightarrow> nat \<Rightarrow> 'h req \<Rightarrow> adder \<Rightarrow> table_man \<Rightarrow> bool"
where
  "added_chunk p h t cached allocated a tm n r a' tm' \<longleftrightarrow>
     0 < n \<and> int n \<le> token_budget a \<and> cached + n \<le> input_len p \<and>
     (r_chunked r \<longleftrightarrow> cached + n < input_len p) \<and> r_input_ids r = take (cached + n) (p_input_ids p) \<and>
     r_handle r = h \<and> r_table_idx r = t \<and> r_cached_len r = cached \<and> r_mm r = p_mm p \<and> r_uid r = p_uid p \<and>
     r_device_len r = cached + n \<and> int (r_max_device_len r) = int (cached + n) + output_len p \<and>
     r_allocated_len r = max cached (case allocated of None \<Rightarrow> 0 | Some l \<Rightarrow> l) \<and>
     a' = a\<lparr>token_budget := token_budget a - int n, reserved_size := reserved_size a + reservation p cached\<rparr> \<and>
     tm' = tm\<lparr>token_pool := (token_pool tm)(t := put (token_pool tm t) cached (slice cached (cached + n) (p_input_ids p)))\<rparr>"

lemma chunk_size_plain:
  assumes "\<not> ad_swa_paged ad m" "0 < token_budget a" "cached < input_len p"
  shows "\<exists>n::nat. chunk_size ad p h cached ev a m = Some (int n, 0) \<and> 0 < n \<and> int n \<le> token_budget a \<and>
     cached + n \<le> input_len p \<and> (p_mm p \<or> p_endpoints p = [] \<longrightarrow> int n = min (token_budget a) (int (input_len p) - int cached))"
proof -
  let ?c0 = "min (token_budget a) (int (input_len p) - int cached)"
  obtain c where c: "chunk_size ad p h cached ev a m = Some (c, 0)" "0 < c" "c \<le> ?c0"
    "p_mm p \<or> p_endpoints p = [] \<longrightarrow> c = ?c0"
  proof (cases "p_endpoints p \<noteq> [] \<and> \<not> p_mm p")
    case False
    then show ?thesis using assms by (intro that[of ?c0]) (auto simp: chunk_size_def Let_def)
  next
    case True
    show ?thesis
    proof (cases "find (\<lambda>n. cached < n) (p_endpoints p)")
      case None
      then show ?thesis using assms True by (intro that[of ?c0]) (auto simp: chunk_size_def Let_def)
    next
      case (Some b)
      then have "cached < b" by (auto simp: find_Some_iff)
      then show ?thesis using assms True Some
        by (intro that[of "min ?c0 (int b - int cached)"]) (auto simp: chunk_size_def Let_def)
    qed
  qed
  then show ?thesis by (intro exI[of _ "nat c"]) auto
qed

lemma add_one_req_law:
  assumes swa: "\<not> ad_swa_paged ad m" and budget: "0 < token_budget a" and len: "cached < input_len p"
    and out: "0 \<le> output_len p" and rows: "length (token_pool tm t) = width" "input_len p \<le> width"
  shows "if p_mm p \<and> token_budget a < int (input_len p) - int cached
     then add_one_req ad p h t cached live pp nt restore ev allocated a m tm =
       (if token_budget a < initial_token_budget a then Inr (None, a, tm) else Inl NotImplementedError)
     else \<exists>n r a' tm'. add_one_req ad p h t cached live pp nt restore ev allocated a m tm = Inr (Some r, a', tm') \<and>
       added_chunk p h t cached allocated a tm n r a' tm'"
proof (cases "p_mm p \<and> token_budget a < int (input_len p) - int cached")
  case True
  then show ?thesis by (simp add: add_one_req_def Let_def)
next
  case False
  obtain n :: nat where n: "chunk_size ad p h cached ev a m = Some (int n, 0)" "0 < n" "int n \<le> token_budget a"
    "cached + n \<le> input_len p" "p_mm p \<longrightarrow> int n = min (token_budget a) (int (input_len p) - int cached)"
    using chunk_size_plain[OF swa budget len, of h ev] by blast
  have nt: "nat (int cached + int n) = cached + n" by simp
  have mm: "\<not> (int n < int (input_len p) - int cached \<and> p_mm p)" using False n(5) by auto
  have l: "length (slice cached (cached + n) (p_input_ids p)) = n" "length (take (cached + n) (p_input_ids p)) = cached + n"
    using n(4) by (simp_all add: slice_def input_len_def)
  have "set_tokens t cached (slice cached (cached + n) (p_input_ids p)) tm =
      Inr (tm\<lparr>token_pool := (token_pool tm)(t := put (token_pool tm t) cached (slice cached (cached + n) (p_input_ids p)))\<rparr>)"
    using rows n(4) l(1) by (intro set_tokens_ok) simp
  moreover have "\<exists>r. mk_req (int n < int (input_len p) - int cached) (take (cached + n) (p_input_ids p)) t cached
      (output_len p) (p_uid p) h (p_sampling p) (p_mm p) = Inr r"
    using n(2) out l(2) by (simp add: mk_req_iff)
  then obtain r where r: "mk_req (int n < int (input_len p) - int cached) (take (cached + n) (p_input_ids p)) t cached
      (output_len p) (p_uid p) h (p_sampling p) (p_mm p) = Inr r" by blast
  moreover note mk_req_ok[OF r] l(2)
  moreover have "int (r_max_device_len r) = int (cached + n) + output_len p"
    using r l(2) out by (auto simp: mk_req_def res_bind_eq_Inr)
  ultimately show ?thesis
    using False n mm
    by (auto simp: add_one_req_def Let_def nt added_chunk_def split: option.splits)
qed

text \<open>Admission as a client of the cache manager.\<close>

locale prefill_client = cache_manager ops inv valid key val slots
  for ops :: "('c, 'h) cache_ops" and inv :: "nat \<Rightarrow> 'c \<Rightarrow> 'h multiset \<Rightarrow> bool"
    and valid :: "'c \<Rightarrow> 'h \<Rightarrow> bool" and key :: "'c \<Rightarrow> 'h \<Rightarrow> token list"
    and val :: "'c \<Rightarrow> 'h \<Rightarrow> slot list" and slots :: "'c \<Rightarrow> slot multiset"
begin

text \<open>What \<open>try_allocate_one\<close> leaves behind.\<close>

definition allocated_one ::
  "'h pending \<Rightarrow> adder \<Rightarrow> 'c cman \<Rightarrow> table_man \<Rightarrow> 'h req list \<Rightarrow> nat set \<Rightarrow>
   'h resource option \<Rightarrow> 'c cman \<Rightarrow> table_man \<Rightarrow> bool" where
  "allocated_one p a s tm R U got s' tm' \<longleftrightarrow>
     page_size s' = page_size s \<and> num_pages s' = num_pages s \<and> lazy_free_list s' = lazy_free_list s \<and>
     (case got of
        None \<Rightarrow> minv s' R \<and> tm' = tm \<and> page_table s' = page_table s \<and>
          cm_available_size ops s \<le> cm_available_size ops s'
      | Some (h, t, live, pp, restore) \<Rightarrow>
          live = None \<and> pp = None \<and> restore = None \<and> t \<notin> U \<and> t < max_running_reqs tm \<and>
          table_ok tm' (insert t U) \<and> max_running_reqs tm' = max_running_reqs tm \<and>
          op_cached_len ops h < input_len p \<and>
          (\<forall>r. fresh_req ops p h t r \<longrightarrow> minv s' (r # R)) \<and>
          reservation p (op_cached_len ops h) + reserved_size a \<le> cm_available_size ops s' \<and>
          (\<forall>s''. cm_unlock ops h s' = Inr s'' \<longrightarrow> cm_available_size ops s'' = cm_available_size ops s) \<and>
          (\<forall>u. u \<noteq> t \<longrightarrow> page_table s' u = page_table s u \<and> token_pool tm' u = token_pool tm u) \<and>
          take (op_cached_len ops h) (token_pool tm' t) = take (op_cached_len ops h) (p_input_ids p))"

lemma unlock_after_lock:
  assumes m: "minv s R" and v: "valid (pcache s) h"
  shows "\<exists>s1 s2. cm_lock ops h s = Inr s1 \<and> cm_unlock ops h s1 = Inr s2 \<and> minv s2 R \<and>
     page_table s2 = page_table s \<and> page_size s2 = page_size s \<and> num_pages s2 = num_pages s \<and>
     lazy_free_list s2 = lazy_free_list s \<and> free_slots s2 = free_slots s \<and> s1 = s\<lparr>pcache := pcache s1\<rparr> \<and>
     cm_available_size ops s2 = cm_available_size ops s"
proof -
  note D = minvD[OF m]
  obtain c where c: "op_lock ops h False (pcache s) = Inr c" "inv (page_size s) c (add_mset h (mset (map r_handle R)))"
    "slots c = slots (pcache s)"
    "\<forall>g. valid (pcache s) g \<longrightarrow> valid c g \<and> key c g = key (pcache s) g \<and> val c g = val (pcache s) g"
    using lock_law[OF D(1) v] by blast
  obtain c' where c': "op_lock ops h True c = Inr c'" "inv (page_size s) c' (mset (map r_handle R))"
    "slots c' = slots c" "\<forall>g. valid c g \<longrightarrow> valid c' g \<and> key c' g = key c g \<and> val c' g = val c g"
    using unlock_law[OF c(2)] by blast
  have "op_size_info ops c' = op_size_info ops (pcache s)" using lock_unlock[OF D(1) v c(1) c'(1)] .
  moreover have "req_mem ops key val (page_size s) c' (page_table s) r" if "r \<in> set R" for r
    using req_mem_same[OF D(4)[OF that], of c' "page_table s"] c(4) c'(4) held[OF D(1), of "r_handle r"] that by simp
  then have "minv (s\<lparr>pcache := c'\<rparr>) R" using D c'(2,3) c(3) by (simp add: cm_inv_def cm_swa_paged_def)
  ultimately show ?thesis using c(1) c'(1)
    by (intro exI[of _ "s\<lparr>pcache := c\<rparr>"] exI[of _ "s\<lparr>pcache := c'\<rparr>"])
      (simp add: cm_lock_def cm_unlock_def with_cache_def cm_available_size_def)
qed

lemma allocated_none:
  assumes "minv s' R" "page_table s' = page_table s" "page_size s' = page_size s" "num_pages s' = num_pages s"
    "lazy_free_list s' = lazy_free_list s" "cm_available_size ops s \<le> cm_available_size ops s'"
  shows "allocated_one p a s tm R U None s' tm"
  using assms by (simp add: allocated_one_def)

lemma try_allocate_one_law:
  assumes m: "minv s R" and ids: "p_input_ids p \<noteq> []" and rows: "rows_ok width s tm" "input_len p \<le> width"
    and tm: "table_ok tm U" "r_table_idx ` set R \<subseteq> U"
  shows "\<exists>got s' tm'. try_allocate_one (plain_admission w ops) tic p a s tm = Inr (got, s', tm') \<and>
     allocated_one p a s tm R U got s' tm' \<and> rows_ok width s' tm'"
proof (cases "tm_available tm = 0")
  case True
  then show ?thesis
    using allocated_none[OF m, of s p a tm U] rows
    by (intro exI[of _ None] exI[of _ s] exI[of _ tm]) (simp add: try_allocate_one_def)
next
  case False
  obtain h s1 where h: "match_req ops tic (p_input_ids p) (p_mm p) s = Inr (h, s1)" "minv s1 R" "valid (pcache s1) h"
    "cm_available_size ops s1 = cm_available_size ops s" "page_table s1 = page_table s" "page_size s1 = page_size s"
    "num_pages s1 = num_pages s" "lazy_free_list s1 = lazy_free_list s" "op_cached_len ops h < length (p_input_ids p)"
    "p_mm p \<longrightarrow> op_cached_len ops h = 0" "key (pcache s1) h = take (op_cached_len ops h) (p_input_ids p)"
    using minv_match[OF m ids, of tic "p_mm p"] by blast
  let ?c = "op_cached_len ops h" and ?need = "reservation p (op_cached_len ops h) + reserved_size a"
  have rows1: "rows_ok width s1 tm" using rows(1) h(5) by (simp add: rows_ok_def)
  obtain s2 s3 where u: "cm_lock ops h s1 = Inr s2" "cm_unlock ops h s2 = Inr s3" "minv s3 R"
    "page_table s3 = page_table s1" "page_size s3 = page_size s1" "num_pages s3 = num_pages s1"
    "lazy_free_list s3 = lazy_free_list s1" "s2 = s1\<lparr>pcache := pcache s2\<rparr>"
    "cm_available_size ops s3 = cm_available_size ops s1"
    using unlock_after_lock[OF h(2,3)] by blast
  have s2: "page_table s2 = page_table s" "page_size s2 = page_size s" "num_pages s2 = num_pages s"
    "lazy_free_list s2 = lazy_free_list s" "swa s2 = swa s1"
    using u(8) h(5-8) by (metis cman.select_convs(4,5,3,7,6) cman.surjective cman.update_convs(2))+
  have nosw: "\<not> cm_swa_paged s2" using minvD(2)[OF h(2)] s2(5) by (simp add: cm_swa_paged_def)
  consider (less) "cm_available_size ops s1 < ?need"
    | (locked) "?need \<le> cm_available_size ops s1" "cm_available_size ops s2 < ?need"
    | (go) "?need \<le> cm_available_size ops s1" "?need \<le> cm_available_size ops s2" by linarith
  then show ?thesis
  proof cases
    case less
    then show ?thesis
      using False h rows1 allocated_none[OF h(2) h(5-8), of p a tm U]
      by (intro exI[of _ None] exI[of _ s1] exI[of _ tm]) (simp add: try_allocate_one_def Let_def)
  next
    case locked
    then show ?thesis
      using False h u rows1 allocated_none[OF u(3), of s p a tm U]
      by (intro exI[of _ None] exI[of _ s3] exI[of _ tm])
        (simp add: try_allocate_one_def Let_def rows_ok_def)
  next
    case go
    have "card U < max_running_reqs tm" using False tm_available_ok[OF tm(1)] by simp
    then obtain t tm1 where t: "tm_allocate tm = Inr (t, tm1)" "t \<notin> U" "t < max_running_reqs tm"
      "table_ok tm1 (insert t U)" "max_running_reqs tm1 = max_running_reqs tm" "token_pool tm1 = token_pool tm"
      using tm_allocate_ok[OF tm(1)] by blast
    let ?row = "put (page_table s t) 0 (val (pcache s1) h)"
    let ?toks = "put (token_pool tm t) 0 (take ?c (p_input_ids p))"
    let ?s' = "s2\<lparr>page_table := (page_table s2)(t := ?row)\<rparr>"
    let ?tm' = "tm1\<lparr>token_pool := (token_pool tm1)(t := ?toks)\<rparr>"
    have admit: "minv ?s' (r # R) \<and> val (pcache s2) h = val (pcache s1) h \<and> valid (pcache s2) h"
      if "fresh_req ops p h t r" for r
    proof -
      have c: "?c \<le> length (r_input_ids r)" "?c \<le> width"
        using that h(9) rows(2) by (auto simp: fresh_req_def input_len_def)
      have "take ?c (r_input_ids r) = take ?c (take (length (r_input_ids r)) (p_input_ids p))"
        using that by (metis fresh_req_def)
      then have "key (pcache s1) h = take ?c (r_input_ids r)" using h(11) c(1) by (simp add: min_absorb1)
      then show ?thesis
        using minv_admit[OF h(2), of r] h(3,10) that tm(2) t(2) c rows1 u(1) s2(1) h(5)
        by (auto simp: fresh_req_def rows_ok_def)
    qed
    obtain ch where ch: "fresh_req ops p h t ch" using ex_fresh_req[of ops h p t] h(9) by auto
    have cl: "length (val (pcache s1) h) = ?c" using lengths[OF minvD(1)[OF h(2)] h(3)] by simp
    have le: "?c \<le> width" "?c \<le> length (p_input_ids p)" using h(9) rows(2) by (simp_all add: input_len_def)
    have len: "length ?row = width" "length ?toks = width" "take ?c ?toks = take ?c (p_input_ids p)"
      using rows(1) cl le by (simp_all add: rows_ok_def put_def)
    have toks: "(if 0 < ?c then set_tokens t 0 (take ?c (p_input_ids p)) tm1 else Inr tm1) = Inr ?tm'"
      using set_tokens_ok[of 0 "take ?c (p_input_ids p)" tm1 t] le rows(1) t(6)
      by (auto simp: rows_ok_def)
    have mem: "op_indices ops h (pcache s2) = Inr (val (pcache s1) h)" if "0 < ?c"
    proof -
      obtain H where "inv (page_size s) (pcache s2) H"
        using minvD(1)[OF conjunct1[OF admit[OF ch]]] s2(2) by auto
      then show ?thesis using indices[of _ "pcache s2" H h] admit[OF ch] that by simp
    qed
    have row: "(if 0 < ?c then res_bind (op_indices ops h (pcache s2)) (\<lambda>matched.
        res_bind (copy_into (?c - length matched) matched (page_table s2 t)) (\<lambda>row.
          Inr (s2\<lparr>page_table := (page_table s2)(t := row)\<rparr>))) else Inr s2) = Inr ?s'"
      using mem cl le rows(1) s2(1) by (auto simp: copy_into_ok rows_ok_def)
    have run: "try_allocate_one (plain_admission w ops) tic p a s tm = Inr (Some (h, t, None, None, None), ?s', ?tm')"
      using False h(1) go u(1) nosw t(1) toks row
      by (cases "0 < ?c") (simp_all add: try_allocate_one_def Let_def)
    have un: "cm_available_size ops s'' = cm_available_size ops s" if "cm_unlock ops h ?s' = Inr s''" for s''
    proof -
      obtain c' where c': "op_lock ops h True (pcache s2) = Inr c'" "s3 = s2\<lparr>pcache := c'\<rparr>"
        using u(2) by (auto simp: cm_unlock_def with_cache_def res_bind_eq_Inr)
      then have "s'' = ?s'\<lparr>pcache := c'\<rparr>" using that by (simp add: cm_unlock_def with_cache_def)
      then show ?thesis using u(9) h(4) c'(2) by (simp add: cm_available_size_def)
    qed
    have "rows_ok width ?s' ?tm'" using rows(1) len s2(1) t(6) by (simp add: rows_ok_def)
    moreover have "allocated_one p a s tm R U (Some (h, t, None, None, None)) ?s' ?tm'"
      using s2 t admit h(9) go(2) len(3) un
      by (simp add: allocated_one_def input_len_def cm_available_size_def[of ops "s2\<lparr>page_table := f\<rparr>" for f]
          cm_available_size_def[of ops s2])
    ultimately show ?thesis using run by blast
  qed
qed

lemma minv_unadmit:
  assumes m: "minv s (r # R)" and own: "own s r = []"
  shows "\<exists>s'. cm_unlock ops (r_handle r) s = Inr s' \<and> minv s' R \<and> page_table s' = page_table s \<and>
     page_size s' = page_size s \<and> num_pages s' = num_pages s \<and> lazy_free_list s' = lazy_free_list s"
proof -
  note D = minvD[OF m]
  obtain c where c: "op_lock ops (r_handle r) True (pcache s) = Inr c" "inv (page_size s) c (mset (map r_handle R))"
    "slots c = slots (pcache s)"
    "\<forall>g. valid (pcache s) g \<longrightarrow> valid c g \<and> key c g = key (pcache s) g \<and> val c g = val (pcache s) g"
    using unlock_law[of "page_size s" "pcache s" "r_handle r" "mset (map r_handle R)"] D(1) by auto
  have "req_mem ops key val (page_size s) c (page_table s) x" if x: "x \<in> set R" for x
    using req_mem_same[OF D(4)[of x], of c "page_table s"] c(4) held[OF D(1), of "r_handle x"] x by simp
  then have "minv (s\<lparr>pcache := c\<rparr>) R" using D own c(2,3) by (simp add: cm_inv_def cm_swa_paged_def)
  then show ?thesis using c(1) by (intro exI[of _ "s\<lparr>pcache := c\<rparr>"]) (simp add: cm_unlock_def with_cache_def)
qed

lemma fresh_own:
  assumes m: "minv s (r # R)" and f: "fresh_req ops p h t r"
  shows "own s r = []"
proof -
  note D = minvD[OF m]
  have "page_size s dvd r_cached_len r"
    using lengths[OF D(1) held[OF D(1), of "r_handle r"]] f by (simp add: fresh_req_def)
  then have "owned_end (page_size s) r = r_cached_len r"
    using align_ceil_id[of "page_size s" "r_cached_len r"] D(7) f by (simp add: fresh_req_def owned_end_def align_ceil_def)
  then show ?thesis using f by (simp add: owned_row_def fresh_req_def)
qed

text \<open>One step of the loop.\<close>

definition step_added ::
  "'h pending \<Rightarrow> adder \<Rightarrow> 'c cman \<Rightarrow> 'h req list \<Rightarrow> 'h req \<Rightarrow> adder \<Rightarrow> 'c cman \<Rightarrow> table_man \<Rightarrow> bool" where
  "step_added p a s R r a' s' tm' \<longleftrightarrow>
     minv s' (r # R) \<and> table_ok tm' (r_table_idx ` set (r # R)) \<and>
     0 < extend_len r \<and> token_budget a' + extend_len r = token_budget a \<and> 0 \<le> token_budget a' \<and>
     reserved_size a' = reserved_size a + reservation p (r_cached_len r) \<and>
     extend_len r \<le> reservation p (r_cached_len r) \<and> r_uid r = p_uid p \<and>
     initial_token_budget a' = initial_token_budget a \<and>
     (r_chunked r \<longleftrightarrow> length (r_input_ids r) < input_len p) \<and> r_device_len r = length (r_input_ids r) \<and>
     r_input_ids r = take (length (r_input_ids r)) (p_input_ids p) \<and> r_mm r = p_mm p \<and>
     r_cached_len r \<le> r_allocated_len r \<and>
     (p_chunked p = None \<longrightarrow> reserved_size a' \<le> cm_available_size ops s') \<and>
     (\<forall>c. p_chunked p = Some c \<longrightarrow> s' = s \<and> r_table_idx r = r_table_idx c \<and> r_cached_len r = r_cached_len c \<and>
        r_handle r = r_handle c)"

lemma extend_len_le_reservation:
  assumes "added_chunk p h t cached allocated a tm n r a' tm'" "0 \<le> output_len p"
  shows "0 < extend_len r" "extend_len r = int n" "extend_len r \<le> reservation p (r_cached_len r)"
  using assms by (auto simp: added_chunk_def extend_len_def reservation_def)

lemma added_rows:
  assumes "added_chunk p h t cached allocated a tm n r a' tm'" "rows_ok width s tm" "input_len p \<le> width"
  shows "rows_ok width s tm'"
proof -
  have "length (slice cached (cached + n) (p_input_ids p)) = n"
    using assms(1) by (simp add: added_chunk_def slice_def input_len_def)
  moreover have "cached + n \<le> width" using assms(1,3) by (simp add: added_chunk_def)
  ultimately show ?thesis using assms(1,2) by (simp add: added_chunk_def rows_ok_def)
qed

lemma step_addedI:
  assumes ad: "added_chunk p h t cached allocated a tm n r a' tm'" and out: "0 \<le> output_len p"
    and "minv s' (r # R)" "table_ok tm (insert t (r_table_idx ` set R))"
    and "p_chunked p = None \<Longrightarrow> reserved_size a + reservation p cached \<le> cm_available_size ops s'"
    and "\<And>c. p_chunked p = Some c \<Longrightarrow> s' = s \<and> t = r_table_idx c \<and> cached = r_cached_len c \<and> h = r_handle c"
  shows "step_added p a s R r a' s' tm'"
proof -
  have "length (r_input_ids r) = cached + n" "r_input_ids r = take (cached + n) (p_input_ids p)"
    using ad by (simp_all add: added_chunk_def input_len_def)
  then show ?thesis
    using assms extend_len_le_reservation[OF ad out]
    by (auto simp: step_added_def added_chunk_def)
qed

lemma fresh_added:
  assumes "added_chunk p h t (op_cached_len ops h) None a tm n r a' tm'"
  shows "fresh_req ops p h t r"
  using assms by (auto simp: added_chunk_def fresh_req_def input_len_def)

lemma continue_added:
  assumes m: "minv s (c # R)" and p: "pend_ok width p" "p_chunked p = Some c"
    and ad: "added_chunk p (r_handle c) (r_table_idx c) (r_cached_len c) (Some (r_allocated_len c)) a tm n r a' tm'"
  shows "minv s (r # R)"
proof (rule minv_advance[OF m])
  have c: "r_cached_len c \<le> r_allocated_len c" "r_mm c = p_mm p"
    "r_input_ids c = take (r_cached_len c) (p_input_ids p)" "r_cached_len c < input_len p"
    using p by (simp_all add: pend_ok_def)
  have r: "r_handle r = r_handle c" "r_table_idx r = r_table_idx c" "r_mm r = p_mm p" "r_cached_len r = r_cached_len c"
    "r_allocated_len r = max (r_cached_len c) (r_allocated_len c)" "r_input_ids r = take (r_cached_len c + n) (p_input_ids p)"
    "length (r_input_ids r) = r_cached_len c + n"
    using ad by (simp_all add: added_chunk_def input_len_def)
  show "r_handle r = r_handle c" "r_table_idx r = r_table_idx c" "r_mm r = r_mm c"
    "r_allocated_len r = r_allocated_len c" "r_cached_len c \<le> r_cached_len r"
    "r_cached_len r \<le> max (r_cached_len c) (r_allocated_len c)" "r_cached_len r \<le> length (r_input_ids r)"
    using c r by simp_all
  show "take (length (r_input_ids c)) (r_input_ids r) = r_input_ids c"
    using r(6) c(3,4) by (simp add: input_len_def min_absorb1 min_absorb2)
qed

lemma try_add_one_law:
  assumes m: "minv s (chunks [p] @ R)" and p: "pend_ok width p" and rows: "rows_ok width s tm"
    and tm: "table_ok tm (r_table_idx ` set (chunks [p] @ R))"
    and ab: "token_budget a \<le> initial_token_budget a"
  shows "(p_mm p \<and> initial_token_budget a < int (input_len p) \<and>
       try_add_one (plain_admission w ops) tic p a s tm = Inl NotImplementedError) \<or>
     (\<exists>got a' s' tm'. try_add_one (plain_admission w ops) tic p a s tm = Inr (got, a', s', tm') \<and>
       rows_ok width s' tm' \<and> same_pool s s' \<and>
       (case got of
          None \<Rightarrow> minv s' (chunks [p] @ R) \<and> table_ok tm' (r_table_idx ` set (chunks [p] @ R)) \<and> a' = a \<and>
            cm_available_size ops s \<le> cm_available_size ops s'
        | Some r \<Rightarrow> step_added p a s R r a' s' tm'))" (is "?err \<or> ?ok")
proof (cases "token_budget a \<le> 0")
  case True
  then show ?thesis using m rows tm by (simp add: try_add_one_def same_pool_def)
next
  case False
  let ?ad = "plain_admission w ops"
  note D = minvD[OF m]
  have budget: "0 < token_budget a" and ids: "p_input_ids p \<noteq> []" and width: "input_len p \<le> width"
    and out: "0 \<le> output_len p" using False p by (simp_all add: pend_ok_def)
  show ?thesis
  proof (cases "p_chunked p")
    case (Some c)
    have c: "r_cached_len c < input_len p" using p Some by (simp add: pend_ok_def)
    have rl: "length (token_pool tm (r_table_idx c)) = width" using rows by (simp add: rows_ok_def)
    have nosw: "\<not> ad_swa_paged ?ad s" using D(2) by simp
    have mm: "\<not> (p_mm p \<and> token_budget a < int (input_len p) - int (r_cached_len c)) \<or> p_mm p" by blast
    note L = add_one_req_law[OF nosw budget c out rl width, of "r_handle c" "r_linear_slot c" "r_ping_pong c"
        "r_next_track c" None "r_swa_evicted c" "Some (r_allocated_len c)"]
    show ?thesis
    proof (cases "p_mm p \<and> token_budget a < int (input_len p) - int (r_cached_len c)")
      case True
      then show ?thesis using L ab False Some m rows tm
        by (auto simp: try_add_one_def same_pool_def)
    next
      case nmm: False
      obtain n r a' tm' where n: "add_one_req ?ad p (r_handle c) (r_table_idx c) (r_cached_len c) (r_linear_slot c)
          (r_ping_pong c) (r_next_track c) None (r_swa_evicted c) (Some (r_allocated_len c)) a s tm = Inr (Some r, a', tm')"
        "added_chunk p (r_handle c) (r_table_idx c) (r_cached_len c) (Some (r_allocated_len c)) a tm n r a' tm'"
        using L nmm by (auto split: if_splits)
      have "minv s (r # R)" using continue_added[OF _ p Some n(2)] m Some by simp
      moreover have "table_ok tm (insert (r_table_idx c) (r_table_idx ` set R))" using tm Some by simp
      ultimately have "step_added p a s R r a' s tm'" using Some by (intro step_addedI[OF n(2) out]) simp_all
      then show ?thesis
        using n(1) False Some added_rows[OF n(2) rows width]
        by (auto simp: try_add_one_def same_pool_def)
    qed
  next
    case None
    have mR: "minv s R" "table_ok tm (r_table_idx ` set R)" using m tm None by simp_all
    obtain got s1 tm1 where g: "try_allocate_one ?ad tic p a s tm = Inr (got, s1, tm1)"
      "allocated_one p a s tm R (r_table_idx ` set R) got s1 tm1" "rows_ok width s1 tm1"
      using try_allocate_one_law[OF mR(1) ids rows width mR(2) order_refl, where tic = tic and a = a] by blast
    show ?thesis
    proof (cases got)
      case got: None
      then show ?thesis using g False None mR(2)
        by (auto simp: try_add_one_def allocated_one_def same_pool_def)
    next
      case (Some res)
      obtain h t where res: "res = (h, t, None, None, None)"
        using g(2) Some by (auto simp: allocated_one_def)
      let ?c = "op_cached_len ops h"
      have A: "same_pool s s1" "t \<notin> r_table_idx ` set R" "table_ok tm1 (insert t (r_table_idx ` set R))"
        "?c < input_len p" "\<And>r. fresh_req ops p h t r \<Longrightarrow> minv s1 (r # R)"
        "reservation p ?c + reserved_size a \<le> cm_available_size ops s1"
        "\<And>s''. cm_unlock ops h s1 = Inr s'' \<Longrightarrow> cm_available_size ops s'' = cm_available_size ops s"
        using g(2) Some by (simp_all add: allocated_one_def res same_pool_def)
      obtain ch where ch: "fresh_req ops p h t ch"
        using ex_fresh_req[of ops h p t] A(4) by (auto simp: input_len_def)
      note m1 = A(5)[OF ch]
      have rl: "length (token_pool tm1 t) = width" using g(3) by (simp add: rows_ok_def)
      have nosw: "\<not> ad_swa_paged ?ad s1" using minvD(2)[OF m1] by simp
      note L = add_one_req_law[OF nosw budget A(4) out rl width, of h None None 0 None 0 None]
      show ?thesis
      proof (cases "p_mm p \<and> token_budget a < int (input_len p) - int ?c")
        case True
        obtain s2 where s2: "cm_unlock ops h s1 = Inr s2" "minv s2 R" "page_table s2 = page_table s1"
          "page_size s2 = page_size s1" "num_pages s2 = num_pages s1" "lazy_free_list s2 = lazy_free_list s1"
          using minv_unadmit[OF m1 fresh_own[OF m1 ch]] ch by (auto simp: fresh_req_def)
        have "table_ok (tm_release t tm1) (r_table_idx ` set R)"
          using tm_release_ok[OF A(3), of t] A(2) by simp
        moreover have "rows_ok width s2 (tm_release t tm1)"
          using g(3) s2(3) by (simp add: rows_ok_def tm_release_def)
        ultimately show ?thesis
          using L True ab g(1) Some res False None s2 A(1,7)
          by (auto simp: try_add_one_def same_pool_def)
      next
        case nmm: False
        obtain n r a' tm' where n: "add_one_req ?ad p h t ?c None None 0 None 0 None a s1 tm1 = Inr (Some r, a', tm')"
          "added_chunk p h t ?c None a tm1 n r a' tm'"
          using L nmm by (auto split: if_splits)
        have "step_added p a s R r a' s1 tm'"
          using A(3,5,6) fresh_added[OF n(2)] None
          by (intro step_addedI[OF n(2) out]) (simp_all add: add.commute)
        then show ?thesis
          using n(1) g(1) Some res False None A(1) added_rows[OF n(2) g(3) width]
          by (auto simp: try_add_one_def)
      qed
    qed
  qed
qed

text \<open>The loop.  \<open>Q\<close> are the requests it adds and \<open>rest\<close> the entries it leaves.\<close>

definition loop_done ::
  "'h pending list \<Rightarrow> adder \<Rightarrow> 'c cman \<Rightarrow> 'h req list \<Rightarrow> 'h prefill_acc \<Rightarrow> 'h prefill_acc \<Rightarrow> adder \<Rightarrow> 'c cman \<Rightarrow>
   table_man \<Rightarrow> 'h req list \<Rightarrow> 'h pending list \<Rightarrow> 'h pending list \<Rightarrow> bool" where
  "loop_done ps a s R acc acc' a' s' tm' Q new rest \<longleftrightarrow>
     pa_reqs acc' = pa_reqs acc @ Q \<and> pa_chunked acc' = pa_chunked acc @ new \<and>
     pa_remaining acc' = pa_remaining acc @ rest \<and> (\<exists>done. ps = done @ rest \<and> length Q = length done) \<and>
     chunks new = filter r_chunked Q \<and> length new = length (chunks new) \<and>
     minv s' (Q @ chunks rest @ R) \<and> table_ok tm' (r_table_idx ` set (Q @ chunks rest @ R)) \<and> same_pool s s' \<and>
     (\<forall>r\<in>set Q. 0 < extend_len r \<and> r_cached_len r \<le> r_allocated_len r \<and> prefix_of ps r) \<and>
     sum_list (map extend_len Q) + token_budget a' = token_budget a \<and> (Q \<noteq> [] \<longrightarrow> 0 \<le> token_budget a') \<and>
     sum_list (map extend_len Q) \<le> reserved_size a' - reserved_size a \<and>
     (Q = [] \<longrightarrow> a' = a) \<and> pa_new acc' = pa_new acc + sum_list (map extend_len Q)"

definition capacity :: "'h pending list \<Rightarrow> adder \<Rightarrow> 'c cman \<Rightarrow> adder \<Rightarrow> 'c cman \<Rightarrow> 'h req list \<Rightarrow> bool" where
  "capacity ps a s a' s' Q \<longleftrightarrow>
     (chunks_first ps \<and> (reserved_size a + waiting ps \<le> cm_available_size ops s \<or> waiting ps = 0 \<and> chunks ps = [] \<and> Q \<noteq> []) \<longrightarrow>
        reserved_size a' \<le> cm_available_size ops s')"

lemma prefill_loop_law:
  assumes "minv s (chunks ps @ R)" "\<forall>p\<in>set ps. pend_ok width p" "rows_ok width s tm"
    "table_ok tm (r_table_idx ` set (chunks ps @ R))" "token_budget a \<le> initial_token_budget a"
  shows "((\<exists>p\<in>set ps. p_mm p \<and> initial_token_budget a < int (input_len p)) \<and>
       prefill_loop (plain_admission w ops) tic ps a s tm acc = Inl NotImplementedError) \<or>
     (\<exists>acc' a' s' tm' Q new rest. prefill_loop (plain_admission w ops) tic ps a s tm acc = Inr (acc', a', s', tm') \<and>
       loop_done ps a s R acc acc' a' s' tm' Q new rest \<and> rows_ok width s' tm' \<and> capacity ps a s a' s' Q)"
  using assms
proof (induction ps arbitrary: a s tm R acc)
  case Nil
  then show ?case
    by (intro disjI2 exI[of _ acc] exI[of _ a] exI[of _ s] exI[of _ tm] exI[of _ "[]"] exI[of _ "[]"] exI[of _ "[]"])
      (simp add: loop_done_def capacity_def waiting_def same_pool_def)
next
  case (Cons p ps)
  let ?ad = "plain_admission w ops"
  have m: "minv s (chunks [p] @ (chunks ps @ R))" and pk: "pend_ok width p"
    and tm: "table_ok tm (r_table_idx ` set (chunks [p] @ (chunks ps @ R)))"
    using Cons.prems by simp_all
  consider (err) "p_mm p" "initial_token_budget a < int (input_len p)"
      "try_add_one ?ad tic p a s tm = Inl NotImplementedError"
    | (none) s1 tm1 where "try_add_one ?ad tic p a s tm = Inr (None, a, s1, tm1)" "rows_ok width s1 tm1" "same_pool s s1"
      "minv s1 (chunks [p] @ (chunks ps @ R))" "table_ok tm1 (r_table_idx ` set (chunks [p] @ (chunks ps @ R)))"
      "cm_available_size ops s \<le> cm_available_size ops s1"
    | (some) r a1 s1 tm1 where "try_add_one ?ad tic p a s tm = Inr (Some r, a1, s1, tm1)" "rows_ok width s1 tm1"
      "same_pool s s1" "step_added p a s (chunks ps @ R) r a1 s1 tm1"
  proof -
    from try_add_one_law[OF m pk Cons.prems(3) tm Cons.prems(5), of w tic]
    show thesis
    proof (elim disjE exE conjE)
      fix got a' s' tm'
      assume g: "try_add_one ?ad tic p a s tm = Inr (got, a', s', tm')" "rows_ok width s' tm'" "same_pool s s'"
        "case got of None \<Rightarrow> minv s' (chunks [p] @ (chunks ps @ R)) \<and>
            table_ok tm' (r_table_idx ` set (chunks [p] @ (chunks ps @ R))) \<and> a' = a \<and>
            cm_available_size ops s \<le> cm_available_size ops s'
          | Some r \<Rightarrow> step_added p a s (chunks ps @ R) r a' s' tm'"
      show thesis
      proof (cases got)
        case None
        then show thesis using g that(2) by simp
      next
        case (Some r)
        then show thesis using g that(3) by simp
      qed
    qed (rule that(1))
  qed
  then show ?case
  proof cases
    case err
    then show ?thesis by auto
  next
    case none
    let ?acc = "acc\<lparr>pa_remaining := pa_remaining acc @ p # ps\<rparr>"
    have "loop_done (p # ps) a s R acc ?acc a s1 tm1 [] [] (p # ps)"
      using none by (simp add: loop_done_def)
    moreover have "capacity (p # ps) a s a s1 []"
      using none(6) waiting_nonneg[OF Cons.prems(2)] by (auto simp: capacity_def)
    ultimately show ?thesis using none(1,2)
      by (intro disjI2 exI[of _ ?acc] exI[of _ a] exI[of _ s1] exI[of _ tm1] exI[of _ "[]"] exI[of _ "[]"]
          exI[of _ "p # ps"]) simp
  next
    case some
    let ?n = "if r_chunked r then [p\<lparr>p_chunked := Some r\<rparr>] else []"
    let ?acc = "acc\<lparr>pa_reqs := pa_reqs acc @ [r], pa_chunked := pa_chunked acc @ ?n,
      pa_admissions := pa_admissions acc @ (if p_chunked p = None then [(r_uid r, input_len p, r_cached_len r)] else []),
      pa_new := pa_new acc + extend_len r,
      pa_cached := pa_cached acc + (if p_chunked p = None then int (r_cached_len r) else 0)\<rparr>"
    note S = some(4)[unfolded step_added_def]
    have run: "prefill_loop ?ad tic (p # ps) a s tm acc = prefill_loop ?ad tic ps a1 s1 tm1 ?acc"
      using some(1) by (simp add: Let_def)
    have perm: "mset (r # (chunks ps @ R)) = mset (chunks ps @ (r # R))" by simp
    have m1: "minv s1 (chunks ps @ (r # R))" using S minv_perm[OF perm] by blast
    have t1: "table_ok tm1 (r_table_idx ` set (chunks ps @ (r # R)))" using S by simp
    have b1: "token_budget a1 \<le> initial_token_budget a1" using S Cons.prems(5) by linarith
    have pks: "\<forall>p\<in>set ps. pend_ok width p" using Cons.prems(2) by simp
    from Cons.IH[OF m1 pks some(2) t1 b1, of ?acc]
    consider (err) "\<exists>p\<in>set ps. p_mm p \<and> initial_token_budget a < int (input_len p)"
        "prefill_loop ?ad tic ps a1 s1 tm1 ?acc = Inl NotImplementedError"
      | (ok) acc' a' s' tm' Q new rest where "prefill_loop ?ad tic ps a1 s1 tm1 ?acc = Inr (acc', a', s', tm')"
        "loop_done ps a1 s1 (r # R) ?acc acc' a' s' tm' Q new rest" "rows_ok width s' tm'" "capacity ps a1 s1 a' s' Q"
      using S by auto
    then show ?thesis
    proof cases
      case err
      then show ?thesis using run by auto
    next
      case ok
      note L = ok(2)[unfolded loop_done_def]
      have L1: "pa_reqs acc' = pa_reqs acc @ r # Q" "pa_chunked acc' = pa_chunked acc @ ?n @ new"
        "pa_remaining acc' = pa_remaining acc @ rest" "pa_new acc' = pa_new acc + (extend_len r + sum_list (map extend_len Q))"
        using L by simp_all
      have L2: "chunks new = filter r_chunked Q" "length new = length (chunks new)" using L by simp_all
      have L3: "minv s' (Q @ chunks rest @ (r # R))" "table_ok tm' (r_table_idx ` set (Q @ chunks rest @ (r # R)))"
        "same_pool s1 s'" using L by simp_all
      have L4: "\<forall>r\<in>set Q. 0 < extend_len r \<and> r_cached_len r \<le> r_allocated_len r \<and> prefix_of ps r"
        using L by blast
      have L5: "sum_list (map extend_len Q) + token_budget a' = token_budget a1" "Q \<noteq> [] \<longrightarrow> 0 \<le> token_budget a'"
        "sum_list (map extend_len Q) \<le> reserved_size a' - reserved_size a1" "Q = [] \<longrightarrow> a' = a1" using L by simp_all
      have S1: "0 < extend_len r" "token_budget a1 + extend_len r = token_budget a" "0 \<le> token_budget a1"
        "reserved_size a1 = reserved_size a + reservation p (r_cached_len r)"
        "extend_len r \<le> reservation p (r_cached_len r)" "r_cached_len r \<le> r_allocated_len r"
        "r_device_len r = length (r_input_ids r)" using S by simp_all
      have S2: "prefix_of (p # ps) r" using S by (auto simp: prefix_of_def)
      obtain dn where dn: "ps = dn @ rest" "length Q = length dn" using L by blast
      have perm': "mset (Q @ chunks rest @ (r # R)) = mset ((r # Q) @ chunks rest @ R)" by simp
      have dl: "loop_done (p # ps) a s R acc acc' a' s' tm' (r # Q) (?n @ new) rest"
        unfolding loop_done_def
      proof (intro conjI)
        show "\<exists>d. p # ps = d @ rest \<and> length (r # Q) = length d" using dn by (intro exI[of _ "p # dn"]) simp
        show "minv s' ((r # Q) @ chunks rest @ R)" using L3(1) minv_perm[OF perm'] by blast
        show "table_ok tm' (r_table_idx ` set ((r # Q) @ chunks rest @ R))" using L3(2) by (simp add: insert_commute)
        show "same_pool s s'" using some(3) L3(3) by (simp add: same_pool_def)
        show "chunks (?n @ new) = filter r_chunked (r # Q)" using L2(1) by simp
        show "length (?n @ new) = length (chunks (?n @ new))" using L2(2) by simp
        show "\<forall>x\<in>set (r # Q). 0 < extend_len x \<and> r_cached_len x \<le> r_allocated_len x \<and> prefix_of (p # ps) x"
          using L4 S1 S2 prefix_of_Cons by auto
        show "sum_list (map extend_len (r # Q)) + token_budget a' = token_budget a" using L5(1) S1(2) by simp
        show "r # Q \<noteq> [] \<longrightarrow> 0 \<le> token_budget a'" using L5(2,4) S1(3) by auto
        show "sum_list (map extend_len (r # Q)) \<le> reserved_size a' - reserved_size a" using L5(3) S1(4,5) by simp
      qed (use L1 in simp_all)
      have "capacity (p # ps) a s a' s' (r # Q)"
        unfolding capacity_def
      proof
        assume h: "chunks_first (p # ps) \<and> (reserved_size a + waiting (p # ps) \<le> cm_available_size ops s \<or>
            waiting (p # ps) = 0 \<and> chunks (p # ps) = [] \<and> r # Q \<noteq> [])"
        note F = chunks_first_Cons[OF conjunct1[OF h]]
        have "reserved_size a1 + waiting ps \<le> cm_available_size ops s1"
        proof (cases "p_chunked p")
          case None
          then show ?thesis using S F by simp
        next
          case (Some c)
          then show ?thesis using S h by (auto simp: waiting_def)
        qed
        then show "reserved_size a' \<le> cm_available_size ops s'" using ok(4) F by (auto simp: capacity_def)
      qed
      then show ?thesis using run ok(1,3) dl by auto
    qed
  qed
qed

text \<open>\<open>schedule_next_batch\<close> as a whole.\<close>

definition scheduled ::
  "'h pending list \<Rightarrow> 'h req list \<Rightarrow> int \<Rightarrow> int \<Rightarrow> 'c cman \<Rightarrow> 'h batch option \<Rightarrow> 'h pending list \<Rightarrow> 'c cman \<Rightarrow>
   table_man \<Rightarrow> bool" where
  "scheduled pend R budget inflight s ob pend' s' tm' \<longleftrightarrow>
     same_pool s s' \<and>
     (case ob of
        None \<Rightarrow> pend' = pend \<and> minv s' (chunks pend @ R) \<and> table_ok tm' (r_table_idx ` set (chunks pend @ R))
      | Some b \<Rightarrow> b_reqs b \<noteq> [] \<and> is_prefill b \<and>
          (\<forall>r\<in>set (b_reqs b). 0 < extend_len r \<and> r_cached_len r \<le> r_allocated_len r \<and> prefix_of pend r) \<and>
          b_log_new_tokens b = sum_list (map extend_len (b_reqs b)) \<and> b_log_new_tokens b \<le> budget \<and>
          (chunks_first pend \<and> inflight + waiting pend \<le> cm_available_size ops s \<or> chunks pend = [] \<longrightarrow>
             inflight + b_log_new_tokens b \<le> cm_available_size ops s') \<and>
          (\<exists>new rest done. pend' = new @ rest \<and> pend = done @ rest \<and> length (b_reqs b) = length done \<and>
             chunks new = filter r_chunked (b_reqs b) \<and> length new = length (chunks new) \<and>
             minv s' (b_reqs b @ chunks rest @ R) \<and>
             table_ok tm' (r_table_idx ` set (b_reqs b @ chunks rest @ R))))"

lemma schedule_law:
  assumes m: "minv s (chunks pend @ R)" and pk: "\<forall>p\<in>set pend. pend_ok width p" and rows: "rows_ok width s tm"
    and tm: "table_ok tm (r_table_idx ` set (chunks pend @ R))"
  shows "((\<exists>p\<in>set pend. p_mm p \<and> budget < int (input_len p)) \<and>
       pm_schedule_next_batch (plain_admission w ops) tic budget d pend s tm = Inl NotImplementedError) \<or>
     (\<exists>ob pend' s' tm'. pm_schedule_next_batch (plain_admission w ops) tic budget d pend s tm = Inr (ob, pend', s', tm') \<and>
       scheduled pend R budget (inflight_tokens d) s ob pend' s' tm' \<and> rows_ok width s' tm')"
proof (cases "pend = []")
  case True
  then show ?thesis using m rows tm
    by (simp add: pm_schedule_next_batch_def scheduled_def same_pool_def)
next
  case False
  let ?a = "mk_adder budget (inflight_tokens d)"
  let ?acc = "\<lparr>pa_reqs = [], pa_chunked = [], pa_remaining = [], pa_admissions = [], pa_new = 0, pa_cached = 0\<rparr>"
  have b: "token_budget ?a \<le> initial_token_budget ?a" by (simp add: mk_adder_def)
  from prefill_loop_law[OF m pk rows tm b, of w tic ?acc] show ?thesis
  proof (elim disjE exE conjE bexE)
    fix p assume "p \<in> set pend" "p_mm p" "initial_token_budget ?a < int (input_len p)"
      "prefill_loop (plain_admission w ops) tic pend ?a s tm ?acc = Inl NotImplementedError"
    then show ?thesis using False by (auto simp: pm_schedule_next_batch_def mk_adder_def)
  next
    fix acc' a' s' tm' Q new rest
    assume l: "prefill_loop (plain_admission w ops) tic pend ?a s tm ?acc = Inr (acc', a', s', tm')"
      "loop_done pend ?a s R ?acc acc' a' s' tm' Q new rest" "rows_ok width s' tm'" "capacity pend ?a s a' s' Q"
    note L = l(2)[unfolded loop_done_def]
    have L1: "pa_reqs acc' = Q" "pa_chunked acc' = new" "pa_remaining acc' = rest" "pa_new acc' = sum_list (map extend_len Q)"
      "same_pool s s'" "chunks new = filter r_chunked Q" "length new = length (chunks new)"
      "minv s' (Q @ chunks rest @ R)" "table_ok tm' (r_table_idx ` set (Q @ chunks rest @ R))"
      "sum_list (map extend_len Q) + token_budget a' = budget" "Q \<noteq> [] \<longrightarrow> 0 \<le> token_budget a'"
      "sum_list (map extend_len Q) \<le> reserved_size a' - inflight_tokens d"
      using L by (simp_all add: mk_adder_def)
    have L2: "\<forall>r\<in>set Q. 0 < extend_len r \<and> r_cached_len r \<le> r_allocated_len r \<and> prefix_of pend r" using L by blast
    obtain dn where dn: "pend = dn @ rest" "length Q = length dn" using L by blast
    show ?thesis
    proof (cases "Q = []")
      case True
      then have "chunks rest = chunks pend" using dn by simp
      then have "scheduled pend R budget (inflight_tokens d) s None pend s' tm'"
        using L1 True by (simp add: scheduled_def)
      then show ?thesis using l(1,3) True L1(1) False
        by (intro disjI2 exI[of _ None] exI[of _ pend] exI[of _ s'] exI[of _ tm'])
          (simp add: pm_schedule_next_batch_def)
    next
      case Q: False
      let ?b = "mk_batch Q Prefill\<lparr>b_log_new_tokens := pa_new acc', b_log_cached_tokens := pa_cached acc',
         b_prompt_admissions := pa_admissions acc'\<rparr>"
      have cap: "inflight_tokens d + sum_list (map extend_len Q) \<le> cm_available_size ops s'"
        if "chunks_first pend \<and> inflight_tokens d + waiting pend \<le> cm_available_size ops s \<or> chunks pend = []"
      proof -
        have "reserved_size a' \<le> cm_available_size ops s'"
          using l(4) that Q no_chunks[of pend] by (auto simp: capacity_def mk_adder_def)
        then show ?thesis using L1(12) by linarith
      qed
      have split: "\<exists>new' rest' dn'. new @ rest = new' @ rest' \<and> pend = dn' @ rest' \<and> length (b_reqs ?b) = length dn' \<and>
          chunks new' = filter r_chunked (b_reqs ?b) \<and> length new' = length (chunks new') \<and>
          minv s' (b_reqs ?b @ chunks rest' @ R) \<and> table_ok tm' (r_table_idx ` set (b_reqs ?b @ chunks rest' @ R))"
        using L1 dn by (intro exI[of _ new] exI[of _ rest] exI[of _ dn]) (simp add: mk_batch_def)
      have "scheduled pend R budget (inflight_tokens d) s (Some ?b) (new @ rest) s' tm'"
        unfolding scheduled_def option.case
      proof (intro conjI)
        show "b_log_new_tokens ?b \<le> budget" using L1 Q by simp
        show "chunks_first pend \<and> inflight_tokens d + waiting pend \<le> cm_available_size ops s \<or> chunks pend = [] \<longrightarrow>
            inflight_tokens d + b_log_new_tokens ?b \<le> cm_available_size ops s'"
          using cap L1(4) by simp
        show "\<exists>new' rest' dn'. new @ rest = new' @ rest' \<and> pend = dn' @ rest' \<and> length (b_reqs ?b) = length dn' \<and>
            chunks new' = filter r_chunked (b_reqs ?b) \<and> length new' = length (chunks new') \<and>
            minv s' (b_reqs ?b @ chunks rest' @ R) \<and> table_ok tm' (r_table_idx ` set (b_reqs ?b @ chunks rest' @ R))"
          by (rule split)
      qed (use L1 L2 Q in \<open>simp_all add: mk_batch_def is_prefill_def\<close>)
      then show ?thesis using l(1,3) Q L1(1-3) False
        by (intro disjI2 exI[of _ "Some ?b"] exI[of _ "new @ rest"] exI[of _ s'] exI[of _ tm'])
          (simp add: pm_schedule_next_batch_def)
    qed
  qed
qed

end

end
