(* ===== verification/RadixNode.thy ===== *)
theory RadixNode
  imports Prelude
begin

text \<open>
  The node store of \<open>runtime/kvcache/radix_cache.py\<close> (class \<open>RadixTreeNode\<close>), shared by the
  plain, the hybrid and the sliding-window prefix cache.  Nodes are mutable objects that hold
  references to each other in both directions, and cache handles refer to nodes by identity, so
  the model keeps an explicit store: a reference is a natural number and \<open>tree_heap\<close> maps every
  reference to its object.  A reference in Python always denotes an object, so the store is
  total; a node that was unlinked stays in the store as garbage.

  Contents: the record of a node and of the store, attribute updates, \<open>set_key_value\<close>,
  \<open>set_parent\<close>, \<open>split_at\<close>, the walk of a prefix (\<open>_tree_walk\<close>), the path of a node to the
  root; the well-formedness invariant \<open>wf_tree\<close> and the lemmas that each store operation keeps
  it and what it does to paths.
\<close>

section \<open>The store\<close>

type_synonym nid = nat

record rnode =
  node_key :: "token list"
  node_value :: "slot list"
  node_children :: "(token list \<times> nid) list"
  node_parent :: "nid option"
  node_ref_count :: int
  node_timestamp :: int
  node_mamba_value :: "slot option"
  node_mamba_ref_count :: int
  node_swa_tombstone :: bool
  node_swa_ref_count :: int
  node_swa_uuid :: "nat option"

record rtree =
  tree_heap :: "nid \<Rightarrow> rnode"
  tree_counter :: nat
  tree_root :: nid
  tree_page :: nat

abbreviation nd :: "'a rtree_scheme \<Rightarrow> nid \<Rightarrow> rnode" where
  "nd s n \<equiv> tree_heap s n"

abbreviation nlen :: "'a rtree_scheme \<Rightarrow> nid \<Rightarrow> nat" where
  "nlen s n \<equiv> length (node_key (nd s n))"

definition blank_node :: "int \<Rightarrow> rnode" where
  "blank_node tic = \<lparr>node_key = [], node_value = [], node_children = [], node_parent = None,
     node_ref_count = 0, node_timestamp = tic, node_mamba_value = None,
     node_mamba_ref_count = 0, node_swa_tombstone = False, node_swa_ref_count = 0,
     node_swa_uuid = None\<rparr>"

definition upd_node :: "nid \<Rightarrow> (rnode \<Rightarrow> rnode) \<Rightarrow> 'a rtree_scheme \<Rightarrow> 'a rtree_scheme" where
  "upd_node n f s = s\<lparr>tree_heap := (tree_heap s)(n := f (tree_heap s n))\<rparr>"

definition new_node :: "int \<Rightarrow> 'a rtree_scheme \<Rightarrow> nid \<times> 'a rtree_scheme" where
  "new_node tic s = (tree_counter s,
     s\<lparr>tree_heap := (tree_heap s)(tree_counter s := blank_node tic),
       tree_counter := Suc (tree_counter s)\<rparr>)"

definition key_fn :: "nat \<Rightarrow> token list \<Rightarrow> token list" where
  "key_fn page_size x = take page_size x"

definition set_key_value ::
  "token list \<Rightarrow> slot list \<Rightarrow> nid \<Rightarrow> 'a rtree_scheme \<Rightarrow> 'a rtree_scheme res" where
  "set_key_value k v n s =
     (if length k = length v
      then Inr (upd_node n (\<lambda>x. x\<lparr>node_key := k, node_value := v\<rparr>) s)
      else Inl AssertionError)"

definition set_parent :: "nid \<Rightarrow> nid \<Rightarrow> 'a rtree_scheme \<Rightarrow> 'a rtree_scheme" where
  "set_parent n p s =
     (let s1 = upd_node n (node_parent_update (\<lambda>_. Some p)) s
      in upd_node p (node_children_update
           (AList.update (key_fn (tree_page s1) (node_key (nd s1 n))) n)) s1)"

definition is_root :: "'a rtree_scheme \<Rightarrow> nid \<Rightarrow> bool" where
  "is_root s n \<longleftrightarrow> node_parent (nd s n) = None"

definition is_leaf :: "'a rtree_scheme \<Rightarrow> nid \<Rightarrow> bool" where
  "is_leaf s n \<longleftrightarrow> node_children (nd s n) = []"

definition parent_of :: "'a rtree_scheme \<Rightarrow> nid \<Rightarrow> nid res" where
  "parent_of s n = (case node_parent (nd s n) of None \<Rightarrow> Inl AssertionError | Some p \<Rightarrow> Inr p)"

definition get_match_len :: "'a rtree_scheme \<Rightarrow> nid \<Rightarrow> token list \<Rightarrow> nat" where
  "get_match_len s n input_ids = match_len (node_key (nd s n)) input_ids"

definition set_timestamp :: "int \<Rightarrow> nid \<Rightarrow> 'a rtree_scheme \<Rightarrow> 'a rtree_scheme" where
  "set_timestamp tic n s = upd_node n (node_timestamp_update (\<lambda>_. tic)) s"

definition split_at :: "nid \<Rightarrow> nat \<Rightarrow> 'a rtree_scheme \<Rightarrow> (nid \<times> 'a rtree_scheme) res" where
  "split_at n pos s =
     res_bind (py_assert (0 < pos \<and> pos < nlen s n)) (\<lambda>_.
     res_bind (parent_of s n) (\<lambda>p.
       let x = nd s n;
           (m, s1) = new_node (node_timestamp x) s
       in
       res_bind (set_key_value (take pos (node_key x)) (take pos (node_value x)) m s1) (\<lambda>s2.
         let s3 = set_parent m p s2;
             s4 = upd_node m (\<lambda>y. y\<lparr>node_ref_count := node_ref_count x,
                                    node_swa_ref_count := node_swa_ref_count x,
                                    node_swa_tombstone := node_swa_tombstone x,
                                    node_swa_uuid := node_swa_uuid x\<rparr>) s3;
             s5 = upd_node n (node_swa_uuid_update (\<lambda>_. None)) s4
         in
         res_bind (set_key_value (drop pos (node_key x)) (drop pos (node_value x)) n s5) (\<lambda>s6.
           Inr (m, set_parent n m s6)))))"

definition add_child ::
  "int \<Rightarrow> nid \<Rightarrow> token list \<Rightarrow> slot list \<Rightarrow> 'a rtree_scheme \<Rightarrow> (nid \<times> 'a rtree_scheme) res" where
  "add_child tic p k v s =
     (let (m, s1) = new_node tic s
      in res_bind (set_key_value k v m s1) (\<lambda>s2. Inr (m, set_parent m p s2)))"

definition unlink :: "nid \<Rightarrow> 'a rtree_scheme \<Rightarrow> (nid \<times> 'a rtree_scheme) res" where
  "unlink n s =
     res_bind (parent_of s n) (\<lambda>p.
       let k = key_fn (tree_page s) (node_key (nd s n)) in
       if map_of (node_children (nd s p)) k = None then Inl KeyError
       else Inr (p, upd_node p (node_children_update (AList.delete k)) s))"

text \<open>
  The walk of a prefix: \<open>_tree_walk\<close> of \<open>RadixPrefixCache\<close> and \<open>_walk\<close> of
  \<open>HybridRadixCache\<close>.  \<open>tic\<close> is the value of the monotonic clock read at the start.
  The bound is one more than the length of the input, since every iteration consumes a page.
\<close>

fun tree_walk_loop ::
  "nat \<Rightarrow> int \<Rightarrow> token list \<Rightarrow> nid \<Rightarrow> nat \<Rightarrow> 'a rtree_scheme \<Rightarrow> (nid \<times> nat \<times> 'a rtree_scheme) res"
where
  "tree_walk_loop 0 tic input_ids node prefix_len s = Inl OutOfFuel"
| "tree_walk_loop (Suc fuel) tic input_ids node prefix_len s =
     (if prefix_len < length input_ids then
        (case map_of (node_children (nd s node))
                (key_fn (tree_page s) (drop prefix_len input_ids)) of
           None \<Rightarrow> Inr (node, prefix_len, s)
         | Some child \<Rightarrow>
             let mlen = align_down (get_match_len s child (drop prefix_len input_ids)) (tree_page s);
                 prefix_len' = prefix_len + mlen
             in if mlen \<noteq> nlen s child
                then res_bind (split_at child mlen s)
                       (\<lambda>(node', s'). Inr (node', prefix_len', set_timestamp tic node' s'))
                else tree_walk_loop fuel tic input_ids child prefix_len'
                       (set_timestamp tic child s))
      else Inr (node, prefix_len, s))"

definition tree_walk ::
  "int \<Rightarrow> token list \<Rightarrow> 'a rtree_scheme \<Rightarrow> (nid \<times> nat \<times> 'a rtree_scheme) res" where
  "tree_walk tic input_ids s =
     tree_walk_loop (Suc (length input_ids)) tic input_ids (tree_root s) 0 s"

text \<open>
  The nodes met by \<open>while not node.is_root(): ...; node = node.parent\<close>, in the order of the
  loop; the number of nodes ever created bounds the length of such a walk.
\<close>

fun ups :: "nat \<Rightarrow> 'a rtree_scheme \<Rightarrow> nid \<Rightarrow> nid list" where
  "ups 0 s n = []"
| "ups (Suc fuel) s n =
     (case node_parent (nd s n) of None \<Rightarrow> [] | Some p \<Rightarrow> n # ups fuel s p)"

definition path_nodes :: "'a rtree_scheme \<Rightarrow> nid \<Rightarrow> nid list" where
  "path_nodes s n = rev (ups (tree_counter s) s n)"

definition path_key :: "'a rtree_scheme \<Rightarrow> nid \<Rightarrow> token list" where
  "path_key s n = concat (map (\<lambda>m. node_key (nd s m)) (path_nodes s n))"

definition path_value :: "'a rtree_scheme \<Rightarrow> nid \<Rightarrow> slot list" where
  "path_value s n = concat (map (\<lambda>m. node_value (nd s m)) (path_nodes s n))"

section \<open>Updates of one object\<close>

named_theorems store

lemma nd_upd_node [simp, store]: "nd (upd_node n f s) m = (if m = n then f (nd s n) else nd s m)"
  by (simp add: upd_node_def)

lemma upd_node_frame [simp, store]:
  "tree_counter (upd_node n f s) = tree_counter s"
  "tree_root (upd_node n f s) = tree_root s"
  "tree_page (upd_node n f s) = tree_page s"
  "rtree.more (upd_node n f s) = rtree.more s"
  by (simp_all add: upd_node_def)

lemma set_timestamp_simps [simp, store]:
  "tree_counter (set_timestamp t n s) = tree_counter s"
  "tree_root (set_timestamp t n s) = tree_root s"
  "tree_page (set_timestamp t n s) = tree_page s"
  "rtree.more (set_timestamp t n s) = rtree.more s"
  "node_key (nd (set_timestamp t n s) m) = node_key (nd s m)"
  "node_value (nd (set_timestamp t n s) m) = node_value (nd s m)"
  "node_children (nd (set_timestamp t n s) m) = node_children (nd s m)"
  "node_parent (nd (set_timestamp t n s) m) = node_parent (nd s m)"
  "node_ref_count (nd (set_timestamp t n s) m) = node_ref_count (nd s m)"
  "node_mamba_value (nd (set_timestamp t n s) m) = node_mamba_value (nd s m)"
  "node_mamba_ref_count (nd (set_timestamp t n s) m) = node_mamba_ref_count (nd s m)"
  "node_swa_tombstone (nd (set_timestamp t n s) m) = node_swa_tombstone (nd s m)"
  "node_swa_ref_count (nd (set_timestamp t n s) m) = node_swa_ref_count (nd s m)"
  by (simp_all add: set_timestamp_def)

section \<open>Well-formed trees\<close>

text \<open>
  \<open>wf_tree s L\<close>: the nodes \<open>L\<close> form a tree under \<open>tree_root s\<close> whose parent and child
  references agree, whose edges carry whole pages, and in which the children of a node differ
  in their first page.  The rank function rules out cycles.
\<close>

definition node_ok :: "'a rtree_scheme \<Rightarrow> nid set \<Rightarrow> nid \<Rightarrow> bool" where
  "node_ok s L n \<longleftrightarrow>
     (\<exists>p\<in>L. node_parent (nd s n) = Some p \<and>
            (key_fn (tree_page s) (node_key (nd s n)), n) \<in> set (node_children (nd s p))) \<and>
     node_key (nd s n) \<noteq> [] \<and> tree_page s dvd nlen s n \<and>
     length (node_value (nd s n)) = nlen s n"

definition children_ok :: "'a rtree_scheme \<Rightarrow> nid set \<Rightarrow> nid \<Rightarrow> bool" where
  "children_ok s L p \<longleftrightarrow>
     distinct (map fst (node_children (nd s p))) \<and>
     (\<forall>(k, c) \<in> set (node_children (nd s p)).
        c \<in> L \<and> node_parent (nd s c) = Some p \<and> k = key_fn (tree_page s) (node_key (nd s c)))"

definition ranked :: "'a rtree_scheme \<Rightarrow> nid set \<Rightarrow> (nid \<Rightarrow> nat) \<Rightarrow> bool" where
  "ranked s L rank \<longleftrightarrow> (\<forall>n\<in>L. \<forall>p. node_parent (nd s n) = Some p \<longrightarrow> rank p < rank n)"

definition wf_tree :: "'a rtree_scheme \<Rightarrow> nid set \<Rightarrow> bool" where
  "wf_tree s L \<longleftrightarrow>
     0 < tree_page s \<and> L \<subseteq> {..<tree_counter s} \<and> tree_root s \<in> L \<and>
     node_parent (nd s (tree_root s)) = None \<and>
     (\<forall>n \<in> L - {tree_root s}. node_ok s L n) \<and> (\<forall>p \<in> L. children_ok s L p) \<and>
     (\<exists>rank. ranked s L rank)"

lemma wf_treeD:
  assumes "wf_tree s L"
  shows "0 < tree_page s" "L \<subseteq> {..<tree_counter s}" "tree_root s \<in> L"
    "node_parent (nd s (tree_root s)) = None"
    "n \<in> L \<Longrightarrow> n \<noteq> tree_root s \<Longrightarrow> node_ok s L n"
    "n \<in> L \<Longrightarrow> children_ok s L n"
  using assms by (auto simp: wf_tree_def)

lemma wf_finite: "wf_tree s L \<Longrightarrow> finite L"
  by (meson finite_lessThan finite_subset wf_treeD(2))

lemma wf_counter_notin: "wf_tree s L \<Longrightarrow> tree_counter s \<notin> L"
  using wf_treeD(2) by blast

lemma wf_parent:
  assumes "wf_tree s L" "n \<in> L" "n \<noteq> tree_root s"
  obtains p where "p \<in> L" "node_parent (nd s n) = Some p" "p \<noteq> n"
    "(key_fn (tree_page s) (node_key (nd s n)), n) \<in> set (node_children (nd s p))"
proof -
  have "node_ok s L n" using assms by (simp add: wf_treeD)
  then obtain p where p: "p \<in> L" "node_parent (nd s n) = Some p"
    "(key_fn (tree_page s) (node_key (nd s n)), n) \<in> set (node_children (nd s p))"
    by (auto simp: node_ok_def)
  moreover have "p \<noteq> n" using assms p by (auto simp: wf_tree_def ranked_def)
  ultimately show thesis using that by blast
qed

lemma wf_parent_child:
  assumes "wf_tree s L" "n \<in> L" "node_parent (nd s n) = Some p"
  shows "p \<in> L" "p \<noteq> n" "(key_fn (tree_page s) (node_key (nd s n)), n) \<in> set (node_children (nd s p))"
    "n \<noteq> tree_root s"
proof -
  have n: "n \<noteq> tree_root s" using assms wf_treeD(4)[OF assms(1)] by auto
  obtain q where "q \<in> L" "node_parent (nd s n) = Some q" "q \<noteq> n"
    "(key_fn (tree_page s) (node_key (nd s n)), n) \<in> set (node_children (nd s q))"
    using wf_parent[OF assms(1,2) n] by blast
  with assms n show "p \<in> L" "p \<noteq> n"
    "(key_fn (tree_page s) (node_key (nd s n)), n) \<in> set (node_children (nd s p))" "n \<noteq> tree_root s"
    by simp_all
qed

lemma wf_root_iff:
  assumes "wf_tree s L" "n \<in> L" shows "node_parent (nd s n) = None \<longleftrightarrow> n = tree_root s"
proof (cases "n = tree_root s")
  case False
  then show ?thesis using assms by (auto elim: wf_parent)
qed (simp add: wf_treeD(4)[OF assms(1)])

lemma wf_node:
  assumes "wf_tree s L" "n \<in> L" "n \<noteq> tree_root s"
  shows "node_key (nd s n) \<noteq> []" "tree_page s dvd nlen s n"
    "length (node_value (nd s n)) = nlen s n" "tree_page s \<le> nlen s n"
  using wf_treeD(5)[OF assms] by (auto simp: node_ok_def intro!: dvd_imp_le)

lemma wf_child:
  assumes "wf_tree s L" "p \<in> L" "(k, c) \<in> set (node_children (nd s p))"
  shows "c \<in> L" "node_parent (nd s c) = Some p" "k = key_fn (tree_page s) (node_key (nd s c))"
    "c \<noteq> tree_root s"
  using wf_treeD(6)[OF assms(1,2)] assms wf_treeD(4)[OF assms(1)] by (auto simp: children_ok_def)

lemma wf_distinct: "wf_tree s L \<Longrightarrow> p \<in> L \<Longrightarrow> distinct (map fst (node_children (nd s p)))"
  using wf_treeD(6) by (auto simp: children_ok_def)

lemma wf_children_map_of:
  "wf_tree s L \<Longrightarrow> p \<in> L \<Longrightarrow> (k, c) \<in> set (node_children (nd s p)) \<longleftrightarrow>
   map_of (node_children (nd s p)) k = Some c"
  by (rule map_of_in_set[OF wf_distinct])

text \<open>Induction along the tree: from a node's parent to the node.\<close>

lemma tree_induct [consumes 2, case_names root step]:
  assumes wf: "wf_tree s L" and n: "n \<in> L"
    and root: "P (tree_root s)"
    and step: "\<And>n p. n \<in> L \<Longrightarrow> n \<noteq> tree_root s \<Longrightarrow> node_parent (nd s n) = Some p \<Longrightarrow>
                 p \<in> L \<Longrightarrow> P p \<Longrightarrow> P n"
  shows "P n"
proof -
  obtain rank where rank: "ranked s L rank" using wf by (auto simp: wf_tree_def)
  show ?thesis using n
  proof (induction "rank n" arbitrary: n rule: less_induct)
    case less
    show ?case
    proof (cases "n = tree_root s")
      case False
      then obtain p where p: "p \<in> L" "node_parent (nd s n) = Some p"
        using wf less.prems by (metis wf_parent)
      then have "rank p < rank n" using rank less.prems by (auto simp: ranked_def)
      then show ?thesis using step less p False by blast
    qed (use root in simp)
  qed
qed

section \<open>Paths\<close>

primrec upath :: "'a rtree_scheme \<Rightarrow> nid \<Rightarrow> nid list \<Rightarrow> bool" where
  "upath s n [] \<longleftrightarrow> node_parent (nd s n) = None"
| "upath s n (m # ms) \<longleftrightarrow> m = n \<and> (\<exists>p. node_parent (nd s n) = Some p \<and> upath s p ms)"

lemma upath_ups: "upath s n ns \<Longrightarrow> length ns \<le> fuel \<Longrightarrow> ups fuel s n = ns"
proof (induction ns arbitrary: n fuel)
  case Nil
  then show ?case by (cases fuel) auto
next
  case (Cons m ms)
  then show ?case by (cases fuel) auto
qed

lemma wf_upath:
  assumes "wf_tree s L" "n \<in> L"
  shows "\<exists>ns. upath s n ns \<and> distinct ns \<and> set ns \<subseteq> L - {tree_root s}"
proof -
  obtain rank where rank: "ranked s L rank" using assms by (auto simp: wf_tree_def)
  have "\<exists>ns. upath s n ns \<and> distinct ns \<and> set ns \<subseteq> L - {tree_root s} \<and> (\<forall>m\<in>set ns. rank m \<le> rank n)"
    using assms
  proof (induction rule: tree_induct)
    case root
    then show ?case using wf_treeD(4)[OF assms(1)] by (intro exI[of _ "[]"]) simp
  next
    case (step n p)
    then obtain ns where ns: "upath s p ns" "distinct ns" "set ns \<subseteq> L - {tree_root s}"
      "\<forall>m\<in>set ns. rank m \<le> rank p" by blast
    have "rank p < rank n" using rank step by (auto simp: ranked_def)
    with ns step show ?case by (intro exI[of _ "n # ns"]) force
  qed
  then show ?thesis by blast
qed

lemma upath_length:
  assumes "wf_tree s L" "upath s n ns" "n \<in> L"
  shows "length ns < tree_counter s"
proof -
  obtain ms where ms: "upath s n ms" "distinct ms" "set ms \<subseteq> L - {tree_root s}"
    using wf_upath[OF assms(1,3)] by blast
  have "length ms = card (set ms)" using ms by (simp add: distinct_card)
  also have "\<dots> \<le> card (L - {tree_root s})" using ms wf_finite[OF assms(1)] by (simp add: card_mono)
  also have "\<dots> < card L" using wf_finite[OF assms(1)] wf_treeD(3)[OF assms(1)]
    by (meson card_Diff1_less)
  also have "\<dots> \<le> tree_counter s"
    using card_mono[OF _ wf_treeD(2)[OF assms(1)]] by simp
  finally have len: "length ms < tree_counter s" .
  have "ups (length ns + length ms) s n = ns" "ups (length ns + length ms) s n = ms"
    using assms(2) ms(1) by (auto intro: upath_ups)
  then show ?thesis using len by simp
qed

lemma path_nodes_upath:
  assumes "wf_tree s L" "n \<in> L" shows "upath s n (rev (path_nodes s n))"
proof -
  obtain ns where ns: "upath s n ns" using wf_upath[OF assms] by blast
  then show ?thesis
    using upath_ups upath_length[OF assms(1) ns assms(2)] by (fastforce simp: path_nodes_def)
qed

lemma path_nodes_root [simp]: "wf_tree s L \<Longrightarrow> path_nodes s (tree_root s) = []"
  by (cases "tree_counter s") (auto simp: path_nodes_def wf_treeD(4))

lemma path_nodes_step:
  assumes "wf_tree s L" "n \<in> L" "node_parent (nd s n) = Some p" "p \<in> L"
  shows "path_nodes s n = path_nodes s p @ [n]"
proof -
  have "upath s n (n # rev (path_nodes s p))"
    using assms path_nodes_upath[OF assms(1,4)] by simp
  then have "ups (tree_counter s) s n = n # rev (path_nodes s p)"
    using upath_ups upath_length[OF assms(1) _ assms(2)] by (metis less_imp_le_nat)
  then show ?thesis by (simp add: path_nodes_def)
qed

lemma path_nodes_set:
  assumes "wf_tree s L" "n \<in> L" shows "set (path_nodes s n) \<subseteq> L - {tree_root s}"
  using assms
  by (induction rule: tree_induct) (auto simp: path_nodes_step[OF assms(1)] path_nodes_root[OF assms(1)])

lemma path_nodes_self:
  "wf_tree s L \<Longrightarrow> n \<in> L \<Longrightarrow> n \<noteq> tree_root s \<Longrightarrow> n \<in> set (path_nodes s n)"
  by (metis in_set_conv_decomp path_nodes_step wf_parent)

lemma path_nodes_distinct:
  assumes "wf_tree s L" "n \<in> L" shows "distinct (path_nodes s n)"
proof -
  obtain ns where ns: "upath s n ns" "distinct ns" using wf_upath[OF assms] by blast
  have "ups (tree_counter s) s n = ns"
    using ns upath_length[OF assms(1) ns(1) assms(2)] by (intro upath_ups) auto
  then show ?thesis using ns by (simp add: path_nodes_def)
qed

text \<open>The path of a node on the path of \<open>n\<close> is a prefix of the path of \<open>n\<close>.\<close>

lemma path_nodes_prefix:
  assumes "wf_tree s L" "n \<in> L" "m \<in> set (path_nodes s n)"
  shows "prefix (path_nodes s m) (path_nodes s n)"
  using assms
proof (induction rule: tree_induct)
  case (step n p)
  show ?case
  proof (cases "m = n")
    case False
    then have "m \<in> set (path_nodes s p)" using step assms(1) by (auto simp: path_nodes_step)
    then show ?thesis using step assms(1) by (auto simp: path_nodes_step prefix_def)
  qed simp
qed (use assms in simp)

lemma path_key_root [simp]: "wf_tree s L \<Longrightarrow> path_key s (tree_root s) = []"
  by (simp add: path_key_def)

lemma path_value_root [simp]: "wf_tree s L \<Longrightarrow> path_value s (tree_root s) = []"
  by (simp add: path_value_def)

lemma path_key_step:
  "wf_tree s L \<Longrightarrow> n \<in> L \<Longrightarrow> node_parent (nd s n) = Some p \<Longrightarrow> p \<in> L \<Longrightarrow>
   path_key s n = path_key s p @ node_key (nd s n)"
  by (simp add: path_key_def path_nodes_step)

lemma path_value_step:
  "wf_tree s L \<Longrightarrow> n \<in> L \<Longrightarrow> node_parent (nd s n) = Some p \<Longrightarrow> p \<in> L \<Longrightarrow>
   path_value s n = path_value s p @ node_value (nd s n)"
  by (simp add: path_value_def path_nodes_step)

lemma path_key_prefix:
  assumes "wf_tree s L" "n \<in> L" "m \<in> set (path_nodes s n)"
  shows "prefix (path_key s m) (path_key s n)"
  using path_nodes_prefix[OF assms] by (auto simp: path_key_def prefix_def)

lemma path_lengths:
  assumes "wf_tree s L" "n \<in> L"
  shows "tree_page s dvd length (path_key s n) \<and> length (path_value s n) = length (path_key s n)"
  using assms
  by (induction rule: tree_induct)
     (auto simp: path_key_root[OF assms(1)] path_value_root[OF assms(1)] path_key_step[OF assms(1)]
        path_value_step[OF assms(1)] wf_node[OF assms(1)] dvd_add)

section \<open>Operations that keep the shape\<close>

definition same_shape :: "'a rtree_scheme \<Rightarrow> 'b rtree_scheme \<Rightarrow> nid set \<Rightarrow> bool" where
  "same_shape s s' L \<longleftrightarrow>
     tree_page s' = tree_page s \<and> tree_root s' = tree_root s \<and> tree_counter s' = tree_counter s \<and>
     (\<forall>n\<in>L. node_key (nd s' n) = node_key (nd s n) \<and> node_value (nd s' n) = node_value (nd s n) \<and>
            node_children (nd s' n) = node_children (nd s n) \<and>
            node_parent (nd s' n) = node_parent (nd s n))"

lemma same_shape_wf: "same_shape s s' L \<Longrightarrow> wf_tree s L \<Longrightarrow> wf_tree s' L"
proof -
  assume a: "same_shape s s' L" and wf: "wf_tree s L"
  have r: "tree_root s \<in> L" by (rule wf_treeD(3)[OF wf])
  have n: "node_ok s' L n" if "n \<in> L - {tree_root s}" for n
    using wf_treeD(5)[OF wf, of n] that a by (force simp: node_ok_def same_shape_def)
  have c: "children_ok s' L n" if "n \<in> L" for n
    using wf_treeD(6)[OF wf that] that a by (force simp: children_ok_def same_shape_def)
  have "\<exists>rank. ranked s' L rank" using wf a by (auto simp: wf_tree_def ranked_def same_shape_def)
  with n c wf a r show ?thesis unfolding wf_tree_def same_shape_def by auto
qed

lemma same_shape_path_nodes:
  assumes "same_shape s s' L" "wf_tree s L" "n \<in> L"
  shows "path_nodes s' n = path_nodes s n"
  using assms(2,3)
proof (induction rule: tree_induct)
  case root
  then show ?case
    using path_nodes_root[OF assms(2)] path_nodes_root[OF same_shape_wf[OF assms(1,2)]] assms(1)
    by (simp add: same_shape_def)
next
  case (step n p)
  then have "node_parent (nd s' n) = Some p" using assms(1) by (simp add: same_shape_def)
  with step show ?case
    using path_nodes_step[OF assms(2)] path_nodes_step[OF same_shape_wf[OF assms(1,2)]] by simp
qed

lemma same_shape_paths:
  assumes "same_shape s s' L" "wf_tree s L" "n \<in> L"
  shows "path_key s' n = path_key s n" "path_value s' n = path_value s n"
proof -
  have "set (path_nodes s n) \<subseteq> L" using path_nodes_set[OF assms(2,3)] by blast
  with assms(1) have "map (\<lambda>m. node_key (nd s' m)) (path_nodes s n) = map (\<lambda>m. node_key (nd s m)) (path_nodes s n)"
    "map (\<lambda>m. node_value (nd s' m)) (path_nodes s n) = map (\<lambda>m. node_value (nd s m)) (path_nodes s n)"
    by (auto simp: same_shape_def)
  then show "path_key s' n = path_key s n" "path_value s' n = path_value s n"
    by (simp_all only: path_key_def path_value_def same_shape_path_nodes[OF assms])
qed

lemma same_shape_refl [simp]: "same_shape s s L"
  by (simp add: same_shape_def)

lemma same_shape_trans: "same_shape s s' L \<Longrightarrow> same_shape s' s'' L \<Longrightarrow> same_shape s s'' L"
  by (auto simp: same_shape_def)

lemma same_shape_set_timestamp [simp]: "same_shape s (set_timestamp t n s) L"
  by (simp add: same_shape_def)

section \<open>Splitting a node\<close>

definition split_state :: "nid \<Rightarrow> nid \<Rightarrow> nat \<Rightarrow> 'a rtree_scheme \<Rightarrow> 'a rtree_scheme" where
  "split_state n p pos s =
     (let x = nd s n; m = tree_counter s; ps = tree_page s in
      s\<lparr>tree_heap := (tree_heap s)
          (m := \<lparr>node_key = take pos (node_key x), node_value = take pos (node_value x),
                 node_children = [(key_fn ps (drop pos (node_key x)), n)], node_parent = Some p,
                 node_ref_count = node_ref_count x, node_timestamp = node_timestamp x,
                 node_mamba_value = None, node_mamba_ref_count = 0,
                 node_swa_tombstone = node_swa_tombstone x,
                 node_swa_ref_count = node_swa_ref_count x, node_swa_uuid = node_swa_uuid x\<rparr>,
           n := x\<lparr>node_key := drop pos (node_key x), node_value := drop pos (node_value x),
                  node_parent := Some m, node_swa_uuid := None\<rparr>,
           p := (nd s p)\<lparr>node_children :=
                  AList.update (key_fn ps (take pos (node_key x))) m (node_children (nd s p))\<rparr>),
        tree_counter := Suc m\<rparr>)"


lemma split_at_eq:
  assumes "0 < pos" "pos < nlen s n" "length (node_value (nd s n)) = nlen s n"
    and "node_parent (nd s n) = Some p" "p \<noteq> n" "n \<noteq> tree_counter s" "p \<noteq> tree_counter s"
  shows "split_at n pos s = Inr (tree_counter s, split_state n p pos s)"
proof -
  let ?m = "tree_counter s"
  have ne [simp]: "n \<noteq> p" "?m \<noteq> n" "?m \<noteq> p" "p \<noteq> n" "n \<noteq> ?m" "p \<noteq> ?m" using assms by auto
  have [simp]: "length (take pos (node_value (nd s n))) = length (take pos (node_key (nd s n)))"
    "length (drop pos (node_value (nd s n))) = length (drop pos (node_key (nd s n)))"
    using assms by auto
  show ?thesis
    using assms(1,2,4)
    by (simp add: split_at_def split_state_def parent_of_def new_node_def set_key_value_def
        set_parent_def upd_node_def Let_def blank_node_def del: length_take length_drop)
       (rule rtree.equality; simp add: fun_eq_iff)
qed

lemma split_state_simps:
  assumes "n \<noteq> p" "n \<noteq> tree_counter s" "p \<noteq> tree_counter s"
  shows
    "tree_page (split_state n p pos s) = tree_page s"
    "tree_root (split_state n p pos s) = tree_root s"
    "tree_counter (split_state n p pos s) = Suc (tree_counter s)"
    "rtree.more (split_state n p pos s) = rtree.more s"
    "node_key (nd (split_state n p pos s) a) =
       (if a = tree_counter s then take pos (node_key (nd s n))
        else if a = n then drop pos (node_key (nd s n)) else node_key (nd s a))"
    "node_value (nd (split_state n p pos s) a) =
       (if a = tree_counter s then take pos (node_value (nd s n))
        else if a = n then drop pos (node_value (nd s n)) else node_value (nd s a))"
    "node_parent (nd (split_state n p pos s) a) =
       (if a = tree_counter s then Some p
        else if a = n then Some (tree_counter s) else node_parent (nd s a))"
    "node_children (nd (split_state n p pos s) a) =
       (if a = tree_counter s then [(key_fn (tree_page s) (drop pos (node_key (nd s n))), n)]
        else if a = p then AList.update (key_fn (tree_page s) (take pos (node_key (nd s n))))
                             (tree_counter s) (node_children (nd s p))
        else node_children (nd s a))"
    "node_ref_count (nd (split_state n p pos s) a) =
       (if a = tree_counter s then node_ref_count (nd s n) else node_ref_count (nd s a))"
    "node_timestamp (nd (split_state n p pos s) a) =
       (if a = tree_counter s then node_timestamp (nd s n) else node_timestamp (nd s a))"
    "node_mamba_value (nd (split_state n p pos s) a) =
       (if a = tree_counter s then None else node_mamba_value (nd s a))"
    "node_mamba_ref_count (nd (split_state n p pos s) a) =
       (if a = tree_counter s then 0 else node_mamba_ref_count (nd s a))"
    "node_swa_tombstone (nd (split_state n p pos s) a) =
       (if a = tree_counter s then node_swa_tombstone (nd s n) else node_swa_tombstone (nd s a))"
    "node_swa_ref_count (nd (split_state n p pos s) a) =
       (if a = tree_counter s then node_swa_ref_count (nd s n) else node_swa_ref_count (nd s a))"
  using assms by (auto simp: split_state_def Let_def)

lemma key_fn_take: "ps \<le> pos \<Longrightarrow> key_fn ps (take pos k) = key_fn ps k"
  by (simp add: key_fn_def min_absorb1)

text \<open>What \<open>split_at\<close> is applied to: an inner cut at a page boundary of a non-root node.\<close>

definition split_pre :: "'a rtree_scheme \<Rightarrow> nid set \<Rightarrow> nid \<Rightarrow> nid \<Rightarrow> nat \<Rightarrow> bool" where
  "split_pre s L n p pos \<longleftrightarrow> n \<in> L \<and> n \<noteq> tree_root s \<and> node_parent (nd s n) = Some p \<and>
     0 < pos \<and> pos < nlen s n \<and> tree_page s dvd pos"

lemma split_preD:
  assumes "wf_tree s L" "split_pre s L n p pos"
  shows "n \<in> L" "p \<in> L" "n \<noteq> p" "n \<noteq> tree_counter s" "p \<noteq> tree_counter s" "n \<noteq> tree_root s"
    "node_parent (nd s n) = Some p"
    "(key_fn (tree_page s) (node_key (nd s n)), n) \<in> set (node_children (nd s p))"
    "0 < pos" "pos < nlen s n" "tree_page s dvd pos" "tree_page s \<le> pos" "tree_counter s \<noteq> tree_root s"
proof -
  from assms obtain q where q: "q \<in> L" "node_parent (nd s n) = Some q" "q \<noteq> n"
    "(key_fn (tree_page s) (node_key (nd s n)), n) \<in> set (node_children (nd s q))"
    by (auto simp: split_pre_def elim: wf_parent)
  with assms show "n \<in> L" "p \<in> L" "n \<noteq> p" "n \<noteq> tree_counter s" "p \<noteq> tree_counter s" "n \<noteq> tree_root s"
    "node_parent (nd s n) = Some p"
    "(key_fn (tree_page s) (node_key (nd s n)), n) \<in> set (node_children (nd s p))"
    "0 < pos" "pos < nlen s n" "tree_page s dvd pos" "tree_page s \<le> pos" "tree_counter s \<noteq> tree_root s"
    using wf_counter_notin[OF assms(1)] wf_treeD(3)[OF assms(1)]
    by (auto simp: split_pre_def intro: dvd_imp_le)
qed

lemma split_at_split_state:
  assumes "wf_tree s L" "split_pre s L n p pos"
  shows "split_at n pos s = Inr (tree_counter s, split_state n p pos s)"
  using split_preD[OF assms] wf_node[OF assms(1)] by (intro split_at_eq) auto

lemma split_children_parent:
  assumes wf: "wf_tree s L" and pre: "split_pre s L n p pos"
  shows "set (AList.update (key_fn (tree_page s) (take pos (node_key (nd s n)))) (tree_counter s)
           (node_children (nd s p))) =
         insert (key_fn (tree_page s) (node_key (nd s n)), tree_counter s)
           {e \<in> set (node_children (nd s p)). snd e \<noteq> n}"
proof -
  note D = split_preD[OF wf pre]
  have e: "fst e = key_fn (tree_page s) (node_key (nd s n)) \<longleftrightarrow> snd e = n"
    if "e \<in> set (node_children (nd s p))" for e
    using D that wf_child[OF wf D(2), of "fst e" "snd e"] wf_distinct[OF wf D(2)]
    by (metis eq_key_imp_eq_value prod.collapse)
  show ?thesis
    unfolding key_fn_take[OF D(12)] set_update_old[OF wf_distinct[OF wf D(2)]]
    using e by blast
qed

lemma wf_split_state:
  assumes wf: "wf_tree s L" and pre: "split_pre s L n p pos"
  shows "wf_tree (split_state n p pos s) (insert (tree_counter s) L)"
proof -
  note D = split_preD[OF wf pre]
  let ?m = "tree_counter s" and ?s = "split_state n p pos s"
  note S = split_state_simps[OF D(3,4,5), of pos]
  note C = split_children_parent[OF wf pre]
  have mL: "?m \<notin> L" by (rule wf_counter_notin[OF wf])
  have node: "node_ok ?s (insert ?m L) a" if a: "a \<in> insert ?m L - {tree_root s}" for a
  proof -
    consider "a = ?m" | "a = n" | "a \<in> L" "a \<noteq> n" "a \<noteq> ?m" using a by blast
    then show ?thesis
    proof cases
      case 1
      then show ?thesis using D S C wf_node[OF wf D(1,6)]
        by (auto simp: node_ok_def key_fn_take)
    next
      case 2
      then show ?thesis using D S wf_node[OF wf D(1,6)]
        by (auto simp: node_ok_def dvd_diff_nat)
    next
      case 3
      have "node_ok s L a" using wf_treeD(5)[OF wf] 3 a by simp
      then obtain q where q: "q \<in> L" "node_parent (nd s a) = Some q"
        "(key_fn (tree_page s) (node_key (nd s a)), a) \<in> set (node_children (nd s q))"
        by (auto simp: node_ok_def)
      then have "q \<noteq> ?m" using mL by blast
      then have "(key_fn (tree_page s) (node_key (nd s a)), a) \<in> set (node_children (nd ?s q))"
        using q 3 S C by (auto simp: D)
      moreover note \<open>node_ok s L a\<close>
      ultimately show ?thesis using q 3 S by (auto simp: node_ok_def)
    qed
  qed
  have child: "children_ok ?s (insert ?m L) a" if a: "a \<in> insert ?m L" for a
  proof -
    consider "a = ?m" | "a = p" | "a \<in> L" "a \<noteq> p" "a \<noteq> ?m" using a by blast
    then show ?thesis
    proof cases
      case 1
      then show ?thesis using D S by (auto simp: children_ok_def)
    next
      case 2
      have "distinct (map fst (node_children (nd ?s p)))"
        using S(8)[of p] D wf_distinct[OF wf D(2)] by (simp add: distinct_update_fst)
      moreover have "c \<in> insert ?m L \<and> node_parent (nd ?s c) = Some p \<and>
          k = key_fn (tree_page s) (node_key (nd ?s c))"
        if "(k, c) \<in> set (node_children (nd ?s p))" for k c
        using that S D C wf_child[OF wf D(2), of k c] mL by (auto simp: key_fn_take)
      ultimately show ?thesis unfolding 2 children_ok_def S(1) by blast
    next
      case 3
      have "node_parent (nd s n) = Some p" by (rule D)
      then have "c \<noteq> n" if "(k, c) \<in> set (node_children (nd s a))" for k c
        using wf_child[OF wf 3(1) that] 3 by auto
      then show ?thesis using wf_treeD(6)[OF wf 3(1)] 3 S mL by (fastforce simp: children_ok_def)
    qed
  qed
  obtain rank where rank: "ranked s L rank" using wf by (auto simp: wf_tree_def)
  have "rank p < rank n" using rank D by (auto simp: ranked_def)
  moreover have "q \<noteq> ?m" if "a \<in> L" "node_parent (nd s a) = Some q" for a q
    using wf_parent[OF wf that(1)] that wf_treeD(4)[OF wf] mL by (metis option.distinct(1) option.inject)
  ultimately have "ranked ?s (insert ?m L) ((\<lambda>a. 2 * rank a)(?m := 2 * rank p + 1))"
    using rank S D unfolding ranked_def by (auto 4 3)
  with node child wf S D show ?thesis unfolding wf_tree_def by auto
qed

lemma concat_map_notin:
  "n \<notin> set xs \<Longrightarrow> concat (map (\<lambda>x. if x = n then [m, n] else [x]) xs) = xs"
  by (induction xs) auto

lemma split_path_nodes:
  assumes wf: "wf_tree s L" and pre: "split_pre s L n p pos" and a: "a \<in> L"
  shows "path_nodes (split_state n p pos s) a =
    concat (map (\<lambda>x. if x = n then [tree_counter s, n] else [x]) (path_nodes s a))"
    "path_key (split_state n p pos s) a = path_key s a"
    "path_value (split_state n p pos s) a = path_value s a"
proof -
  let ?m = "tree_counter s" and ?s = "split_state n p pos s"
  let ?f = "\<lambda>x. if x = n then [?m, n] else [x]"
  note D = split_preD[OF wf pre]
  note S = split_state_simps[OF D(3,4,5), of pos]
  note wf' = wf_split_state[OF wf pre]
  have m: "?m \<notin> L" by (rule wf_counter_notin[OF wf])
  have mpar: "node_parent (nd ?s ?m) = Some p" "node_parent (nd ?s n) = Some ?m"
    using S D by auto
  have pm: "path_nodes ?s ?m = path_nodes ?s p @ [?m]"
    "path_key ?s ?m = path_key ?s p @ take pos (node_key (nd s n))"
    "path_value ?s ?m = path_value ?s p @ take pos (node_value (nd s n))"
    using path_nodes_step[OF wf'] path_key_step[OF wf'] path_value_step[OF wf'] mpar S D by auto
  have pn: "path_nodes ?s n = path_nodes ?s p @ [?m, n]"
    "path_key ?s n = path_key ?s p @ node_key (nd s n)"
    "path_value ?s n = path_value ?s p @ node_value (nd s n)"
    using path_nodes_step[OF wf' _ mpar(2)] path_key_step[OF wf' _ mpar(2)]
      path_value_step[OF wf' _ mpar(2)] pm S D by auto
  have "path_nodes ?s a = concat (map ?f (path_nodes s a)) \<and> path_key ?s a = path_key s a \<and>
        path_value ?s a = path_value s a"
    using wf a
  proof (induction rule: tree_induct)
    case root
    then show ?case
      using path_nodes_root[OF wf'] path_nodes_root[OF wf] S by (simp add: path_key_def path_value_def)
  next
    case (step b q)
    note old = path_nodes_step[OF wf step(1,3,4)] path_key_step[OF wf step(1,3,4)]
      path_value_step[OF wf step(1,3,4)]
    show ?case
    proof (cases "b = n")
      case True
      then have "q = p" using step D by simp
      then show ?thesis using True old pn step by simp
    next
      case False
      have "b \<noteq> ?m" "q \<noteq> ?m" using step m by blast+
      then have "node_parent (nd ?s b) = Some q" "node_key (nd ?s b) = node_key (nd s b)"
        "node_value (nd ?s b) = node_value (nd s b)" using False S step by auto
      then show ?thesis
        using False old step path_nodes_step[OF wf'] path_key_step[OF wf'] path_value_step[OF wf']
        by auto
    qed
  qed
  then show "path_nodes ?s a = concat (map ?f (path_nodes s a))" "path_key ?s a = path_key s a"
    "path_value ?s a = path_value s a" by blast+
qed

lemma split_path_new:
  assumes wf: "wf_tree s L" and pre: "split_pre s L n p pos"
  shows "path_nodes (split_state n p pos s) (tree_counter s) = path_nodes s p @ [tree_counter s]"
    "path_key (split_state n p pos s) (tree_counter s) = path_key s p @ take pos (node_key (nd s n))"
    "path_value (split_state n p pos s) (tree_counter s) =
       path_value s p @ take pos (node_value (nd s n))"
proof -
  note D = split_preD[OF wf pre]
  note S = split_state_simps[OF D(3,4,5), of pos]
  note wf' = wf_split_state[OF wf pre]
  have "path_nodes s n = path_nodes s p @ [n]" using path_nodes_step[OF wf] D by blast
  then have "n \<notin> set (path_nodes s p)" using path_nodes_distinct[OF wf D(1)] by simp
  then have "concat (map (\<lambda>x. if x = n then [tree_counter s, n] else [x]) (path_nodes s p)) =
      path_nodes s p"
    by (rule concat_map_notin)
  then have "path_nodes (split_state n p pos s) p = path_nodes s p"
    using split_path_nodes(1)[OF wf pre D(2)] by simp
  then show "path_nodes (split_state n p pos s) (tree_counter s) = path_nodes s p @ [tree_counter s]"
    "path_key (split_state n p pos s) (tree_counter s) = path_key s p @ take pos (node_key (nd s n))"
    "path_value (split_state n p pos s) (tree_counter s) =
       path_value s p @ take pos (node_value (nd s n))"
    using path_nodes_step[OF wf', of "tree_counter s" p] path_key_step[OF wf', of "tree_counter s" p]
      path_value_step[OF wf', of "tree_counter s" p] split_path_nodes(2,3)[OF wf pre D(2)] S D
    by auto
qed

section \<open>Adding a leaf\<close>

definition add_state ::
  "int \<Rightarrow> nid \<Rightarrow> token list \<Rightarrow> slot list \<Rightarrow> 'a rtree_scheme \<Rightarrow> 'a rtree_scheme" where
  "add_state tic p k v s =
     s\<lparr>tree_heap := (tree_heap s)
         (tree_counter s := (blank_node tic)\<lparr>node_key := k, node_value := v, node_parent := Some p\<rparr>,
          p := (nd s p)\<lparr>node_children :=
                 AList.update (key_fn (tree_page s) k) (tree_counter s) (node_children (nd s p))\<rparr>),
       tree_counter := Suc (tree_counter s)\<rparr>"

definition add_pre :: "'a rtree_scheme \<Rightarrow> nid set \<Rightarrow> nid \<Rightarrow> token list \<Rightarrow> slot list \<Rightarrow> bool" where
  "add_pre s L p k v \<longleftrightarrow> p \<in> L \<and> k \<noteq> [] \<and> tree_page s dvd length k \<and> length v = length k \<and>
     map_of (node_children (nd s p)) (key_fn (tree_page s) k) = None"

lemma add_child_eq:
  assumes "p \<noteq> tree_counter s" "length v = length k"
  shows "add_child tic p k v s = Inr (tree_counter s, add_state tic p k v s)"
proof -
  have [simp]: "tree_counter s \<noteq> p" using assms by auto
  show ?thesis using assms
    by (simp add: add_child_def new_node_def set_key_value_def set_parent_def Let_def add_state_def
        upd_node_def blank_node_def)
      (rule rtree.equality; simp add: fun_eq_iff)
qed

lemma add_state_simps:
  assumes "p \<noteq> tree_counter s"
  shows
    "tree_page (add_state tic p k v s) = tree_page s"
    "tree_root (add_state tic p k v s) = tree_root s"
    "tree_counter (add_state tic p k v s) = Suc (tree_counter s)"
    "rtree.more (add_state tic p k v s) = rtree.more s"
    "node_key (nd (add_state tic p k v s) a) =
       (if a = tree_counter s then k else node_key (nd s a))"
    "node_value (nd (add_state tic p k v s) a) =
       (if a = tree_counter s then v else node_value (nd s a))"
    "node_parent (nd (add_state tic p k v s) a) =
       (if a = tree_counter s then Some p else node_parent (nd s a))"
    "node_children (nd (add_state tic p k v s) a) =
       (if a = tree_counter s then []
        else if a = p then AList.update (key_fn (tree_page s) k) (tree_counter s) (node_children (nd s p))
        else node_children (nd s a))"
    "node_ref_count (nd (add_state tic p k v s) a) =
       (if a = tree_counter s then 0 else node_ref_count (nd s a))"
    "node_timestamp (nd (add_state tic p k v s) a) =
       (if a = tree_counter s then tic else node_timestamp (nd s a))"
    "node_mamba_value (nd (add_state tic p k v s) a) =
       (if a = tree_counter s then None else node_mamba_value (nd s a))"
    "node_mamba_ref_count (nd (add_state tic p k v s) a) =
       (if a = tree_counter s then 0 else node_mamba_ref_count (nd s a))"
    "node_swa_tombstone (nd (add_state tic p k v s) a) =
       (if a = tree_counter s then False else node_swa_tombstone (nd s a))"
    "node_swa_ref_count (nd (add_state tic p k v s) a) =
       (if a = tree_counter s then 0 else node_swa_ref_count (nd s a))"
  using assms by (auto simp: add_state_def blank_node_def)

lemma wf_add_state:
  assumes wf: "wf_tree s L" and pre: "add_pre s L p k v"
  shows "wf_tree (add_state tic p k v s) (insert (tree_counter s) L)"
proof -
  let ?m = "tree_counter s" and ?s = "add_state tic p k v s"
  have m: "?m \<notin> L" by (rule wf_counter_notin[OF wf])
  have P: "p \<in> L" "p \<noteq> ?m" "?m \<noteq> p" using pre m by (auto simp: add_pre_def)
  note S = add_state_simps[OF P(2), of tic k v]
  have new: "key_fn (tree_page s) k \<notin> fst ` set (node_children (nd s p))"
    using pre by (simp add: add_pre_def map_of_eq_None_iff)
  have node: "node_ok ?s (insert ?m L) a" if a: "a \<in> insert ?m L - {tree_root s}" for a
  proof (cases "a = ?m")
    case True
    then show ?thesis using S P pre new
      by (auto simp: node_ok_def add_pre_def set_update_new)
  next
    case False
    then have ok: "node_ok s L a" using wf_treeD(5)[OF wf] a by simp
    then obtain q where q: "q \<in> L" "node_parent (nd s a) = Some q"
      "(key_fn (tree_page s) (node_key (nd s a)), a) \<in> set (node_children (nd s q))"
      by (auto simp: node_ok_def)
    then have "(key_fn (tree_page s) (node_key (nd s a)), a) \<in> set (node_children (nd ?s q))"
      using S m new by (auto simp: set_update_new)
    then show ?thesis using False q ok S m by (auto simp: node_ok_def)
  qed
  have child: "children_ok ?s (insert ?m L) a" if a: "a \<in> insert ?m L" for a
  proof -
    consider "a = ?m" | "a = p" | "a \<in> L" "a \<noteq> p" "a \<noteq> ?m" using a by blast
    then show ?thesis
    proof cases
      case 1
      then show ?thesis using S by (simp add: children_ok_def)
    next
      case 2
      have "distinct (map fst (node_children (nd ?s p)))"
        using S(8)[of p] P wf_distinct[OF wf P(1)] by (simp add: distinct_update_fst)
      moreover have "c \<in> insert ?m L \<and> node_parent (nd ?s c) = Some p \<and>
          k' = key_fn (tree_page s) (node_key (nd ?s c))"
        if "(k', c) \<in> set (node_children (nd ?s p))" for k' c
        using that S P wf_child[OF wf P(1), of k' c] m by (auto simp: set_update_new[OF new])
      ultimately show ?thesis unfolding 2 children_ok_def S(1) by blast
    next
      case 3
      then show ?thesis using wf_treeD(6)[OF wf 3(1)] S m by (fastforce simp: children_ok_def)
    qed
  qed
  obtain rank where rank: "ranked s L rank" using wf by (auto simp: wf_tree_def)
  have "q \<noteq> ?m" if "a \<in> L" "node_parent (nd s a) = Some q" for a q
    using wf_parent[OF wf that(1)] that wf_treeD(4)[OF wf] m by (metis option.distinct(1) option.inject)
  then have "ranked ?s (insert ?m L) (rank(?m := Suc (rank p)))"
    using rank S P m unfolding ranked_def by auto
  with node child wf S m show ?thesis unfolding wf_tree_def by auto
qed

lemma add_path_nodes:
  assumes wf: "wf_tree s L" and pre: "add_pre s L p k v" and a: "a \<in> L"
  shows "path_nodes (add_state tic p k v s) a = path_nodes s a"
    "path_key (add_state tic p k v s) a = path_key s a"
    "path_value (add_state tic p k v s) a = path_value s a"
proof -
  let ?m = "tree_counter s" and ?s = "add_state tic p k v s"
  have m: "?m \<notin> L" by (rule wf_counter_notin[OF wf])
  have P: "p \<noteq> ?m" using pre m by (auto simp: add_pre_def)
  note S = add_state_simps[OF P, of tic k v]
  note wf' = wf_add_state[OF wf pre, of tic]
  have "path_nodes ?s a = path_nodes s a \<and> path_key ?s a = path_key s a \<and>
        path_value ?s a = path_value s a"
    using wf a
  proof (induction rule: tree_induct)
    case root
    then show ?case
      using path_nodes_root[OF wf'] path_nodes_root[OF wf] S by (simp add: path_key_def path_value_def)
  next
    case (step b q)
    have "b \<noteq> ?m" using step m by blast
    then show ?case
      using step S path_nodes_step[OF wf', of b q] path_key_step[OF wf', of b q]
        path_value_step[OF wf', of b q] path_nodes_step[OF wf step(1,3,4)]
        path_key_step[OF wf step(1,3,4)] path_value_step[OF wf step(1,3,4)] by auto
  qed
  then show "path_nodes ?s a = path_nodes s a" "path_key ?s a = path_key s a"
    "path_value ?s a = path_value s a" by blast+
qed

lemma add_path_new:
  assumes wf: "wf_tree s L" and pre: "add_pre s L p k v"
  shows "path_nodes (add_state tic p k v s) (tree_counter s) = path_nodes s p @ [tree_counter s]"
    "path_key (add_state tic p k v s) (tree_counter s) = path_key s p @ k"
    "path_value (add_state tic p k v s) (tree_counter s) = path_value s p @ v"
proof -
  let ?m = "tree_counter s" and ?s = "add_state tic p k v s"
  have m: "?m \<notin> L" by (rule wf_counter_notin[OF wf])
  have P: "p \<in> L" "p \<noteq> ?m" using pre m by (auto simp: add_pre_def)
  note S = add_state_simps[OF P(2), of tic k v]
  note wf' = wf_add_state[OF wf pre, of tic]
  show "path_nodes ?s ?m = path_nodes s p @ [?m]" "path_key ?s ?m = path_key s p @ k"
    "path_value ?s ?m = path_value s p @ v"
    using S P path_nodes_step[OF wf', of ?m p] path_key_step[OF wf', of ?m p]
      path_value_step[OF wf', of ?m p] add_path_nodes[OF wf pre P(1)] by auto
qed

section \<open>Unlinking a leaf\<close>

definition unlink_state :: "nid \<Rightarrow> nid \<Rightarrow> 'a rtree_scheme \<Rightarrow> 'a rtree_scheme" where
  "unlink_state n p s =
     upd_node p (node_children_update (AList.delete (key_fn (tree_page s) (node_key (nd s n))))) s"

lemma unlink_state_simps [simp]:
  "tree_page (unlink_state n p s) = tree_page s"
  "tree_root (unlink_state n p s) = tree_root s"
  "tree_counter (unlink_state n p s) = tree_counter s"
  "rtree.more (unlink_state n p s) = rtree.more s"
  "node_key (nd (unlink_state n p s) a) = node_key (nd s a)"
  "node_value (nd (unlink_state n p s) a) = node_value (nd s a)"
  "node_parent (nd (unlink_state n p s) a) = node_parent (nd s a)"
  "node_ref_count (nd (unlink_state n p s) a) = node_ref_count (nd s a)"
  "node_timestamp (nd (unlink_state n p s) a) = node_timestamp (nd s a)"
  "node_mamba_value (nd (unlink_state n p s) a) = node_mamba_value (nd s a)"
  "node_mamba_ref_count (nd (unlink_state n p s) a) = node_mamba_ref_count (nd s a)"
  "node_swa_tombstone (nd (unlink_state n p s) a) = node_swa_tombstone (nd s a)"
  "node_swa_ref_count (nd (unlink_state n p s) a) = node_swa_ref_count (nd s a)"
  by (simp_all add: unlink_state_def)

lemma unlink_eq:
  assumes wf: "wf_tree s L" and n: "n \<in> L" "n \<noteq> tree_root s"
  obtains p where "p \<in> L" "p \<noteq> n" "node_parent (nd s n) = Some p"
    "unlink n s = Inr (p, unlink_state n p s)"
proof -
  obtain p where p: "p \<in> L" "node_parent (nd s n) = Some p" "p \<noteq> n"
    "(key_fn (tree_page s) (node_key (nd s n)), n) \<in> set (node_children (nd s p))"
    using wf n by (rule wf_parent)
  then have "unlink n s = Inr (p, unlink_state n p s)"
    using wf_children_map_of[OF wf p(1)]
    by (simp add: unlink_def parent_of_def unlink_state_def Let_def)
  with p that show thesis by blast
qed

lemma unlink_children:
  assumes wf: "wf_tree s L" and n: "n \<in> L" "n \<noteq> tree_root s" "node_parent (nd s n) = Some p"
    and a: "a \<in> L"
  shows "set (node_children (nd (unlink_state n p s) a)) =
         {e \<in> set (node_children (nd s a)). snd e \<noteq> n}"
proof -
  obtain q where q: "q \<in> L" "node_parent (nd s n) = Some q"
    "(key_fn (tree_page s) (node_key (nd s n)), n) \<in> set (node_children (nd s q))"
    using wf_parent[OF wf n(1,2)] by blast
  have [simp]: "q = p" using q n by simp
  show ?thesis
  proof (cases "a = p")
    case True
    have "fst e = key_fn (tree_page s) (node_key (nd s n)) \<longleftrightarrow> snd e = n"
      if "e \<in> set (node_children (nd s p))" for e
      using q that wf_child[OF wf, of p "fst e" "snd e"] wf_distinct[OF wf, of p]
      by (metis \<open>q = p\<close> eq_key_imp_eq_value prod.collapse)
    then show ?thesis using True by (auto simp: unlink_state_def set_delete_alist)
  next
    case False
    have "snd e \<noteq> n" if "e \<in> set (node_children (nd s a))" for e
      using wf_child(2)[OF wf a, of "fst e" "snd e"] that n(3) False by auto
    then show ?thesis using False by (auto simp: unlink_state_def)
  qed
qed

lemma wf_unlink_state:
  assumes wf: "wf_tree s L" and n: "n \<in> L" "n \<noteq> tree_root s" "node_parent (nd s n) = Some p"
    and leaf: "is_leaf s n"
  shows "wf_tree (unlink_state n p s) (L - {n})"
proof -
  let ?s = "unlink_state n p s"
  note C = unlink_children[OF wf n]
  have par: "q \<noteq> n" if "a \<in> L" "a \<noteq> tree_root s" "node_parent (nd s a) = Some q" for a q
    using wf_parent_child(3)[OF wf that(1,3)] leaf by (auto simp: is_leaf_def)
  have node: "node_ok ?s (L - {n}) a" if a: "a \<in> L - {n} - {tree_root s}" for a
  proof -
    have ok: "node_ok s L a" using wf_treeD(5)[OF wf] a by simp
    then obtain q where q: "q \<in> L" "node_parent (nd s a) = Some q"
      "(key_fn (tree_page s) (node_key (nd s a)), a) \<in> set (node_children (nd s q))"
      by (auto simp: node_ok_def)
    then have "q \<in> L - {n}" "(key_fn (tree_page s) (node_key (nd s a)), a) \<in> set (node_children (nd ?s q))"
      using par[of a q] a C[OF q(1)] by auto
    then show ?thesis using ok q by (auto simp: node_ok_def)
  qed
  have child: "children_ok ?s (L - {n}) a" if a: "a \<in> L - {n}" for a
  proof -
    have "distinct (map fst (node_children (nd ?s a)))"
      using wf_distinct[OF wf, of a] a by (auto simp: unlink_state_def intro: distinct_delete_fst)
    then show ?thesis
      using C[of a] a wf_child[OF wf, of a] by (auto simp: children_ok_def)
  qed
  obtain rank where "ranked s L rank" using wf by (auto simp: wf_tree_def)
  then have "ranked ?s (L - {n}) rank" by (simp add: ranked_def)
  with node child wf n show ?thesis unfolding wf_tree_def by auto
qed

lemma unlink_paths:
  "path_nodes (unlink_state n p s) a = path_nodes s a"
  "path_key (unlink_state n p s) a = path_key s a"
  "path_value (unlink_state n p s) a = path_value s a"
proof -
  have "ups f (unlink_state n p s) b = ups f s b" for f b
    by (induction f arbitrary: b) (auto split: option.splits)
  then show "path_nodes (unlink_state n p s) a = path_nodes s a"
    by (simp add: path_nodes_def)
  then show "path_key (unlink_state n p s) a = path_key s a"
    "path_value (unlink_state n p s) a = path_value s a"
    by (simp_all add: path_key_def path_value_def)
qed

text \<open>A leaf lies on no path but its own.\<close>

lemma leaf_not_on_path:
  assumes wf: "wf_tree s L" and leaf: "is_leaf s n" and a: "a \<in> L" "a \<noteq> n"
  shows "n \<notin> set (path_nodes s a)"
  using wf a
proof (induction rule: tree_induct)
  case root
  then show ?case by (simp add: path_nodes_root[OF wf])
next
  case (step b q)
  have "q \<noteq> n"
    using wf_parent_child(3)[OF wf step(1,3)] leaf by (auto simp: is_leaf_def)
  then show ?case using step by (simp add: path_nodes_step[OF wf step(1,3,4)])
qed

section \<open>The walk\<close>

text \<open>Page-aligned length of the common prefix of two token lists.\<close>

definition alcp :: "nat \<Rightarrow> token list \<Rightarrow> token list \<Rightarrow> nat" where
  "alcp ps xs ys = align_down (match_len xs ys) ps"

lemma alcp_le_take: "alcp ps (take l ys) ys \<le> l"
  unfolding alcp_def by (rule le_trans[OF align_down_le], rule le_trans[OF match_len_le(1)]) simp

lemma alcp_diff_page:
  assumes "0 < ps" "ps dvd l" "take ps (drop l xs) \<noteq> take ps (drop l ys)"
  shows "alcp ps xs ys \<le> l"
proof (rule ccontr)
  assume "\<not> alcp ps xs ys \<le> l"
  moreover have "ps dvd alcp ps xs ys" by (simp add: alcp_def)
  ultimately have "l < alcp ps xs ys" "ps dvd alcp ps xs ys - l"
    using assms(2) by (auto intro: dvd_diff_nat)
  then have "l + ps \<le> alcp ps xs ys" using dvd_imp_le[of ps "alcp ps xs ys - l"] by linarith
  then have "l + ps \<le> match_len xs ys" unfolding alcp_def using align_down_le le_trans by blast
  then have "take (l + ps) xs = take (l + ps) ys" by (rule match_len_eq_prefix)
  then have "drop l (take (l + ps) xs) = drop l (take (l + ps) ys)" by simp
  with assms(3) show False by (simp add: drop_take)
qed

lemma alcp_append: "ps dvd length zs \<Longrightarrow> alcp ps (zs @ xs) (zs @ ys) = length zs + alcp ps xs ys"
  by (simp add: alcp_def match_len_append align_down_add)

definition ts_eq :: "'a rtree_scheme \<Rightarrow> 'a rtree_scheme \<Rightarrow> bool" where
  "ts_eq s s' \<longleftrightarrow> tree_page s' = tree_page s \<and> tree_root s' = tree_root s \<and>
     tree_counter s' = tree_counter s \<and> rtree.more s' = rtree.more s \<and>
     (\<forall>n. \<exists>t. nd s' n = (nd s n)\<lparr>node_timestamp := t\<rparr>)"

lemma ts_eq_refl [simp]: "ts_eq s s"
proof -
  have "nd s n = (nd s n)\<lparr>node_timestamp := node_timestamp (nd s n)\<rparr>" for n by simp
  then show ?thesis unfolding ts_eq_def by blast
qed

lemma ts_eq_trans: "ts_eq s s1 \<Longrightarrow> ts_eq s1 s2 \<Longrightarrow> ts_eq s s2"
proof -
  assume a: "ts_eq s s1" "ts_eq s1 s2"
  have "\<exists>t. nd s2 n = (nd s n)\<lparr>node_timestamp := t\<rparr>" for n
  proof -
    obtain t1 t2 where "nd s1 n = (nd s n)\<lparr>node_timestamp := t1\<rparr>" "nd s2 n = (nd s1 n)\<lparr>node_timestamp := t2\<rparr>"
      using a unfolding ts_eq_def by blast
    then have "nd s2 n = (nd s n)\<lparr>node_timestamp := t2\<rparr>" by simp
    then show ?thesis ..
  qed
  with a show ?thesis unfolding ts_eq_def by auto
qed

lemma ts_eq_nd:
  assumes "ts_eq s s'"
  shows "node_key (nd s' n) = node_key (nd s n)" "node_value (nd s' n) = node_value (nd s n)"
    "node_children (nd s' n) = node_children (nd s n)" "node_parent (nd s' n) = node_parent (nd s n)"
    "node_ref_count (nd s' n) = node_ref_count (nd s n)"
    "node_mamba_value (nd s' n) = node_mamba_value (nd s n)"
    "node_mamba_ref_count (nd s' n) = node_mamba_ref_count (nd s n)"
    "node_swa_tombstone (nd s' n) = node_swa_tombstone (nd s n)"
    "node_swa_ref_count (nd s' n) = node_swa_ref_count (nd s n)"
    "node_swa_uuid (nd s' n) = node_swa_uuid (nd s n)"
proof -
  obtain t where "nd s' n = (nd s n)\<lparr>node_timestamp := t\<rparr>" using assms unfolding ts_eq_def by blast
  then show "node_key (nd s' n) = node_key (nd s n)" "node_value (nd s' n) = node_value (nd s n)"
    "node_children (nd s' n) = node_children (nd s n)" "node_parent (nd s' n) = node_parent (nd s n)"
    "node_ref_count (nd s' n) = node_ref_count (nd s n)"
    "node_mamba_value (nd s' n) = node_mamba_value (nd s n)"
    "node_mamba_ref_count (nd s' n) = node_mamba_ref_count (nd s n)"
    "node_swa_tombstone (nd s' n) = node_swa_tombstone (nd s n)"
    "node_swa_ref_count (nd s' n) = node_swa_ref_count (nd s n)"
    "node_swa_uuid (nd s' n) = node_swa_uuid (nd s n)"
    by simp_all
qed

lemma ts_eq_frame:
  "ts_eq s s' \<Longrightarrow> tree_page s' = tree_page s \<and> tree_root s' = tree_root s \<and>
     tree_counter s' = tree_counter s \<and> rtree.more s' = rtree.more s"
  by (simp add: ts_eq_def)

lemma ts_eq_shape: "ts_eq s s' \<Longrightarrow> same_shape s s' L"
  by (simp add: same_shape_def ts_eq_nd ts_eq_frame)

lemma ts_eq_set_timestamp [simp]: "ts_eq s (set_timestamp t n s)"
proof -
  have "nd (set_timestamp t n s) m =
      (nd s m)\<lparr>node_timestamp := (if m = n then t else node_timestamp (nd s m))\<rparr>" for m
    by (simp add: set_timestamp_def)
  then have "\<exists>t'. nd (set_timestamp t n s) m = (nd s m)\<lparr>node_timestamp := t'\<rparr>" for m by blast
  then show ?thesis unfolding ts_eq_def by simp
qed

text \<open>
  The outcome of a walk: only time stamps changed, or in addition one node was split at a page
  boundary and the new upper half is the result.
\<close>

definition walk_result ::
  "'a rtree_scheme \<Rightarrow> nid set \<Rightarrow> nid \<Rightarrow> 'a rtree_scheme \<Rightarrow> nid set \<Rightarrow> bool" where
  "walk_result s L node s' L' \<longleftrightarrow>
     (ts_eq s s' \<and> node \<in> L \<and> L' = L) \<or>
     (\<exists>s1 n p pos tic. ts_eq s s1 \<and> split_pre s1 L n p pos \<and> node = tree_counter s \<and>
        s' = set_timestamp tic node (split_state n p pos s1) \<and> L' = insert node L)"

lemma walk_result_wf:
  assumes wf: "wf_tree s L" and r: "walk_result s L node s' L'"
  shows "wf_tree s' L'" "node \<in> L'" "L \<subseteq> L'" "tree_page s' = tree_page s" "tree_root s' = tree_root s"
    "rtree.more s' = rtree.more s" "tree_counter s \<le> tree_counter s'"
    "a \<in> L \<Longrightarrow> path_key s' a = path_key s a" "a \<in> L \<Longrightarrow> path_value s' a = path_value s a"
proof -
  have "wf_tree s' L' \<and> node \<in> L' \<and> L \<subseteq> L' \<and> tree_page s' = tree_page s \<and> tree_root s' = tree_root s \<and>
    rtree.more s' = rtree.more s \<and> tree_counter s \<le> tree_counter s' \<and>
    (\<forall>a\<in>L. path_key s' a = path_key s a \<and> path_value s' a = path_value s a)"
    using r unfolding walk_result_def
  proof (elim disjE exE conjE)
    assume t: "ts_eq s s'" "node \<in> L" "L' = L"
    then show ?thesis
      using same_shape_wf[OF ts_eq_shape[OF t(1)] wf] same_shape_paths[OF ts_eq_shape[OF t(1)] wf]
        ts_eq_frame[OF t(1)] by auto
  next
    fix s1 n p pos tic
    assume t: "ts_eq s s1" and pre: "split_pre s1 L n p pos" and node: "node = tree_counter s"
      and s': "s' = set_timestamp tic node (split_state n p pos s1)" and L': "L' = insert node L"
    have wf1: "wf_tree s1 L" by (rule same_shape_wf[OF ts_eq_shape[OF t] wf])
    note F = ts_eq_frame[OF t]
    note D = split_preD[OF wf1 pre]
    have wf2: "wf_tree (split_state n p pos s1) L'"
      using wf_split_state[OF wf1 pre] F by (simp add: L' node)
    have sh: "same_shape (split_state n p pos s1) s' L'" by (simp add: s')
    have "path_key s' a = path_key s a \<and> path_value s' a = path_value s a" if "a \<in> L" for a
      using same_shape_paths[OF sh wf2] split_path_nodes(2,3)[OF wf1 pre that]
        same_shape_paths[OF ts_eq_shape[OF t] wf that] that L' by auto
    then show ?thesis
      using same_shape_wf[OF sh wf2] F split_state_simps(1-4)[OF D(3,4,5)] L' by (auto simp: s')
  qed
  then show "wf_tree s' L'" "node \<in> L'" "L \<subseteq> L'" "tree_page s' = tree_page s" "tree_root s' = tree_root s"
    "rtree.more s' = rtree.more s" "tree_counter s \<le> tree_counter s'"
    "a \<in> L \<Longrightarrow> path_key s' a = path_key s a" "a \<in> L \<Longrightarrow> path_value s' a = path_value s a"
    by blast+
qed

lemma walk_result_ts: "ts_eq s s1 \<Longrightarrow> walk_result s1 L node s' L' \<Longrightarrow> walk_result s L node s' L'"
proof -
  assume t: "ts_eq s s1" and r: "walk_result s1 L node s' L'"
  from r consider "ts_eq s1 s'" "node \<in> L" "L' = L"
    | s2 n p pos tic where "ts_eq s1 s2" "split_pre s2 L n p pos" "node = tree_counter s1"
        "s' = set_timestamp tic node (split_state n p pos s2)" "L' = insert node L"
    unfolding walk_result_def by blast
  then show ?thesis
  proof cases
    case 1
    then show ?thesis using ts_eq_trans[OF t] unfolding walk_result_def by blast
  next
    case 2
    moreover have "tree_counter s1 = tree_counter s" using ts_eq_frame[OF t] by simp
    ultimately show ?thesis using ts_eq_trans[OF t 2(1)] unfolding walk_result_def by metis
  qed
qed

text \<open>\<open>above s n a\<close>: \<open>n\<close> is \<open>a\<close> or one of its ancestors.\<close>

definition above :: "'a rtree_scheme \<Rightarrow> nid \<Rightarrow> nid \<Rightarrow> bool" where
  "above s n a \<longleftrightarrow> n = tree_root s \<or> n \<in> set (path_nodes s a)"

lemma above_child:
  assumes "wf_tree s L" "a \<in> L" "above s n a" "a \<noteq> n"
  obtains c where "c \<in> L" "node_parent (nd s c) = Some n" "above s c a"
proof -
  have "\<exists>c\<in>L. node_parent (nd s c) = Some n \<and> c \<in> set (path_nodes s a)"
    using assms
  proof (induction rule: tree_induct)
    case root
    then show ?case using path_nodes_root[OF assms(1)] by (simp add: above_def)
  next
    case (step b q)
    note P = path_nodes_step[OF assms(1) step(1,3,4)]
    show ?case
    proof (cases "q = n")
      case True
      then show ?thesis using step P by (intro bexI[of _ b]) auto
    next
      case False
      then show ?thesis using step P by (auto simp: above_def)
    qed
  qed
  then show thesis using that by (auto simp: above_def)
qed

lemma above_key:
  assumes "wf_tree s L" "a \<in> L" "c \<in> L" "above s c a"
  shows "\<exists>rest. path_key s a = path_key s c @ rest"
  using assms path_key_prefix[OF assms(1,2)] by (auto simp: above_def prefix_def path_key_root[OF assms(1)])

text \<open>The state of the walk at a node: everything outside its subtree matches no further.\<close>

definition walk_inv :: "'a rtree_scheme \<Rightarrow> nid set \<Rightarrow> token list \<Rightarrow> nid \<Rightarrow> nat \<Rightarrow> bool" where
  "walk_inv s L ids node l \<longleftrightarrow>
     node \<in> L \<and> l \<le> length ids \<and> path_key s node = take l ids \<and>
     (\<forall>a\<in>L. above s node a \<or> alcp (tree_page s) (path_key s a) ids \<le> l)"

lemma walk_inv_dvd: "wf_tree s L \<Longrightarrow> walk_inv s L ids node l \<Longrightarrow> tree_page s dvd l"
  using path_lengths[of s L node] by (auto simp: walk_inv_def min_absorb1)

lemma walk_inv_other_page:
  assumes wf: "wf_tree s L" and inv: "walk_inv s L ids node l"
    and c: "c \<in> L" "node_parent (nd s c) = Some node" "above s c a" "a \<in> L"
    and diff: "key_fn (tree_page s) (node_key (nd s c)) \<noteq> key_fn (tree_page s) (drop l ids)"
  shows "alcp (tree_page s) (path_key s a) ids \<le> l"
proof -
  have node: "node \<in> L" "path_key s node = take l ids" "l \<le> length ids"
    using inv by (auto simp: walk_inv_def)
  obtain rest where rest: "path_key s a = path_key s c @ rest" using above_key[OF wf c(4,1,3)] by blast
  have "path_key s c = take l ids @ node_key (nd s c)"
    using path_key_step[OF wf c(1,2) node(1)] node by simp
  moreover have "tree_page s \<le> nlen s c" using wf_node(4)[OF wf c(1)] wf_parent_child(4)[OF wf c(1,2)] by simp
  ultimately have "take (tree_page s) (drop l (path_key s a)) = key_fn (tree_page s) (node_key (nd s c))"
    using rest node(3) by (simp add: key_fn_def min_absorb1)
  then show ?thesis
    using diff alcp_diff_page[OF wf_treeD(1)[OF wf] walk_inv_dvd[OF wf inv]] by (simp add: key_fn_def)
qed

lemma walk_inv_stop_missing:
  assumes wf: "wf_tree s L" and inv: "walk_inv s L ids node l"
    and none: "map_of (node_children (nd s node)) (key_fn (tree_page s) (drop l ids)) = None"
    and a: "a \<in> L"
  shows "alcp (tree_page s) (path_key s a) ids \<le> l"
proof (cases "above s node a \<and> a \<noteq> node")
  case True
  then obtain c where c: "c \<in> L" "node_parent (nd s c) = Some node" "above s c a"
    using above_child[OF wf a] by blast
  have "(key_fn (tree_page s) (node_key (nd s c)), c) \<in> set (node_children (nd s node))"
    using wf_parent_child(3)[OF wf c(1,2)] .
  then have "key_fn (tree_page s) (node_key (nd s c)) \<noteq> key_fn (tree_page s) (drop l ids)"
    using none by (force simp: map_of_eq_None_iff)
  then show ?thesis using walk_inv_other_page[OF wf inv c a] by blast
next
  case False
  then show ?thesis using inv a alcp_le_take[of "tree_page s" l ids] by (auto simp: walk_inv_def)
qed

text \<open>The child the walk descends to, and what the comparison with its key says.\<close>

lemma walk_child:
  assumes wf: "wf_tree s L" and inv: "walk_inv s L ids node l" and l: "l < length ids"
    and c: "map_of (node_children (nd s node)) (key_fn (tree_page s) (drop l ids)) = Some c"
  defines "ml \<equiv> align_down (get_match_len s c (drop l ids)) (tree_page s)"
  shows "c \<in> L" "node_parent (nd s c) = Some node" "c \<noteq> tree_root s" "tree_page s \<le> ml" "ml \<le> nlen s c"
    "tree_page s dvd ml" "take ml (node_key (nd s c)) = take ml (drop l ids)" "l + ml \<le> length ids"
    "path_key s c = take l ids @ node_key (nd s c)"
proof -
  have node: "node \<in> L" "path_key s node = take l ids" using inv by (auto simp: walk_inv_def)
  have mem: "(key_fn (tree_page s) (drop l ids), c) \<in> set (node_children (nd s node))"
    using c wf_children_map_of[OF wf node(1)] by simp
  note C = wf_child[OF wf node(1) mem]
  show "c \<in> L" "node_parent (nd s c) = Some node" "c \<noteq> tree_root s" by (fact C)+
  have page: "take (tree_page s) (node_key (nd s c)) = take (tree_page s) (drop l ids)"
    using C(3) by (simp add: key_fn_def)
  have len: "tree_page s \<le> nlen s c" using wf_node(4)[OF wf C(1,4)] .
  then have "tree_page s \<le> length (drop l ids)"
    using arg_cong[OF page, of length] by simp
  then have "tree_page s \<le> get_match_len s c (drop l ids)"
    unfolding get_match_len_def using page len by (intro match_len_greatest)
  then show "tree_page s \<le> ml" unfolding ml_def by (simp add: align_down_greatest)
  have "ml \<le> match_len (node_key (nd s c)) (drop l ids)"
    unfolding ml_def get_match_len_def by simp
  from le_trans[OF this match_len_le(1)] show "ml \<le> nlen s c" .
  show "take ml (node_key (nd s c)) = take ml (drop l ids)"
    by (rule match_len_eq_prefix) fact
  show "l + ml \<le> length ids"
    using le_trans[OF \<open>ml \<le> match_len _ _\<close> match_len_le(2)] l by simp
  show "tree_page s dvd ml" by (simp add: ml_def)
  show "path_key s c = take l ids @ node_key (nd s c)"
    using path_key_step[OF wf C(1,2) node(1)] node(2) by simp
qed

lemma walk_inv_descend:
  assumes wf: "wf_tree s L" and inv: "walk_inv s L ids node l" and l: "l < length ids"
    and c: "map_of (node_children (nd s node)) (key_fn (tree_page s) (drop l ids)) = Some c"
    and full: "align_down (get_match_len s c (drop l ids)) (tree_page s) = nlen s c"
  shows "walk_inv s L ids c (l + nlen s c)"
proof -
  note W = walk_child[OF wf inv l c, unfolded full]
  have key: "path_key s c = take (l + nlen s c) ids"
    using W(7,9) by (simp add: take_add)
  have "above s c a \<or> alcp (tree_page s) (path_key s a) ids \<le> l + nlen s c" if a: "a \<in> L" for a
  proof (cases "above s node a \<and> a \<noteq> node")
    case True
    then obtain b where b: "b \<in> L" "node_parent (nd s b) = Some node" "above s b a"
      using above_child[OF wf a] by blast
    show ?thesis
    proof (cases "b = c")
      case False
      have "(key_fn (tree_page s) (node_key (nd s b)), b) \<in> set (node_children (nd s node))"
        using wf_parent_child(3)[OF wf b(1,2)] .
      then have "key_fn (tree_page s) (node_key (nd s b)) \<noteq> key_fn (tree_page s) (drop l ids)"
        using c False wf_children_map_of[OF wf] inv by (auto simp: walk_inv_def)
      then show ?thesis using walk_inv_other_page[OF wf inv b a] by simp
    qed (use b in simp)
  next
    case False
    then show ?thesis
      using inv a alcp_le_take[of "tree_page s" l ids] by (auto simp: walk_inv_def)
  qed
  with W key show ?thesis by (auto simp: walk_inv_def)
qed

lemma walk_split_max:
  assumes wf: "wf_tree s L" and inv: "walk_inv s L ids node l" and l: "l < length ids"
    and c: "map_of (node_children (nd s node)) (key_fn (tree_page s) (drop l ids)) = Some c"
    and part: "align_down (get_match_len s c (drop l ids)) (tree_page s) \<noteq> nlen s c"
    and a: "a \<in> L"
  shows "alcp (tree_page s) (path_key s a) ids
           \<le> l + align_down (get_match_len s c (drop l ids)) (tree_page s)"
proof (cases "above s node a \<and> a \<noteq> node")
  case True
  let ?d = "drop l ids" and ?k = "node_key (nd s c)"
  note W = walk_child[OF wf inv l c]
  obtain b where b: "b \<in> L" "node_parent (nd s b) = Some node" "above s b a"
    using above_child[OF wf a] True by blast
  show ?thesis
  proof (cases "b = c")
    case False
    have "(key_fn (tree_page s) (node_key (nd s b)), b) \<in> set (node_children (nd s node))"
      using wf_parent_child(3)[OF wf b(1,2)] .
    then have "key_fn (tree_page s) (node_key (nd s b)) \<noteq> key_fn (tree_page s) ?d"
      using c False wf_children_map_of[OF wf] inv by (auto simp: walk_inv_def)
    then show ?thesis using walk_inv_other_page[OF wf inv b a] by simp
  next
    case True
    then obtain rest where rest: "path_key s a = take l ids @ ?k @ rest"
      using above_key[OF wf a b(1,3)] W(9) by auto
    have "match_len ?k ?d < length ?k"
    proof (rule ccontr)
      assume "\<not> match_len ?k ?d < length ?k"
      then have "match_len ?k ?d = length ?k" using match_len_le(1)[of ?k ?d] by simp
      then show False using part wf_node(2)[OF wf W(1,3)] by (simp add: get_match_len_def align_down_id)
    qed
    then have "match_len (?k @ rest) ?d = match_len ?k ?d" by (rule match_len_append_left)
    moreover have "tree_page s dvd length (take l ids)"
      using walk_inv_dvd[OF wf inv] l by (simp add: min_absorb1)
    ultimately show ?thesis
      using alcp_append[of "tree_page s" "take l ids" "?k @ rest" ?d] l
      by (simp add: rest alcp_def get_match_len_def min_absorb1)
  qed
next
  case False
  then show ?thesis
    using inv a alcp_le_take[of "tree_page s" l ids] by (auto simp: walk_inv_def)
qed

lemma walk_inv_ts:
  assumes "ts_eq s s'" "wf_tree s L"
  shows "walk_inv s' L ids node l \<longleftrightarrow> walk_inv s L ids node l"
  using same_shape_paths[OF ts_eq_shape[OF assms(1)] assms(2)] ts_eq_frame[OF assms(1)]
    same_shape_path_nodes[OF ts_eq_shape[OF assms(1)] assms(2)]
  by (auto simp: walk_inv_def above_def)

theorem tree_walk_loop_correct:
  assumes "wf_tree s L" "walk_inv s L ids node l" "length ids - l < fuel"
  shows "\<exists>node' l' s' L'. tree_walk_loop fuel tic ids node l s = Inr (node', l', s') \<and>
     walk_result s L node' s' L' \<and> l \<le> l' \<and> l' \<le> length ids \<and>
     path_key s' node' = take l' ids \<and>
     (\<forall>a\<in>L. alcp (tree_page s) (path_key s a) ids \<le> l') \<and>
     (l' < length ids \<longrightarrow>
        map_of (node_children (nd s' node')) (key_fn (tree_page s) (drop l' ids)) = None)"
  using assms
proof (induction fuel arbitrary: s node l)
  case 0
  then show ?case by simp
next
  case (Suc fuel)
  note wf = Suc.prems(1) and inv = Suc.prems(2)
  have N: "node \<in> L" "l \<le> length ids" "path_key s node = take l ids" using inv by (auto simp: walk_inv_def)
  have here: "walk_result s L node s L" using N by (simp add: walk_result_def)
  show ?case
  proof (cases "l < length ids")
    case False
    then have "alcp (tree_page s) (path_key s a) ids \<le> l" for a
      using le_trans[OF align_down_le match_len_le(2), of "path_key s a" ids "tree_page s"] N
      unfolding alcp_def by linarith
    then show ?thesis using False here N by auto
  next
    case l: True
    show ?thesis
    proof (cases "map_of (node_children (nd s node)) (key_fn (tree_page s) (drop l ids))")
      case None
      then show ?thesis using l here N walk_inv_stop_missing[OF wf inv None] by auto
    next
      case (Some c)
      note W = walk_child[OF wf inv l Some]
      let ?ml = "align_down (get_match_len s c (drop l ids)) (tree_page s)"
      show ?thesis
      proof (cases "?ml = nlen s c")
        case full: True
        let ?s1 = "set_timestamp tic c s"
        have t: "ts_eq s ?s1" by simp
        have wf1: "wf_tree ?s1 L" by (rule same_shape_wf[OF ts_eq_shape[OF t] wf])
        have inv1: "walk_inv ?s1 L ids c (l + nlen s c)"
          using walk_inv_ts[OF t wf] walk_inv_descend[OF wf inv l Some full] by simp
        have "length ids - (l + nlen s c) < fuel"
          using Suc.prems(3) l W(4,5) wf_treeD(1)[OF wf] by linarith
        then obtain node' l' s' L' where IH:
          "tree_walk_loop fuel tic ids c (l + nlen s c) ?s1 = Inr (node', l', s')"
          "walk_result ?s1 L node' s' L'" "l + nlen s c \<le> l'" "l' \<le> length ids"
          "path_key s' node' = take l' ids"
          "\<forall>a\<in>L. alcp (tree_page ?s1) (path_key ?s1 a) ids \<le> l'"
          "l' < length ids \<longrightarrow>
             map_of (node_children (nd s' node')) (key_fn (tree_page ?s1) (drop l' ids)) = None"
          using Suc.IH[OF wf1 inv1] by blast
        moreover have "\<forall>a\<in>L. path_key ?s1 a = path_key s a"
          using same_shape_paths(1)[OF ts_eq_shape[OF t] wf] by blast
        ultimately show ?thesis
          using l Some full walk_result_ts[OF t] by (fastforce simp: Let_def)
      next
        case part: False
        have pre: "split_pre s L c node ?ml"
          using W part wf_treeD(1)[OF wf] by (auto simp: split_pre_def)
        note sp = split_at_split_state[OF wf pre]
        let ?s1 = "split_state c node ?ml s" and ?m = "tree_counter s"
        let ?s2 = "set_timestamp tic ?m ?s1"
        have res: "walk_result s L ?m ?s2 (insert ?m L)"
          unfolding walk_result_def using pre by (metis ts_eq_refl)
        have wf1: "wf_tree ?s1 (insert ?m L)" by (rule wf_split_state[OF wf pre])
        have "path_key ?s2 ?m = path_key ?s1 ?m"
          by (rule same_shape_paths(1)[OF _ wf1]) auto
        also have "\<dots> = take l ids @ take ?ml (node_key (nd s c))"
          using split_path_new(2)[OF wf pre] N by simp
        also have "\<dots> = take (l + ?ml) ids" using W(7) by (simp add: take_add)
        finally have key: "path_key ?s2 ?m = take (l + ?ml) ids" .
        have miss: "map_of (node_children (nd ?s2 ?m)) (key_fn (tree_page s) (drop (l + ?ml) ids)) = None"
        proof -
          let ?k = "node_key (nd s c)" and ?d = "drop l ids"
          note D = split_preD[OF wf pre]
          have ch: "node_children (nd ?s2 ?m) = [(key_fn (tree_page s) (drop ?ml ?k), c)]"
            using split_state_simps(8)[OF D(3,4,5)] by simp
          have ml: "?ml = alcp (tree_page s) ?k ?d" by (simp add: alcp_def get_match_len_def)
          have "key_fn (tree_page s) (drop ?ml ?k) \<noteq> key_fn (tree_page s) (drop ?ml ?d)"
          proof
            assume eq: "key_fn (tree_page s) (drop ?ml ?k) = key_fn (tree_page s) (drop ?ml ?d)"
            have "tree_page s dvd nlen s c - ?ml" using wf_node(2)[OF wf W(1,3)] W(6) by (simp add: dvd_diff_nat)
            then have lenk: "tree_page s \<le> nlen s c - ?ml" using D(10) by (simp add: dvd_imp_le)
            have lend: "tree_page s \<le> length ?d - ?ml"
              using arg_cong[OF eq, of length] lenk by (simp add: key_fn_def)
            have "take (?ml + tree_page s) ?k = take (?ml + tree_page s) ?d"
              using eq W(7) by (simp add: take_add key_fn_def)
            then have "?ml + tree_page s \<le> match_len ?k ?d"
              using lenk lend D(10) wf_treeD(1)[OF wf] by (intro match_len_greatest) auto
            then have "?ml + tree_page s \<le> alcp (tree_page s) ?k ?d"
              unfolding alcp_def using W(6) by (intro align_down_greatest) auto
            then show False using ml wf_treeD(1)[OF wf] by simp
          qed
          then show ?thesis using ch by (simp add: add.commute)
        qed
        show ?thesis
          using l Some part sp res key miss walk_split_max[OF wf inv l Some part] W(8)
          by (auto simp: Let_def intro!: exI[of _ "insert ?m L"])
      qed
    qed
  qed
qed

lemma walk_inv_start:
  assumes "wf_tree s L" shows "walk_inv s L ids (tree_root s) 0"
  using assms wf_treeD(3)[OF assms] by (simp add: walk_inv_def above_def path_key_root)

theorem tree_walk_correct:
  assumes "wf_tree s L"
  obtains node l s' L' where "tree_walk tic ids s = Inr (node, l, s')"
    "walk_result s L node s' L'" "l \<le> length ids" "path_key s' node = take l ids"
    "\<And>a. a \<in> L \<Longrightarrow> alcp (tree_page s) (path_key s a) ids \<le> l"
    "l < length ids \<Longrightarrow>
       map_of (node_children (nd s' node)) (key_fn (tree_page s) (drop l ids)) = None"
  using tree_walk_loop_correct[OF assms walk_inv_start[OF assms], of ids "Suc (length ids)" tic] that
  unfolding tree_walk_def by fastforce

end
