(* ===== verification/Heapq.thy ===== *)
theory Heapq
  imports Prelude
begin

text \<open>
  Python's \<open>heapq\<close> on a list, as \<open>evict\<close> of the three prefix caches uses it: \<open>heapify\<close>,
  \<open>heappop\<close> and \<open>heappush\<close>, with the library's own sifting, so that ties are broken as the
  library breaks them.  \<open>f\<close> is the key the elements are compared by (\<open>__lt__\<close> of the nodes
  compares time stamps); the library moves a hole where the model swaps, which is the same list.
  The lemmas: every operation permutes the elements, keeps the heap order, and \<open>heappop\<close>
  returns an element whose key is minimal.
\<close>

definition swap :: "nat \<Rightarrow> nat \<Rightarrow> 'a list \<Rightarrow> 'a list" where
  "swap i j h = h[i := h ! j, j := h ! i]"

definition up :: "nat \<Rightarrow> nat" where
  "up i = (i - 1) div 2"

lemma up_less: "0 < i \<Longrightarrow> up i < i"
  by (simp add: up_def)

function sift_down :: "('a \<Rightarrow> int) \<Rightarrow> nat \<Rightarrow> nat \<Rightarrow> 'a list \<Rightarrow> 'a list" where
  "sift_down f start pos h =
     (if start < pos \<and> f (h ! pos) < f (h ! up pos)
      then sift_down f start (up pos) (swap pos (up pos) h) else h)"
  by auto
termination by (relation "measure (\<lambda>(f, start, pos, h). pos)") (auto simp: up_less)

definition small_child :: "('a \<Rightarrow> int) \<Rightarrow> nat \<Rightarrow> 'a list \<Rightarrow> nat" where
  "small_child f pos h =
     (if 2 * pos + 2 < length h \<and> \<not> f (h ! (2 * pos + 1)) < f (h ! (2 * pos + 2))
      then 2 * pos + 2 else 2 * pos + 1)"

function sift_leaf :: "('a \<Rightarrow> int) \<Rightarrow> nat \<Rightarrow> 'a list \<Rightarrow> nat \<times> 'a list" where
  "sift_leaf f pos h =
     (if 2 * pos + 1 < length h
      then sift_leaf f (small_child f pos h) (swap pos (small_child f pos h) h) else (pos, h))"
  by auto
termination
  by (relation "measure (\<lambda>(f, pos, h). length h - pos)") (auto simp: small_child_def swap_def)

declare sift_down.simps [simp del] sift_leaf.simps [simp del]

definition sift_up :: "('a \<Rightarrow> int) \<Rightarrow> nat \<Rightarrow> 'a list \<Rightarrow> 'a list" where
  "sift_up f pos h = (case sift_leaf f pos h of (q, h') \<Rightarrow> sift_down f pos q h')"

definition heapify :: "('a \<Rightarrow> int) \<Rightarrow> 'a list \<Rightarrow> 'a list" where
  "heapify f h = fold (sift_up f) (rev [0..<length h div 2]) h"

definition heappop :: "('a \<Rightarrow> int) \<Rightarrow> 'a list \<Rightarrow> ('a \<times> 'a list) res" where
  "heappop f h =
     (if h = [] then Inl IndexError
      else if butlast h = [] then Inr (last h, [])
      else Inr (hd h, sift_up f 0 ((butlast h)[0 := last h])))"

definition heappush :: "('a \<Rightarrow> int) \<Rightarrow> 'a list \<Rightarrow> 'a \<Rightarrow> 'a list" where
  "heappush f h x = sift_down f 0 (length h) (h @ [x])"

section \<open>Permutation\<close>

lemma length_swap [simp]: "length (swap i j h) = length h"
  by (simp add: swap_def)

lemma mset_swap [simp]: "i < length h \<Longrightarrow> j < length h \<Longrightarrow> mset (swap i j h) = mset h"
  by (simp add: swap_def mset_swap)

lemma nth_swap: "i < length h \<Longrightarrow> j < length h \<Longrightarrow> k < length h \<Longrightarrow>
    swap i j h ! k = (if k = i then h ! j else if k = j then h ! i else h ! k)"
  by (auto simp: swap_def nth_list_update)

lemma length_sift_down [simp]: "length (sift_down f start pos h) = length h"
  by (induction f start pos h rule: sift_down.induct) (simp add: sift_down.simps)

lemma mset_sift_down: "pos < length h \<Longrightarrow> mset (sift_down f start pos h) = mset h"
proof (induction f start pos h rule: sift_down.induct)
  case (1 f start pos h)
  have "up pos < length h" if "0 < pos" using up_less[OF that] 1 by simp
  with 1 show ?case by (subst sift_down.simps) auto
qed

lemma small_child_less: "2 * pos + 1 < length h \<Longrightarrow> small_child f pos h < length h"
  by (auto simp: small_child_def)

lemma mset_sift_leaf:
  "pos < length h \<Longrightarrow> mset (snd (sift_leaf f pos h)) = mset h \<and>
     length (snd (sift_leaf f pos h)) = length h \<and> fst (sift_leaf f pos h) < length h"
proof (induction f pos h rule: sift_leaf.induct)
  case (1 f pos h)
  show ?case
  proof (cases "2 * pos + 1 < length h")
    case True
    then show ?thesis using 1 small_child_less[OF True, of f]
      by (subst (1 2 3) sift_leaf.simps) simp
  qed (use 1 in \<open>simp add: sift_leaf.simps\<close>)
qed

lemma mset_sift_up: "pos < length h \<Longrightarrow> mset (sift_up f pos h) = mset h"
  using mset_sift_leaf[of pos h f] by (auto simp: sift_up_def mset_sift_down split: prod.splits)

lemma length_sift_up: "pos < length h \<Longrightarrow> length (sift_up f pos h) = length h"
  by (metis mset_sift_up size_mset)

lemma mset_fold_sift_up:
  "\<forall>i\<in>set is. i < length h \<Longrightarrow> mset (fold (sift_up f) is h) = mset h"
  by (induction "is" arbitrary: h) (auto simp: mset_sift_up length_sift_up)

lemma mset_heapify [simp]: "mset (heapify f h) = mset h"
  unfolding heapify_def by (rule mset_fold_sift_up) auto

lemma mset_heappush [simp]: "mset (heappush f h x) = add_mset x (mset h)"
  by (simp add: heappush_def mset_sift_down)

lemma mset_butlast_last: "h \<noteq> [] \<Longrightarrow> add_mset (last h) (mset (butlast h)) = mset h"
  by (metis append_butlast_last_id mset_append union_mset_add_mset_right add.right_neutral mset.simps)

lemma heappop_perm: "heappop f h = Inr (x, h') \<Longrightarrow> mset h = add_mset x (mset h')"
  by (cases h) (auto simp: heappop_def mset_sift_up mset_butlast_last split: if_splits)

lemma heappop_ok: "h \<noteq> [] \<Longrightarrow> \<exists>x h'. heappop f h = Inr (x, h')"
  by (auto simp: heappop_def)

lemma set_heapify [simp]: "set (heapify f h) = set h"
  by (metis mset_heapify set_mset_mset)

lemma set_heappush [simp]: "set (heappush f h x) = insert x (set h)"
  by (metis mset_heappush set_mset_add_mset_insert set_mset_mset)

lemma distinct_heapify [simp]: "distinct (heapify f h) = distinct h"
  by (rule mset_eq_imp_distinct_iff) simp

lemma distinct_heappush [simp]: "distinct (heappush f h x) \<longleftrightarrow> x \<notin> set h \<and> distinct h"
  using mset_eq_imp_distinct_iff[of "heappush f h x" "x # h"] by simp

lemma heappop_distinct:
  assumes "heappop f h = Inr (x, h')" "distinct h"
  shows "x \<in> set h" "distinct h'" "set h' = set h - {x}"
proof -
  have m: "mset h = mset (x # h')" using heappop_perm[OF assms(1)] by simp
  then have d: "distinct (x # h')" and e: "set h = set (x # h')"
    using assms(2) mset_eq_imp_distinct_iff mset_eq_setD by blast+
  then show "x \<in> set h" "distinct h'" "set h' = set h - {x}" by auto
qed

section \<open>Heap order\<close>

text \<open>
  \<open>heap_but k E h\<close>: every element below a position \<open>\<ge> k\<close> is at least its parent, except at
  the positions \<open>E\<close>.
\<close>

definition heap_but :: "('a \<Rightarrow> int) \<Rightarrow> nat \<Rightarrow> nat set \<Rightarrow> 'a list \<Rightarrow> bool" where
  "heap_but f k E h \<longleftrightarrow>
     (\<forall>i<length h. 0 < i \<longrightarrow> k \<le> up i \<longrightarrow> i \<notin> E \<longrightarrow> f (h ! up i) \<le> f (h ! i))"

definition heap_skip :: "('a \<Rightarrow> int) \<Rightarrow> nat \<Rightarrow> nat \<Rightarrow> 'a list \<Rightarrow> bool" where
  "heap_skip f k pos h \<longleftrightarrow>
     (0 < pos \<and> k \<le> up pos \<longrightarrow>
      (\<forall>i<length h. 0 < i \<longrightarrow> up i = pos \<longrightarrow> f (h ! up pos) \<le> f (h ! i)))"

definition heap_from :: "('a \<Rightarrow> int) \<Rightarrow> nat \<Rightarrow> 'a list \<Rightarrow> bool" where
  "heap_from f k h = heap_but f k {} h"

text \<open>\<open>desc k pos\<close>: walking up from \<open>pos\<close> one meets \<open>k\<close>.\<close>

inductive desc :: "nat \<Rightarrow> nat \<Rightarrow> bool" where
  self: "desc k k"
| child: "desc k (up i) \<Longrightarrow> 0 < i \<Longrightarrow> desc k i"

lemma desc_le: "desc k i \<Longrightarrow> k \<le> i"
proof (induction rule: desc.induct)
  case (child k i)
  then show ?case using up_less[of i] by simp
qed simp

lemma desc_up: "desc k i \<Longrightarrow> k < i \<Longrightarrow> desc k (up i)"
  by (cases rule: desc.cases) auto

lemma sift_down_heap:
  "pos < length h \<Longrightarrow> desc k pos \<Longrightarrow> heap_but f k {pos} h \<Longrightarrow> heap_skip f k pos h \<Longrightarrow>
   heap_from f k (sift_down f k pos h)"
proof (induction f k pos h rule: sift_down.induct)
  case (1 f k pos h)
  let ?q = "up pos" and ?h = "swap pos (up pos) h"
  show ?case
  proof (cases "k < pos \<and> f (h ! pos) < f (h ! ?q)")
    case True
    then have q: "?q < pos" "?q < length h" and d: "desc k ?q" and kq: "k \<le> ?q"
      using "1.prems" up_less[of pos] desc_up[of k pos] desc_le[of k ?q] by auto
    have b: "f (h ! up i) \<le> f (h ! i)" if "i < length h" "0 < i" "k \<le> up i" "i \<noteq> pos" for i
      using "1.prems"(3) that by (auto simp: heap_but_def)
    have sk: "f (h ! ?q) \<le> f (h ! i)" if "i < length h" "0 < i" "up i = pos" for i
      using "1.prems"(4) that True kq by (auto simp: heap_skip_def)
    have n: "?h ! i = (if i = pos then h ! ?q else if i = ?q then h ! pos else h ! i)"
      if "i < length h" for i using that q "1.prems"(1) by (simp add: nth_swap)
    have "f (?h ! up i) \<le> f (?h ! i)" if i: "i < length h" "0 < i" "k \<le> up i" "i \<noteq> ?q" for i
    proof -
      have ui: "up i < length h" "up i \<noteq> i" using i up_less[of i] by auto
      consider "i = pos" | "i \<noteq> pos" "up i = pos" | "i \<noteq> pos" "up i = ?q" | "i \<noteq> pos" "up i \<noteq> pos" "up i \<noteq> ?q"
        by blast
      then show ?thesis
      proof cases
        case 1 then show ?thesis using True n[OF i(1)] n[OF ui(1)] q by auto
      next
        case 2 then show ?thesis using sk[OF i(1,2)] n[OF i(1)] n[OF ui(1)] i(4) by simp
      next
        case 3 then show ?thesis using b[OF i(1-3)] n[OF i(1)] n[OF ui(1)] i(4) True q by auto
      next
        case 4 then show ?thesis using b[OF i(1-3)] n[OF i(1)] n[OF ui(1)] i(4) by simp
      qed
    qed
    then have hb: "heap_but f k {?q} ?h" by (auto simp: heap_but_def)
    have "f (?h ! up ?q) \<le> f (?h ! i)" if q': "0 < ?q" "k \<le> up ?q" and i: "i < length h" "0 < i" "up i = ?q" for i
    proof -
      have u: "up ?q < ?q" using up_less q'(1) .
      have "f (h ! up ?q) \<le> f (h ! ?q)" using b[OF q(2) q'] q by auto
      moreover have "f (h ! ?q) \<le> f (h ! i)" if "i \<noteq> pos" using b[OF i(1,2)] i kq that by simp
      moreover have "i \<noteq> ?q" using i up_less[of i] by auto
      moreover have "up ?q < length h" "up ?q \<noteq> pos" "up ?q \<noteq> ?q" using u q by auto
      ultimately have le: "f (h ! up ?q) \<le> f (h ! (if i = pos then ?q else i))"
        and e: "?h ! up ?q = h ! up ?q" "?h ! i = h ! (if i = pos then ?q else i)"
        using n[OF i(1)] n[of "up ?q"] by (auto intro: order_trans)
      show ?thesis unfolding i(3) e by (rule le)
    qed
    then have hs: "heap_skip f k ?q ?h" by (auto simp: heap_skip_def)
    have "heap_from f k (sift_down f k ?q ?h)"
      using "1.IH"[OF True _ d hb hs] q by simp
    then show ?thesis using True by (subst sift_down.simps) simp
  next
    case False
    then have stop: "sift_down f k pos h = h" by (subst sift_down.simps) auto
    have "f (h ! up pos) \<le> f (h ! pos)" if "0 < pos" "k \<le> up pos"
      using False that up_less[of pos] by force
    then show ?thesis using "1.prems"(3) stop by (auto simp: heap_from_def heap_but_def)
  qed
qed

definition sifting :: "('a \<Rightarrow> int) \<Rightarrow> nat \<Rightarrow> nat \<Rightarrow> 'a list \<Rightarrow> bool" where
  "sifting f k pos h \<longleftrightarrow> pos < length h \<and> desc k pos \<and>
     heap_but f k (insert pos {i. up i = pos}) h \<and> heap_skip f k pos h"

lemma up_small_child [simp]: "up (small_child f pos h) = pos"
  by (auto simp: small_child_def up_def)

lemma small_child_min:
  "i < length h \<Longrightarrow> 0 < i \<Longrightarrow> up i = pos \<Longrightarrow> f (h ! small_child f pos h) \<le> f (h ! i)"
proof -
  assume i: "i < length h" "0 < i" "up i = pos"
  then have "i = 2 * pos + 1 \<or> i = 2 * pos + 2" unfolding up_def by presburger
  with i(1) show ?thesis by (auto simp: small_child_def)
qed

lemma sifting_step:
  assumes s: "sifting f k pos h" and c: "2 * pos + 1 < length h"
  shows "sifting f k (small_child f pos h) (swap pos (small_child f pos h) h)"
proof -
  let ?c = "small_child f pos h" and ?h = "swap pos (small_child f pos h) h"
  have cl: "?c < length h" and cp: "0 < ?c" "?c \<noteq> pos"
    using small_child_less[OF c, of f] by (auto simp: small_child_def)
  have p: "pos < length h" "desc k pos" using s by (simp_all add: sifting_def)
  have b: "f (h ! up i) \<le> f (h ! i)" if "i < length h" "0 < i" "k \<le> up i" "i \<noteq> pos" "up i \<noteq> pos" for i
    using s that by (auto simp: heap_but_def sifting_def)
  have sk: "f (h ! up pos) \<le> f (h ! ?c)" if "0 < pos" "k \<le> up pos"
    using s that cl cp(1) up_small_child[of f pos h] unfolding heap_skip_def sifting_def by blast
  have n: "?h ! i = (if i = pos then h ! ?c else if i = ?c then h ! pos else h ! i)"
    if "i < length h" for i using that cl p(1) by (simp add: nth_swap)
  have d: "desc k ?c" using desc.child[of k ?c] p(2) cp by simp
  have "f (?h ! up i) \<le> f (?h ! i)"
    if i: "i < length h" "0 < i" "k \<le> up i" "i \<noteq> ?c" "up i \<noteq> ?c" for i
  proof -
    have ui: "up i < length h" "up i \<noteq> i" using i up_less[of i] by auto
    consider "i = pos" | "i \<noteq> pos" "up i = pos" | "i \<noteq> pos" "up i \<noteq> pos" by blast
    then show ?thesis
    proof cases
      case 1 then show ?thesis using sk i n[OF i(1)] n[OF ui(1)] ui by auto
    next
      case 2 then show ?thesis
        using small_child_min[OF i(1,2) 2(2), of f] n[OF i(1)] n[OF ui(1)] i(4) by simp
    next
      case 3 then show ?thesis using b[OF i(1-3)] n[OF i(1)] n[OF ui(1)] i by simp
    qed
  qed
  then have hb: "heap_but f k (insert ?c {i. up i = ?c}) ?h" by (auto simp: heap_but_def)
  have "f (?h ! up ?c) \<le> f (?h ! i)" if i: "i < length h" "0 < i" "up i = ?c" for i
  proof -
    have "k \<le> up i" using i desc_le[OF d] by simp
    moreover have "pos < ?c" using up_less[OF cp(1)] by simp
    moreover have "?c < i" using up_less[OF i(2)] i(3) by simp
    ultimately show ?thesis using b[OF i(1,2)] i n[OF i(1)] n[OF p(1)] by simp
  qed
  then have "heap_skip f k ?c ?h" by (auto simp: heap_skip_def)
  then show ?thesis using hb d cl by (simp add: sifting_def)
qed

lemma sift_leaf_heap:
  "sifting f k pos h \<Longrightarrow> sift_leaf f pos h = (q, h') \<Longrightarrow>
   sifting f k q h' \<and> \<not> 2 * q + 1 < length h'"
proof (induction f pos h rule: sift_leaf.induct)
  case (1 f pos h)
  show ?case
  proof (cases "2 * pos + 1 < length h")
    case True
    then have "sift_leaf f (small_child f pos h) (swap pos (small_child f pos h) h) = (q, h')"
      using "1.prems"(2) by (subst (asm) sift_leaf.simps) simp
    then show ?thesis using "1.IH"[OF True sifting_step[OF "1.prems"(1) True]] by simp
  next
    case False
    then have "sift_leaf f pos h = (pos, h)" by (subst sift_leaf.simps) simp
    then show ?thesis using "1.prems" False by simp
  qed
qed

lemma sift_up_heap:
  assumes "k < length h" "heap_from f (Suc k) h"
  shows "heap_from f k (sift_up f k h)"
proof -
  have "sifting f k k h"
    using assms up_less[of k] by (auto simp: sifting_def heap_from_def heap_but_def heap_skip_def desc.self)
  moreover obtain q h' where q: "sift_leaf f k h = (q, h')" by (cases "sift_leaf f k h")
  ultimately have s: "sifting f k q h'" "\<not> 2 * q + 1 < length h'" using sift_leaf_heap by blast+
  have "up i \<noteq> q" if "i < length h'" "0 < i" for i using s(2) that unfolding up_def by presburger
  then have "heap_but f k {q} h'" using s(1) by (auto simp: sifting_def heap_but_def)
  then show ?thesis using s(1) q by (auto simp: sift_up_def sifting_def intro: sift_down_heap)
qed

lemma fold_sift_up_heap:
  "m \<le> length h \<Longrightarrow> heap_from f m h \<Longrightarrow> heap_from f 0 (fold (sift_up f) (rev [0..<m]) h)"
proof (induction m arbitrary: h)
  case (Suc m)
  then have "heap_from f m (sift_up f m h)" by (intro sift_up_heap) auto
  then show ?case using Suc by (simp add: length_sift_up)
qed simp

lemma heapify_heap: "heap_from f 0 (heapify f h)"
  unfolding heapify_def
  by (rule fold_sift_up_heap) (auto simp: heap_from_def heap_but_def up_def)

lemma heap_min: "heap_from f 0 h \<Longrightarrow> i < length h \<Longrightarrow> f (h ! 0) \<le> f (h ! i)"
proof (induction i rule: less_induct)
  case (less i)
  show ?case
  proof (cases "i = 0")
    case False
    then have "f (h ! up i) \<le> f (h ! i)" using less.prems by (simp add: heap_from_def heap_but_def)
    moreover have "f (h ! 0) \<le> f (h ! up i)" using less False up_less[of i] by simp
    ultimately show ?thesis by simp
  qed simp
qed

lemma heappop_heap:
  assumes "heap_from f 0 h" "heappop f h = Inr (x, h')"
  shows "heap_from f 0 h'" "y \<in> set h \<Longrightarrow> f x \<le> f y"
proof -
  have h: "h \<noteq> []" using assms(2) by (auto simp: heappop_def)
  let ?l = "(butlast h)[0 := last h]"
  have "up i < length h - Suc 0" if "i < length h - Suc 0" "0 < i" for i
    using up_less[OF that(2)] that(1) by simp
  then have "heap_from f (Suc 0) ?l"
    using assms(1) by (auto simp: heap_from_def heap_but_def nth_butlast nth_list_update)
  moreover have "?l \<noteq> [] \<longleftrightarrow> butlast h \<noteq> []" by simp
  ultimately show "heap_from f 0 h'"
    using assms(2) sift_up_heap[of 0 ?l f] unfolding length_greater_0_conv by (auto simp: heappop_def heap_from_def heap_but_def split: if_splits)
  have "x = h ! 0" using assms(2) h by (cases h) (auto simp: heappop_def split: if_splits)
  then show "y \<in> set h \<Longrightarrow> f x \<le> f y" using heap_min[OF assms(1)] by (auto simp: in_set_conv_nth)
qed

lemma desc_0: "desc 0 i"
proof (induction i rule: less_induct)
  case (less i)
  then show ?case using up_less[of i] by (cases "i = 0") (auto intro: desc.intros)
qed

lemma heappush_heap: "heap_from f 0 h \<Longrightarrow> heap_from f 0 (heappush f h x)"
  unfolding heappush_def
proof (rule sift_down_heap)
  assume h: "heap_from f 0 h"
  have u: "up i < length h" if "i \<le> length h" "0 < i" for i using up_less[OF that(2)] that by simp
  show "heap_but f 0 {length h} (h @ [x])"
    using h u by (auto simp: heap_from_def heap_but_def nth_append)
  show "heap_skip f 0 (length h) (h @ [x])"
    using u by (fastforce simp: heap_skip_def less_Suc_eq_le)
qed (auto intro: desc_0)

end
