(* ===== verification/RadixCache.thy ===== *)
theory RadixCache
  imports RadixNode Heapq
begin

text \<open>
  \<open>RadixPrefixCache\<close> and \<open>RadixCacheHandle\<close> of \<open>runtime/kvcache/radix_cache.py\<close>: the two size
  counters over the node store, \<open>lock_handle\<close>, \<open>match_prefix\<close>, \<open>insert_prefix\<close>, \<open>evict\<close> and
  \<open>get_matched_indices\<close>.

  The invariant \<open>radix_inv s L H\<close> has two ghost parameters: the set \<open>L\<close> of the nodes of the tree
  and the multiset \<open>H\<close> of the handles' nodes that are locked at the moment.  It says that the
  reference count of a node is the number of locks taken below it and that the two counters are
  the number of tokens at unlocked and at locked nodes.  \<open>cached\<close> is the abstract content: the
  page-aligned token prefixes the tree can serve, each with its slots.
\<close>

section \<open>State and operations\<close>

record radix_cache = rtree +
  evictable_size :: int
  protected_size :: int

record radix_handle =
  cached_len :: nat
  handle_node :: nid

definition radix_init :: "nat \<Rightarrow> int \<Rightarrow> radix_cache" where
  "radix_init page_size tic =
     \<lparr>tree_heap = (\<lambda>_. blank_node tic)(0 := (blank_node tic)\<lparr>node_ref_count := 1\<rparr>),
      tree_counter = 1, tree_root = 0, tree_page = page_size,
      evictable_size = 0, protected_size = 0\<rparr>"

definition add_evictable :: "int \<Rightarrow> 'a radix_cache_scheme \<Rightarrow> 'a radix_cache_scheme" where
  "add_evictable d s = s\<lparr>evictable_size := evictable_size s + d\<rparr>"

definition add_protected :: "int \<Rightarrow> 'a radix_cache_scheme \<Rightarrow> 'a radix_cache_scheme" where
  "add_protected d s = s\<lparr>protected_size := protected_size s + d\<rparr>"

definition unlock_node :: "nid \<Rightarrow> 'a radix_cache_scheme \<Rightarrow> 'a radix_cache_scheme res" where
  "unlock_node n s =
     (let s1 = upd_node n (node_ref_count_update (\<lambda>r. r - 1)) s in
      res_bind (py_assert (0 \<le> node_ref_count (nd s1 n))) (\<lambda>_.
      Inr (if node_ref_count (nd s1 n) = 0
           then add_protected (- int (nlen s1 n)) (add_evictable (int (nlen s1 n)) s1) else s1)))"

definition lock_node :: "nid \<Rightarrow> 'a radix_cache_scheme \<Rightarrow> 'a radix_cache_scheme" where
  "lock_node n s =
     (let s1 = (if node_ref_count (nd s n) = 0
                then add_protected (int (nlen s n)) (add_evictable (- int (nlen s n)) s) else s)
      in upd_node n (node_ref_count_update (\<lambda>r. r + 1)) s1)"

fun unlock_loop :: "nat \<Rightarrow> nid \<Rightarrow> 'a radix_cache_scheme \<Rightarrow> 'a radix_cache_scheme res" where
  "unlock_loop 0 n s = Inl OutOfFuel"
| "unlock_loop (Suc fuel) n s =
     (if is_root s n then Inr s
      else res_bind (unlock_node n s) (\<lambda>s1.
           res_bind (parent_of s1 n) (\<lambda>p. unlock_loop fuel p s1)))"

fun lock_loop :: "nat \<Rightarrow> nid \<Rightarrow> 'a radix_cache_scheme \<Rightarrow> 'a radix_cache_scheme res" where
  "lock_loop 0 n s = Inl OutOfFuel"
| "lock_loop (Suc fuel) n s =
     (if is_root s n then Inr s
      else res_bind (parent_of (lock_node n s) n) (\<lambda>p. lock_loop fuel p (lock_node n s)))"

definition lock_handle ::
  "radix_handle \<Rightarrow> bool \<Rightarrow> 'a radix_cache_scheme \<Rightarrow> 'a radix_cache_scheme res" where
  "lock_handle h unlock s =
     (if unlock then unlock_loop (Suc (tree_counter s)) (handle_node h) s
      else lock_loop (Suc (tree_counter s)) (handle_node h) s)"

definition match_prefix ::
  "int \<Rightarrow> token list \<Rightarrow> 'a radix_cache_scheme \<Rightarrow> (radix_handle \<times> 'a radix_cache_scheme) res" where
  "match_prefix tic input_ids s =
     res_bind (tree_walk tic input_ids s) (\<lambda>(node, prefix_len, s1).
       Inr (\<lparr>cached_len = prefix_len, handle_node = node\<rparr>, s1))"

definition insert_prefix ::
  "int \<Rightarrow> int \<Rightarrow> token list \<Rightarrow> slot list \<Rightarrow> 'a radix_cache_scheme \<Rightarrow>
   (nat \<times> radix_handle \<times> 'a radix_cache_scheme) res" where
  "insert_prefix tic tic' input_ids indices s =
     (let insert_len = align_down (length input_ids) (tree_page s);
          ids = take insert_len input_ids;
          inds = take insert_len indices
      in res_bind (tree_walk tic ids s) (\<lambda>(node, prefix_len, s1).
         if prefix_len \<noteq> insert_len then
           res_bind (add_child tic' node (drop prefix_len ids) (drop prefix_len inds) s1)
             (\<lambda>(new, s2).
               Inr (prefix_len, \<lparr>cached_len = insert_len, handle_node = new\<rparr>,
                    add_evictable (int (nlen s2 new)) s2))
         else Inr (prefix_len, \<lparr>cached_len = insert_len, handle_node = node\<rparr>, s1)))"

definition get_matched_indices :: "radix_handle \<Rightarrow> 'a radix_cache_scheme \<Rightarrow> slot list res" where
  "get_matched_indices h s =
     (if path_nodes s (handle_node h) = [] then Inl ValueError
      else Inr (path_value s (handle_node h)))"

text \<open>
  \<open>_collect_leave_nodes_for_evict\<close>: the stack is a Python list whose end is its top; a node is
  pushed once, so the number of nodes bounds the loop.
\<close>

fun collect_leaves_loop ::
  "nat \<Rightarrow> 'a rtree_scheme \<Rightarrow> nid list \<Rightarrow> nid list \<Rightarrow> nid list res" where
  "collect_leaves_loop 0 s nodes leave_nodes = Inl OutOfFuel"
| "collect_leaves_loop (Suc fuel) s nodes leave_nodes =
     (if nodes = [] then Inr leave_nodes
      else let node = last nodes; nodes' = butlast nodes in
        if is_leaf s node
        then collect_leaves_loop fuel s nodes'
               (if node_ref_count (nd s node) = 0 then leave_nodes @ [node] else leave_nodes)
        else collect_leaves_loop fuel s (nodes' @ map snd (node_children (nd s node))) leave_nodes)"

definition collect_leave_nodes_for_evict :: "'a rtree_scheme \<Rightarrow> nid list res" where
  "collect_leave_nodes_for_evict s = collect_leaves_loop (Suc (tree_counter s)) s [tree_root s] []"

text \<open>
  One round of the loop of \<open>evict\<close>, and the loop; every round evicts at least one token, so
  the size asked for bounds the rounds.
\<close>

definition evict_step ::
  "nid list \<Rightarrow> 'a radix_cache_scheme \<Rightarrow> (nid \<times> nid list \<times> 'a radix_cache_scheme) res" where
  "evict_step leave_nodes s =
     res_bind (py_assert (leave_nodes \<noteq> [])) (\<lambda>_.
     res_bind (heappop (\<lambda>n. node_timestamp (nd s n)) leave_nodes) (\<lambda>(node, leaves).
     res_bind (py_assert (node_ref_count (nd s node) = 0 \<and> is_leaf s node \<and> \<not> is_root s node)) (\<lambda>_.
       let s1 = add_evictable (- int (nlen s node)) s in
       res_bind (unlink node s1) (\<lambda>(parent, s2).
         Inr (node,
              if is_leaf s2 parent \<and> node_ref_count (nd s2 parent) = 0
              then heappush (\<lambda>n. node_timestamp (nd s2 n)) leaves parent else leaves,
              s2)))))"

fun evict_loop ::
  "nat \<Rightarrow> int \<Rightarrow> nid list \<Rightarrow> int \<Rightarrow> slot list list \<Rightarrow> 'a radix_cache_scheme \<Rightarrow>
   (slot list list \<times> 'a radix_cache_scheme) res" where
  "evict_loop 0 need leave_nodes evicted_size evicted s = Inl OutOfFuel"
| "evict_loop (Suc fuel) need leave_nodes evicted_size evicted s =
     (if evicted_size < need then
        res_bind (evict_step leave_nodes s) (\<lambda>(node, leaves, s1).
          evict_loop fuel need leaves (evicted_size + int (nlen s node))
            (evicted @ [node_value (nd s node)]) s1)
      else Inr (evicted, s))"

definition evict :: "int \<Rightarrow> 'a radix_cache_scheme \<Rightarrow> (slot list \<times> 'a radix_cache_scheme) res" where
  "evict need s =
     (if need = 0 then Inr ([], s)
      else
        res_bind (py_assert (need \<le> evictable_size s)) (\<lambda>_.
        res_bind (collect_leave_nodes_for_evict s) (\<lambda>leaves.
        res_bind (evict_loop (Suc (nat need)) need
                    (heapify (\<lambda>n. node_timestamp (nd s n)) leaves) 0 [] s) (\<lambda>(evicted, s1).
          if evicted = [] then Inl ValueError else Inr (concat evicted, s1)))))"

definition size_info :: "'a radix_cache_scheme \<Rightarrow> int \<times> int" where
  "size_info s = (evictable_size s, protected_size s)"

section \<open>The invariant\<close>

definition inner :: "'a rtree_scheme \<Rightarrow> nid set \<Rightarrow> nid set" where
  "inner s L = L - {tree_root s}"

definition free_tokens :: "'a rtree_scheme \<Rightarrow> nid set \<Rightarrow> (nid \<Rightarrow> nat) \<Rightarrow> nat" where
  "free_tokens s L c = (\<Sum>n\<in>inner s L. if c n = 0 then nlen s n else 0)"

definition held_tokens :: "'a rtree_scheme \<Rightarrow> nid set \<Rightarrow> (nid \<Rightarrow> nat) \<Rightarrow> nat" where
  "held_tokens s L c = (\<Sum>n\<in>inner s L. if c n = 0 then 0 else nlen s n)"

definition refs_ok :: "'a radix_cache_scheme \<Rightarrow> nid set \<Rightarrow> (nid \<Rightarrow> nat) \<Rightarrow> bool" where
  "refs_ok s L c \<longleftrightarrow>
     node_ref_count (nd s (tree_root s)) = 1 \<and>
     (\<forall>n\<in>inner s L. node_ref_count (nd s n) = int (c n)) \<and>
     evictable_size s = int (free_tokens s L c) \<and>
     protected_size s = int (held_tokens s L c)"

definition lock_count :: "'a rtree_scheme \<Rightarrow> nid multiset \<Rightarrow> nid \<Rightarrow> nat" where
  "lock_count s H n = size {#h \<in># H. n \<in> set (path_nodes s h)#}"

definition radix_inv :: "'a radix_cache_scheme \<Rightarrow> nid set \<Rightarrow> nid multiset \<Rightarrow> bool" where
  "radix_inv s L H \<longleftrightarrow> wf_tree s L \<and> set_mset H \<subseteq> L \<and> refs_ok s L (lock_count s H)"

text \<open>The abstract content and the slots the tree owns.\<close>

definition aligned_prefixes ::
  "nat \<Rightarrow> token list \<Rightarrow> slot list \<Rightarrow> (token list \<times> slot list) set" where
  "aligned_prefixes ps ks vs = {(take k ks, take k vs) | k. ps dvd k \<and> k \<le> length ks}"

definition cached :: "'a rtree_scheme \<Rightarrow> nid set \<Rightarrow> (token list \<times> slot list) set" where
  "cached s L = (\<Union>n\<in>L. aligned_prefixes (tree_page s) (path_key s n) (path_value s n))"

definition tree_slots :: "'a rtree_scheme \<Rightarrow> nid set \<Rightarrow> slot multiset" where
  "tree_slots s L = (\<Sum>n\<in>inner s L. mset (node_value (nd s n)))"

section \<open>Locking\<close>

lemma inner_finite: "wf_tree s L \<Longrightarrow> finite (inner s L)"
  by (simp add: inner_def wf_finite)

lemma sum_point_update:
  fixes g :: "'a \<Rightarrow> nat \<Rightarrow> nat"
  assumes "finite A" "n \<in> A"
  shows "(\<Sum>m\<in>A. g m ((c(n := k)) m)) + g n (c n) = (\<Sum>m\<in>A. g m (c m)) + g n k"
proof -
  have "(\<Sum>m\<in>A - {n}. g m ((c(n := k)) m)) = (\<Sum>m\<in>A - {n}. g m (c m))"
    by (rule sum.cong) auto
  then show ?thesis using assms by (simp add: sum.remove[of A n])
qed

lemma tokens_point_update:
  assumes "wf_tree s L" "n \<in> inner s L"
  shows "free_tokens s L (c(n := k)) + (if c n = 0 then nlen s n else 0) =
         free_tokens s L c + (if k = 0 then nlen s n else 0)"
    "held_tokens s L (c(n := k)) + (if c n = 0 then 0 else nlen s n) =
         held_tokens s L c + (if k = 0 then 0 else nlen s n)"
  using sum_point_update[OF inner_finite[OF assms(1)] assms(2), of "\<lambda>m j. if j = 0 then nlen s m else 0"]
    sum_point_update[OF inner_finite[OF assms(1)] assms(2), of "\<lambda>m j. if j = 0 then 0 else nlen s m"]
  by (simp_all add: free_tokens_def held_tokens_def)

text \<open>\<open>refs_eq s s'\<close>: the states differ in reference counts and in the two counters only.\<close>

definition refs_eq :: "'a radix_cache_scheme \<Rightarrow> 'a radix_cache_scheme \<Rightarrow> bool" where
  "refs_eq s s' \<longleftrightarrow> tree_page s' = tree_page s \<and> tree_root s' = tree_root s \<and>
     tree_counter s' = tree_counter s \<and> radix_cache.more s' = radix_cache.more s \<and>
     (\<forall>n. (nd s' n)\<lparr>node_ref_count := 0\<rparr> = (nd s n)\<lparr>node_ref_count := 0\<rparr>)"

lemma refs_eq_refl [simp]: "refs_eq s s"
  by (simp add: refs_eq_def)

lemma refs_eq_trans: "refs_eq s s1 \<Longrightarrow> refs_eq s1 s2 \<Longrightarrow> refs_eq s s2"
  by (simp add: refs_eq_def)

lemma refs_eq_nd:
  assumes "refs_eq s s'"
  shows "node_key (nd s' n) = node_key (nd s n)" "node_value (nd s' n) = node_value (nd s n)"
    "node_children (nd s' n) = node_children (nd s n)" "node_parent (nd s' n) = node_parent (nd s n)"
    "node_timestamp (nd s' n) = node_timestamp (nd s n)"
    "node_mamba_value (nd s' n) = node_mamba_value (nd s n)"
    "node_mamba_ref_count (nd s' n) = node_mamba_ref_count (nd s n)"
    "node_swa_tombstone (nd s' n) = node_swa_tombstone (nd s n)"
    "node_swa_ref_count (nd s' n) = node_swa_ref_count (nd s n)"
    "node_swa_uuid (nd s' n) = node_swa_uuid (nd s n)"
    "tree_page s' = tree_page s" "tree_root s' = tree_root s" "tree_counter s' = tree_counter s"
proof -
  have e: "(nd s' n)\<lparr>node_ref_count := 0\<rparr> = (nd s n)\<lparr>node_ref_count := 0\<rparr>"
    using assms by (simp add: refs_eq_def)
  show "node_key (nd s' n) = node_key (nd s n)"
    "node_value (nd s' n) = node_value (nd s n)"
    "node_children (nd s' n) = node_children (nd s n)"
    "node_parent (nd s' n) = node_parent (nd s n)"
    "node_timestamp (nd s' n) = node_timestamp (nd s n)"
    "node_mamba_value (nd s' n) = node_mamba_value (nd s n)"
    "node_mamba_ref_count (nd s' n) = node_mamba_ref_count (nd s n)"
    "node_swa_tombstone (nd s' n) = node_swa_tombstone (nd s n)"
    "node_swa_ref_count (nd s' n) = node_swa_ref_count (nd s n)"
    "node_swa_uuid (nd s' n) = node_swa_uuid (nd s n)"
    by (cases "nd s' n"; cases "nd s n"; use e in simp)+
qed (use assms in \<open>simp_all add: refs_eq_def\<close>)

lemma refs_eq_shape: "refs_eq s s' \<Longrightarrow> same_shape s s' L"
  using refs_eq_nd[of s s'] by (simp add: same_shape_def)

lemma counters_simps [simp]:
  "tree_heap (add_evictable d s) = tree_heap s" "tree_heap (add_protected d s) = tree_heap s"
  "tree_page (add_evictable d s) = tree_page s" "tree_page (add_protected d s) = tree_page s"
  "tree_root (add_evictable d s) = tree_root s" "tree_root (add_protected d s) = tree_root s"
  "tree_counter (add_evictable d s) = tree_counter s" "tree_counter (add_protected d s) = tree_counter s"
  "radix_cache.more (add_evictable d s) = radix_cache.more s"
  "radix_cache.more (add_protected d s) = radix_cache.more s"
  "evictable_size (add_evictable d s) = evictable_size s + d"
  "protected_size (add_evictable d s) = protected_size s"
  "protected_size (add_protected d s) = protected_size s + d"
  "evictable_size (add_protected d s) = evictable_size s"
  by (simp_all add: add_evictable_def add_protected_def)

lemma upd_node_counters [simp]:
  "evictable_size (upd_node n f s) = evictable_size s"
  "protected_size (upd_node n f s) = protected_size s"
  "radix_cache.more (upd_node n f s) = radix_cache.more s"
  by (simp_all add: upd_node_def)

lemma upd_ref_eq: "refs_eq s (upd_node n (node_ref_count_update f) s)"
  by (simp add: refs_eq_def)

lemma refs_eq_counters:
  "refs_eq s (add_evictable d s')  = refs_eq s s'" "refs_eq s (add_protected d s') = refs_eq s s'"
  "refs_eq (add_evictable d s) s'  = refs_eq s s'" "refs_eq (add_protected d s) s' = refs_eq s s'"
  by (simp_all add: refs_eq_def)

lemma lock_node_refs_eq: "refs_eq s (lock_node n s)"
  by (simp add: lock_node_def Let_def refs_eq_def)

lemma unlock_node_refs_eq: "unlock_node n s = Inr s' \<Longrightarrow> refs_eq s s'"
  by (auto simp: unlock_node_def Let_def res_bind_eq_Inr refs_eq_def)

lemma refs_eq_tokens:
  assumes "refs_eq s s'"
  shows "inner s' L = inner s L" "free_tokens s' L c = free_tokens s L c"
    "held_tokens s' L c = held_tokens s L c"
  using refs_eq_nd[OF assms] by (simp_all add: inner_def free_tokens_def held_tokens_def cong: if_cong)

lemma refs_okI:
  assumes "refs_ok s L c" "wf_tree s L" "n \<in> inner s L" "refs_eq s s'"
    and "\<And>m. node_ref_count (nd s' m) = (if m = n then int k else node_ref_count (nd s m))"
    and "evictable_size s' = evictable_size s - (if c n = 0 then int (nlen s n) else 0)
           + (if k = 0 then int (nlen s n) else 0)"
    and "protected_size s' = protected_size s - (if c n = 0 then 0 else int (nlen s n))
           + (if k = 0 then 0 else int (nlen s n))"
  shows "refs_ok s' L (c(n := k))"
  using assms tokens_point_update[OF assms(2,3), of c k] refs_eq_nd(12)[OF assms(4)]
  by (auto simp: refs_ok_def refs_eq_tokens[OF assms(4)] inner_def split: if_splits)

lemma lock_node_refs_ok:
  assumes "refs_ok s L c" "wf_tree s L" "n \<in> inner s L"
  shows "refs_ok (lock_node n s) L (c(n := Suc (c n)))"
proof (rule refs_okI[OF assms lock_node_refs_eq])
  have c: "node_ref_count (nd s n) = int (c n)" using assms by (simp add: refs_ok_def)
  show "node_ref_count (nd (lock_node n s) m) =
      (if m = n then int (Suc (c n)) else node_ref_count (nd s m))" for m
    using c by (simp add: lock_node_def)
qed (use assms in \<open>simp_all add: refs_ok_def lock_node_def\<close>)

lemma unlock_node_refs_ok:
  assumes "refs_ok s L c" "wf_tree s L" "n \<in> inner s L" "0 < c n"
  shows "\<exists>s'. unlock_node n s = Inr s' \<and> refs_ok s' L (c(n := c n - 1))"
proof -
  have c: "node_ref_count (nd s n) = int (c n)" using assms by (simp add: refs_ok_def)
  obtain s' where s': "unlock_node n s = Inr s'"
    using c assms(4) by (simp add: unlock_node_def Let_def)
  then have e: "s' = (if c n = 1 then add_protected (- int (nlen s n)) (add_evictable (int (nlen s n))
      (upd_node n (node_ref_count_update (\<lambda>r. r - 1)) s)) else upd_node n (node_ref_count_update (\<lambda>r. r - 1)) s)"
    using c assms(4) by (auto simp: unlock_node_def Let_def split: if_splits)
  have "refs_ok s' L (c(n := c n - 1))"
  proof (rule refs_okI[OF assms(1-3) unlock_node_refs_eq[OF s']])
    show "node_ref_count (nd s' m) = (if m = n then int (c n - 1) else node_ref_count (nd s m))" for m
      using c assms(4) by (simp add: e)
  qed (use assms(4) in \<open>auto simp: e\<close>)
  with s' show ?thesis by blast
qed

lemma upath_refs_eq: "refs_eq s s' \<Longrightarrow> upath s' n ns = upath s n ns"
  by (induction ns arbitrary: n) (simp_all add: refs_eq_nd)

lemma lock_loop_refs:
  assumes "upath s n ns" "distinct ns" "set ns \<subseteq> inner s L" "length ns < fuel"
    "refs_ok s L c" "wf_tree s L"
  shows "\<exists>s'. lock_loop fuel n s = Inr s' \<and> refs_eq s s' \<and>
           refs_ok s' L (\<lambda>m. c m + (if m \<in> set ns then 1 else 0))"
  using assms
proof (induction ns arbitrary: n fuel s c)
  case Nil
  then show ?case by (cases fuel) (auto simp: is_root_def)
next
  case (Cons m ns)
  obtain f where f: "fuel = Suc f" "length ns < f" using Cons.prems(4) by (cases fuel) auto
  obtain p where m: "m = n" "node_parent (nd s n) = Some p" "upath s p ns" using Cons.prems(1) by auto
  let ?s = "lock_node n s"
  note e = lock_node_refs_eq[of s n]
  have wf: "wf_tree ?s L" using same_shape_wf[OF refs_eq_shape[OF e] Cons.prems(6)] .
  have ok: "refs_ok ?s L (c(n := Suc (c n)))"
    using Cons.prems m by (intro lock_node_refs_ok) auto
  have "\<exists>s'. lock_loop f p ?s = Inr s' \<and> refs_eq ?s s' \<and>
      refs_ok s' L (\<lambda>j. (c(n := Suc (c n))) j + (if j \<in> set ns then 1 else 0))"
    using Cons.prems m f ok[unfolded fun_upd_def One_nat_def] wf
    by (intro Cons.IH) (auto simp: upath_refs_eq[OF e] refs_eq_tokens[OF e])
  then obtain s' where s': "lock_loop f p ?s = Inr s'" "refs_eq ?s s'"
    "refs_ok s' L (\<lambda>j. (c(n := Suc (c n))) j + (if j \<in> set ns then 1 else 0))" by blast
  have "(\<lambda>j. (c(n := Suc (c n))) j + (if j \<in> set ns then 1 else 0)) =
      (\<lambda>j. c j + (if j \<in> set (m # ns) then 1 else 0))"
    using Cons.prems(2) m by (auto simp: fun_eq_iff)
  moreover have "lock_loop fuel n s = Inr s'"
    using s'(1) m f refs_eq_nd(4)[OF e] by (simp add: is_root_def parent_of_def)
  ultimately show ?case using s' refs_eq_trans[OF e s'(2)] by auto
qed

lemma unlock_loop_refs:
  assumes "upath s n ns" "distinct ns" "set ns \<subseteq> inner s L" "length ns < fuel"
    "refs_ok s L c" "wf_tree s L" "\<forall>m\<in>set ns. 0 < c m"
  shows "\<exists>s'. unlock_loop fuel n s = Inr s' \<and> refs_eq s s' \<and>
           refs_ok s' L (\<lambda>m. c m - (if m \<in> set ns then 1 else 0))"
  using assms
proof (induction ns arbitrary: n fuel s c)
  case Nil
  then show ?case by (cases fuel) (auto simp: is_root_def)
next
  case (Cons m ns)
  obtain f where f: "fuel = Suc f" "length ns < f" using Cons.prems(4) by (cases fuel) auto
  obtain p where m: "m = n" "node_parent (nd s n) = Some p" "upath s p ns" using Cons.prems(1) by auto
  obtain s1 where s1: "unlock_node n s = Inr s1" and ok: "refs_ok s1 L (c(n := c n - 1))"
    using unlock_node_refs_ok[of s L c n] Cons.prems m by auto
  note e = unlock_node_refs_eq[OF s1]
  have wf: "wf_tree s1 L" using same_shape_wf[OF refs_eq_shape[OF e] Cons.prems(6)] .
  have "\<exists>s'. unlock_loop f p s1 = Inr s' \<and> refs_eq s1 s' \<and>
      refs_ok s' L (\<lambda>j. (c(n := c n - 1)) j - (if j \<in> set ns then 1 else 0))"
    using Cons.prems m f ok[unfolded fun_upd_def One_nat_def] wf
    by (intro Cons.IH) (auto simp: upath_refs_eq[OF e] refs_eq_tokens[OF e])
  then obtain s' where s': "unlock_loop f p s1 = Inr s'" "refs_eq s1 s'"
    "refs_ok s' L (\<lambda>j. (c(n := c n - 1)) j - (if j \<in> set ns then 1 else 0))" by blast
  have "(\<lambda>j. (c(n := c n - 1)) j - (if j \<in> set ns then 1 else 0)) =
      (\<lambda>j. c j - (if j \<in> set (m # ns) then 1 else 0))"
    using Cons.prems(2) m by (auto simp: fun_eq_iff)
  moreover have "unlock_loop fuel n s = Inr s'"
    using s'(1) s1 m f refs_eq_nd(4)[OF e] by (simp add: is_root_def parent_of_def)
  ultimately show ?case using s' refs_eq_trans[OF e s'(2)] by auto
qed

lemma lock_count_add:
  "lock_count s (add_mset h H) = (\<lambda>m. lock_count s H m + (if m \<in> set (path_nodes s h) then 1 else 0))"
  by (simp add: lock_count_def fun_eq_iff)

lemma lock_count_refs_eq:
  assumes "refs_eq s s'" "wf_tree s L" "set_mset H \<subseteq> L"
  shows "lock_count s' H = lock_count s H"
  using same_shape_path_nodes[OF refs_eq_shape[OF assms(1)] assms(2)] assms(3)
  by (auto simp: lock_count_def fun_eq_iff intro!: arg_cong[of _ _ size] filter_mset_cong)

lemma path_upath_facts:
  assumes "wf_tree s L" "n \<in> L"
  shows "upath s n (rev (path_nodes s n))" "distinct (rev (path_nodes s n))"
    "set (rev (path_nodes s n)) \<subseteq> inner s L" "length (rev (path_nodes s n)) < Suc (tree_counter s)"
  using path_nodes_upath[OF assms] path_nodes_distinct[OF assms] path_nodes_set[OF assms]
    upath_length[OF assms(1) path_nodes_upath[OF assms] assms(2)] by (auto simp: inner_def)

theorem lock_handle_ok:
  assumes "radix_inv s L H" "handle_node h \<in> L"
  shows "\<exists>s'. lock_handle h False s = Inr s' \<and> refs_eq s s' \<and>
           radix_inv s' L (add_mset (handle_node h) H)"
proof -
  have inv: "wf_tree s L" "set_mset H \<subseteq> L" "refs_ok s L (lock_count s H)"
    using assms(1) by (simp_all add: radix_inv_def)
  obtain s' where s': "lock_loop (Suc (tree_counter s)) (handle_node h) s = Inr s'" "refs_eq s s'"
    "refs_ok s' L (lock_count s (add_mset (handle_node h) H))"
    using lock_loop_refs[OF path_upath_facts[OF inv(1) assms(2)] inv(3,1)]
    by (auto simp: lock_count_add)
  then show ?thesis
    using inv assms(2) same_shape_wf[OF refs_eq_shape[OF s'(2)]]
      lock_count_refs_eq[OF s'(2) inv(1), of "add_mset (handle_node h) H"]
    by (auto simp: lock_handle_def radix_inv_def)
qed

theorem unlock_handle_ok:
  assumes "radix_inv s L H" "handle_node h \<in># H"
  shows "\<exists>s'. lock_handle h True s = Inr s' \<and> refs_eq s s' \<and>
           radix_inv s' L (H - {#handle_node h#})"
proof -
  obtain H' where H: "H = add_mset (handle_node h) H'" using assms(2) by (metis insert_DiffM)
  have inv: "wf_tree s L" "set_mset H \<subseteq> L" "refs_ok s L (lock_count s H)" "handle_node h \<in> L"
    using assms by (auto simp: radix_inv_def)
  have c: "(\<lambda>m. lock_count s H m - (if m \<in> set (rev (path_nodes s (handle_node h))) then 1 else 0))
      = lock_count s H'" by (auto simp: H lock_count_add fun_eq_iff)
  have "\<forall>m\<in>set (rev (path_nodes s (handle_node h))). 0 < lock_count s H m"
    by (auto simp: H lock_count_add)
  from unlock_loop_refs[OF path_upath_facts[OF inv(1,4)] inv(3,1) this]
  obtain s' where s': "unlock_loop (Suc (tree_counter s)) (handle_node h) s = Inr s'" "refs_eq s s'"
    "refs_ok s' L (lock_count s H')" unfolding c by blast
  then show ?thesis
    using inv same_shape_wf[OF refs_eq_shape[OF s'(2)]] lock_count_refs_eq[OF s'(2) inv(1), of H']
    by (auto simp: lock_handle_def radix_inv_def H)
qed

end
