(* ===== verification/RadixProps.thy ===== *)
theory RadixProps
  imports RadixCache PrefixCache
begin

text \<open>
  What the store operations of the prefix tree do to the invariant \<open>radix_inv\<close>, to the slots the
  tree owns and to its abstract content: a walk changes nothing but time stamps and the cut of
  one edge, adding a child adds exactly its prefixes, unlinking an unlocked leaf removes them.
\<close>

section \<open>Walks\<close>

lemma radix_more_eq:
  assumes "rtree.more s' = rtree.more (s :: 'a radix_cache_scheme)"
  shows "evictable_size s' = evictable_size s" "protected_size s' = protected_size s"
    "radix_cache.more s' = radix_cache.more s"
  using assms by (cases s; cases s'; simp)+

lemma radix_invD:
  assumes "radix_inv s L H"
  shows "wf_tree s L" "set_mset H \<subseteq> L" "refs_ok s L (lock_count s H)"
  using assms by (simp_all add: radix_inv_def)

text \<open>
  \<open>kept s L H s' L'\<close>: the step from \<open>s\<close> to \<open>s'\<close> may have cut edges but kept the invariant,
  the slots, the content and the counters.
\<close>

definition kept ::
  "'a radix_cache_scheme \<Rightarrow> nid set \<Rightarrow> nid multiset \<Rightarrow> 'a radix_cache_scheme \<Rightarrow> nid set \<Rightarrow> bool" where
  "kept s L H s' L' \<longleftrightarrow>
     radix_inv s' L' H \<and> L \<subseteq> L' \<and> tree_slots s' L' = tree_slots s L \<and> cached s' L' = cached s L \<and>
     size_info s' = size_info s \<and> tree_page s' = tree_page s \<and> tree_root s' = tree_root s \<and>
     radix_cache.more s' = radix_cache.more s \<and>
     (\<forall>a\<in>L. path_key s' a = path_key s a \<and> path_value s' a = path_value s a)"

lemma keptD:
  assumes "kept s L H s' L'"
  shows "radix_inv s' L' H" "L \<subseteq> L'" "tree_slots s' L' = tree_slots s L" "cached s' L' = cached s L"
    "size_info s' = size_info s" "tree_page s' = tree_page s" "tree_root s' = tree_root s"
    "a \<in> L \<Longrightarrow> path_key s' a = path_key s a" "a \<in> L \<Longrightarrow> path_value s' a = path_value s a"
  using assms by (simp_all add: kept_def)

lemma kept_trans: "kept s L H s1 L1 \<Longrightarrow> kept s1 L1 H s2 L2 \<Longrightarrow> kept s L H s2 L2"
  by (auto simp: kept_def)

lemma lock_count_same_paths:
  "(\<And>h. h \<in># H \<Longrightarrow> n \<in> set (path_nodes s' h) \<longleftrightarrow> m \<in> set (path_nodes s h)) \<Longrightarrow>
   lock_count s' H n = lock_count s H m"
  unfolding lock_count_def by (rule arg_cong[of _ _ size]) (rule filter_mset_cong, simp_all)

lemma shape_kept:
  assumes inv: "radix_inv s L H" and sh: "same_shape s s' L"
    and refs: "\<And>n. n \<in> L \<Longrightarrow> node_ref_count (nd s' n) = node_ref_count (nd s n)"
    and more: "rtree.more s' = rtree.more s"
  shows "kept s L H s' L"
proof -
  note wf = radix_invD(1)[OF inv] and H = radix_invD(2)[OF inv] and ok = radix_invD(3)[OF inv]
  have sz: "evictable_size s' = evictable_size s" "protected_size s' = protected_size s"
    using radix_more_eq[OF more] by simp_all
  have i: "inner s' L = inner s L" using sh by (simp add: inner_def same_shape_def)
  have nd': "node_key (nd s' n) = node_key (nd s n)" "node_value (nd s' n) = node_value (nd s n)"
    if "n \<in> inner s L" for n
    using sh that by (simp_all add: inner_def same_shape_def)
  have c: "lock_count s' H = lock_count s H"
    using same_shape_path_nodes[OF sh wf] H by (intro ext lock_count_same_paths) auto
  have t: "free_tokens s' L c = free_tokens s L c" "held_tokens s' L c = held_tokens s L c" for c
    unfolding free_tokens_def held_tokens_def i by (auto intro!: sum.cong simp: nd')
  have "refs_ok s' L (lock_count s' H)"
    using ok sz refs wf_treeD(3)[OF wf] sh unfolding refs_ok_def c t i
    by (auto simp: same_shape_def inner_def)
  moreover have "tree_slots s' L = tree_slots s L"
    unfolding tree_slots_def i by (rule sum.cong) (auto simp: nd')
  moreover have p: "\<forall>a\<in>L. path_key s' a = path_key s a \<and> path_value s' a = path_value s a"
    using same_shape_paths[OF sh wf] by simp
  moreover have "cached s' L = cached s L"
    using p sh by (simp add: cached_def same_shape_def)
  ultimately show ?thesis
    using same_shape_wf[OF sh wf] H sz sh radix_more_eq[OF more]
    by (simp add: kept_def radix_inv_def size_info_def same_shape_def)
qed

lemma sum_split_point:
  fixes f g :: "'a \<Rightarrow> 'b::comm_monoid_add"
  assumes "finite A" "n \<in> A" "m \<notin> A" "g m + g n = f n" "\<And>a. a \<in> A \<Longrightarrow> a \<noteq> n \<Longrightarrow> g a = f a"
  shows "sum g (insert m A) = sum f A"
proof -
  have "sum g (A - {n}) = sum f (A - {n})" using assms(5) by (intro sum.cong) auto
  then show ?thesis
    using assms(1-4) by (simp add: sum.remove[of A n] add.assoc[symmetric])
qed

lemma aligned_prefixes_take:
  "aligned_prefixes ps (take j ks) (take j vs) \<subseteq> aligned_prefixes ps ks vs"
  unfolding aligned_prefixes_def by (auto simp: min_def)

lemma split_kept:
  assumes inv: "radix_inv s L H" and pre: "split_pre s L n p pos"
  shows "kept s L H (split_state n p pos s) (insert (tree_counter s) L)"
proof -
  let ?m = "tree_counter s" and ?s = "split_state n p pos s"
  note wf = radix_invD(1)[OF inv] and H = radix_invD(2)[OF inv] and ok = radix_invD(3)[OF inv]
  note D = split_preD[OF wf pre]
  note S = split_state_simps[OF D(3-5)]
  have m: "?m \<notin> L" by (rule wf_counter_notin[OF wf])
  have i: "inner ?s (insert ?m L) = insert ?m (inner s L)" using D S by (auto simp: inner_def)
  have I: "finite (inner s L)" "n \<in> inner s L" "?m \<notin> inner s L"
    using inner_finite[OF wf] D m by (auto simp: inner_def)
  have sz: "evictable_size ?s = evictable_size s" "protected_size ?s = protected_size s"
    using radix_more_eq[OF S(4)] by simp_all
  have notm: "?m \<notin> set (path_nodes s h)" if "h \<in># H" for h
    using path_nodes_set[OF wf, of h] H that m by auto
  have "a \<in> set (path_nodes ?s h) \<longleftrightarrow> (if a = ?m then n else a) \<in> set (path_nodes s h)" if "h \<in># H" for a h
    using split_path_nodes(1)[OF wf pre, of h] H that notm[OF that] D(4) by (auto split: if_splits)
  then have c: "lock_count ?s H a = lock_count s H (if a = ?m then n else a)" for a
    by (rule lock_count_same_paths)
  have len: "length (take pos (node_key (nd s n))) + length (drop pos (node_key (nd s n))) = nlen s n"
    using D by simp
  have t1: "free_tokens ?s (insert ?m L) (lock_count ?s H) = free_tokens s L (lock_count s H)"
    unfolding free_tokens_def i
    by (rule sum_split_point[OF I]) (use D I(3) in \<open>auto simp: c S\<close>)
  have t2: "held_tokens ?s (insert ?m L) (lock_count ?s H) = held_tokens s L (lock_count s H)"
    unfolding held_tokens_def i
    by (rule sum_split_point[OF I]) (use D I(3) in \<open>auto simp: c S\<close>)
  have "refs_ok ?s (insert ?m L) (lock_count ?s H)"
    using ok I(2) D unfolding refs_ok_def t1 t2 i sz by (auto simp: c S)
  moreover have "tree_slots ?s (insert ?m L) = tree_slots s L"
    unfolding tree_slots_def i
    by (rule sum_split_point[OF I]) (use D I(3) in \<open>auto simp: S simp flip: mset_append\<close>)
  moreover have p: "\<forall>a\<in>L. path_key ?s a = path_key s a \<and> path_value ?s a = path_value s a"
    using split_path_nodes[OF wf pre] by simp
  moreover have "cached ?s (insert ?m L) = cached s L"
  proof -
    note P = split_path_new[OF wf pre] path_key_step[OF wf D(1,7,2)] path_value_step[OF wf D(1,7,2)]
    have pl: "length (path_value s p) = length (path_key s p)" using path_lengths[OF wf D(2)] by simp
    have e: "path_key ?s ?m = take (length (path_key s p) + pos) (path_key s n)"
      "path_value ?s ?m = take (length (path_key s p) + pos) (path_value s n)"
      by (simp_all add: P pl)
    have "aligned_prefixes (tree_page s) (path_key ?s ?m) (path_value ?s ?m) \<subseteq>
        aligned_prefixes (tree_page s) (path_key s n) (path_value s n)"
      unfolding e by (rule aligned_prefixes_take)
    then show ?thesis using p D(1) by (auto simp: cached_def S(1))
  qed
  ultimately show ?thesis
    using wf_split_state[OF wf pre] H S sz radix_more_eq[OF S(4)]
    by (auto simp: kept_def radix_inv_def size_info_def)
qed

lemma walk_result_kept:
  assumes inv: "radix_inv s L H" and r: "walk_result s L node s' L'"
  shows "kept s L H s' L'"
  using r unfolding walk_result_def
proof (elim disjE exE conjE)
  assume t: "ts_eq s s'" "L' = L"
  then show ?thesis
    using shape_kept[OF inv ts_eq_shape[OF t(1)]] ts_eq_nd[OF t(1)] ts_eq_frame[OF t(1)] by simp
next
  fix s1 n p pos tic
  assume t: "ts_eq s s1" and pre: "split_pre s1 L n p pos" and node: "node = tree_counter s"
    and s': "s' = set_timestamp tic node (split_state n p pos s1)" and L': "L' = insert node L"
  have k1: "kept s L H s1 L"
    using shape_kept[OF inv ts_eq_shape[OF t]] ts_eq_nd[OF t] ts_eq_frame[OF t] by simp
  have k2: "kept s1 L H (split_state n p pos s1) L'"
    using split_kept[OF keptD(1)[OF k1] pre] ts_eq_frame[OF t] by (simp add: L' node)
  have "kept (split_state n p pos s1) L' H s' L'"
    by (rule shape_kept[OF keptD(1)[OF k2]]) (simp_all add: s')
  then show ?thesis using kept_trans[OF k1 kept_trans[OF k2]] by simp
qed

section \<open>The content is a function of the key\<close>

lemma above_value:
  assumes wf: "wf_tree s L" and a: "a \<in> L" "c \<in> L" "above s c a"
  shows "\<exists>kr vr. path_key s a = path_key s c @ kr \<and> path_value s a = path_value s c @ vr"
proof -
  have "prefix (path_nodes s c) (path_nodes s a)"
    using path_nodes_prefix[OF wf a(1)] a(3) by (auto simp: above_def path_nodes_root[OF wf])
  then show ?thesis by (auto simp: path_key_def path_value_def prefix_def)
qed

lemma same_key_same_value_from:
  assumes wf: "wf_tree s L" and ab: "a \<in> L" "b \<in> L"
    and k: "tree_page s dvd k" "k \<le> length (path_key s a)" "k \<le> length (path_key s b)"
    and eq: "take k (path_key s a) = take k (path_key s b)"
    and p: "p \<in> L" "above s p a" "above s p b"
  shows "take k (path_value s a) = take k (path_value s b)"
  using p
proof (induction "k - length (path_key s p)" arbitrary: p rule: less_induct)
  case less
  let ?l = "length (path_key s p)" and ?ps = "tree_page s"
  obtain ka va kb vb where K: "path_key s a = path_key s p @ ka" "path_value s a = path_value s p @ va"
    "path_key s b = path_key s p @ kb" "path_value s b = path_value s p @ vb"
    using above_value[OF wf ab(1) less.prems(1,2)] above_value[OF wf ab(2) less.prems(1,3)] by blast
  have lp: "length (path_value s p) = ?l" "?ps dvd ?l" using path_lengths[OF wf less.prems(1)] by simp_all
  show ?case
  proof (cases "k \<le> ?l")
    case True
    then show ?thesis using K lp by simp
  next
    case False
    then have "a \<noteq> p" "b \<noteq> p" using k by auto
    then obtain c d where c: "c \<in> L" "node_parent (nd s c) = Some p" "above s c a"
      and d: "d \<in> L" "node_parent (nd s d) = Some p" "above s d b"
      using above_child[OF wf ab(1) less.prems(2)] above_child[OF wf ab(2) less.prems(3)] by metis
    have page: "?ps \<le> k - ?l"
      using False k(1) lp(2) by (intro dvd_imp_le dvd_diff_nat) auto
    have first: "take ?ps (drop ?l (path_key s x)) = key_fn ?ps (node_key (nd s e))"
      if x: "x \<in> L" "e \<in> L" "node_parent (nd s e) = Some p" "above s e x" for x e
    proof -
      obtain r where "path_key s x = path_key s e @ r" using above_key[OF wf x(1,2,4)] by blast
      moreover have "path_key s e = path_key s p @ node_key (nd s e)"
        using path_key_step[OF wf x(2,3) less.prems(1)] .
      moreover have "?ps \<le> nlen s e" using wf_node(4)[OF wf x(2)] wf_parent_child(4)[OF wf x(2,3)] by simp
      ultimately show ?thesis by (simp add: key_fn_def)
    qed
    have "take ?ps (drop ?l (path_key s x)) = take ?ps (drop ?l (take k (path_key s x)))" for x
      using page by (simp add: drop_take min_absorb1)
    then have same: "key_fn ?ps (node_key (nd s c)) = key_fn ?ps (node_key (nd s d))"
      using first[OF ab(1) c] first[OF ab(2) d] eq by metis
    have "(key_fn ?ps (node_key (nd s c)), c) \<in> set (node_children (nd s p))"
      "(key_fn ?ps (node_key (nd s d)), d) \<in> set (node_children (nd s p))"
      using wf_parent_child(3)[OF wf] c d by blast+
    then have cd: "c = d"
      using same wf_distinct[OF wf less.prems(1)] by (metis eq_key_imp_eq_value)
    have "length (path_key s c) = ?l + nlen s c" "0 < nlen s c"
      using path_key_step[OF wf c(1,2) less.prems(1)] wf_node(1)[OF wf c(1)] wf_parent_child(4)[OF wf c(1,2)]
      by simp_all
    then have "k - length (path_key s c) < k - ?l" using False by linarith
    then show ?thesis using less.hyps[OF _ c(1,3)] d(3) cd by simp
  qed
qed

theorem cached_unique:
  assumes wf: "wf_tree s L" and c: "(ks, vs) \<in> cached s L" "(ks, vs') \<in> cached s L"
  shows "vs = vs'"
proof -
  obtain a k where a: "a \<in> L" "tree_page s dvd k" "k \<le> length (path_key s a)"
    "ks = take k (path_key s a)" "vs = take k (path_value s a)" using c(1) by (auto simp: cached_def aligned_prefixes_def)
  obtain b j where b: "b \<in> L" "j \<le> length (path_key s b)"
    "ks = take j (path_key s b)" "vs' = take j (path_value s b)" using c(2) by (auto simp: cached_def aligned_prefixes_def)
  have "length ks = k" using a(3,4) by simp
  moreover have "length ks = j" using b(2,3) by simp
  ultimately have "j = k" by simp
  then show ?thesis
    using same_key_same_value_from[OF wf a(1) b(1) a(2,3), of "tree_root s"] a b wf_treeD(3)[OF wf]
    by (simp add: above_def)
qed

section \<open>Matching\<close>

lemma alcp_cached:
  assumes "wf_tree s L" "(take k ids, vs) \<in> cached s L" "k \<le> length ids"
  obtains a where "a \<in> L" "k \<le> alcp (tree_page s) (path_key s a) ids"
proof -
  obtain a j where a: "a \<in> L" "tree_page s dvd j" "j \<le> length (path_key s a)"
    "take k ids = take j (path_key s a)" using assms(2) by (auto simp: cached_def aligned_prefixes_def)
  have [simp]: "j = k" using arg_cong[OF a(4), of length] a(3) assms(3) by simp
  have "k \<le> alcp (tree_page s) (path_key s a) ids"
    unfolding alcp_def using a assms(3) by (intro align_down_greatest match_len_greatest) auto
  with a(1) that show thesis by blast
qed

lemma cached_path:
  "n \<in> L \<Longrightarrow> tree_page s dvd length (path_key s n) \<Longrightarrow> length (path_value s n) = length (path_key s n) \<Longrightarrow>
   (path_key s n, path_value s n) \<in> cached s L"
  unfolding cached_def aligned_prefixes_def by force

text \<open>The walk of a prefix on a state of the cache.\<close>

definition walked ::
  "'a radix_cache_scheme \<Rightarrow> nid set \<Rightarrow> nid multiset \<Rightarrow> token list \<Rightarrow> nid \<Rightarrow> nat \<Rightarrow>
   'a radix_cache_scheme \<Rightarrow> nid set \<Rightarrow> bool" where
  "walked s L H ids node l s' L' \<longleftrightarrow>
     kept s L H s' L' \<and> node \<in> L' \<and> l \<le> length ids \<and> tree_page s dvd l \<and>
     path_key s' node = take l ids \<and> (take l ids, path_value s' node) \<in> cached s L \<and>
     (\<forall>k vs. (take k ids, vs) \<in> cached s L \<longrightarrow> k \<le> length ids \<longrightarrow> k \<le> l) \<and>
     (l < length ids \<longrightarrow>
        map_of (node_children (nd s' node)) (key_fn (tree_page s) (drop l ids)) = None)"

lemma tree_walk_cache:
  assumes inv: "radix_inv s L H"
  shows "\<exists>node l s' L'. tree_walk tic ids s = Inr (node, l, s') \<and> walked s L H ids node l s' L'"
proof -
  note wf = radix_invD(1)[OF inv]
  obtain node l s' L' where w: "tree_walk tic ids s = Inr (node, l, s')"
    "walk_result s L node s' L'" "l \<le> length ids" "path_key s' node = take l ids"
    "\<And>a. a \<in> L \<Longrightarrow> alcp (tree_page s) (path_key s a) ids \<le> l"
    "l < length ids \<Longrightarrow> map_of (node_children (nd s' node)) (key_fn (tree_page s) (drop l ids)) = None"
    using tree_walk_correct[OF wf] by blast
  note k = walk_result_kept[OF inv w(2)]
  have wf': "wf_tree s' L'" and node: "node \<in> L'" using walk_result_wf[OF wf w(2)] by blast+
  have len: "tree_page s dvd l" "length (path_value s' node) = l"
    using path_lengths[OF wf' node] w(3,4) keptD(6)[OF k] by simp_all
  then have "(take l ids, path_value s' node) \<in> cached s' L'"
    using cached_path[OF node, of s'] w(3,4) keptD(6)[OF k] by simp
  then have c: "(take l ids, path_value s' node) \<in> cached s L" using keptD(4)[OF k] by simp
  have "j \<le> l" if j: "(take j ids, vs) \<in> cached s L" "j \<le> length ids" for j vs
  proof -
    obtain a where "a \<in> L" "j \<le> alcp (tree_page s) (path_key s a) ids" using alcp_cached[OF wf j] by blast
    then show ?thesis using w(5)[of a] by simp
  qed
  then have "walked s L H ids node l s' L'"
    using k node w(3,4,6) len(1) c by (simp add: walked_def)
  with w(1) show ?thesis by blast
qed

theorem match_prefix_ok:
  assumes inv: "radix_inv s L H"
  shows "\<exists>h s' L'. match_prefix tic ids s = Inr (h, s') \<and> kept s L H s' L' \<and> handle_node h \<in> L' \<and>
     cached_len h \<le> length ids \<and> tree_page s dvd cached_len h \<and>
     path_key s' (handle_node h) = take (cached_len h) ids \<and>
     (take (cached_len h) ids, path_value s' (handle_node h)) \<in> cached s L \<and>
     (\<forall>k vs. (take k ids, vs) \<in> cached s L \<longrightarrow> k \<le> length ids \<longrightarrow> k \<le> cached_len h)"
proof -
  obtain node l s' L' where "tree_walk tic ids s = Inr (node, l, s')" "walked s L H ids node l s' L'"
    using tree_walk_cache[OF inv, of tic ids] by blast
  then show ?thesis
    by (intro exI[of _ "\<lparr>cached_len = l, handle_node = node\<rparr>"] exI[of _ s'] exI[of _ L'])
      (simp add: match_prefix_def walked_def)
qed

lemma get_matched_indices_eq:
  assumes wf: "wf_tree s L" and n: "handle_node h \<in> L"
  shows "get_matched_indices h s =
     (if path_key s (handle_node h) = [] then Inl ValueError else Inr (path_value s (handle_node h)))"
proof -
  have "path_nodes s (handle_node h) = [] \<longleftrightarrow> path_key s (handle_node h) = []"
    using wf_node(1)[OF wf] path_nodes_set[OF wf n]
    by (cases "path_nodes s (handle_node h)") (auto simp: path_key_def)
  then show ?thesis by (simp add: get_matched_indices_def)
qed

section \<open>Insertion\<close>

lemma add_radix_inv:
  fixes tic :: int
  assumes inv: "radix_inv s L H" and pre: "add_pre s L p k v"
  defines "s' \<equiv> add_evictable (int (length k)) (add_state tic p k v s)"
    and "L' \<equiv> insert (tree_counter s) L"
  shows "radix_inv s' L' H" "tree_slots s' L' = tree_slots s L + mset v"
    "cached s' L' = cached s L \<union>
       aligned_prefixes (tree_page s) (path_key s p @ k) (path_value s p @ v)"
proof -
  let ?m = "tree_counter s"
  note wf = radix_invD(1)[OF inv] and H = radix_invD(2)[OF inv] and ok = radix_invD(3)[OF inv]
  have p: "p \<in> L" "p \<noteq> ?m" "length v = length k" and m: "?m \<notin> L"
    using pre wf_counter_notin[OF wf] by (auto simp: add_pre_def)
  note S = add_state_simps[OF p(2), of tic k v]
  note P = add_path_nodes[OF wf pre, of _ tic] and N = add_path_new[OF wf pre, of tic]
  have root: "tree_root s \<noteq> ?m" using wf_treeD(3)[OF wf] m by metis
  have sz: "evictable_size (add_state tic p k v s) = evictable_size s"
    "protected_size (add_state tic p k v s) = protected_size s"
    using radix_more_eq[OF S(4)] by simp_all
  have i: "inner s' L' = insert ?m (inner s L)" using root by (auto simp: inner_def s'_def L'_def S)
  have I: "finite (inner s L)" "?m \<notin> inner s L" using inner_finite[OF wf] m by (auto simp: inner_def)
  have pn: "path_nodes s' a = path_nodes (add_state tic p k v s) a"
    "path_key s' a = path_key (add_state tic p k v s) a"
    "path_value s' a = path_value (add_state tic p k v s) a" for a
  proof -
    have "ups f s' b = ups f (add_state tic p k v s) b" for f b
      by (induction f arbitrary: b) (auto simp: s'_def split: option.splits)
    then show "path_nodes s' a = path_nodes (add_state tic p k v s) a" by (simp add: path_nodes_def s'_def)
    then show "path_key s' a = path_key (add_state tic p k v s) a"
      "path_value s' a = path_value (add_state tic p k v s) a"
      by (simp_all add: path_key_def path_value_def s'_def)
  qed
  have wf': "wf_tree s' L'"
    using wf_add_state[OF wf pre, of tic]
      same_shape_wf[of "add_state tic p k v s" s' L'] by (simp add: same_shape_def s'_def L'_def)
  have c: "lock_count s' H a = lock_count s H a" for a
    using H P by (intro lock_count_same_paths) (auto simp: pn)
  have c0: "lock_count s H ?m = 0"
    using path_nodes_set[OF wf] H m by (fastforce simp: lock_count_def)
  have nd': "node_key (nd s' a) = node_key (nd s a)" "node_value (nd s' a) = node_value (nd s a)"
    if "a \<in> inner s L" for a using that I(2) by (auto simp: s'_def S)
  have t: "free_tokens s' L' (lock_count s' H) = length k + free_tokens s L (lock_count s H)"
    "held_tokens s' L' (lock_count s' H) = held_tokens s L (lock_count s H)"
    unfolding free_tokens_def held_tokens_def i c using I
    by (auto simp: c0 nd' s'_def S intro!: sum.cong)
  have "node_ref_count (nd s' a) = (if a = ?m then 0 else node_ref_count (nd s a))" for a
    by (simp add: s'_def S)
  then have "refs_ok s' L' (lock_count s' H)"
    using ok root I(2) unfolding refs_ok_def t i c by (auto simp: c0 s'_def S sz)
  then show "radix_inv s' L' H" using wf' H by (auto simp: radix_inv_def L'_def)
  show "tree_slots s' L' = tree_slots s L + mset v"
    unfolding tree_slots_def i using I
    by (auto simp: nd' s'_def S union_commute intro!: sum.cong)
  have "tree_page s' = tree_page s" by (simp add: s'_def S)
  then show "cached s' L' = cached s L \<union>
       aligned_prefixes (tree_page s) (path_key s p @ k) (path_value s p @ v)"
    unfolding cached_def L'_def using P by (auto simp: pn N)
qed

text \<open>
  \<open>insert_prefix\<close>: the result is the length already cached; the tree then owns the slots of the
  missing tail and serves every aligned prefix of the input, nothing else.
\<close>

theorem insert_prefix_ok:
  assumes inv: "radix_inv s L H" and len: "align_down (length ids) (tree_page s) \<le> length inds"
  defines "il \<equiv> align_down (length ids) (tree_page s)"
  shows "\<exists>l h s' L'. insert_prefix tic tic' ids inds s = Inr (l, h, s') \<and> radix_inv s' L' H \<and>
     L \<subseteq> L' \<and> handle_node h \<in> L' \<and> cached_len h = il \<and> path_key s' (handle_node h) = take il ids \<and>
     drop l (path_value s' (handle_node h)) = drop l (take il inds) \<and>
     l \<le> il \<and> tree_page s dvd l \<and> (take l ids, take l (path_value s' (handle_node h))) \<in> cached s L \<and>
     (\<forall>k vs. (take k ids, vs) \<in> cached s L \<longrightarrow> k \<le> il \<longrightarrow> k \<le> l) \<and>
     cached s' L' = cached s L \<union>
       aligned_prefixes (tree_page s) (take il ids) (path_value s' (handle_node h)) \<and>
     tree_slots s' L' = tree_slots s L + mset (drop l (take il inds)) \<and>
     evictable_size s' = evictable_size s + int (il - l) \<and> protected_size s' = protected_size s \<and>
     tree_page s' = tree_page s \<and>
     (\<forall>a\<in>L. path_key s' a = path_key s a \<and> path_value s' a = path_value s a)"
proof -
  let ?ids = "take il ids" and ?inds = "take il inds"
  have il: "il \<le> length ids" "tree_page s dvd il" "il \<le> length inds"
    using len by (simp_all add: il_def)
  obtain n l s1 L1 where w: "tree_walk tic ?ids s = Inr (n, l, s1)" "kept s L H s1 L1"
    "n \<in> L1" "l \<le> length ?ids" "tree_page s dvd l" "path_key s1 n = take l ?ids"
    "(take l ?ids, path_value s1 n) \<in> cached s L"
    "\<forall>k vs. (take k ?ids, vs) \<in> cached s L \<longrightarrow> k \<le> length ?ids \<longrightarrow> k \<le> l"
    "l < length ?ids \<longrightarrow> map_of (node_children (nd s1 n)) (key_fn (tree_page s) (drop l ?ids)) = None"
    using tree_walk_cache[OF inv, of tic ?ids] unfolding walked_def by blast
  note k = keptD[OF w(2)]
  have l: "l \<le> il" using w(4) il by simp
  have tl: "take l ?ids = take l ids" using l by (simp add: min_absorb1)
  have max: "\<forall>k vs. (take k ids, vs) \<in> cached s L \<longrightarrow> k \<le> il \<longrightarrow> k \<le> l"
    using w(8) il by (auto simp: min_absorb1)
  have wf1: "wf_tree s1 L1" by (rule radix_invD(1)[OF k(1)])
  have vl: "length (path_value s1 n) = l" using path_lengths[OF wf1 w(3)] w(6) l il by (simp add: tl)
  show ?thesis
  proof (cases "l = il")
    case True
    have pk: "path_key s1 n = take il ids" using w(6) True by (simp add: tl)
    have "aligned_prefixes (tree_page s) (take il ids) (path_value s1 n) \<subseteq> cached s1 L1"
      using w(3) k(6) pk by (auto simp: cached_def)
    moreover have "insert_prefix tic tic' ids inds s =
        Inr (l, \<lparr>cached_len = il, handle_node = n\<rparr>, s1)"
      using w(1) True by (simp add: insert_prefix_def il_def[symmetric] Let_def)
    ultimately show ?thesis
      using k w(3,5,7) pk True max vl il l
      by (intro exI[of _ l] exI[of _ "\<lparr>cached_len = il, handle_node = n\<rparr>"] exI[of _ s1] exI[of _ L1])
        (auto simp: tl size_info_def)
  next
    case False
    then have lt: "l < il" using l by simp
    let ?k = "drop l ?ids" and ?v = "drop l ?inds" and ?m = "tree_counter s1"
    define s' where "s' = add_evictable (int (length ?k)) (add_state tic' n ?k ?v s1)"
    have pre: "add_pre s1 L1 n ?k ?v"
      using w(3,5,9) lt il k(6) by (auto simp: add_pre_def intro: dvd_diff_nat)
    note A = add_radix_inv[OF k(1) pre, of tic', folded s'_def]
    have nm: "n \<noteq> ?m" using wf_counter_notin[OF wf1] w(3) by auto
    have "add_child tic' n ?k ?v s1 = Inr (?m, add_state tic' n ?k ?v s1)"
      using nm il by (intro add_child_eq) auto
    then have ins: "insert_prefix tic tic' ids inds s =
        Inr (l, \<lparr>cached_len = il, handle_node = ?m\<rparr>, s')"
      using w(1) False
      by (simp add: insert_prefix_def il_def[symmetric] Let_def s'_def add_state_simps[OF nm])
    have sh: "same_shape (add_state tic' n ?k ?v s1) s' (insert ?m L1)"
      by (simp add: same_shape_def s'_def)
    note P = same_shape_paths[OF sh wf_add_state[OF wf1 pre]]
    have old: "path_key s' a = path_key s a \<and> path_value s' a = path_value s a" if "a \<in> L" for a
      using P add_path_nodes[OF wf1 pre] k that by auto
    have new: "path_key s' ?m = take il ids" "path_value s' ?m = path_value s1 n @ ?v"
      using P add_path_new[OF wf1 pre] w(6) lt by (simp_all add: tl) (metis append_take_drop_id tl)
    have key: "take l ids @ ?k = take il ids" by (metis append_take_drop_id tl)
    have "evictable_size s' = evictable_size s + int (il - l)" "protected_size s' = protected_size s"
      "tree_page s' = tree_page s"
      using k(5,6) radix_more_eq[OF add_state_simps(4)[OF nm], of tic' ?k ?v] lt il
      by (auto simp: s'_def size_info_def add_state_simps[OF nm])
    then show ?thesis
      using ins A k old new lt il max w(5,7) vl
      by (intro exI[of _ l] exI[of _ "\<lparr>cached_len = il, handle_node = ?m\<rparr>"] exI[of _ s']
          exI[of _ "insert ?m L1"]) (auto simp: tl w(6) key)
  qed
qed

end
