(* ===== verification/RadixEvict.thy ===== *)
theory RadixEvict
  imports RadixProps
begin

text \<open>
  Eviction: \<open>_collect_leave_nodes_for_evict\<close> finds the unlocked leaves, one round of \<open>evict\<close>
  removes the least recently used of them, and the whole call frees at least the number of
  tokens asked for whenever the evictable counter allows it, without touching a locked path.
\<close>

section \<open>Collecting the unlocked leaves\<close>

definition evictable_leaves :: "'a rtree_scheme \<Rightarrow> nid set \<Rightarrow> nid set" where
  "evictable_leaves s L = {n \<in> L. is_leaf s n \<and> node_ref_count (nd s n) = 0}"

text \<open>\<open>V\<close> holds the nodes already taken from the stack.\<close>

definition kids :: "'a rtree_scheme \<Rightarrow> nid set \<Rightarrow> nid \<Rightarrow> nid set" where
  "kids s L p = {c \<in> L. node_parent (nd s c) = Some p}"

definition parents :: "'a rtree_scheme \<Rightarrow> nid set \<Rightarrow> nid set" where
  "parents s A = (\<Union>n\<in>A. set_option (node_parent (nd s n)))"

definition dfs_inv :: "'a rtree_scheme \<Rightarrow> nid set \<Rightarrow> nid set \<Rightarrow> nid list \<Rightarrow> bool" where
  "dfs_inv s L V st \<longleftrightarrow>
     V \<subseteq> L \<and> set st \<subseteq> L \<and> set st \<inter> V = {} \<and> distinct st \<and> tree_root s \<in> V \<union> set st \<and>
     parents s (V \<union> set st) \<subseteq> V \<and> (\<Union>p\<in>V. kids s L p) \<subseteq> V \<union> set st"

lemma children_snd:
  assumes wf: "wf_tree s L" and p: "p \<in> L"
  shows "distinct (map snd (node_children (nd s p)))"
    "set (map snd (node_children (nd s p))) = kids s L p"
proof -
  let ?cs = "node_children (nd s p)"
  have k: "fst e = key_fn (tree_page s) (node_key (nd s (snd e)))" if "e \<in> set ?cs" for e
    using wf_child(3)[OF wf p, of "fst e" "snd e"] that by simp
  have "inj_on snd (set ?cs)"
  proof (rule inj_onI)
    fix a b assume "a \<in> set ?cs" "b \<in> set ?cs" "snd a = snd b"
    then show "a = b" using k[of a] k[of b] by (simp add: prod_eq_iff)
  qed
  moreover have "distinct ?cs" using wf_distinct[OF wf p] distinct_map by blast
  ultimately show "distinct (map snd ?cs)" by (simp add: distinct_map)
  show "set (map snd ?cs) = kids s L p"
  proof
    show "set (map snd ?cs) \<subseteq> kids s L p"
      using wf_child(1,2)[OF wf p] by (auto simp: kids_def)
    show "kids s L p \<subseteq> set (map snd ?cs)"
    proof
      fix c assume "c \<in> kids s L p"
      then have "(key_fn (tree_page s) (node_key (nd s c)), c) \<in> set ?cs"
        using wf_parent_child(3)[OF wf] by (simp add: kids_def)
      then show "c \<in> set (map snd ?cs)" by force
    qed
  qed
qed

lemma dfs_step:
  assumes wf: "wf_tree s L" and inv: "dfs_inv s L V (st @ [n])"
  shows "dfs_inv s L (insert n V) (st @ map snd (node_children (nd s n)))" "n \<in> L" "n \<notin> V"
proof -
  have I: "V \<subseteq> L" "set (st @ [n]) \<subseteq> L" "set (st @ [n]) \<inter> V = {}" "distinct (st @ [n])"
    "tree_root s \<in> V \<union> set (st @ [n])" "parents s (V \<union> set (st @ [n])) \<subseteq> V"
    "(\<Union>p\<in>V. kids s L p) \<subseteq> V \<union> set (st @ [n])"
    using inv by (simp_all only: dfs_inv_def)
  show n: "n \<in> L" "n \<notin> V" using I(2,3) by auto
  note C = children_snd[OF wf n(1)]
  have new: "kids s L n \<inter> (V \<union> set (st @ [n])) = {}"
  proof -
    have "c \<notin> V \<union> set (st @ [n])" if c: "c \<in> kids s L n" for c
    proof
      assume "c \<in> V \<union> set (st @ [n])"
      then have "n \<in> parents s (V \<union> set (st @ [n]))"
        using c by (auto simp: parents_def kids_def intro!: bexI[of _ c])
      then show False using I(6) n(2) by blast
    qed
    then show ?thesis by blast
  qed
  have "parents s (insert n V \<union> (set st \<union> kids s L n)) \<subseteq> insert n V"
    using I(6) by (auto simp: parents_def kids_def)
  then show "dfs_inv s L (insert n V) (st @ map snd (node_children (nd s n)))"
    unfolding dfs_inv_def set_append C(2) using I C(1) new n C(2)
    by (intro conjI) (auto simp: kids_def)
qed

lemma dfs_done:
  assumes wf: "wf_tree s L" and inv: "dfs_inv s L V []"
  shows "V = L"
proof -
  have "n \<in> V" if "n \<in> L" for n
    using wf that
  proof (induction rule: tree_induct)
    case root
    then show ?case using inv by (simp add: dfs_inv_def)
  next
    case (step n p)
    then have "n \<in> kids s L p" by (simp add: kids_def)
    then show ?case using inv step by (auto simp: dfs_inv_def)
  qed
  then show ?thesis using inv by (auto simp: dfs_inv_def)
qed

lemma collect_leaves_loop_ok:
  assumes "wf_tree s L" "dfs_inv s L V st" "card (L - V) < fuel"
    "distinct acc" "set acc = {n \<in> V. is_leaf s n \<and> node_ref_count (nd s n) = 0}"
  shows "\<exists>r. collect_leaves_loop fuel s st acc = Inr r \<and> distinct r \<and> set r = evictable_leaves s L"
  using assms
proof (induction fuel arbitrary: V st acc)
  case (Suc fuel)
  note wf = Suc.prems(1) and inv = Suc.prems(2)
  show ?case
  proof (cases st rule: rev_cases)
    case Nil
    then show ?thesis using dfs_done[OF wf] Suc.prems by (auto simp: evictable_leaves_def)
  next
    case (snoc st' n)
    note D = dfs_step[OF wf inv[unfolded snoc]]
    let ?acc = "if is_leaf s n \<and> node_ref_count (nd s n) = 0 then acc @ [n] else acc"
    have fin: "card (L - insert n V) < fuel"
    proof -
      have "card (L - V - {n}) < card (L - V)"
        using D(2,3) wf_finite[OF wf] by (intro card_Diff1_less) auto
      moreover have "L - insert n V = L - V - {n}" by blast
      ultimately show ?thesis using Suc.prems(3) by simp
    qed
    have "distinct ?acc" "set ?acc = {m \<in> insert n V. is_leaf s m \<and> node_ref_count (nd s m) = 0}"
      using Suc.prems(4,5) D(3) by auto
    from Suc.IH[OF wf D(1) fin this] obtain r where
      r: "collect_leaves_loop fuel s (st' @ map snd (node_children (nd s n))) ?acc = Inr r"
      "distinct r" "set r = evictable_leaves s L" by blast
    have "collect_leaves_loop (Suc fuel) s st acc = Inr r"
      using r(1) by (cases "is_leaf s n") (auto simp: snoc is_leaf_def)
    with r show ?thesis by blast
  qed
qed simp

lemma collect_leaves_ok:
  assumes wf: "wf_tree s L"
  shows "\<exists>r. collect_leave_nodes_for_evict s = Inr r \<and> distinct r \<and> set r = evictable_leaves s L"
  unfolding collect_leave_nodes_for_evict_def
proof (rule collect_leaves_loop_ok[OF wf, of "{}"])
  show "dfs_inv s L {} [tree_root s]"
    using wf_treeD(3,4)[OF wf] by (simp add: dfs_inv_def parents_def)
  show "card (L - {}) < Suc (tree_counter s)"
    using card_mono[OF _ wf_treeD(2)[OF wf]] by simp
qed simp_all

section \<open>One round\<close>

text \<open>The subtree of an unlocked node is unlocked, so while tokens are evictable a leaf is.\<close>

lemma lock_count_mono:
  assumes wf: "wf_tree s L" and H: "set_mset H \<subseteq> L" and nm: "n \<in> set (path_nodes s m)"
  shows "lock_count s H m \<le> lock_count s H n"
proof -
  have up: "n \<in> set (path_nodes s h)" if "h \<in># H" "m \<in> set (path_nodes s h)" for h
    using path_nodes_prefix[OF wf _ that(2)] that(1) H nm set_mono_prefix by blast
  have "filter_mset (\<lambda>h. m \<in> set (path_nodes s h)) H \<subseteq># filter_mset (\<lambda>h. n \<in> set (path_nodes s h)) H"
  proof (intro mset_subset_eqI)
    fix a
    show "count {#h \<in># H. m \<in> set (path_nodes s h)#} a \<le> count {#h \<in># H. n \<in> set (path_nodes s h)#} a"
    proof (cases "a \<in># H")
      case True
      then show ?thesis using up[OF True] by auto
    next
      case False
      then show ?thesis by (simp add: not_in_iff)
    qed
  qed
  then show ?thesis unfolding lock_count_def by (rule size_mset_mono)
qed

lemma unlocked_leaf_exists:
  assumes inv: "radix_inv s L H" and n: "n \<in> inner s L" "lock_count s H n = 0"
  shows "evictable_leaves s L \<noteq> {}"
proof -
  note wf = radix_invD(1)[OF inv]
  let ?below = "{a \<in> L. n \<in> set (path_nodes s a)}"
  have fin: "finite ?below" and ne: "n \<in> ?below"
    using wf_finite[OF wf] n path_nodes_self[OF wf] by (auto simp: inner_def)
  let ?len = "\<lambda>b. length (path_nodes s b)"
  have "Max (?len ` ?below) \<in> ?len ` ?below" using fin ne by (intro Max_in) auto
  then obtain a where "a \<in> ?below" "?len a = Max (?len ` ?below)" by auto
  then have a: "a \<in> ?below" "\<And>b. b \<in> ?below \<Longrightarrow> ?len b \<le> ?len a"
    using fin by simp_all
  have "is_leaf s a"
  proof (rule ccontr)
    assume "\<not> is_leaf s a"
    then obtain k c where "(k, c) \<in> set (node_children (nd s a))"
      by (cases "node_children (nd s a)") (auto simp: is_leaf_def)
    then have c: "c \<in> L" "node_parent (nd s c) = Some a" using wf_child[OF wf] a(1) by auto
    then have "path_nodes s c = path_nodes s a @ [c]" using path_nodes_step[OF wf] a(1) by simp
    then show False using a(2)[of c] a(1) c by simp
  qed
  moreover have "a \<noteq> tree_root s" using a(1) path_nodes_root[OF wf] by auto
  then have "node_ref_count (nd s a) = int (lock_count s H a)"
    using radix_invD(3)[OF inv] a(1) by (simp add: refs_ok_def inner_def)
  moreover have "lock_count s H a = 0"
    using lock_count_mono[OF wf radix_invD(2)[OF inv], of n a] a(1) n(2) by simp
  ultimately have "a \<in> evictable_leaves s L" using a(1) by (simp add: evictable_leaves_def)
  then show ?thesis by blast
qed

lemma evictable_leaf_exists:
  assumes inv: "radix_inv s L H" and e: "0 < evictable_size s"
  shows "evictable_leaves s L \<noteq> {}"
proof -
  have "free_tokens s L (lock_count s H) \<noteq> 0"
    using radix_invD(3)[OF inv] e by (auto simp: refs_ok_def)
  then obtain n where "n \<in> inner s L" "lock_count s H n = 0"
    unfolding free_tokens_def by (auto simp: sum_eq_0_iff[OF inner_finite[OF radix_invD(1)[OF inv]]] split: if_splits)
  then show ?thesis by (rule unlocked_leaf_exists[OF inv])
qed

lemma add_evictable_paths [simp]:
  "path_nodes (add_evictable d s) a = path_nodes s a"
  "path_key (add_evictable d s) a = path_key s a"
  "path_value (add_evictable d s) a = path_value s a"
proof -
  have "ups f (add_evictable d s) b = ups f s b" for f b
    by (induction f arbitrary: b) (auto split: option.splits)
  then show "path_nodes (add_evictable d s) a = path_nodes s a" by (simp add: path_nodes_def)
  then show "path_key (add_evictable d s) a = path_key s a"
    "path_value (add_evictable d s) a = path_value s a"
    by (simp_all add: path_key_def path_value_def)
qed

text \<open>Unlinking an unlocked leaf.\<close>

lemma unlink_radix_inv:
  assumes inv: "radix_inv s L H" and n: "n \<in> evictable_leaves s L"
    and p: "node_parent (nd s n) = Some p"
  defines "s' \<equiv> unlink_state n p (add_evictable (- int (nlen s n)) s)"
  shows "radix_inv s' (L - {n}) H" "tree_slots s L = tree_slots s' (L - {n}) + mset (node_value (nd s n))"
    "cached s' (L - {n}) \<subseteq> cached s L"
    "evictable_leaves s' (L - {n}) = evictable_leaves s L - {n} \<union>
       (if is_leaf s' p \<and> node_ref_count (nd s' p) = 0 then {p} else {})"
    "h \<in># H \<Longrightarrow> h \<in> L - {n}"
proof -
  note wf = radix_invD(1)[OF inv] and H = radix_invD(2)[OF inv] and ok = radix_invD(3)[OF inv]
  have nL: "n \<in> L" and leaf: "is_leaf s n" and r0: "node_ref_count (nd s n) = 0"
    using n by (simp_all add: evictable_leaves_def)
  have root: "n \<noteq> tree_root s" using wf_treeD(4)[OF wf] p by auto
  have nI: "n \<in> inner s L" using nL root by (simp add: inner_def)
  have c0: "lock_count s H n = 0" using ok r0 nI by (simp add: refs_ok_def)
  have notin: "n \<notin># H"
    using c0 path_nodes_self[OF wf nL root] by (auto simp: lock_count_def)
  then show hL: "h \<in># H \<Longrightarrow> h \<in> L - {n}" for h using H by auto
  have sz: "evictable_size s' = evictable_size s - int (nlen s n)" "protected_size s' = protected_size s"
    using radix_more_eq[OF unlink_state_simps(4), of n p "add_evictable (- int (nlen s n)) s"]
    by (simp_all add: s'_def)
  have F: "tree_page s' = tree_page s" "tree_root s' = tree_root s"
    "node_key (nd s' a) = node_key (nd s a)" "node_value (nd s' a) = node_value (nd s a)"
    "node_parent (nd s' a) = node_parent (nd s a)"
    "node_ref_count (nd s' a) = node_ref_count (nd s a)" for a by (simp_all add: s'_def)
  have P: "path_nodes s' a = path_nodes s a" "path_key s' a = path_key s a"
    "path_value s' a = path_value s a" for a
    by (simp_all add: s'_def unlink_paths)
  have sh: "same_shape s (add_evictable (- int (nlen s n)) s) L" by (simp add: same_shape_def)
  have wf': "wf_tree s' (L - {n})"
    unfolding s'_def using same_shape_wf[OF sh wf] nL root p leaf
    by (intro wf_unlink_state) (auto simp: is_leaf_def)
  have i: "inner s' (L - {n}) = inner s L - {n}" by (auto simp: inner_def F)
  have c: "lock_count s' H = lock_count s H" by (simp add: lock_count_def P fun_eq_iff)
  note R = sum.remove[OF inner_finite[OF wf] nI]
  have t: "free_tokens s L (lock_count s H) = nlen s n + free_tokens s' (L - {n}) (lock_count s H)"
    "held_tokens s' (L - {n}) (lock_count s H) = held_tokens s L (lock_count s H)"
    by (simp_all add: free_tokens_def held_tokens_def i R c0 F cong: if_cong)
  have "refs_ok s' (L - {n}) (lock_count s' H)"
    using ok by (simp add: refs_ok_def c i F sz t)
  then show "radix_inv s' (L - {n}) H" using wf' hL by (auto simp: radix_inv_def)
  show "tree_slots s L = tree_slots s' (L - {n}) + mset (node_value (nd s n))"
    by (simp add: tree_slots_def i R F add.commute)
  show "cached s' (L - {n}) \<subseteq> cached s L" by (auto simp: cached_def P F)
  have pL: "p \<in> L" "p \<noteq> n" using wf_parent_child[OF wf nL p] by simp_all
  have pc: "\<not> is_leaf s p" using wf_parent_child(3)[OF wf nL p] by (auto simp: is_leaf_def)
  have "node_children (nd s' a) = node_children (nd s a)" if "a \<noteq> p" for a
    using that by (simp add: s'_def unlink_state_def)
  then have l: "is_leaf s' a = is_leaf s a" if "a \<noteq> p" for a using that by (simp add: is_leaf_def)
  show "evictable_leaves s' (L - {n}) = evictable_leaves s L - {n} \<union>
       (if is_leaf s' p \<and> node_ref_count (nd s' p) = 0 then {p} else {})"
  proof (rule set_eqI)
    fix x
    show "x \<in> evictable_leaves s' (L - {n}) \<longleftrightarrow> x \<in> evictable_leaves s L - {n} \<union>
       (if is_leaf s' p \<and> node_ref_count (nd s' p) = 0 then {p} else {})"
      by (cases "x = p") (use l[of x] pL pc in \<open>auto simp: evictable_leaves_def F\<close>)
  qed
qed

text \<open>
  The state of the loop of \<open>evict\<close>: \<open>ls\<close> holds the unlocked leaves in heap order.
\<close>

definition evict_inv ::
  "'a radix_cache_scheme \<Rightarrow> nid set \<Rightarrow> nid multiset \<Rightarrow> nid list \<Rightarrow> bool" where
  "evict_inv s L H ls \<longleftrightarrow> radix_inv s L H \<and> distinct ls \<and> set ls = evictable_leaves s L \<and>
     heap_from (\<lambda>n. node_timestamp (nd s n)) 0 ls"

theorem evict_step_ok:
  assumes inv: "evict_inv s L H ls" and e: "0 < evictable_size s"
  shows "\<exists>n ls' s'. evict_step ls s = Inr (n, ls', s') \<and> evict_inv s' (L - {n}) H ls' \<and>
     n \<in> evictable_leaves s L \<and>
     (\<forall>m\<in>evictable_leaves s L. node_timestamp (nd s n) \<le> node_timestamp (nd s m)) \<and>
     tree_slots s L = tree_slots s' (L - {n}) + mset (node_value (nd s n)) \<and>
     cached s' (L - {n}) \<subseteq> cached s L \<and> 0 < nlen s n \<and> length (node_value (nd s n)) = nlen s n \<and>
     evictable_size s' = evictable_size s - int (nlen s n) \<and> protected_size s' = protected_size s \<and>
     tree_page s' = tree_page s \<and>
     (\<forall>a. path_key s' a = path_key s a \<and> path_value s' a = path_value s a) \<and>
     (\<forall>a. node_value (nd s' a) = node_value (nd s a)) \<and> inner s' (L - {n}) \<subseteq> inner s L \<and>
     n \<in> inner s L"
proof -
  let ?ts = "\<lambda>n. node_timestamp (nd s n)"
  have I: "radix_inv s L H" "distinct ls" "set ls = evictable_leaves s L" "heap_from ?ts 0 ls"
    using inv by (simp_all add: evict_inv_def)
  note wf = radix_invD(1)[OF I(1)]
  have "ls \<noteq> []" using evictable_leaf_exists[OF I(1) e] I(3) by auto
  then obtain n ls1 where pop: "heappop ?ts ls = Inr (n, ls1)" using heappop_ok by blast
  note D = heappop_distinct[OF pop I(2)] and M = heappop_heap[OF I(4) pop]
  have n: "n \<in> evictable_leaves s L" using D(1) I(3) by simp
  then have n': "n \<in> L" "node_ref_count (nd s n) = 0" "is_leaf s n" by (simp_all add: evictable_leaves_def)
  have root: "n \<noteq> tree_root s" using radix_invD(3)[OF I(1)] n'(2) by (auto simp: refs_ok_def)
  obtain p where p: "node_parent (nd s n) = Some p" "p \<noteq> n" using wf_parent[OF wf n'(1) root] by blast
  let ?s1 = "add_evictable (- int (nlen s n)) s"
  let ?s = "unlink_state n p ?s1"
  note U = unlink_radix_inv[OF I(1) n p(1)]
  have sh: "same_shape s ?s1 L" by (simp add: same_shape_def)
  obtain q where "node_parent (nd ?s1 n) = Some q" "unlink n ?s1 = Inr (q, unlink_state n q ?s1)"
    using unlink_eq[OF same_shape_wf[OF sh wf] n'(1)] root by auto
  then have un: "unlink n ?s1 = Inr (p, ?s)" using p by simp
  have ts: "node_timestamp (nd ?s a) = node_timestamp (nd s a)" for a by simp
  define add where "add \<longleftrightarrow> is_leaf ?s p \<and> node_ref_count (nd ?s p) = 0"
  define ls' where "ls' = (if add then heappush ?ts ls1 p else ls1)"
  have step: "evict_step ls s = Inr (n, ls', ?s)"
    using pop \<open>ls \<noteq> []\<close> n' p(1) un by (simp add: evict_step_def is_root_def ls'_def add_def)
  have pnot: "p \<notin> evictable_leaves s L"
    using wf_parent_child(3)[OF wf n'(1) p(1)] by (auto simp: evictable_leaves_def is_leaf_def)
  have "distinct ls'" "set ls' = evictable_leaves ?s (L - {n})"
    using D I(3) pnot U(4) by (auto simp: ls'_def add_def)
  moreover have "heap_from ?ts 0 ls'" using M(1) by (simp add: ls'_def heappush_heap)
  ultimately have "evict_inv ?s (L - {n}) H ls'" using U(1) by (simp add: evict_inv_def ts)
  moreover have "\<forall>m\<in>evictable_leaves s L. ?ts n \<le> ?ts m" using M(2) I(3) by blast
  moreover have "evictable_size ?s = evictable_size s - int (nlen s n)" "protected_size ?s = protected_size s"
    using radix_more_eq[OF unlink_state_simps(4), of n p ?s1] by simp_all
  moreover have "path_key ?s a = path_key s a \<and> path_value ?s a = path_value s a" for a
    by (simp add: unlink_paths)
  ultimately show ?thesis
    using step n U(2,3) wf_node(1,3)[OF wf n'(1) root] n'(1) root
    by (intro exI[of _ n] exI[of _ ls'] exI[of _ ?s]) (auto simp: inner_def)
qed

section \<open>The whole call\<close>

text \<open>
  \<open>freed s L H s' L' vs\<close>: the slots \<open>vs\<close> left the tree, nothing else did, and every path of a
  locked handle is as it was.
\<close>

definition freed ::
  "'a radix_cache_scheme \<Rightarrow> nid set \<Rightarrow> nid multiset \<Rightarrow> 'a radix_cache_scheme \<Rightarrow> nid set \<Rightarrow> slot list \<Rightarrow> bool"
where
  "freed s L H s' L' vs \<longleftrightarrow>
     radix_inv s' L' H \<and> L' \<subseteq> L \<and> tree_slots s L = tree_slots s' L' + mset vs \<and>
     cached s' L' \<subseteq> cached s L \<and> evictable_size s' = evictable_size s - int (length vs) \<and>
     protected_size s' = protected_size s \<and> tree_page s' = tree_page s \<and>
     (\<forall>a. path_key s' a = path_key s a \<and> path_value s' a = path_value s a) \<and>
     (\<forall>a. node_value (nd s' a) = node_value (nd s a)) \<and> inner s' L' \<subseteq> inner s L \<and>
     (\<forall>ps. (\<forall>n\<in>inner s L. paged ps (node_value (nd s n))) \<longrightarrow> paged ps vs)"

lemma freed_refl: "radix_inv s L H \<Longrightarrow> freed s L H s L []"
  by (simp add: freed_def)

lemma freed_trans:
  "freed s L H s1 L1 vs \<Longrightarrow> freed s1 L1 H s2 L2 ws \<Longrightarrow> freed s L H s2 L2 (vs @ ws)"
  unfolding freed_def by (auto simp: ac_simps subset_iff intro!: paged_append)

lemma evict_step_freed:
  assumes "evict_inv s L H ls" "0 < evictable_size s"
  shows "\<exists>n ls' s'. evict_step ls s = Inr (n, ls', s') \<and> evict_inv s' (L - {n}) H ls' \<and>
     freed s L H s' (L - {n}) (node_value (nd s n)) \<and> 0 < nlen s n \<and>
     length (node_value (nd s n)) = nlen s n"
  using evict_step_ok[OF assms] unfolding freed_def evict_inv_def by fastforce

lemma evict_loop_ok:
  assumes "evict_inv s L H ls" "need \<le> done_size + evictable_size s" "nat (need - done_size) < fuel"
  shows "\<exists>vss s' L'. evict_loop fuel need ls done_size acc s = Inr (acc @ vss, s') \<and>
     freed s L H s' L' (concat vss) \<and> need \<le> done_size + int (length (concat vss)) \<and>
     (done_size < need \<longrightarrow> vss \<noteq> [])"
  using assms
proof (induction fuel arbitrary: s L ls done_size acc)
  case (Suc fuel)
  show ?case
  proof (cases "done_size < need")
    case False
    then show ?thesis
      using Suc.prems by (intro exI[of _ "[]"] exI[of _ s] exI[of _ L]) (auto simp: evict_inv_def freed_refl)
  next
    case True
    then have "0 < evictable_size s" using Suc.prems(2) by linarith
    from evict_step_freed[OF Suc.prems(1) this] obtain n ls' s1 where
      st: "evict_step ls s = Inr (n, ls', s1)" "evict_inv s1 (L - {n}) H ls'"
      "freed s L H s1 (L - {n}) (node_value (nd s n))" "0 < nlen s n"
      "length (node_value (nd s n)) = nlen s n" by blast
    have e: "evictable_size s1 = evictable_size s - int (nlen s n)" using st(3,5) by (simp add: freed_def)
    have "need \<le> done_size + int (nlen s n) + evictable_size s1" using e Suc.prems(2) by simp
    moreover have "nat (need - (done_size + int (nlen s n))) < fuel"
      using Suc.prems(3) True st(4) by linarith
    ultimately obtain vss s' L' where IH:
      "evict_loop fuel need ls' (done_size + int (nlen s n)) (acc @ [node_value (nd s n)]) s1 =
         Inr ((acc @ [node_value (nd s n)]) @ vss, s')"
      "freed s1 (L - {n}) H s' L' (concat vss)"
      "need \<le> done_size + int (nlen s n) + int (length (concat vss))"
      using Suc.IH[OF st(2)] by blast
    have "evict_loop (Suc fuel) need ls done_size acc s = Inr (acc @ (node_value (nd s n) # vss), s')"
      using True st(1) IH(1) by simp
    moreover have "freed s L H s' L' (concat (node_value (nd s n) # vss))"
      using freed_trans[OF st(3) IH(2)] by simp
    moreover have "need \<le> done_size + int (length (concat (node_value (nd s n) # vss)))"
      using IH(3) st(5) by simp
    ultimately show ?thesis by blast
  qed
qed simp

theorem evict_ok:
  assumes inv: "radix_inv s L H" and need: "0 \<le> need" "need \<le> evictable_size s"
  shows "\<exists>vs s' L'. evict need s = Inr (vs, s') \<and> freed s L H s' L' vs \<and> need \<le> int (length vs)"
proof (cases "need = 0")
  case True
  then show ?thesis using freed_refl[OF inv] by (intro exI[of _ "[]"] exI[of _ s] exI[of _ L]) (simp add: evict_def)
next
  case False
  obtain r where r: "collect_leave_nodes_for_evict s = Inr r" "distinct r" "set r = evictable_leaves s L"
    using collect_leaves_ok[OF radix_invD(1)[OF inv]] by blast
  let ?h = "heapify (\<lambda>n. node_timestamp (nd s n)) r"
  have "evict_inv s L H ?h" using inv r by (simp add: evict_inv_def heapify_heap)
  from evict_loop_ok[OF this, of need 0 "Suc (nat need)" "[]"] need False
  obtain vss s' L' where "evict_loop (Suc (nat need)) need ?h 0 [] s = Inr (vss, s')"
    "freed s L H s' L' (concat vss)" "need \<le> int (length (concat vss))" "vss \<noteq> []" by auto
  then show ?thesis
    using False need r(1)
    by (intro exI[of _ "concat vss"] exI[of _ s'] exI[of _ L']) (simp add: evict_def)
qed

theorem evict_too_much: "need \<noteq> 0 \<Longrightarrow> evictable_size s < need \<Longrightarrow> evict need s = Inl AssertionError"
  by (simp add: evict_def)

end
