(* ===== verification/RadixSpec.thy ===== *)
theory RadixSpec
  imports RadixEvict
begin

text \<open>
  The contract of the plain prefix cache.  The ghost set of nodes of the invariant is the set of
  the nodes reachable from the root, so \<open>cache_ok ps s H\<close> is a property of the state \<open>s\<close> and the
  locked handles \<open>H\<close> alone; \<open>content\<close> and \<open>owned_slots\<close> are its abstract values.
  \<open>RadixPrefixCache\<close> is an interpretation of the locale \<open>prefix_cache\<close>.
\<close>

section \<open>The reachable nodes\<close>

inductive_set reach :: "'a rtree_scheme \<Rightarrow> nid set" for s where
  root: "tree_root s \<in> reach s"
| child: "p \<in> reach s \<Longrightarrow> (k, c) \<in> set (node_children (nd s p)) \<Longrightarrow> c \<in> reach s"

lemma wf_reach: "wf_tree s L \<Longrightarrow> L = reach s"
proof
  assume wf: "wf_tree s L"
  show "L \<subseteq> reach s"
  proof
    fix n assume "n \<in> L"
    with wf show "n \<in> reach s"
    proof (induction rule: tree_induct)
      case (step n p)
      then show ?case using wf_parent_child(3)[OF wf step(1,3)] by (blast intro: reach.child)
    qed (rule reach.root)
  qed
  show "reach s \<subseteq> L"
  proof
    fix n assume "n \<in> reach s"
    then show "n \<in> L"
    proof (induction rule: reach.induct)
      case root
      then show ?case by (rule wf_treeD(3)[OF wf])
    next
      case (child p k c)
      then show ?case by (blast intro: wf_child(1)[OF wf])
    qed
  qed
qed

definition content :: "'a rtree_scheme \<Rightarrow> (token list \<times> slot list) set" where
  "content s = cached s (reach s)"

definition owned_slots :: "'a rtree_scheme \<Rightarrow> slot multiset" where
  "owned_slots s = tree_slots s (reach s)"

definition handle_ok :: "'a rtree_scheme \<Rightarrow> radix_handle \<Rightarrow> bool" where
  "handle_ok s h \<longleftrightarrow> handle_node h \<in> reach s \<and> cached_len h = length (path_key s (handle_node h))"

definition values_paged :: "'a rtree_scheme \<Rightarrow> nid set \<Rightarrow> bool" where
  "values_paged s L \<longleftrightarrow> (\<forall>n\<in>inner s L. paged (tree_page s) (node_value (nd s n)))"

definition cache_ok :: "nat \<Rightarrow> 'a radix_cache_scheme \<Rightarrow> radix_handle multiset \<Rightarrow> bool" where
  "cache_ok ps s H \<longleftrightarrow> tree_page s = ps \<and> radix_inv s (reach s) (image_mset handle_node H) \<and>
     (\<forall>h\<in>#H. handle_ok s h) \<and> values_paged s (reach s)"

lemma values_paged_cached:
  assumes wf: "wf_tree s L"
  shows "values_paged s L \<longleftrightarrow> (\<forall>(ks, vs) \<in> cached s L. paged (tree_page s) vs)"
proof
  assume v: "values_paged s L"
  have "paged (tree_page s) (path_value s n)" if "n \<in> L" for n
    unfolding path_value_def
    using v path_nodes_set[OF wf that] by (intro paged_concat) (auto simp: values_paged_def inner_def)
  then show "\<forall>(ks, vs) \<in> cached s L. paged (tree_page s) vs"
    by (auto simp: cached_def aligned_prefixes_def intro: paged_take)
next
  assume c: "\<forall>(ks, vs) \<in> cached s L. paged (tree_page s) vs"
  show "values_paged s L"
    unfolding values_paged_def
  proof
    fix n assume n: "n \<in> inner s L"
    then have nL: "n \<in> L" "n \<noteq> tree_root s" by (simp_all add: inner_def)
    obtain p where p: "p \<in> L" "node_parent (nd s n) = Some p" using wf_parent[OF wf nL] by blast
    have "(path_key s n, path_value s n) \<in> cached s L"
      using cached_path[OF nL(1), of s] path_lengths[OF wf nL(1)] by simp
    then have "paged (tree_page s) (path_value s n)" using c by blast
    moreover have "node_value (nd s n) = drop (length (path_value s p)) (path_value s n)"
      using path_value_step[OF wf nL(1) p(2,1)] by simp
    moreover have "tree_page s dvd length (path_value s p)" using path_lengths[OF wf p(1)] by simp
    ultimately show "paged (tree_page s) (node_value (nd s n))" by (simp add: paged_drop)
  qed
qed

lemma cache_okD:
  assumes "cache_ok ps s H"
  shows "wf_tree s (reach s)" "radix_inv s (reach s) (image_mset handle_node H)" "tree_page s = ps"
    "h \<in># H \<Longrightarrow> handle_ok s h" "values_paged s (reach s)" "0 < ps"
  using assms radix_invD(1)[of s "reach s"] wf_treeD(1)[of s "reach s"] by (auto simp: cache_ok_def)

text \<open>A step that keeps paths leads from \<open>cache_ok\<close> to \<open>cache_ok\<close>.\<close>

lemma cache_okI:
  assumes "radix_inv s L (image_mset handle_node H)" "tree_page s = ps" "values_paged s L"
    "\<And>h. h \<in># H \<Longrightarrow> cached_len h = length (path_key s (handle_node h))"
  shows "cache_ok ps s H" "L = reach s"
proof -
  show L: "L = reach s" using wf_reach[OF radix_invD(1)[OF assms(1)]] .
  have "handle_node h \<in> L" if "h \<in># H" for h using radix_invD(2)[OF assms(1)] that by auto
  then show "cache_ok ps s H" using assms L by (simp add: cache_ok_def handle_ok_def)
qed

definition same_handles :: "'a rtree_scheme \<Rightarrow> 'a rtree_scheme \<Rightarrow> bool" where
  "same_handles s s' \<longleftrightarrow> (\<forall>g. handle_ok s g \<longrightarrow> handle_ok s' g \<and>
     path_key s' (handle_node g) = path_key s (handle_node g) \<and>
     path_value s' (handle_node g) = path_value s (handle_node g))"

lemma kept_ok:
  assumes ok: "cache_ok ps s H" and k: "kept s (reach s) (image_mset handle_node H) s' L'"
  shows "cache_ok ps s' H" "L' = reach s'" "owned_slots s' = owned_slots s" "content s' = content s"
    "same_handles s s'" "size_info s' = size_info s"
proof -
  note D = cache_okD[OF ok] and K = keptD[OF k]
  note wf' = radix_invD(1)[OF K(1)]
  have v: "values_paged s' L'"
    using D(5) values_paged_cached[OF D(1)] values_paged_cached[OF wf'] K(4,6) by simp
  have "cached_len h = length (path_key s' (handle_node h))" if "h \<in># H" for h
    using D(4)[OF that] K(8) by (simp add: handle_ok_def)
  from cache_okI[OF K(1) _ v this] show ok': "cache_ok ps s' H" "L' = reach s'"
    using D(3) K(6) by simp_all
  show "owned_slots s' = owned_slots s" "content s' = content s"
    using K(3,4) ok'(2) by (simp_all add: owned_slots_def content_def)
  show "same_handles s s'" using K(2,8,9) ok'(2) by (auto simp: same_handles_def handle_ok_def)
  show "size_info s' = size_info s" by (rule K(5))
qed

lemma refs_eq_reach:
  assumes "refs_eq s s'" "wf_tree s (reach s)"
  shows "reach s' = reach s"
  using wf_reach[OF same_shape_wf[OF refs_eq_shape[OF assms(1)] assms(2)]] by simp

lemma refs_eq_ok:
  assumes ok: "cache_ok ps s H" and e: "refs_eq s s'"
    and inv: "radix_inv s' (reach s) (image_mset handle_node H')"
    and H': "\<And>h. h \<in># H' \<Longrightarrow> handle_ok s h"
  shows "cache_ok ps s' H'" "owned_slots s' = owned_slots s" "content s' = content s" "same_handles s s'"
proof -
  note D = cache_okD[OF ok]
  note R = refs_eq_reach[OF e D(1)] and N = refs_eq_nd[OF e]
  note P = same_shape_paths[OF refs_eq_shape[OF e] D(1)]
  have v: "values_paged s' (reach s)" using D(5) by (simp add: values_paged_def N refs_eq_tokens[OF e])
  have "cached_len h = length (path_key s' (handle_node h))" if "h \<in># H'" for h
    using H'[OF that] P by (simp add: handle_ok_def)
  moreover have "tree_page s' = ps" using e D(3) by (simp add: refs_eq_def)
  ultimately show "cache_ok ps s' H'" using cache_okI(1)[OF inv _ v] by blast
  show "owned_slots s' = owned_slots s"
    by (simp add: owned_slots_def tree_slots_def R N refs_eq_tokens[OF e])
  show "content s' = content s" using P by (simp add: content_def cached_def R N)
  show "same_handles s s'" using P by (simp add: same_handles_def handle_ok_def R)
qed

section \<open>The operations\<close>

lemma lock_ok:
  assumes ok: "cache_ok ps s H" and h: "handle_ok s h"
  shows "\<exists>s'. lock_handle h False s = Inr s' \<and> cache_ok ps s' (add_mset h H) \<and>
     owned_slots s' = owned_slots s \<and> content s' = content s \<and> same_handles s s'"
proof -
  note D = cache_okD[OF ok]
  obtain s' where s': "lock_handle h False s = Inr s'" "refs_eq s s'"
    "radix_inv s' (reach s) (add_mset (handle_node h) (image_mset handle_node H))"
    using lock_handle_ok[OF D(2)] h by (auto simp: handle_ok_def)
  then show ?thesis using refs_eq_ok[OF ok s'(2), of "add_mset h H"] D(4) h by auto
qed

lemma unlock_ok:
  assumes ok: "cache_ok ps s (add_mset h H)"
  shows "\<exists>s'. lock_handle h True s = Inr s' \<and> cache_ok ps s' H \<and>
     owned_slots s' = owned_slots s \<and> content s' = content s \<and> same_handles s s'"
proof -
  note D = cache_okD[OF ok]
  obtain s' where s': "lock_handle h True s = Inr s'" "refs_eq s s'"
    "radix_inv s' (reach s) (image_mset handle_node H)"
    using unlock_handle_ok[OF D(2), of h] by auto
  then show ?thesis using refs_eq_ok[OF ok s'(2), of H] D(4) by auto
qed

lemma lock_unlock_sizes:
  assumes ok: "cache_ok ps s H" and h: "handle_ok s h"
    and l1: "lock_handle h False s = Inr s1" and l2: "lock_handle h True s1 = Inr s2"
  shows "size_info s2 = size_info s"
proof -
  have ok1: "cache_ok ps s1 (add_mset h H)" using lock_ok[OF ok h] l1 by auto
  then have ok2: "cache_ok ps s2 H" using unlock_ok[OF ok1] l2 by auto
  have "refs_eq s s2"
    using lock_handle_ok[OF cache_okD(2)[OF ok], of h] unlock_handle_ok[OF cache_okD(2)[OF ok1], of h]
      h l1 l2 refs_eq_trans by (auto simp: handle_ok_def)
  then have "lock_count s2 (image_mset handle_node H) = lock_count s (image_mset handle_node H)" "reach s2 = reach s"
    using lock_count_refs_eq[OF _ cache_okD(1)[OF ok]] refs_eq_reach[OF _ cache_okD(1)[OF ok]]
      radix_invD(2)[OF cache_okD(2)[OF ok]] by blast+
  then show "size_info s2 = size_info s"
    using radix_invD(3)[OF cache_okD(2)[OF ok]] radix_invD(3)[OF cache_okD(2)[OF ok2]]
      refs_eq_tokens[OF \<open>refs_eq s s2\<close>] by (simp add: refs_ok_def size_info_def)
qed

lemma match_ok:
  assumes ok: "cache_ok ps s H"
  shows "\<exists>h s'. match_prefix tic ids s = Inr (h, s') \<and> cache_ok ps s' H \<and>
     owned_slots s' = owned_slots s \<and> content s' = content s \<and> size_info s' = size_info s \<and>
     same_handles s s' \<and> handle_ok s' h \<and> cached_len h \<le> length ids \<and>
     path_key s' (handle_node h) = take (cached_len h) ids \<and>
     (take (cached_len h) ids, path_value s' (handle_node h)) \<in> content s \<and>
     (\<forall>k vs. (take k ids, vs) \<in> content s \<longrightarrow> k \<le> length ids \<longrightarrow> k \<le> cached_len h)"
proof -
  obtain h s' L' where m: "match_prefix tic ids s = Inr (h, s')"
    "kept s (reach s) (image_mset handle_node H) s' L'" "handle_node h \<in> L'" "cached_len h \<le> length ids"
    "path_key s' (handle_node h) = take (cached_len h) ids"
    "(take (cached_len h) ids, path_value s' (handle_node h)) \<in> cached s (reach s)"
    "\<forall>k vs. (take k ids, vs) \<in> cached s (reach s) \<longrightarrow> k \<le> length ids \<longrightarrow> k \<le> cached_len h"
    using match_prefix_ok[OF cache_okD(2)[OF ok], of tic ids] by blast
  note K = kept_ok[OF ok m(2)]
  have "handle_ok s' h" using m(3-5) K(2) by (simp add: handle_ok_def)
  then show ?thesis using m K by (auto simp: content_def)
qed

lemma handle_content:
  assumes "wf_tree s (reach s)" "handle_ok s g"
  shows "(path_key s (handle_node g), path_value s (handle_node g)) \<in> content s"
    "tree_page s dvd cached_len g"
  using cached_path[of "handle_node g" "reach s" s] path_lengths[OF assms(1), of "handle_node g"] assms(2)
  by (auto simp: handle_ok_def content_def)

lemma content_unique:
  "wf_tree s (reach s) \<Longrightarrow> (ks, vs) \<in> content s \<Longrightarrow> (ks, vs') \<in> content s \<Longrightarrow> vs = vs'"
  unfolding content_def by (rule cached_unique)

lemma insert_ok:
  assumes ok: "cache_ok ps s H" and len: "align_down (length ids) ps \<le> length inds"
    and pg: "paged ps (take (align_down (length ids) ps) inds)"
  shows "\<exists>l h s'. insert_prefix tic tic' ids inds s = Inr (l, h, s') \<and> cache_ok ps s' H \<and>
     same_handles s s' \<and> handle_ok s' h \<and> cached_len h = align_down (length ids) ps \<and>
     l \<le> cached_len h \<and> ps dvd l \<and>
     path_key s' (handle_node h) = take (cached_len h) ids \<and>
     drop l (path_value s' (handle_node h)) = drop l (take (cached_len h) inds) \<and>
     (take l ids, take l (path_value s' (handle_node h))) \<in> content s \<and>
     owned_slots s' = owned_slots s + mset (drop l (take (cached_len h) inds)) \<and>
     content s' = content s \<union>
       aligned_prefixes ps (take (cached_len h) ids) (path_value s' (handle_node h)) \<and>
     (\<forall>k vs. (take k ids, vs) \<in> content s \<longrightarrow> k \<le> cached_len h \<longrightarrow> k \<le> l)"
proof -
  note D = cache_okD[OF ok]
  let ?il = "align_down (length ids) ps"
  obtain l h s' L' where i: "insert_prefix tic tic' ids inds s = Inr (l, h, s')"
    "radix_inv s' L' (image_mset handle_node H)" "reach s \<subseteq> L'" "handle_node h \<in> L'" "cached_len h = ?il"
    "path_key s' (handle_node h) = take ?il ids"
    "drop l (path_value s' (handle_node h)) = drop l (take ?il inds)" "l \<le> ?il" "ps dvd l"
    "(take l ids, take l (path_value s' (handle_node h))) \<in> cached s (reach s)"
    "\<forall>k vs. (take k ids, vs) \<in> cached s (reach s) \<longrightarrow> k \<le> ?il \<longrightarrow> k \<le> l"
    "cached s' L' = cached s (reach s) \<union> aligned_prefixes ps (take ?il ids) (path_value s' (handle_node h))"
    "tree_slots s' L' = tree_slots s (reach s) + mset (drop l (take ?il inds))"
    "tree_page s' = ps"
    "\<forall>a\<in>reach s. path_key s' a = path_key s a \<and> path_value s' a = path_value s a"
    using insert_prefix_ok[OF D(2), of ids inds tic tic'] len D(3) by blast
  note wf' = radix_invD(1)[OF i(2)]
  have "paged ps (take l (path_value s' (handle_node h)))"
    using i(10) D(3,5) values_paged_cached[OF D(1)] by auto
  moreover have "paged ps (drop l (path_value s' (handle_node h)))"
    unfolding i(7) using pg i(9) by (rule paged_drop)
  ultimately have "paged ps (path_value s' (handle_node h))" by (metis append_take_drop_id paged_append)
  then have "\<forall>(ks, vs) \<in> cached s' L'. paged ps vs"
    using D(3,5) values_paged_cached[OF D(1)] by (auto simp: i(12) aligned_prefixes_def intro: paged_take)
  then have v: "values_paged s' L'" using values_paged_cached[OF wf'] i(14) by simp
  have "cached_len g = length (path_key s' (handle_node g))" if "g \<in># H" for g
    using D(4)[OF that] i(15) by (simp add: handle_ok_def)
  note O = cache_okI[OF i(2) i(14) v this]
  have "same_handles s s'" using i(3,15) O(2) by (auto simp: same_handles_def handle_ok_def)
  moreover have "handle_ok s' h" using i(4-6) O(2) by (simp add: handle_ok_def)
  ultimately show ?thesis
    using i O by (intro exI[of _ l] exI[of _ h] exI[of _ s']) (simp add: content_def owned_slots_def)
qed

lemma evict_ok':
  assumes ok: "cache_ok ps s H" and n: "0 \<le> n" "n \<le> evictable_size s"
  shows "\<exists>vs s'. evict n s = Inr (vs, s') \<and> cache_ok ps s' H \<and> owned_slots s = owned_slots s' + mset vs \<and>
     paged ps vs \<and> n \<le> int (length vs) \<and> content s' \<subseteq> content s \<and>
     evictable_size s' = evictable_size s - int (length vs) \<and> protected_size s' = protected_size s \<and>
     (\<forall>a. path_key s' a = path_key s a \<and> path_value s' a = path_value s a)"
proof -
  note D = cache_okD[OF ok]
  obtain vs s' L' where e: "evict n s = Inr (vs, s')" "n \<le> int (length vs)"
    "freed s (reach s) (image_mset handle_node H) s' L' vs"
    using evict_ok[OF D(2) n] by blast
  have f: "radix_inv s' L' (image_mset handle_node H)" "tree_slots s (reach s) = tree_slots s' L' + mset vs"
    "cached s' L' \<subseteq> cached s (reach s)" "evictable_size s' = evictable_size s - int (length vs)"
    "protected_size s' = protected_size s" "tree_page s' = ps"
    "\<And>a. path_key s' a = path_key s a \<and> path_value s' a = path_value s a" "paged ps vs"
    "values_paged s' L'"
    using e(3) D(3,5) unfolding freed_def values_paged_def by auto
  have "cached_len g = length (path_key s' (handle_node g))" if "g \<in># H" for g
    using D(4)[OF that] f(7) by (simp add: handle_ok_def)
  note O = cache_okI[OF f(1) f(6) f(9) this]
  show ?thesis
    using e(1,2) f O by (intro exI[of _ vs] exI[of _ s']) (simp add: content_def owned_slots_def)
qed

section \<open>The contract\<close>

definition radix_ops :: "('a radix_cache_scheme, radix_handle) cache_ops" where
  "radix_ops = \<lparr>op_lock = lock_handle, op_match = match_prefix, op_insert = insert_prefix,
     op_evict = evict, op_size_info = size_info, op_indices = get_matched_indices,
     op_cached_len = cached_len\<rparr>"

lemma size_tree_slots:
  assumes wf: "wf_tree s L"
  shows "size (tree_slots s L) = (\<Sum>n\<in>inner s L. nlen s n)"
  unfolding tree_slots_def size_multiset_sum
  by (rule sum.cong) (use wf_node(3)[OF wf] in \<open>simp_all add: inner_def\<close>)

lemma tokens_sum: "free_tokens s L c + held_tokens s L c = (\<Sum>n\<in>inner s L. nlen s n)"
  unfolding free_tokens_def held_tokens_def sum.distrib[symmetric] by (rule sum.cong) simp_all

lemma tokens_dvd:
  assumes wf: "wf_tree s L"
  shows "tree_page s dvd free_tokens s L c" "tree_page s dvd held_tokens s L c"
  unfolding free_tokens_def held_tokens_def
  by (rule dvd_sum; use wf_node(2)[OF wf] in \<open>simp add: inner_def\<close>)+

lemma sizes_ok:
  assumes ok: "cache_ok ps s H"
  shows "0 \<le> evictable_size s" "0 \<le> protected_size s"
    "evictable_size s + protected_size s = int (size (owned_slots s))"
    "int ps dvd evictable_size s" "int ps dvd protected_size s"
    "H = {#} \<Longrightarrow> protected_size s = 0"
proof -
  note D = cache_okD[OF ok]
  have r: "evictable_size s = int (free_tokens s (reach s) (lock_count s (image_mset handle_node H)))"
    "protected_size s = int (held_tokens s (reach s) (lock_count s (image_mset handle_node H)))"
    using radix_invD(3)[OF D(2)] by (simp_all add: refs_ok_def)
  then show "0 \<le> evictable_size s" "0 \<le> protected_size s" by simp_all
  show "evictable_size s + protected_size s = int (size (owned_slots s))"
    unfolding r owned_slots_def size_tree_slots[OF D(1)] of_nat_add[symmetric] tokens_sum ..
  show "int ps dvd evictable_size s" "int ps dvd protected_size s"
    unfolding r using tokens_dvd[OF D(1)] D(3) by simp_all
  show "H = {#} \<Longrightarrow> protected_size s = 0" unfolding r by (simp add: lock_count_def held_tokens_def)
qed

interpretation radix: prefix_cache radix_ops cache_ok handle_ok
  "\<lambda>s h. path_key s (handle_node h)" "\<lambda>s h. path_value s (handle_node h)" owned_slots
proof (unfold_locales, goal_cases)
  case (1 ps c H)
  then show ?case by (rule cache_okD(6))
next
  case (2 ps c H h)
  then show ?case by (rule cache_okD(4))
next
  case (3 ps c H h)
  note D = cache_okD[OF 3(1)]
  have "paged ps (path_value c (handle_node h))"
    using handle_content(1)[OF D(1) 3(2)] values_paged_cached[OF D(1)] D(3,5)
    by (auto simp: content_def)
  then show ?case
    using handle_content(2)[OF D(1) 3(2)] path_lengths[OF D(1), of "handle_node h"] 3(2) D(3)
    by (simp add: radix_ops_def handle_ok_def)
next
  case (4 ps c H h)
  then show ?case
    using get_matched_indices_eq[OF cache_okD(1)[OF 4(1)], of h]
    by (auto simp: radix_ops_def handle_ok_def)
next
  case (5 ps c H)
  then show ?case using sizes_ok[OF 5] by (simp add: radix_ops_def size_info_def)
next
  case (6 ps c H h)
  note D = cache_okD[OF 6(1)]
  have "path_nodes c (handle_node h) = []"
    using get_matched_indices_eq[OF D(1), of h] 6(2,3)
    by (auto simp: get_matched_indices_def handle_ok_def radix_ops_def split: if_splits)
  then have "lock_count c (add_mset (handle_node h) (image_mset handle_node H)) =
      lock_count c (image_mset handle_node H)" by (simp add: lock_count_add)
  then show ?case
    using D(2,3,5) cache_okD(4)[OF 6(1)] 6(2) by (auto simp: cache_ok_def radix_inv_def handle_ok_def)
next
  case (7 ps c)
  then show ?case using sizes_ok(6)[OF 7] by (simp add: radix_ops_def size_info_def)
next
  case (8 ps c H h)
  then show ?case using lock_ok[OF 8] by (auto simp: radix_ops_def same_handles_def)
next
  case (9 ps c h H)
  then show ?case using unlock_ok[OF 9] by (auto simp: radix_ops_def same_handles_def)
next
  case (10 ps c H h c1 c2)
  then show ?case using lock_unlock_sizes[of ps c H h c1 c2] by (simp add: radix_ops_def)
next
  case (11 ps c H tic ids)
  obtain h s' where "match_prefix tic ids c = Inr (h, s')" "cache_ok ps s' H"
    "owned_slots s' = owned_slots c" "size_info s' = size_info c" "same_handles c s'" "handle_ok s' h"
    "cached_len h \<le> length ids" "path_key s' (handle_node h) = take (cached_len h) ids"
    using match_ok[OF 11, of tic ids] by blast
  then show ?case by (auto simp: radix_ops_def same_handles_def)
next
  case (12 ps c H ids inds tic tic')
  have len: "align_down (length ids) ps \<le> length inds" using 12(2) by (rule order_trans[OF align_down_le])
  obtain l h s' where i: "insert_prefix tic tic' ids inds c = Inr (l, h, s')" "cache_ok ps s' H"
    "same_handles c s'" "handle_ok s' h" "cached_len h = align_down (length ids) ps" "l \<le> cached_len h"
    "ps dvd l" "path_key s' (handle_node h) = take (cached_len h) ids"
    "drop l (path_value s' (handle_node h)) = drop l (take (cached_len h) inds)"
    "owned_slots s' = owned_slots c + mset (drop l (take (cached_len h) inds))"
    "\<forall>k vs. (take k ids, vs) \<in> content c \<longrightarrow> k \<le> cached_len h \<longrightarrow> k \<le> l"
    using insert_ok[OF 12(1) len 12(3), of tic tic'] by blast
  note D = cache_okD[OF 12(1)] and D' = cache_okD[OF i(2)]
  have "cached_len g \<le> l \<and> take (cached_len g) (path_value s' (handle_node h)) = path_value c (handle_node g)"
    if g: "handle_ok c g" "cached_len g \<le> length ids" "path_key c (handle_node g) = take (cached_len g) ids" for g
  proof
    note C = handle_content[OF D(1) g(1)]
    have gl: "cached_len g \<le> cached_len h" using C(2) D(3) g(2) by (simp add: i(5) align_down_greatest)
    then show "cached_len g \<le> l" using i(11) C(1) g(3) by metis
    have "handle_ok s' g \<and> path_value s' (handle_node g) = path_value c (handle_node g) \<and>
        path_key s' (handle_node g) = take (cached_len g) ids"
      using i(3) g by (simp add: same_handles_def)
    then have "(take (cached_len g) ids, path_value c (handle_node g)) \<in> content s'"
      using handle_content(1)[OF D'(1), of g] by simp
    moreover have "(take (cached_len g) ids, take (cached_len g) (path_value s' (handle_node h))) \<in> content s'"
      using i(4,8) gl C(2) D(3) D'(3)
      by (auto simp: content_def cached_def aligned_prefixes_def handle_ok_def min_absorb1
          intro!: bexI[of _ "handle_node h"] exI[of _ "cached_len g"])
    ultimately show "take (cached_len g) (path_value s' (handle_node h)) = path_value c (handle_node g)"
      using content_unique[OF D'(1)] by blast
  qed
  moreover have "cached_len h \<le> length ids" using i(5) by simp
  ultimately show ?case using i(1-10) by (auto simp: radix_ops_def same_handles_def)
next
  case (13 ps c H n)
  have n: "0 \<le> n" "n \<le> evictable_size c" using 13(2,3) by (simp_all add: radix_ops_def size_info_def)
  show ?case using evict_ok'[OF 13(1) n] by (auto simp: radix_ops_def)
qed

text \<open>The empty cache.\<close>

lemma radix_init_ok: "0 < ps \<Longrightarrow> cache_ok ps (radix_init ps tic) {#}"
proof -
  assume ps: "0 < ps"
  let ?s = "radix_init ps tic"
  have wf: "wf_tree ?s {0}"
    using ps by (auto simp: wf_tree_def radix_init_def children_ok_def ranked_def blank_node_def)
  have i: "inner ?s {0} = {}" by (simp add: inner_def radix_init_def)
  have "radix_inv ?s {0} (image_mset handle_node {#})"
    using wf by (simp add: radix_inv_def refs_ok_def i free_tokens_def held_tokens_def)
      (simp add: radix_init_def blank_node_def)
  moreover have "values_paged ?s {0}" by (simp add: values_paged_def i)
  ultimately show ?thesis by (intro cache_okI(1)) (auto simp: radix_init_def)
qed

lemma radix_init_empty:
  assumes "0 < ps"
  shows "owned_slots (radix_init ps tic) = {#}" "content (radix_init ps tic) = {([], [])}"
    "size_info (radix_init ps tic) = (0, 0)"
proof -
  let ?s = "radix_init ps tic"
  have r: "reach ?s = {0}"
    using wf_reach[of ?s "{0}"] assms
    by (auto simp: wf_tree_def radix_init_def children_ok_def ranked_def blank_node_def)
  have p: "path_nodes ?s 0 = []"
    by (simp add: path_nodes_def radix_init_def blank_node_def)
  show "owned_slots ?s = {#}" by (simp add: owned_slots_def tree_slots_def r inner_def) (simp add: radix_init_def)
  show "content ?s = {([], [])}"
    by (auto simp: content_def cached_def r aligned_prefixes_def path_key_def path_value_def p)
  show "size_info ?s = (0, 0)" by (simp add: size_info_def radix_init_def)
qed

end
