(* ===== verification/RadixRuns.thy ===== *)
theory RadixRuns
  imports RadixSpec
begin

text \<open>
  Whole runs of the plain prefix cache: the time stamps a walk leaves behind, the order in which a
  call of \<open>evict\<close> removes nodes, and the states reachable from the empty cache by any sequence of
  operations.
\<close>

section \<open>The time stamps of a walk\<close>

text \<open>\<open>stamped s node s' node' M\<close>: going from \<open>node\<close> to \<open>node'\<close> stamped the nodes of \<open>M\<close> that it
  passed with \<open>tic\<close>, and no others.\<close>

definition stamped :: "int \<Rightarrow> nid set \<Rightarrow> 'a rtree_scheme \<Rightarrow> nid \<Rightarrow> 'a rtree_scheme \<Rightarrow> nid \<Rightarrow> bool" where
  "stamped tic M s node s' node' \<longleftrightarrow> set (path_nodes s node) \<subseteq> set (path_nodes s' node') \<and>
     (\<forall>m\<in>M. node_timestamp (nd s' m) =
        (if m \<in> set (path_nodes s' node') - set (path_nodes s node) then tic else node_timestamp (nd s m)))"

lemma tree_walk_loop_stamps:
  assumes "wf_tree s L" "walk_inv s L ids node l" "tree_walk_loop fuel tic ids node l s = Inr (node', l', s')"
  shows "stamped tic (insert node' L) s node s' node'"
  using assms
proof (induction fuel arbitrary: s node l)
  case (Suc fuel)
  note wf = Suc.prems(1) and inv = Suc.prems(2) and run = Suc.prems(3)
  have N: "node \<in> L" using inv by (auto simp: walk_inv_def)
  have stop: ?case if "node' = node" "s' = s" using that by (simp add: stamped_def)
  show ?case
  proof (cases "l < length ids")
    case False
    then show ?thesis using run stop by simp
  next
    case l: True
    show ?thesis
    proof (cases "map_of (node_children (nd s node)) (key_fn (tree_page s) (drop l ids))")
      case None
      then show ?thesis using run l stop by simp
    next
      case (Some c)
      note W = walk_child[OF wf inv l Some]
      let ?ml = "align_down (get_match_len s c (drop l ids)) (tree_page s)"
      have pc: "path_nodes s c = path_nodes s node @ [c]" by (rule path_nodes_step[OF wf W(1,2) N])
      show ?thesis
      proof (cases "?ml = nlen s c")
        case full: True
        let ?s1 = "set_timestamp tic c s"
        have t: "ts_eq s ?s1" by simp
        have wf1: "wf_tree ?s1 L" by (rule same_shape_wf[OF ts_eq_shape[OF t] wf])
        have inv1: "walk_inv ?s1 L ids c (l + nlen s c)"
          using walk_inv_ts[OF t wf] walk_inv_descend[OF wf inv l Some full] by simp
        have "tree_walk_loop fuel tic ids c (l + nlen s c) ?s1 = Inr (node', l', s')"
          using run l Some full by (simp add: Let_def)
        from Suc.IH[OF wf1 inv1 this] have IH: "stamped tic (insert node' L) ?s1 c s' node'" .
        have p1: "path_nodes ?s1 c = path_nodes s node @ [c]"
          using same_shape_path_nodes[OF ts_eq_shape[OF t] wf W(1)] pc by simp
        have cn: "c \<notin> set (path_nodes s node)" using path_nodes_distinct[OF wf W(1)] pc by simp
        have ts1: "node_timestamp (nd ?s1 m) = (if m = c then tic else node_timestamp (nd s m))" for m
          by (simp add: set_timestamp_def upd_node_def)
        show ?thesis using IH cn unfolding stamped_def p1 ts1 by auto
      next
        case part: False
        have pre: "split_pre s L c node ?ml" using W part wf_treeD(1)[OF wf] by (auto simp: split_pre_def)
        note D = split_preD[OF wf pre]
        let ?s1 = "split_state c node ?ml s" and ?m = "tree_counter s"
        have r: "node' = ?m" "s' = set_timestamp tic ?m ?s1"
          using run l Some part split_at_split_state[OF wf pre] by (auto simp: Let_def)
        have wf1: "wf_tree ?s1 (insert ?m L)" by (rule wf_split_state[OF wf pre])
        have "path_nodes s' ?m = path_nodes ?s1 ?m" unfolding r
          by (rule same_shape_path_nodes[OF ts_eq_shape[OF ts_eq_set_timestamp] wf1]) simp
        then have p': "path_nodes s' ?m = path_nodes s node @ [?m]" using split_path_new(1)[OF wf pre] by simp
        have mL: "?m \<notin> L" by (rule wf_counter_notin[OF wf])
        then have mp: "?m \<notin> set (path_nodes s node)" using path_nodes_set[OF wf N] by blast
        have ts: "node_timestamp (nd s' m) = (if m = ?m then tic else node_timestamp (nd s m))" for m
          unfolding r by (simp add: set_timestamp_def upd_node_def split_state_simps[OF D(3-5)])
        show ?thesis unfolding stamped_def r(1) p' using ts mp by auto
      qed
    qed
  qed
qed simp

lemma tree_walk_stamps:
  assumes "wf_tree s L" "tree_walk tic ids s = Inr (node, l, s')"
  shows "stamped tic (insert node L) s (tree_root s) s' node"
  using tree_walk_loop_stamps[OF assms(1) walk_inv_start[OF assms(1)]] assms(2) unfolding tree_walk_def by blast

lemma match_stamps:
  assumes ok: "cache_ok ps s H" and run: "match_prefix tic ids s = Inr (h, s')"
  shows "\<forall>m\<in>reach s'. node_timestamp (nd s' m) =
    (if m \<in> set (path_nodes s' (handle_node h)) then tic else node_timestamp (nd s m))"
proof -
  note wf = cache_okD(1)[OF ok]
  obtain l where w: "tree_walk tic ids s = Inr (handle_node h, l, s')"
    using run by (auto simp: match_prefix_def res_bind_eq_Inr)
  obtain node l1 s1 L' where c: "tree_walk tic ids s = Inr (node, l1, s1)" "walk_result s (reach s) node s1 L'"
    by (rule tree_walk_correct[OF wf])
  have e: "node = handle_node h" "s1 = s'" using c(1) w by simp_all
  have "L' = reach s'" using wf_reach[OF walk_result_wf(1)[OF wf c(2)]] e by simp
  moreover have "L' \<subseteq> insert (handle_node h) (reach s)" using c(2) unfolding e walk_result_def by auto
  ultimately show ?thesis
    using tree_walk_stamps[OF wf w] path_nodes_root[OF wf] unfolding stamped_def by auto
qed

section \<open>The order of eviction\<close>

text \<open>
  \<open>lru_run s ns s'\<close>: the nodes \<open>ns\<close> leave the tree one after the other, each an unlocked leaf
  at its turn with the oldest time stamp of all unlocked leaves of that moment.
\<close>

inductive lru_run :: "'a radix_cache_scheme \<Rightarrow> nid list \<Rightarrow> 'a radix_cache_scheme \<Rightarrow> bool" where
  stop: "lru_run s [] s"
| round: "n \<in> evictable_leaves s (reach s) \<Longrightarrow>
    \<forall>m\<in>evictable_leaves s (reach s). node_timestamp (nd s n) \<le> node_timestamp (nd s m) \<Longrightarrow>
    unlink n (add_evictable (- int (nlen s n)) s) = Inr (p, s1) \<Longrightarrow>
    lru_run s1 ns s' \<Longrightarrow> lru_run s (n # ns) s'"

lemma evict_step_unlink:
  "evict_step ls s = Inr (n, ls', s') \<Longrightarrow> \<exists>p. unlink n (add_evictable (- int (nlen s n)) s) = Inr (p, s')"
  by (auto simp: evict_step_def res_bind_eq_Inr Let_def split: prod.splits)

lemma evict_loop_lru:
  assumes "evict_inv s L H ls" "need \<le> done_size + evictable_size s" "nat (need - done_size) < fuel"
  shows "\<exists>ns s'. evict_loop fuel need ls done_size acc s = Inr (acc @ map (\<lambda>n. node_value (nd s n)) ns, s') \<and>
     lru_run s ns s' \<and> set ns \<subseteq> {n \<in> L. lock_count s H n = 0} \<and>
     need \<le> done_size + (\<Sum>n\<leftarrow>ns. int (nlen s n)) \<and>
     (ns \<noteq> [] \<longrightarrow> done_size + (\<Sum>n\<leftarrow>butlast ns. int (nlen s n)) < need)"
  using assms
proof (induction fuel arbitrary: s L ls done_size acc)
  case (Suc fuel)
  show ?case
  proof (cases "done_size < need")
    case False
    then show ?thesis by (intro exI[of _ "[]"] exI[of _ s]) (auto intro: lru_run.stop)
  next
    case True
    then have "0 < evictable_size s" using Suc.prems(2) by linarith
    from evict_step_ok[OF Suc.prems(1) this] obtain n ls' s1 where
      st: "evict_step ls s = Inr (n, ls', s1)" "evict_inv s1 (L - {n}) H ls'" "n \<in> evictable_leaves s L"
        "\<forall>m\<in>evictable_leaves s L. node_timestamp (nd s n) \<le> node_timestamp (nd s m)" "0 < nlen s n"
        "evictable_size s1 = evictable_size s - int (nlen s n)" "\<forall>a. node_value (nd s1 a) = node_value (nd s a)"
        "n \<in> inner s L" by blast
    have inv: "radix_inv s L H" and L: "L = reach s"
      using Suc.prems(1) wf_reach[OF radix_invD(1)] by (auto simp: evict_inv_def)
    obtain p where un: "unlink n (add_evictable (- int (nlen s n)) s) = Inr (p, s1)"
      using evict_step_unlink[OF st(1)] by blast
    have key: "node_key (nd s1 a) = node_key (nd s a)" "path_nodes s1 a = path_nodes s a" for a
    proof -
      obtain q where "unlink n (add_evictable (- int (nlen s n)) s) = Inr (q, unlink_state n q (add_evictable (- int (nlen s n)) s))"
      proof -
        have sh: "same_shape s (add_evictable (- int (nlen s n)) s) L" by (simp add: same_shape_def)
        have "n \<in> L" "n \<noteq> tree_root (add_evictable (- int (nlen s n)) s)" using st(8) by (simp_all add: inner_def)
        then show thesis using unlink_eq[OF same_shape_wf[OF sh radix_invD(1)[OF inv]]] that by blast
      qed
      then have "s1 = unlink_state n q (add_evictable (- int (nlen s n)) s)" using un by simp
      then show "node_key (nd s1 a) = node_key (nd s a)" "path_nodes s1 a = path_nodes s a"
        by (simp_all add: unlink_paths)
    qed
    have lc: "lock_count s1 H = lock_count s H" by (simp add: lock_count_def key fun_eq_iff)
    have n0: "n \<in> {n \<in> L. lock_count s H n = 0}"
      using radix_invD(3)[OF inv] st(3,8) by (auto simp: refs_ok_def evictable_leaves_def)
    have a: "need \<le> done_size + int (nlen s n) + evictable_size s1" using st(6) Suc.prems(2) by simp
    have b: "nat (need - (done_size + int (nlen s n))) < fuel" using Suc.prems(3) True st(5) by linarith
    obtain ns s' where IH:
      "evict_loop fuel need ls' (done_size + int (nlen s n)) (acc @ [node_value (nd s n)]) s1 =
         Inr ((acc @ [node_value (nd s n)]) @ map (\<lambda>n. node_value (nd s n)) ns, s')"
      "lru_run s1 ns s'" "set ns \<subseteq> {m \<in> L - {n}. lock_count s H m = 0}"
      "need \<le> done_size + int (nlen s n) + (\<Sum>n\<leftarrow>ns. int (nlen s n))"
      "ns \<noteq> [] \<longrightarrow> done_size + int (nlen s n) + (\<Sum>n\<leftarrow>butlast ns. int (nlen s n)) < need"
      using Suc.IH[OF st(2) a b, of "acc @ [node_value (nd s n)]"] unfolding lc key(1) using st(7) by auto
    have "lru_run s (n # ns) s'" using st(3,4) un IH(2) unfolding L by (rule lru_run.round)
    moreover have "evict_loop (Suc fuel) need ls done_size acc s =
        Inr (acc @ map (\<lambda>n. node_value (nd s n)) (n # ns), s')"
      using True st(1) IH(1) by simp
    moreover have "set (n # ns) \<subseteq> {n \<in> L. lock_count s H n = 0}" using n0 IH(3) by auto
    ultimately show ?thesis
      using IH(4,5) True by (intro exI[of _ "n # ns"] exI[of _ s']) auto
  qed
qed simp

theorem evict_lru:
  assumes ok: "cache_ok ps s H" and need: "0 < need" "need \<le> evictable_size s"
  shows "\<exists>ns s'. evict need s = Inr (concat (map (\<lambda>n. node_value (nd s n)) ns), s') \<and> lru_run s ns s' \<and>
     ns \<noteq> [] \<and> need \<le> (\<Sum>n\<leftarrow>ns. int (nlen s n)) \<and> (\<Sum>n\<leftarrow>butlast ns. int (nlen s n)) < need \<and>
     (\<forall>h\<in>#H. set ns \<inter> set (path_nodes s (handle_node h)) = {})"
proof -
  note D = cache_okD[OF ok]
  obtain r where r: "collect_leave_nodes_for_evict s = Inr r" "distinct r" "set r = evictable_leaves s (reach s)"
    using collect_leaves_ok[OF D(1)] by blast
  let ?h = "heapify (\<lambda>n. node_timestamp (nd s n)) r"
  have "evict_inv s (reach s) (image_mset handle_node H) ?h" using D(2) r by (simp add: evict_inv_def heapify_heap)
  from evict_loop_lru[OF this, of need 0 "Suc (nat need)" "[]"] need(2) obtain ns s' where
    e: "evict_loop (Suc (nat need)) need ?h 0 [] s = Inr (map (\<lambda>n. node_value (nd s n)) ns, s')"
      "lru_run s ns s'" "set ns \<subseteq> {n \<in> reach s. lock_count s (image_mset handle_node H) n = 0}"
      "need \<le> (\<Sum>n\<leftarrow>ns. int (nlen s n))" "ns \<noteq> [] \<longrightarrow> (\<Sum>n\<leftarrow>butlast ns. int (nlen s n)) < need" by auto
  have "ns \<noteq> []" using e(4) need(1) by auto
  moreover have "evict need s = Inr (concat (map (\<lambda>n. node_value (nd s n)) ns), s')"
    using need r(1) e(1) \<open>ns \<noteq> []\<close> by (simp add: evict_def del: evict_loop.simps)
  moreover have "set ns \<inter> set (path_nodes s (handle_node h)) = {}" if "h \<in># H" for h
    using e(3) that by (auto simp: lock_count_def)
  ultimately show ?thesis using e by blast
qed

section \<open>The states a cache can reach\<close>

text \<open>
  \<open>cache_run ps s H K\<close>: some sequence of calls leads from the empty cache to \<open>s\<close> with the
  handles \<open>H\<close> locked.  \<open>K\<close> holds the handles that may be locked: those returned since the last
  eviction and those that were locked during it.
\<close>

inductive cache_run :: "nat \<Rightarrow> radix_cache \<Rightarrow> radix_handle multiset \<Rightarrow> radix_handle set \<Rightarrow> bool" for ps where
  init: "0 < ps \<Longrightarrow> cache_run ps (radix_init ps tic) {#} {}"
| match: "cache_run ps s H K \<Longrightarrow> match_prefix tic ids s = Inr (h, s') \<Longrightarrow> cache_run ps s' H (insert h K)"
| insert: "cache_run ps s H K \<Longrightarrow> length ids = length inds \<Longrightarrow>
    paged ps (take (align_down (length ids) ps) inds) \<Longrightarrow>
    insert_prefix tic tic' ids inds s = Inr (l, h, s') \<Longrightarrow> cache_run ps s' H (insert h K)"
| lock: "cache_run ps s H K \<Longrightarrow> h \<in> K \<Longrightarrow> lock_handle h False s = Inr s' \<Longrightarrow> cache_run ps s' (add_mset h H) K"
| unlock: "cache_run ps s H K \<Longrightarrow> h \<in># H \<Longrightarrow> lock_handle h True s = Inr s' \<Longrightarrow> cache_run ps s' (H - {#h#}) K"
| evict: "cache_run ps s H K \<Longrightarrow> 0 \<le> n \<Longrightarrow> evict n s = Inr (vs, s') \<Longrightarrow> cache_run ps s' H (set_mset H)"

lemma cache_run_ok: "cache_run ps s H K \<Longrightarrow> cache_ok ps s H \<and> (\<forall>h\<in>K. handle_ok s h)"
proof (induction rule: cache_run.induct)
  case (init tic)
  then show ?case by (simp add: radix_init_ok)
next
  case (match s H K tic ids h s')
  then show ?case using match_ok[of ps s H tic ids] by (auto simp: same_handles_def)
next
  case (insert s H K ids inds tic tic' l h s')
  have "align_down (length ids) ps \<le> length inds" using insert.hyps(2) by simp
  then show ?case using insert_ok[of ps s H ids inds tic tic'] insert by (auto simp: same_handles_def)
next
  case (lock s H K h s')
  then show ?case using lock_ok[of ps s H h] by (auto simp: same_handles_def)
next
  case (unlock s H K h s')
  obtain H' where "H = add_mset h H'" using unlock.hyps(2) by (metis insert_DiffM)
  then show ?case using unlock unlock_ok[of ps s h H'] by (auto simp: same_handles_def)
next
  case (evict s H K n vs s')
  have "n \<le> evictable_size s"
  proof (rule ccontr)
    assume "\<not> ?thesis"
    moreover have "0 \<le> evictable_size s" using sizes_ok(1) evict.IH by blast
    ultimately show False using evict_too_much[of n s] evict.hyps(2,3) by simp
  qed
  then have "cache_ok ps s' H" using evict_ok'[of ps s H n] evict by auto
  then show ?case by (simp add: cache_ok_def)
qed

end
