(* ===== verification/RadixClaims.thy ===== *)
theory RadixClaims
  imports RadixRuns
begin

text \<open>
  The properties of the plain prefix cache, over \<open>cache_ok\<close>, \<open>content\<close> and \<open>owned_slots\<close>, each
  with a witness on a small tree that is built by running the operations: page size 2, the
  sequence 5 6 7 8 cached, a second one that forks after its first page, the first one locked.
\<close>

section \<open>Evaluation\<close>

lemma radix_fuel_numeral:
  "tree_walk_loop (numeral k) tic ids node l s =
     (if l < length ids then
        (case map_of (node_children (nd s node)) (key_fn (tree_page s) (drop l ids)) of
           None \<Rightarrow> Inr (node, l, s)
         | Some child \<Rightarrow>
             let mlen = align_down (get_match_len s child (drop l ids)) (tree_page s);
                 l' = l + mlen
             in if mlen \<noteq> nlen s child
                then res_bind (split_at child mlen s) (\<lambda>(node', s'). Inr (node', l', set_timestamp tic node' s'))
                else tree_walk_loop (pred_numeral k) tic ids child l' (set_timestamp tic child s))
      else Inr (node, l, s))"
  "ups (numeral k) t n = (case node_parent (nd t n) of None \<Rightarrow> [] | Some p \<Rightarrow> n # ups (pred_numeral k) t p)"
  "collect_leaves_loop (numeral k) t nodes leaves =
     (if nodes = [] then Inr leaves
      else let node = last nodes; nodes' = butlast nodes in
        if is_leaf t node
        then collect_leaves_loop (pred_numeral k) t nodes'
               (if node_ref_count (nd t node) = 0 then leaves @ [node] else leaves)
        else collect_leaves_loop (pred_numeral k) t (nodes' @ map snd (node_children (nd t node))) leaves)"
  "evict_loop (numeral k) need ls d acc c =
     (if d < need then
        res_bind (evict_step ls c) (\<lambda>(node, leaves, c1).
          evict_loop (pred_numeral k) need leaves (d + int (nlen c node)) (acc @ [node_value (nd c node)]) c1)
      else Inr (acc, c))"
  "lock_loop (numeral k) n c =
     (if is_root c n then Inr c
      else res_bind (parent_of (lock_node n c) n) (\<lambda>p. lock_loop (pred_numeral k) p (lock_node n c)))"
  "unlock_loop (numeral k) n c =
     (if is_root c n then Inr c
      else res_bind (unlock_node n c) (\<lambda>c1.
           res_bind (parent_of c1 n) (\<lambda>p. unlock_loop (pred_numeral k) p c1)))"
  by (simp_all add: numeral_eq_Suc)

lemmas radix_run = radix_init_def blank_node_def upd_node_def new_node_def key_fn_def set_key_value_def set_parent_def
  is_root_def is_leaf_def parent_of_def get_match_len_def set_timestamp_def split_at_def add_child_def unlink_def
  tree_walk_def add_evictable_def add_protected_def match_prefix_def insert_prefix_def Let_def align_down_def
  res_bind_def py_assert_def path_nodes_def path_value_def path_key_def get_matched_indices_def size_info_def
  lock_handle_def lock_node_def unlock_node_def evict_def evict_step_def collect_leave_nodes_for_evict_def
  heapify_def heappop_def radix_fuel_numeral

definition demo_fork :: "nat \<times> radix_handle \<times> radix_cache" where
  "demo_fork =
     (case insert_prefix 1 2 [5,6,7,8,9] [20,21,22,23,30] (radix_init 2 0) of
        Inr (_, _, s) \<Rightarrow> projr (insert_prefix 3 4 [5,6,1,2] [50,51,40,41] s)
      | Inl _ \<Rightarrow> undefined)"

definition demo_free :: radix_cache where
  "demo_free = snd (snd demo_fork)"

definition demo_handle :: radix_handle where
  "demo_handle = \<lparr>cached_len = 4, handle_node = 1\<rparr>"

definition demo_locked :: radix_cache where
  "demo_locked = projr (lock_handle demo_handle False demo_free)"

lemma demo_paged: "paged 2 [20,21,22,23]" "paged 2 [50,51,40,41]"
  using paged_page_to_token[of "[20,22]" 2] paged_page_to_token[of "[50,40]" 2]
  by (simp_all add: page_to_token_def upt_rec)

lemma demo_free_ok: "cache_ok 2 demo_free {#}"
proof -
  obtain l h s where s: "insert_prefix 1 2 [5,6,7,8,9] [20,21,22,23,30] (radix_init 2 0) = Inr (l, h, s)"
    "cache_ok 2 s {#}"
    using insert_ok[OF radix_init_ok[of 2 0], of "[5,6,7,8,9]" "[20,21,22,23,30]" 1 2] demo_paged(1)
    by (auto simp: align_down_def)
  obtain l' h' s' where s': "insert_prefix 3 4 [5,6,1,2] [50,51,40,41] s = Inr (l', h', s')"
    "cache_ok 2 s' {#}"
    using insert_ok[OF s(2), of "[5,6,1,2]" "[50,51,40,41]" 3 4] demo_paged(2)
    by (auto simp: align_down_def)
  then show ?thesis using s(1) by (simp add: demo_free_def demo_fork_def)
qed

lemma demo_free_eval:
  "path_key demo_free 1 = [5,6,7,8]" "path_value demo_free 1 = [20,21,22,23]"
  "size_info demo_free = (6, 0)"
  by (simp_all add: demo_free_def demo_fork_def radix_run)

lemma demo_handle_ok: "handle_ok demo_free demo_handle"
proof -
  have "tree_root demo_free = 0" "(([5,6], 2) :: token list \<times> nid) \<in> set (node_children (nd demo_free 0))"
    "(([7,8], 1) :: token list \<times> nid) \<in> set (node_children (nd demo_free 2))"
    by (simp_all add: demo_free_def demo_fork_def radix_run)
  then have "1 \<in> reach demo_free" by (metis reach.root reach.child)
  then show ?thesis by (simp add: handle_ok_def demo_handle_def demo_free_eval[simplified])
qed

lemma demo_locked_ok: "cache_ok 2 demo_locked {#demo_handle#}"
  using lock_ok[OF demo_free_ok demo_handle_ok] by (auto simp: demo_locked_def)

lemma sizes_on_paths:
  assumes "cache_ok ps s H"
  shows "protected_size s = int (\<Sum>n\<in>(\<Union>h\<in>set_mset H. set (path_nodes s (handle_node h))). nlen s n) \<and>
     evictable_size s = int (size (owned_slots s)) - protected_size s"
proof -
  note D = cache_okD[OF assms]
  let ?H = "image_mset handle_node H" and ?P = "\<Union>h\<in>set_mset H. set (path_nodes s (handle_node h))"
  have p: "lock_count s ?H n = 0 \<longleftrightarrow> n \<notin> ?P" for n by (auto simp: lock_count_def)
  have sub: "?P \<subseteq> inner s (reach s)"
    using path_nodes_set[OF D(1)] D(4) by (fastforce simp: inner_def handle_ok_def)
  have "held_tokens s (reach s) (lock_count s ?H) = (\<Sum>n\<in>inner s (reach s). if n \<in> ?P then nlen s n else 0)"
    unfolding held_tokens_def p by (rule sum.cong) auto
  also have "\<dots> = (\<Sum>n\<in>?P. nlen s n)"
    unfolding sum.inter_restrict[OF inner_finite[OF D(1)], symmetric] Int_absorb1[OF sub] ..
  finally have "protected_size s = int (\<Sum>n\<in>?P. nlen s n)"
    using radix_invD(3)[OF D(2)] by (simp add: refs_ok_def)
  then show ?thesis using sizes_ok(3)[OF assms] by linarith
qed

section \<open>Properties\<close>

text \<open>
  C3: \<open>match_prefix\<close> returns the longest page-aligned prefix of the input that is cached, with
  the slots it was cached with, and changes neither content, nor ownership, nor the counters;
  \<open>get_matched_indices\<close> on the returned handle gives those slots.
\<close>

theorem radix_match_longest:
  assumes "cache_ok ps s H"
  shows "\<exists>h s' vs. match_prefix tic ids s = Inr (h, s') \<and> cache_ok ps s' H \<and> handle_ok s' h \<and>
     content s' = content s \<and> owned_slots s' = owned_slots s \<and> size_info s' = size_info s \<and>
     {ws. (take (cached_len h) ids, ws) \<in> content s} = {vs} \<and>
     (0 < cached_len h \<longrightarrow> get_matched_indices h s' = Inr vs) \<and>
     Max {k. k \<le> length ids \<and> (\<exists>ws. (take k ids, ws) \<in> content s)} = cached_len h"
proof -
  obtain h s' where m: "match_prefix tic ids s = Inr (h, s')" "cache_ok ps s' H" "handle_ok s' h"
    "content s' = content s" "owned_slots s' = owned_slots s" "size_info s' = size_info s"
    "cached_len h \<le> length ids" "path_key s' (handle_node h) = take (cached_len h) ids"
    "(take (cached_len h) ids, path_value s' (handle_node h)) \<in> content s"
    "\<forall>k vs. (take k ids, vs) \<in> content s \<longrightarrow> k \<le> length ids \<longrightarrow> k \<le> cached_len h"
    using match_ok[OF assms, of tic ids] by blast
  have "Max {k. k \<le> length ids \<and> (\<exists>ws. (take k ids, ws) \<in> content s)} = cached_len h"
    by (rule Max_eqI) (use m(7,9,10) in auto)
  moreover have "{ws. (take (cached_len h) ids, ws) \<in> content s} = {path_value s' (handle_node h)}"
    using m(9) content_unique[OF cache_okD(1)[OF assms]] by blast
  moreover have "0 < cached_len h \<longrightarrow> get_matched_indices h s' = Inr (path_value s' (handle_node h))"
    using radix.indices[OF m(2,3)] by (simp add: radix_ops_def)
  ultimately show ?thesis
    using m(1-6)
    by (intro exI[of _ h] exI[of _ s'] exI[of _ "path_value s' (handle_node h)"] conjI)
qed

theorem radix_match_longest_witness:
  "\<exists>h s'. match_prefix 9 [5,6,7,1] demo_locked = Inr (h, s') \<and> cached_len h = 2 \<and>
     get_matched_indices h s' = Inr [20,21] \<and>
     Max {k. k \<le> length [5,6,7,1::token] \<and> (\<exists>ws. (take k [5,6,7,1], ws) \<in> content demo_locked)} = 2"
proof -
  have e: "map_sum id (\<lambda>(h, s). (cached_len h, get_matched_indices h s)) (match_prefix 9 [5,6,7,1] demo_locked)
    = Inr (2, Inr [20,21])"
    by (simp add: demo_locked_def demo_free_def demo_fork_def demo_handle_def radix_run)
  show ?thesis
    using radix_match_longest[OF demo_locked_ok, of 9 "[5,6,7,1]"] e by auto
qed

text \<open>
  C4: \<open>insert_prefix\<close> caches exactly the page-aligned prefixes of the input: it reports how many
  leading tokens were cached before (the most that were), keeps their old slots, takes the
  given slots for the rest, and becomes the owner of those and of no others.
\<close>

theorem radix_insert_exact:
  assumes "cache_ok ps s H" "length ids = length inds" "paged ps (take (align_down (length ids) ps) inds)"
  shows "\<exists>l h s' vs. insert_prefix tic tic' ids inds s = Inr (l, h, s') \<and> cache_ok ps s' H \<and>
     cached_len h = align_down (length ids) ps \<and>
     Max {k. k \<le> cached_len h \<and> (\<exists>ws. (take k ids, ws) \<in> content s)} = l \<and>
     (take l ids, take l vs) \<in> content s \<and> drop l vs = drop l (take (cached_len h) inds) \<and>
     content s' = content s \<union> {(take k ids, take k vs) | k. ps dvd k \<and> k \<le> cached_len h} \<and>
     owned_slots s' = owned_slots s + mset (drop l (take (cached_len h) inds)) \<and>
     (\<forall>g\<in>#H. path_value s' (handle_node g) = path_value s (handle_node g))"
proof -
  have len: "align_down (length ids) ps \<le> length inds" using assms(2) by simp
  obtain l h s' where i: "insert_prefix tic tic' ids inds s = Inr (l, h, s')" "cache_ok ps s' H"
    "same_handles s s'" "cached_len h = align_down (length ids) ps" "l \<le> cached_len h"
    "drop l (path_value s' (handle_node h)) = drop l (take (cached_len h) inds)"
    "(take l ids, take l (path_value s' (handle_node h))) \<in> content s"
    "owned_slots s' = owned_slots s + mset (drop l (take (cached_len h) inds))"
    "content s' = content s \<union> aligned_prefixes ps (take (cached_len h) ids) (path_value s' (handle_node h))"
    "\<forall>k vs. (take k ids, vs) \<in> content s \<longrightarrow> k \<le> cached_len h \<longrightarrow> k \<le> l"
    using insert_ok[OF assms(1) len assms(3), of tic tic'] by blast
  have "Max {k. k \<le> cached_len h \<and> (\<exists>ws. (take k ids, ws) \<in> content s)} = l"
    by (rule Max_eqI) (use i(5,7,10) in auto)
  moreover have "aligned_prefixes ps (take (cached_len h) ids) vs =
      {(take k ids, take k vs) | k. ps dvd k \<and> k \<le> cached_len h}" for vs
  proof -
    have "length (take (cached_len h) ids) = cached_len h" using i(4) by simp
    then show ?thesis
      unfolding aligned_prefixes_def by (intro Collect_cong ex_cong1) (auto simp: min_absorb1)
  qed
  moreover have "\<forall>g\<in>#H. path_value s' (handle_node g) = path_value s (handle_node g)"
    using i(3) cache_okD(4)[OF assms(1)] by (simp add: same_handles_def)
  ultimately show ?thesis
    using i(1,2,4,6,7,8,9)
    by (intro exI[of _ l] exI[of _ h] exI[of _ s'] exI[of _ "path_value s' (handle_node h)"] conjI) simp_all
qed

theorem radix_insert_exact_witness:
  "\<exists>l h s'. insert_prefix 9 9 [5,6,7,8,1,2,3] [60,61,62,63,64,65,70] demo_locked = Inr (l, h, s') \<and>
     l = 4 \<and> cached_len h = 6 \<and> owned_slots s' = owned_slots demo_locked + {#64, 65#}"
proof -
  have e: "map_sum id (\<lambda>(l, h, s). l)
      (insert_prefix 9 9 [5,6,7,8,1,2,3] [60,61,62,63,64,65,70] demo_locked) = Inr 4"
    by (simp add: demo_locked_def demo_free_def demo_fork_def demo_handle_def radix_run)
  have p: "paged 2 (take (align_down (length [5,6,7,8,1,2,3::token]) 2) [60,61,62,63,64,65,70])"
    using paged_page_to_token[of "[60,62,64]" 2] by (simp add: page_to_token_def upt_rec align_down_def)
  show ?thesis
    using radix_insert_exact[OF demo_locked_ok _ p, of 9 9] e by (auto simp: align_down_def)
qed

text \<open>
  C5: \<open>evict\<close> never fails within the evictable counter: it returns at least the number of slots
  asked for, in whole pages, moves exactly those out of the tree's ownership, keeps every locked
  path intact, and no returned slot belongs to a locked handle's path unless the tree owned it
  twice.  Beyond the counter it stops at an \<open>AssertionError\<close> and changes nothing (the interface documents
  a \<open>RuntimeError\<close> for this case).
\<close>

theorem radix_evict_exact:
  assumes "cache_ok ps s H" "0 \<le> n"
  shows "if n \<le> evictable_size s then
       \<exists>vs s'. evict n s = Inr (vs, s') \<and> cache_ok ps s' H \<and> n \<le> int (length vs) \<and> paged ps vs \<and>
         owned_slots s = owned_slots s' + mset vs \<and> content s' \<subseteq> content s \<and>
         evictable_size s' = evictable_size s - int (length vs) \<and>
         protected_size s' = protected_size s \<and>
         (\<forall>h\<in>#H. (path_key s (handle_node h), path_value s (handle_node h)) \<in> content s')
     else evict n s = Inl AssertionError"
proof (cases "n \<le> evictable_size s")
  case True
  obtain vs s' where e: "evict n s = Inr (vs, s')" "cache_ok ps s' H" "owned_slots s = owned_slots s' + mset vs"
    "paged ps vs" "n \<le> int (length vs)" "content s' \<subseteq> content s"
    "evictable_size s' = evictable_size s - int (length vs)" "protected_size s' = protected_size s"
    "\<forall>a. path_key s' a = path_key s a \<and> path_value s' a = path_value s a"
    using evict_ok'[OF assms(1,2) True] by blast
  have "(path_key s (handle_node h), path_value s (handle_node h)) \<in> content s'" if "h \<in># H" for h
    using handle_content(1)[OF cache_okD(1)[OF e(2)] cache_okD(4)[OF e(2) that]] e(9) by simp
  with True e show ?thesis by auto
next
  case False
  moreover have "0 \<le> evictable_size s" by (rule sizes_ok(1)[OF assms(1)])
  ultimately show ?thesis by (simp add: evict_too_much)
qed

theorem radix_evict_exact_witness:
  "\<exists>s'. evict 1 demo_locked = Inr ([40,41], s') \<and> cache_ok 2 s' {#demo_handle#} \<and>
     owned_slots demo_locked = owned_slots s' + {#40, 41#}"
proof -
  have "map_sum id fst (evict 1 demo_locked) = Inr [40,41]" "evictable_size demo_locked = 2"
    by (simp_all add: demo_locked_def demo_free_def demo_fork_def demo_handle_def radix_run)
  then show ?thesis using radix_evict_exact[OF demo_locked_ok, of 1] by (auto simp: add.commute)
qed

text \<open>
  C6: eviction is in order of least recent use.  A call of \<open>evict\<close> within the counter returns the slots of a
  sequence of nodes, each of which was, at the moment it was removed, an unlocked leaf with
  the oldest time stamp of all unlocked leaves of the tree as it was then, so a parent that becomes a
  leaf competes at once; it stops as soon as the size asked for is reached, and takes no node of a
  locked path.  The stamps tell the last use: \<open>match_prefix\<close> stamps the nodes of the path it returns
  with its clock value and leaves the stamp of every other node alone.
\<close>

theorem radix_evict_lru:
  assumes "cache_ok ps s H" "0 < n" "n \<le> evictable_size s"
  shows "\<exists>ns s'. evict n s = Inr (concat (map (\<lambda>m. node_value (nd s m)) ns), s') \<and> lru_run s ns s' \<and>
     ns \<noteq> [] \<and> n \<le> (\<Sum>m\<leftarrow>ns. int (nlen s m)) \<and> (\<Sum>m\<leftarrow>butlast ns. int (nlen s m)) < n \<and>
     (\<forall>h\<in>#H. set ns \<inter> set (path_nodes s (handle_node h)) = {}) \<and>
     (\<exists>h t. match_prefix tic ids s = Inr (h, t) \<and>
        (\<forall>m\<in>reach t. node_timestamp (nd t m) =
           (if m \<in> set (path_nodes t (handle_node h)) then tic else node_timestamp (nd s m))))"
proof -
  obtain h t where "match_prefix tic ids s = Inr (h, t)" using match_ok[OF assms(1), of tic ids] by blast
  then show ?thesis using evict_lru[OF assms] match_stamps[OF assms(1)] by blast
qed

theorem radix_evict_lru_witness:
  "\<exists>ns s'. evict 3 demo_free = Inr ([22,23,40,41], s') \<and> lru_run demo_free ns s' \<and> ns \<noteq> []"
proof -
  have n: "(0::int) < 3" "3 \<le> evictable_size demo_free" using demo_free_eval(3) by (simp_all add: size_info_def)
  have e: "map_sum id fst (evict 3 demo_free) = Inr [22,23,40,41]"
    by (simp add: demo_free_def demo_fork_def radix_run sift_up_def sift_down.simps sift_leaf.simps small_child_def
        swap_def up_def)
  obtain ns s' where ns: "evict 3 demo_free = Inr (concat (map (\<lambda>m. node_value (nd demo_free m)) ns), s')"
    "lru_run demo_free ns s'" "ns \<noteq> []" "(\<Sum>m\<leftarrow>butlast ns. int (nlen demo_free m)) < 3"
    using radix_evict_lru[OF demo_free_ok n, of 0 "[]"] by blast
  have "evict 3 demo_free = Inr ([22,23,40,41], s')" using ns(1) e by simp
  then show ?thesis using ns(2,3) by blast
qed

text \<open>
  C7: the size counters are exact in every state that calls can reach from the empty cache: matches,
  insertions, locks of returned handles, unlocks and evictions in any order.  The protected
  size is the number of tokens on the paths of the locked handles, shared nodes counted once,
  the evictable size is all the rest of what the tree owns, and every handle that may be locked can be.
\<close>

theorem radix_sizes_exact:
  assumes "cache_run ps s H K"
  shows "protected_size s = int (\<Sum>n\<in>(\<Union>h\<in>set_mset H. set (path_nodes s (handle_node h))). nlen s n) \<and>
     evictable_size s = int (size (owned_slots s)) - protected_size s \<and>
     (\<forall>h\<in>K. \<exists>s'. lock_handle h False s = Inr s')"
proof -
  have ok: "cache_ok ps s H" and K: "\<forall>h\<in>K. handle_ok s h" using cache_run_ok[OF assms] by blast+
  show ?thesis using sizes_on_paths[OF ok] lock_ok[OF ok] K by blast
qed

lemma demo_run: "cache_run 2 demo_locked {#demo_handle#} {demo_handle, \<lparr>cached_len = 4, handle_node = 3\<rparr>}"
proof -
  have i1: "insert_prefix 1 2 [5,6,7,8,9] [20,21,22,23,30] (radix_init 2 0) =
      Inr (0, demo_handle, snd (snd (projr (insert_prefix 1 2 [5,6,7,8,9] [20,21,22,23,30] (radix_init 2 0)))))"
    by (simp add: demo_handle_def radix_run)
  have r1: "cache_run 2 (snd (snd (projr (insert_prefix 1 2 [5,6,7,8,9] [20,21,22,23,30] (radix_init 2 0))))) {#} {demo_handle}"
    by (rule cache_run.insert[OF cache_run.init[of 2 0] _ _ i1]) (simp_all add: align_down_def demo_paged)
  have i2: "insert_prefix 3 4 [5,6,1,2] [50,51,40,41]
      (snd (snd (projr (insert_prefix 1 2 [5,6,7,8,9] [20,21,22,23,30] (radix_init 2 0))))) =
      Inr (2, \<lparr>cached_len = 4, handle_node = 3\<rparr>, demo_free)"
    by (simp add: demo_free_def demo_fork_def radix_run)
  have r2: "cache_run 2 demo_free {#} {\<lparr>cached_len = 4, handle_node = 3\<rparr>, demo_handle}"
    by (rule cache_run.insert[OF r1 _ _ i2]) (simp_all add: align_down_def demo_paged)
  obtain s where s: "lock_handle demo_handle False demo_free = Inr s" using lock_ok[OF demo_free_ok demo_handle_ok] by blast
  then have "demo_locked = s" by (simp add: demo_locked_def)
  then show ?thesis using cache_run.lock[OF r2 _ s] by (simp add: insert_commute)
qed

theorem radix_sizes_exact_witness:
  "protected_size demo_locked = 4 \<and> evictable_size demo_locked = 2 \<and> size (owned_slots demo_locked) = 6"
proof -
  have "size_info demo_locked = (2, 4)"
    by (simp add: demo_locked_def demo_free_def demo_fork_def demo_handle_def radix_run)
  then show ?thesis using radix_sizes_exact[OF demo_run] by (simp add: size_info_def)
qed

text \<open>
  C8: locking a handle and unlocking it never trips an assertion while the locks balance, and
  changes only reference counts: content and ownership stay, the tokens just move between the
  two counters.
\<close>

theorem radix_lock_balance:
  assumes "cache_ok ps s H" "handle_ok s h"
  shows "\<exists>s1 s2. lock_handle h False s = Inr s1 \<and> cache_ok ps s1 (add_mset h H) \<and>
     lock_handle h True s1 = Inr s2 \<and> cache_ok ps s2 H \<and>
     content s1 = content s \<and> content s2 = content s \<and> owned_slots s2 = owned_slots s \<and>
     evictable_size s1 + protected_size s1 = evictable_size s + protected_size s \<and>
     size_info s2 = size_info s"
proof -
  obtain s1 where s1: "lock_handle h False s = Inr s1" "cache_ok ps s1 (add_mset h H)"
    "owned_slots s1 = owned_slots s" "content s1 = content s" "same_handles s s1"
    using lock_ok[OF assms] by blast
  obtain s2 where s2: "lock_handle h True s1 = Inr s2" "cache_ok ps s2 H"
    "owned_slots s2 = owned_slots s1" "content s2 = content s1"
    using unlock_ok[OF s1(2)] by blast
  have "size_info s2 = size_info s" using lock_unlock_sizes[OF assms s1(1) s2(1)] .
  then show ?thesis
    using s1 s2 sizes_ok(3)[OF assms(1)] sizes_ok(3)[OF s1(2)] by auto
qed

theorem radix_lock_balance_witness:
  "\<exists>s1 s2. lock_handle demo_handle False demo_free = Inr s1 \<and> size_info s1 = (2, 4) \<and>
     lock_handle demo_handle True s1 = Inr s2 \<and> size_info s2 = (6, 0)"
proof -
  have "map_sum id size_info (lock_handle demo_handle False demo_free) = Inr (2, 4)"
    by (simp add: demo_free_def demo_fork_def demo_handle_def radix_run)
  then show ?thesis
    using radix_lock_balance[OF demo_free_ok demo_handle_ok] demo_free_eval(3) by auto
qed

end
