(* ===== verification/NaiveCache.thy ===== *)
theory NaiveCache
  imports PrefixCache
begin

text \<open>
  \<open>NaivePrefixCache\<close> of \<open>runtime/kvcache/naive_cache.py\<close>: the prefix cache that keeps nothing.
  It has no state, and every handle is the empty one.
\<close>

datatype naive_cache = NaivePrefixCache

record naive_handle =
  naive_cached_len :: nat

definition naive_new_handle :: naive_handle where
  "naive_new_handle = \<lparr>naive_cached_len = 0\<rparr>"

definition naive_get_matched_indices :: "naive_handle \<Rightarrow> naive_cache \<Rightarrow> slot list res" where
  "naive_get_matched_indices h c = Inr []"

definition naive_lock_handle :: "naive_handle \<Rightarrow> bool \<Rightarrow> naive_cache \<Rightarrow> naive_cache res" where
  "naive_lock_handle h unlock c = Inr c"

definition naive_match_prefix ::
  "int \<Rightarrow> token list \<Rightarrow> naive_cache \<Rightarrow> (naive_handle \<times> naive_cache) res" where
  "naive_match_prefix tic ids c = Inr (naive_new_handle, c)"

definition naive_insert_prefix ::
  "int \<Rightarrow> int \<Rightarrow> token list \<Rightarrow> slot list \<Rightarrow> naive_cache \<Rightarrow> (nat \<times> naive_handle \<times> naive_cache) res" where
  "naive_insert_prefix tic tic' ids inds c = Inr (0, naive_new_handle, c)"

definition naive_evict :: "int \<Rightarrow> naive_cache \<Rightarrow> (slot list \<times> naive_cache) res" where
  "naive_evict n c = (if n = 0 then Inr ([], c) else Inl NotImplementedError)"

definition naive_size_info :: "naive_cache \<Rightarrow> int \<times> int" where
  "naive_size_info c = (0, 0)"

definition naive_ops :: "(naive_cache, naive_handle) cache_ops" where
  "naive_ops = \<lparr>op_lock = naive_lock_handle, op_match = naive_match_prefix,
     op_insert = naive_insert_prefix, op_evict = naive_evict, op_size_info = naive_size_info,
     op_indices = naive_get_matched_indices, op_cached_len = naive_cached_len\<rparr>"

definition naive_ok :: "nat \<Rightarrow> naive_cache \<Rightarrow> naive_handle multiset \<Rightarrow> bool" where
  "naive_ok ps c H \<longleftrightarrow> 0 < ps \<and> (\<forall>h\<in>#H. naive_cached_len h = 0)"

interpretation naive: prefix_cache naive_ops naive_ok "\<lambda>c h. naive_cached_len h = 0"
  "\<lambda>c h. []" "\<lambda>c h. []" "\<lambda>c. {#}"
  by unfold_locales
    (auto simp: naive_ops_def naive_ok_def naive_lock_handle_def naive_match_prefix_def
      naive_insert_prefix_def naive_size_info_def naive_new_handle_def)

end
