(* ===== verification/CacheManagerClaims.thy ===== *)
theory CacheManagerClaims
  imports CacheManagerUse RadixClaims NaiveCache
begin

text \<open>
  The properties of the cache manager with the radix cache, obtained from the interface's lemmas
  through the interpretation \<open>radix\<close>.  The witnesses run on a pool of four pages of two slots.
\<close>

abbreviation radix_cm_inv :: "radix_cache cman \<Rightarrow> radix_handle req list \<Rightarrow> bool" where
  "radix_cm_inv \<equiv> cm_inv radix_ops cache_ok (\<lambda>s h. path_key s (handle_node h))
     (\<lambda>s h. path_value s (handle_node h)) owned_slots"

abbreviation radix_owned :: "radix_cache cman \<Rightarrow> radix_handle req \<Rightarrow> slot list" where
  "radix_owned s r \<equiv> owned_row (radix_ops :: (radix_cache, radix_handle) cache_ops) (page_size s) (page_table s) r"

abbreviation naive_cm_inv :: "naive_cache cman \<Rightarrow> naive_handle req list \<Rightarrow> bool" where
  "naive_cm_inv \<equiv> cm_inv naive_ops naive_ok (\<lambda>c h. []) (\<lambda>c h. []) (\<lambda>c. {#})"

interpretation radix_cm: cache_manager radix_ops cache_ok handle_ok
  "\<lambda>s h. path_key s (handle_node h)" "\<lambda>s h. path_value s (handle_node h)" owned_slots
  by unfold_locales

interpretation naive_cm: cache_manager naive_ops naive_ok "\<lambda>c h. naive_cached_len h = 0"
  "\<lambda>c h. []" "\<lambda>c h. []" "\<lambda>c. {#}"
  by unfold_locales

text \<open>Without enough free and evictable tokens the allocation raises.\<close>

lemma radix_allocate_short:
  assumes inv: "radix_cm_inv s R"
    and short: "cm_available_size radix_ops s < int (needed_pages (page_size s) reqs * page_size s)"
  shows "allocate_paged radix_ops reqs s = Inl AssertionError"
proof -
  let ?n = "needed_pages (page_size s) reqs"
  have less: "fst (op_size_info radix_ops (pcache s)) <
      int ?n * int (page_size s) - int (length (free_slots s)) * int (page_size s)"
    using short by (simp add: cm_available_size_def)
  have ps: "0 < page_size s" using radix_cm.minvD(7)[OF inv] .
  have "0 \<le> fst (op_size_info radix_ops (pcache s))"
    using radix.sizes[OF radix_cm.minvD(1)[OF inv]] by blast
  then have "int (length (free_slots s)) * int (page_size s) < int ?n * int (page_size s)"
    using less by linarith
  then have n1: "length (free_slots s) < ?n" by (metis mult_less_cancel2 of_nat_less_iff of_nat_mult)
  then have "int ((?n - length (free_slots s)) * page_size s) =
      int ?n * int (page_size s) - int (length (free_slots s)) * int (page_size s)"
    by (simp add: of_nat_diff left_diff_distrib)
  then have n: "length (free_slots s) < ?n" "evictable_size (pcache s) < int ((?n - length (free_slots s)) * page_size s)"
    using less n1 by (simp_all add: radix_ops_def size_info_def)
  have "cm_allocate radix_ops ?n s = Inl AssertionError"
    using n(1) evict_too_much[OF _ n(2)] ps by (simp add: cm_allocate_def radix_ops_def)
  then show ?thesis using n(1) by (simp add: allocate_paged_def Let_def)
qed

text \<open>The demonstration state: an empty pool, and a request of three tokens that has been admitted.\<close>

definition demo_root :: radix_handle where
  "demo_root = \<lparr>cached_len = 0, handle_node = 0\<rparr>"

definition demo_req :: "radix_handle req" where
  "demo_req = projr (mk_req False [5,6,7] 1 0 2 9 demo_root default_sampling False)"

definition demo_pool :: "radix_cache cman" where
  "demo_pool = cm_init 4 2 (\<lambda>_. replicate 8 0) None (radix_init 2 0)"

definition demo_alloc :: "radix_handle req list \<times> radix_cache cman" where
  "demo_alloc = projr (allocate_paged radix_ops [demo_req] demo_pool)"

lemma demo_req_eval:
  "r_handle demo_req = demo_root" "r_table_idx demo_req = 1" "r_cached_len demo_req = 0"
  "r_allocated_len demo_req = 0" "r_device_len demo_req = 3" "r_input_ids demo_req = [5,6,7]"
  "r_mm demo_req = False" "owned_end 2 demo_req = 0" "cached_len demo_root = 0" "handle_node demo_root = 0"
  "r_max_device_len demo_req = 5" "r_chunked demo_req = False"
  by (simp_all add: demo_req_def mk_req_def demo_root_def owned_end_def div_ceil_def)

lemma demo_pool_eval:
  "page_size demo_pool = 2" "num_pages demo_pool = 4" "free_slots demo_pool = [0,2,4,6]"
  "page_table demo_pool t = replicate 8 0" "lazy_free_list demo_pool = None" "\<not> cm_swa_paged demo_pool"
  "pcache demo_pool = radix_init 2 0" "all_free demo_pool = [0,2,4,6]"
  by (simp_all add: demo_pool_def cm_init_def cm_swa_paged_def upt_rec all_free_def)

lemma demo_root_ok: "handle_ok (radix_init 2 0) demo_root"
proof -
  have "0 \<in> reach (radix_init 2 0)" using reach.root[of "radix_init 2 0"] by (simp add: radix_init_def)
  then show ?thesis by (simp add: handle_ok_def demo_root_def path_key_def path_nodes_def radix_init_def blank_node_def)
qed

lemma demo_pool_inv: "radix_cm_inv demo_pool [demo_req]"
proof -
  have "cache_ok 2 (radix_init 2 0) {#demo_root#}"
    using radix.empty_law[OF radix_init_ok demo_root_ok] by (simp add: radix_ops_def demo_req_eval)
  moreover have "req_mem radix_ops (\<lambda>s h. path_key s (handle_node h)) (\<lambda>s h. path_value s (handle_node h)) 2
      (radix_init 2 0) (page_table demo_pool) demo_req"
    by (simp add: req_mem_def demo_req_eval radix_ops_def Let_def owned_row_def demo_pool_eval path_value_def
        path_key_def path_nodes_def radix_init_def blank_node_def)
  moreover have "page_to_token 2 [0, 2, 4, 6] = [0..<8]" by (simp add: page_to_token_def upt_rec)
  ultimately show ?thesis
    by (simp add: cm_inv_def demo_pool_eval demo_req_eval radix_init_empty owned_row_def radix_ops_def)
qed

lemma demo_fits:
  "int (needed_pages (page_size demo_pool) [demo_req] * page_size demo_pool) \<le> cm_available_size radix_ops demo_pool"
  by (simp add: needed_pages_def allocation_info_def page_span_def div_ceil_def demo_req_eval demo_pool_eval
      cm_available_size_def radix_ops_def radix_init_empty)

section \<open>Properties\<close>

text \<open>
  C9: \<open>allocate_paged\<close> succeeds exactly when the free and the evictable tokens suffice, and raises
  an assertion error otherwise.  When it succeeds, every page of the pool is still accounted for
  once, each request has grown to its device length, and no row lost an entry it had.
\<close>

theorem allocate_conserves:
  assumes inv: "radix_cm_inv s (reqs @ rest)" and lazy: "lazy_free_list s = None"
    and rows: "\<forall>r\<in>set reqs. div_ceil (r_device_len r) (page_size s) * page_size s \<le> length (page_table s (r_table_idx r))"
  shows "if int (needed_pages (page_size s) reqs * page_size s) \<le> cm_available_size radix_ops s
     then \<exists>s'. allocate_paged radix_ops reqs s = Inr (map note_allocated reqs, s') \<and>
       radix_cm_inv s' (map note_allocated reqs @ rest) \<and> lazy_free_list s' = None \<and>
       (\<forall>r\<in>set reqs. take (owned_end (page_size s) r) (page_table s' (r_table_idx r)) =
          take (owned_end (page_size s) r) (page_table s (r_table_idx r))) \<and>
       (\<forall>t. t \<notin> r_table_idx ` set reqs \<longrightarrow> page_table s' t = page_table s t)
     else allocate_paged radix_ops reqs s = Inl AssertionError"
  using radix_cm.allocate_paged_law[OF inv lazy rows] radix_allocate_short[OF inv, of reqs]
  by auto

theorem allocate_conserves_witness:
  "\<exists>s'. allocate_paged radix_ops [demo_req] demo_pool = Inr ([note_allocated demo_req], s') \<and>
     radix_cm_inv s' [note_allocated demo_req] \<and> lazy_free_list s' = None"
proof -
  have rows: "\<forall>r\<in>set [demo_req]. div_ceil (r_device_len r) (page_size demo_pool) * page_size demo_pool
      \<le> length (page_table demo_pool (r_table_idx r))"
    by (simp add: demo_req_eval demo_pool_eval div_ceil_def)
  have inv: "radix_cm_inv demo_pool ([demo_req] @ [])" using demo_pool_inv by simp
  show ?thesis
    using allocate_conserves[OF inv demo_pool_eval(5) rows] demo_fits by auto
qed

text \<open>
  C10: \<open>cache_req\<close> never raises.  A finished request returns every slot it owns, either to the cache
  or to the free pages; a request that goes on keeps its pages, its row shows the canonical slots
  of its new handle, and only its handle changes.
\<close>

theorem commit_conserves:
  assumes "radix_cm_inv s (r # R)"
  shows "\<exists>r' s'. cache_req radix_ops tic tic' r finished s = Inr (r', s') \<and>
     radix_cm_inv s' (if finished then R else r' # R) \<and>
     (if finished \<or> r_mm r then r' = r
      else (\<exists>new. r' = r\<lparr>r_handle := new\<rparr> \<and> take (cached_len new) (page_table s' (r_table_idx r)) =
              path_value (pcache s') (handle_node new)))"
proof (cases "r_mm r")
  case True
  then show ?thesis using radix_cm.cache_req_mm[OF assms True, of tic tic' finished] by auto
next
  case False
  then show ?thesis
    using radix_cm.cache_req_finished[OF assms False, of tic tic']
      radix_cm.cache_req_unfinished[OF assms False, of tic tic']
    by (cases finished) (auto simp: radix_ops_def)
qed

theorem commit_conserves_witness:
  "\<exists>r' s'. cache_req radix_ops 1 2 demo_req False demo_pool = Inr (r', s') \<and> radix_cm_inv s' [r']"
  using commit_conserves[OF demo_pool_inv, of 1 2 False] by auto

text \<open>
  C12: the reported sizes are exact.  \<open>page_usage\<close> counts the pages that locked paths and running
  requests hold, and when no request runs the idle integrity check passes.
\<close>

theorem sizes_reported:
  assumes "radix_cm_inv s R" "lazy_free_list s = None" "page_usage radix_ops s = (u, n)"
  shows "n = int (num_pages s) \<and>
     u * int (page_size s) = protected_size (pcache s) + int (\<Sum>r\<leftarrow>R. length (radix_owned s r)) \<and>
     (R = [] \<longrightarrow> cm_check_integrity radix_ops s = Inr () \<and> u = 0)"
proof -
  note U = radix_cm.page_usage_running[OF assms]
  have "u = 0" if "R = []"
  proof -
    have "protected_size (pcache s) = 0"
      using radix.idle[of "page_size s" "pcache s"] radix_cm.minvD(1)[OF assms(1)] that
      by (simp add: radix_ops_def size_info_def)
    then show ?thesis
      using U radix_cm.minvD(7)[OF assms(1)] that by (simp add: radix_ops_def size_info_def)
  qed
  then show ?thesis
    using U radix_cm.check_integrity_idle[of s] assms(1,2)
    by (auto simp: radix_ops_def size_info_def)
qed

theorem sizes_reported_witness:
  "page_usage radix_ops demo_pool = (0, 4) \<and> (0::int) * 2 = protected_size (pcache demo_pool) + 0"
proof -
  have "page_usage radix_ops demo_pool = (0, 4)"
    by (simp add: page_usage_def demo_pool_eval radix_ops_def radix_init_empty)
  then show ?thesis
    using sizes_reported[OF demo_pool_inv demo_pool_eval(5)]
    by (simp add: demo_pool_eval demo_req_eval owned_row_def)
qed

end
