(* ===== verification/PrefillClaims.thy ===== *)
theory PrefillClaims
  imports PrefillInv CacheManagerClaims
begin

text \<open>
  The properties of prefill admission with the radix cache: the budget, the page accounting, and
  when the scheduled batch can be allocated.
\<close>

interpretation radix_pf: prefill_client radix_ops cache_ok handle_ok
  "\<lambda>s h. path_key s (handle_node h)" "\<lambda>s h. path_value s (handle_node h)" owned_slots
  by unfold_locales

abbreviation radix_schedule where
  "radix_schedule \<equiv> pm_schedule_next_batch (plain_admission 0 (radix_ops :: (radix_cache, radix_handle) cache_ops))"

text \<open>
  C13: scheduling a prefill batch either raises, when a multimodal prompt exceeds the budget of a whole
  pass, or returns.  Without a batch nothing is kept: pending requests, pages and rows are as
  before.  With a batch, every request has a chunk of at least one token, its tokens
  are the start of its prompt, the chunks together fit the token budget, unfinished prompts stay in front of the pending list with the chunk's request,
  and all pages and rows are still accounted for.
\<close>

theorem prefill_schedule:
  assumes "radix_cm_inv s (chunks pend @ R)" "\<forall>p\<in>set pend. pend_ok width p" "rows_ok width s tm"
    "table_ok tm (r_table_idx ` set (chunks pend @ R))"
  shows "((\<exists>p\<in>set pend. p_mm p \<and> budget < int (input_len p)) \<and>
       radix_schedule tic budget d pend s tm = Inl NotImplementedError) \<or>
     (\<exists>ob pend' s' tm'. radix_schedule tic budget d pend s tm = Inr (ob, pend', s', tm') \<and> rows_ok width s' tm' \<and>
       (case ob of
          None \<Rightarrow> pend' = pend \<and> radix_cm_inv s' (chunks pend @ R) \<and>
            table_ok tm' (r_table_idx ` set (chunks pend @ R))
        | Some b \<Rightarrow> is_prefill b \<and> (\<forall>r\<in>set (b_reqs b). 0 < extend_len r \<and> prefix_of pend r) \<and>
            sum_list (map extend_len (b_reqs b)) \<le> budget \<and>
            (\<exists>new rest done. pend' = new @ rest \<and> pend = done @ rest \<and> length (b_reqs b) = length done \<and>
               chunks new = filter r_chunked (b_reqs b) \<and>
               radix_cm_inv s' (b_reqs b @ chunks rest @ R) \<and>
               table_ok tm' (r_table_idx ` set (b_reqs b @ chunks rest @ R)))))"
  using radix_pf.schedule_law[OF assms, of budget 0 tic d]
proof (elim disjE exE conjE)
  fix ob pend' s' tm'
  assume r: "radix_schedule tic budget d pend s tm = Inr (ob, pend', s', tm')" "rows_ok width s' tm'"
    and sch: "radix_pf.scheduled pend R budget (inflight_tokens d) s ob pend' s' tm'"
  show ?thesis
  proof (cases ob)
    case None
    then show ?thesis using r sch
      by (intro disjI2 exI[of _ None] exI[of _ pend'] exI[of _ s'] exI[of _ tm'])
        (simp add: radix_pf.scheduled_def)
  next
    case (Some b)
    note S = sch[unfolded Some radix_pf.scheduled_def option.case]
    have "\<exists>new rest done. pend' = new @ rest \<and> pend = done @ rest \<and> length (b_reqs b) = length done \<and>
               chunks new = filter r_chunked (b_reqs b) \<and>
               radix_cm_inv s' (b_reqs b @ chunks rest @ R) \<and>
               table_ok tm' (r_table_idx ` set (b_reqs b @ chunks rest @ R))" using S by blast
    moreover have "sum_list (map extend_len (b_reqs b)) \<le> budget" using S by linarith
    ultimately show ?thesis using r S Some
      by (intro disjI2 exI[of _ ob] exI[of _ pend'] exI[of _ s'] exI[of _ tm']) simp
  qed
qed (use assms in blast)

text \<open>
  C14: with pages of one slot, a batch of new requests never overcommits: the allocation that follows
  succeeds.
\<close>

theorem prefill_fits:
  assumes inv: "radix_cm_inv s R" and pend: "\<forall>p\<in>set pend. pend_ok width p \<and> p_chunked p = None"
    and rows: "rows_ok width s tm" and tm: "table_ok tm (r_table_idx ` set R)"
    and page: "page_size s = 1" and lazy: "lazy_free_list s = None" and fl: "0 \<le> inflight_tokens d"
    and run: "radix_schedule tic budget d pend s tm = Inr (Some b, pend', s', tm')"
  shows "\<exists>s''. allocate_paged radix_ops (b_reqs b) s' = Inr (map note_allocated (b_reqs b), s'') \<and>
     radix_cm_inv s'' (map note_allocated (b_reqs b) @ R)"
proof -
  have nc: "chunks ps = []" if "\<forall>p\<in>set ps. pend_ok width p \<and> p_chunked p = None" for ps :: "radix_handle pending list"
    using that by (induction ps) simp_all
  note c0 = nc[OF pend]
  have inv0: "radix_cm_inv s (chunks pend @ R)" "table_ok tm (r_table_idx ` set (chunks pend @ R))"
    using inv tm c0 by simp_all
  have pk: "\<forall>p\<in>set pend. pend_ok width p" using pend by blast
  have sch: "radix_pf.scheduled pend R budget (inflight_tokens d) s (Some b) pend' s' tm'" "rows_ok width s' tm'"
    using radix_pf.schedule_law[OF inv0(1) pk rows inv0(2), of budget 0 tic d] run by auto
  note S = sch(1)[unfolded radix_pf.scheduled_def option.case]
  obtain new rest dn where rest: "pend = dn @ rest" "radix_cm_inv s' (b_reqs b @ chunks rest @ R)" using S by blast
  have inv1: "radix_cm_inv s' (b_reqs b @ R)" using rest nc[of rest] pend by simp
  have pool: "page_size s' = 1" "lazy_free_list s' = None" using S page lazy by (simp_all add: same_pool_def)
  have cap: "inflight_tokens d + sum_list (map extend_len (b_reqs b)) \<le> cm_available_size radix_ops s'"
    using S c0 by auto
  have each: "0 \<le> extend_len r \<and> r_cached_len r \<le> r_allocated_len r \<and> r_device_len r \<le> width" if "r \<in> set (b_reqs b)" for r
  proof -
    have r: "0 < extend_len r" "r_cached_len r \<le> r_allocated_len r" "prefix_of pend r" using S that by auto
    then obtain p where p: "p \<in> set pend" "r_input_ids r = take (length (r_input_ids r)) (p_input_ids p)"
      "r_device_len r = length (r_input_ids r)" by (auto simp: prefix_of_def)
    then have "length (r_input_ids r) \<le> input_len p" by (metis input_len_def length_take min.cobounded1 nat_le_linear take_all)
    then show ?thesis using r p pk by (auto simp: pend_ok_def)
  qed
  have "int (needed_pages 1 rs) \<le> sum_list (map extend_len rs)"
    if "\<forall>r\<in>set rs. 0 \<le> extend_len r \<and> r_cached_len r \<le> r_allocated_len r" for rs :: "radix_handle req list"
    using that
    by (induction rs) (auto simp: needed_pages_def allocation_info_def page_span_def div_ceil_def extend_len_def)
  then have "int (needed_pages 1 (b_reqs b)) \<le> sum_list (map extend_len (b_reqs b))" using each by blast
  then have fits: "int (needed_pages (page_size s') (b_reqs b) * page_size s') \<le> cm_available_size radix_ops s'"
    using cap fl pool by simp
  have "\<forall>r\<in>set (b_reqs b). div_ceil (r_device_len r) (page_size s') * page_size s' \<le> length (page_table s' (r_table_idx r))"
    using each sch(2) pool by (auto simp: rows_ok_def div_ceil_def)
  from radix_cm.allocate_paged_law[OF inv1 pool(2) this fits] show ?thesis by auto
qed

section \<open>Demonstration\<close>

lemmas prefill_run = pm_schedule_next_batch_def mk_adder_def try_add_one_def try_allocate_one_def add_one_req_def
  chunk_size_def reservation_def input_len_def output_len_def tm_available_def tm_allocate_def table_init_def
  match_req_def cm_lock_def with_cache_def cm_available_size_def cm_swa_paged_def cm_init_def
  set_tokens_def copy_into_def mk_req_def mk_batch_def inflight_tokens_def slice_def radix_ops_def radix_run
  default_sampling_def

definition demo_prompt :: "int \<Rightarrow> token list \<Rightarrow> int \<Rightarrow> radix_handle pending" where
  "demo_prompt uid ids out = \<lparr>p_uid = uid, p_input_ids = ids, p_sampling = default_sampling\<lparr>max_tokens := out\<rparr>,
     p_chunked = None, p_mm = False, p_endpoints = []\<rparr>"

definition demo_dm :: "radix_handle decode_man" where
  "demo_dm = \<lparr>dm_page_size = 1, running_reqs = []\<rparr>"

definition fresh_pool :: "nat \<Rightarrow> nat \<Rightarrow> radix_cache cman" where
  "fresh_pool n ps = cm_init n ps (\<lambda>_. replicate 8 0) None (radix_init ps 0)"

lemma fresh_pool_inv: "0 < ps \<Longrightarrow> radix_cm_inv (fresh_pool n ps) []"
  unfolding fresh_pool_def
  by (rule radix_cm.minv_init) (simp_all add: radix_init_ok radix_init_empty cm_init_def cm_swa_paged_def)

lemma fresh_pool_rows: "rows_ok 8 (fresh_pool n ps) (table_init k 8)"
  by (simp add: rows_ok_def fresh_pool_def cm_init_def table_init_def)

lemma demo_schedule:
  "\<exists>b pend' s' tm'. radix_schedule 1 8 demo_dm [demo_prompt 1 [5,6,7] 2] (fresh_pool 8 1) (table_init 2 8) =
     Inr (Some b, pend', s', tm') \<and> map r_input_ids (b_reqs b) = [[5,6,7]]"
  by (simp add: prefill_run fresh_pool_def demo_dm_def demo_prompt_def upt_rec)

theorem prefill_schedule_witness:
  "\<exists>ob pend' s' tm'. radix_schedule 1 8 demo_dm [demo_prompt 1 [5,6,7] 2] (fresh_pool 8 1) (table_init 2 8) =
     Inr (ob, pend', s', tm') \<and> rows_ok 8 s' tm'"
  using prefill_schedule[of "fresh_pool 8 1" "[demo_prompt 1 [5,6,7] 2]" "[]" 8 "table_init 2 8" 8 1 demo_dm]
    fresh_pool_inv[of 1 8] fresh_pool_rows[of 8 1 2] table_init_ok[of 2 8]
  by (auto simp: demo_prompt_def pend_ok_def input_len_def output_len_def)

theorem prefill_fits_witness:
  "\<exists>b pend' s' tm' s''. radix_schedule 1 8 demo_dm [demo_prompt 1 [5,6,7] 2] (fresh_pool 8 1) (table_init 2 8) =
       Inr (Some b, pend', s', tm') \<and>
     allocate_paged radix_ops (b_reqs b) s' = Inr (map note_allocated (b_reqs b), s'') \<and>
     radix_cm_inv s'' (map note_allocated (b_reqs b))"
proof -
  obtain b pend' s' tm' where r: "radix_schedule 1 8 demo_dm [demo_prompt 1 [5,6,7] 2] (fresh_pool 8 1) (table_init 2 8) =
     Inr (Some b, pend', s', tm')" using demo_schedule by blast
  have "\<forall>p\<in>set [demo_prompt 1 [5,6,7] 2]. pend_ok 8 p \<and> p_chunked p = None"
    by (simp add: demo_prompt_def pend_ok_def input_len_def output_len_def)
  moreover have "page_size (fresh_pool 8 1) = 1" "lazy_free_list (fresh_pool 8 1) = None"
    by (simp_all add: fresh_pool_def cm_init_def)
  moreover have "0 \<le> inflight_tokens demo_dm" by (simp add: demo_dm_def inflight_tokens_def)
  ultimately show ?thesis
    using prefill_fits[OF fresh_pool_inv[of 1 8] _ fresh_pool_rows _ _ _ _ r] r table_init_ok[of 2 8] by auto
qed

lemma demo_overcommit:
  "\<exists>b pend' s' tm'. radix_schedule 1 8 demo_dm [demo_prompt 1 [5] 1, demo_prompt 2 [6] 1] (fresh_pool 1 4) (table_init 2 8) =
     Inr (Some b, pend', s', tm') \<and> page_size s' = 4 \<and> cm_available_size radix_ops s' = 4 \<and>
     map (\<lambda>r. (r_cached_len r, r_allocated_len r, r_device_len r)) (b_reqs b) = [(0, 0, 1), (0, 0, 1)]"
  by (simp add: prefill_run fresh_pool_def demo_dm_def demo_prompt_def upt_rec)

text \<open>
  C15: with larger pages the admission test can overcommit.  It reserves tokens and does not round them
  up to whole pages: on a pool of one page of four slots it admits two prompts of one token with
  one token to generate each, and the allocation of the batch then raises an assertion error.
\<close>

theorem prefill_overcommits:
  "\<exists>b pend' s' tm'. radix_schedule 1 8 demo_dm [demo_prompt 1 [5] 1, demo_prompt 2 [6] 1] (fresh_pool 1 4) (table_init 2 8) =
     Inr (Some b, pend', s', tm') \<and> length (b_reqs b) = 2 \<and> needed_pages 4 (b_reqs b) = 2 \<and>
     allocate_paged radix_ops (b_reqs b) s' = Inl AssertionError"
proof -
  let ?ps = "[demo_prompt 1 [5] 1, demo_prompt 2 [6] 1]"
  obtain b pend' s' tm' where r: "radix_schedule 1 8 demo_dm ?ps (fresh_pool 1 4) (table_init 2 8) =
      Inr (Some b, pend', s', tm')" "page_size s' = 4" "cm_available_size radix_ops s' = 4"
    "map (\<lambda>r. (r_cached_len r, r_allocated_len r, r_device_len r)) (b_reqs b) = [(0, 0, 1), (0, 0, 1)]"
    using demo_overcommit by (elim exE conjE) (rule that)
  have n: "length (b_reqs b) = 2" "needed_pages 4 (b_reqs b) = 2"
    using r(4) by (auto simp: needed_pages_def allocation_info_def page_span_def div_ceil_def)
  have "chunks ?ps = []" "\<forall>p\<in>set ?ps. pend_ok 8 p"
    by (simp_all add: demo_prompt_def pend_ok_def input_len_def output_len_def)
  then have "radix_pf.scheduled ?ps [] 8 (inflight_tokens demo_dm) (fresh_pool 1 4) (Some b) pend' s' tm'"
    using radix_pf.schedule_law[of "fresh_pool 1 4" ?ps "[]" 8 "table_init 2 8" 8 0 1 demo_dm] r(1)
      fresh_pool_inv[of 4 1] fresh_pool_rows[of 1 4 2] table_init_ok[of 2 8] by auto
  then obtain R' where "radix_cm_inv s' R'" by (auto simp: radix_pf.scheduled_def)
  then have "allocate_paged radix_ops (b_reqs b) s' = Inl AssertionError"
    using n r(2,3) by (intro radix_allocate_short) simp_all
  then show ?thesis using r(1) n by blast
qed

end
