(* ===== verification/CacheBudget.thy ===== *)
theory CacheBudget
  imports Complex_Main Prelude
begin

text \<open>
  \<open>runtime/engine/cache_budget.py\<close>: the split of the GPU byte budget between expert slots and KV
  pages.  Byte counts are integers; \<open>memory_ratio\<close> is a rational number, and \<open>int\<close> truncates the
  product towards zero.  A bank is the element count of one of its rows and the element size.
\<close>

definition py_int :: "rat \<Rightarrow> int" where
  "py_int x = (if 0 \<le> x then \<lfloor>x\<rfloor> else \<lceil>x\<rceil>)"

definition expert_bytes_per_slot :: "(int \<times> int) list \<Rightarrow> int" where
  "expert_bytes_per_slot sources = sum_list (map (\<lambda>(numel, element_size). numel * element_size) sources)"

definition net_cache_budget_bytes :: "rat \<Rightarrow> int \<Rightarrow> int \<Rightarrow> int \<Rightarrow> int" where
  "net_cache_budget_bytes memory_ratio baseline_free weights fixed =
     py_int (memory_ratio * of_int baseline_free) - weights - fixed"

definition required_bytes :: "int \<Rightarrow> int \<Rightarrow> int \<Rightarrow> int \<Rightarrow> int" where
  "required_bytes moe_cache_size num_pages per_expert per_page =
     moe_cache_size * per_expert + num_pages * per_page"

text \<open>The smallest number of expert slots: two layers when overlap is feasible under the cap.\<close>

definition slot_floor :: "int \<Rightarrow> bool \<Rightarrow> int \<Rightarrow> int" where
  "slot_floor E overlap hi = (if overlap \<and> 2 * E \<le> hi then 2 * E else E)"

definition plan_cache_budget ::
  "int \<Rightarrow> int \<Rightarrow> int \<Rightarrow> int \<Rightarrow> int \<Rightarrow> bool \<Rightarrow> int \<Rightarrow> int \<Rightarrow> (int \<times> int \<times> bool) res" where
  "plan_cache_budget budget per_expert per_page num_experts total_experts prefill_overlap kv_reserve max_slots =
     res_bind (py_assert (0 < per_expert)) (\<lambda>_.
     res_bind (py_assert (0 < per_page)) (\<lambda>_.
       let hi = min total_experts max_slots;
           overlap = (prefill_overlap \<and> 2 * num_experts \<le> hi);
           lo = slot_floor num_experts prefill_overlap hi
       in res_bind (py_assert (lo \<le> hi)) (\<lambda>_.
       let raw = (budget - kv_reserve * per_page) div per_expert;
           moe = max lo (min raw hi);
           overlap2 = (overlap \<and> 2 * num_experts \<le> moe);
           remaining = budget - moe * per_expert;
           num_pages = max (remaining div per_page) kv_reserve;
           total_bytes = moe * per_expert + num_pages * per_page
       in res_bind (py_assert (total_bytes \<le> budget)) (\<lambda>_.
          res_bind (py_assert (1 < num_pages)) (\<lambda>_.
            Inr (moe, num_pages, overlap2))))))"

definition resolve_moe_cache_auto ::
  "int \<Rightarrow> int \<Rightarrow> rat \<Rightarrow> int \<Rightarrow> int \<Rightarrow> int \<Rightarrow> int \<Rightarrow> int \<Rightarrow> bool \<Rightarrow> int \<Rightarrow> int \<Rightarrow> string \<Rightarrow> bool \<Rightarrow>
   (int \<times> int \<times> bool) res" where
  "resolve_moe_cache_auto baseline_free weights memory_ratio per_page fixed per_expert num_experts total_experts
     prefill_overlap kv_reserve_tokens page_size quant_format preload_all =
     (let budget = net_cache_budget_bytes memory_ratio baseline_free weights fixed;
          max_slots = (if quant_format = ''nvfp4_marlin'' \<and> \<not> preload_all then 992 else total_experts)
      in if page_size = 0 then Inl ZeroDivisionError
         else plan_cache_budget budget per_expert per_page num_experts total_experts prefill_overlap
                (div_ceil kv_reserve_tokens page_size) max_slots)"

section \<open>Properties\<close>

lemma div_step: "0 < d \<Longrightarrow> x div d * d \<le> x \<and> x < (x div d + 1) * d" for x d :: int
proof -
  assume d: "0 < d"
  have "x div d * d + x mod d = x" by (rule div_mult_mod_eq)
  moreover have "(x div d + 1) * d = x div d * d + d" by (simp add: distrib_right)
  ultimately show ?thesis using d pos_mod_bound[of d x] pos_mod_sign[of d x] by linarith
qed

lemma le_div_int: "0 < d \<Longrightarrow> a * d \<le> x \<Longrightarrow> a \<le> x div d" for a x d :: int
proof -
  assume d: "0 < d" "a * d \<le> x"
  then have "a * d < (x div d + 1) * d" using div_step[of d x] by linarith
  then have "a < x div d + 1" using d(1) by (simp only: mult_less_cancel_right_pos)
  then show ?thesis by simp
qed

lemma plan_eq:
  assumes "0 < pe" "0 < pp" "slot_floor E ov (min T ms) \<le> min T ms"
    and "moe = max (slot_floor E ov (min T ms)) (min ((budget - kr * pp) div pe) (min T ms))"
    and "pages = max ((budget - moe * pe) div pp) kr"
  shows "plan_cache_budget budget pe pp E T ov kr ms =
     (if budget < moe * pe + pages * pp \<or> pages \<le> 1 then Inl AssertionError
      else Inr (moe, pages, ov \<and> 2 * E \<le> min T ms \<and> 2 * E \<le> moe))"
  unfolding plan_cache_budget_def Let_def assms(4)[symmetric] assms(5)[symmetric]
  using assms(1-3) by (simp only: py_assert_def if_True res_bind_simps not_le) (auto simp: res_bind_def)

text \<open>
  C20: a plan fits the budget, respects the slot cap and the reserved pages, keeps the slot floor (one
  expert layer, or two when overlap was asked for and the cap allows it), reports overlap exactly
  when it keeps two for it, and wastes nothing: there is no room for another page, and another
  expert slot would exceed the cap or eat into the reserved pages.
\<close>

theorem plan_sound:
  assumes "plan_cache_budget budget pe pp E T ov kr ms = Inr (moe, pages, ov')" "0 \<le> E"
  shows "required_bytes moe pages pe pp \<le> budget \<and> E \<le> moe \<and> moe \<le> min T ms \<and>
     (ov \<and> 2 * E \<le> min T ms \<longrightarrow> 2 * E \<le> moe) \<and> (ov' \<longleftrightarrow> ov \<and> 2 * E \<le> min T ms) \<and>
     kr \<le> pages \<and> 1 < pages \<and>
     budget < required_bytes moe (pages + 1) pe pp \<and>
     (moe < min T ms \<longrightarrow> budget < required_bytes (moe + 1) kr pe pp)"
proof -
  let ?hi = "min T ms" and ?raw = "(budget - kr * pp) div pe" and ?lo = "slot_floor E ov (min T ms)"
  have pos: "0 < pe" "0 < pp" "?lo \<le> ?hi"
    using assms(1) by (auto simp only: plan_cache_budget_def Let_def res_bind_eq_Inr py_assert_def split: if_splits)
  obtain m pg where mp: "m = max ?lo (min ?raw ?hi)" "pg = max ((budget - m * pe) div pp) kr" by blast
  note run = plan_eq[OF pos mp, unfolded assms(1)]
  then have c: "\<not> (budget < m * pe + pg * pp \<or> pg \<le> 1)"
    by (metis Inl_Inr_False)
  then have e: "moe = m" "pages = pg" "ov' = (ov \<and> 2 * E \<le> ?hi \<and> 2 * E \<le> m)" using run by simp_all
  have p: "moe = max ?lo (min ?raw ?hi)" "pages = max ((budget - moe * pe) div pp) kr"
    unfolding e by (rule mp)+
  have p': "moe * pe + pages * pp \<le> budget" "1 < pages" "ov' = (ov \<and> 2 * E \<le> ?hi \<and> 2 * E \<le> moe)"
    using c unfolding e by simp_all
  note q = div_step[OF pos(2), of "budget - moe * pe"] and r = div_step[OF pos(1), of "budget - kr * pp"]
  have "E \<le> ?lo" using assms(2) by (simp add: slot_floor_def)
  then have moe: "E \<le> moe" "moe \<le> ?hi" using p(1) pos(3) by auto
  have floor: "ov \<and> 2 * E \<le> ?hi \<longrightarrow> 2 * E \<le> moe" unfolding p(1) by (simp add: slot_floor_def)
  have "(budget - moe * pe) div pp * pp \<le> pages * pp" using p(2) pos(2) by simp
  moreover have "((budget - moe * pe) div pp + 1) * pp \<le> (pages + 1) * pp"
    using p(2) pos(2) by (intro mult_right_mono) simp_all
  ultimately have page: "budget < required_bytes moe (pages + 1) pe pp"
    using q by (simp add: required_bytes_def)
  have slot: "budget < required_bytes (moe + 1) kr pe pp" if "moe < ?hi"
  proof -
    have "?raw \<le> moe" using that p(1) by linarith
    then have "(?raw + 1) * pe \<le> (moe + 1) * pe" using pos(1) by (intro mult_right_mono) simp_all
    then show ?thesis using r by (simp add: required_bytes_def)
  qed
  have "kr \<le> pages" unfolding p(2) by simp
  then show ?thesis using p' moe floor page slot by (auto simp: required_bytes_def)
qed

theorem plan_sound_witness:
  "plan_cache_budget 1000 10 7 4 40 True 5 40 = Inr (40, 85, True) \<and> required_bytes 40 85 10 7 \<le> 1000 \<and>
     1000 < required_bytes 40 86 10 7"
proof -
  have run: "plan_cache_budget 1000 10 7 4 40 True 5 40 = Inr (40, 85, True)"
    by (simp add: plan_cache_budget_def slot_floor_def Let_def py_assert_def)
  from plan_sound[OF this] show ?thesis using run by simp
qed

text \<open>
  C21: with at least two reserved pages, planning succeeds exactly when the smallest plan, the slot
  floor and the reserved pages, fits the budget; otherwise it raises an assertion error.
\<close>

theorem plan_complete:
  assumes "0 < pe" "0 < pp" "2 \<le> kr" "slot_floor E ov (min T ms) \<le> min T ms"
  shows "plan_cache_budget budget pe pp E T ov kr ms =
     (if required_bytes (slot_floor E ov (min T ms)) kr pe pp \<le> budget
      then Inr (max (slot_floor E ov (min T ms)) (min ((budget - kr * pp) div pe) (min T ms)),
                (budget - max (slot_floor E ov (min T ms)) (min ((budget - kr * pp) div pe) (min T ms)) * pe) div pp,
                ov \<and> 2 * E \<le> min T ms)
      else Inl AssertionError)"
proof -
  let ?lo = "slot_floor E ov (min T ms)" and ?hi = "min T ms" and ?raw = "(budget - kr * pp) div pe"
  obtain moe where moe: "moe = max ?lo (min ?raw ?hi)" by blast
  obtain pages where pages: "pages = max ((budget - moe * pe) div pp) kr" by blast
  note eq = plan_eq[OF assms(1,2,4) moe pages]
  note r = div_step[OF assms(1), of "budget - kr * pp"] and q = div_step[OF assms(2), of "budget - moe * pe"]
  have lo: "?lo \<le> moe" "kr \<le> pages" unfolding moe pages by simp_all
  show ?thesis
  proof (cases "required_bytes ?lo kr pe pp \<le> budget")
    case True
    then have "?lo * pe \<le> budget - kr * pp" by (simp add: required_bytes_def)
    then have "?lo \<le> ?raw" using assms(1) by (intro le_div_int)
    then have "moe \<le> ?raw" unfolding moe using assms(4) by (intro max.boundedI min.cobounded1)
    then have "moe * pe \<le> ?raw * pe" using assms(1) by (intro mult_right_mono) simp_all
    then have "kr * pp \<le> budget - moe * pe" using r by linarith
    then have le: "kr \<le> (budget - moe * pe) div pp" using assms(2) by (intro le_div_int)
    then have pg: "pages = (budget - moe * pe) div pp" unfolding pages by (rule max_absorb1)
    have "\<not> budget < moe * pe + pages * pp" "\<not> pages \<le> 1" using q le assms(3) unfolding pg by linarith+
    then have c: "(budget < moe * pe + pages * pp \<or> pages \<le> 1) = False" by blast
    have "ov \<Longrightarrow> 2 * E \<le> ?hi \<Longrightarrow> ?lo = 2 * E" by (simp add: slot_floor_def)
    then have o: "(ov \<and> 2 * E \<le> ?hi \<and> 2 * E \<le> moe) = (ov \<and> 2 * E \<le> ?hi)" using lo(1) by metis
    show ?thesis using True eq unfolding pg o c[unfolded pg] if_False moe[symmetric] by (simp only: if_True)
  next
    case False
    have "?lo * pe \<le> moe * pe" "kr * pp \<le> pages * pp"
      using assms(1,2) lo by (intro mult_right_mono; simp)+
    then have "budget < moe * pe + pages * pp" using False unfolding required_bytes_def by linarith
    then have "(budget < moe * pe + pages * pp \<or> pages \<le> 1) = True" by blast
    then show ?thesis using False eq by (simp only: if_True if_False)
  qed
qed

theorem plan_complete_witness:
  "plan_cache_budget 100 10 7 4 40 True 5 40 = Inl AssertionError"
  using plan_complete[of 10 7 5 4 True 40 40 100] by (simp add: slot_floor_def required_bytes_def)

end
