(* ===== verification/Policy.thy ===== *)
theory Policy
  imports CacheBudget
begin

text \<open>
  \<open>SchedulingPolicy\<close> of \<open>runtime/scheduler/policy.py\<close>: the choice between a prefill and a decode pass,
  and its coordination over tensor-parallel ranks.  Times are rational numbers; values that are
  not finite are outside the model.  The collectives of the process group are the standard ones:
  every rank receives rank zero's packet, and the votes are added up.
\<close>

section \<open>The choice\<close>

datatype decision_phase = PIdle | PPrefill | PDecode

datatype reason = RIdle | RDecodeOnly | RBaseline | RPrefillOnly | RDecoderService | RPrefillService
  | ROutputAge | RFitsDeliveryBudget

record decision =
  d_phase :: decision_phase
  d_budget :: int
  d_reason :: reason

definition mk_decision :: "decision_phase \<Rightarrow> int \<Rightarrow> reason \<Rightarrow> decision" where
  "mk_decision p b r = \<lparr>d_phase = p, d_budget = b, d_reason = r\<rparr>"

datatype policy_mode = Baseline | Latency

record policy =
  mode :: policy_mode
  delivery_budget :: rat
  prefill_service_bound :: rat
  last_phase :: "decision_phase option"
  last_prefill :: "rat option"

definition policy_init :: "string \<Rightarrow> rat \<Rightarrow> rat \<Rightarrow> policy res" where
  "policy_init m delivery bound =
     (if m \<noteq> ''baseline'' \<and> m \<noteq> ''latency'' then Inl ValueError
      else if delivery \<le> 0 \<or> bound \<le> 0 then Inl ValueError
      else Inr \<lparr>mode = (if m = ''latency'' then Latency else Baseline), delivery_budget = delivery,
             prefill_service_bound = bound, last_phase = None, last_prefill = None\<rparr>)"

record policy_inputs =
  now :: rat
  pending :: bool
  decoders :: bool
  oldest_queue_age :: rat
  output_age :: rat
  prefill_budget :: int
  alignment :: int
  prefill_seconds :: rat
  decode_seconds :: rat
  atomic_prompt :: bool

definition queue_age :: "policy \<Rightarrow> policy_inputs \<Rightarrow> rat" where
  "queue_age p i = (case last_prefill p of
     Some t \<Rightarrow> min (oldest_queue_age i) (now i - t) | None \<Rightarrow> oldest_queue_age i)"

definition slack_budget :: "policy \<Rightarrow> policy_inputs \<Rightarrow> int" where
  "slack_budget p i =
     (let slack = max (delivery_budget p - output_age i - decode_seconds i) 0
      in py_int (of_int (prefill_budget i) * min 1 (slack / max (prefill_seconds i) (1 / 1000000))))"

definition policy_choose :: "policy \<Rightarrow> policy_inputs \<Rightarrow> decision res" where
  "policy_choose p i =
     (if \<not> pending i then
        Inr (mk_decision (if decoders i then PDecode else PIdle) 0 (if decoders i then RDecodeOnly else RIdle))
      else if mode p = Baseline \<or> \<not> decoders i then
        Inr (mk_decision PPrefill (prefill_budget i) (if mode p = Baseline then RBaseline else RPrefillOnly))
      else if last_phase p = Some PPrefill then Inr (mk_decision PDecode 0 RDecoderService)
      else
        let (ph, r) = (if prefill_service_bound p \<le> queue_age p i then (PPrefill, RPrefillService)
                       else if delivery_budget p < output_age i + prefill_seconds i + decode_seconds i
                       then (PDecode, ROutputAge) else (PPrefill, RFitsDeliveryBudget))
        in if ph = PDecode then Inr (mk_decision ph 0 r)
           else if atomic_prompt i then Inr (mk_decision PPrefill (prefill_budget i) r)
           else if alignment i = 0 then Inl ZeroDivisionError
           else let b = max (alignment i) (slack_budget p i)
                in Inr (mk_decision PPrefill
                     (min (prefill_budget i) (max (alignment i) (b div alignment i * alignment i))) r))"

definition dispatched :: "decision_phase \<Rightarrow> rat \<Rightarrow> policy \<Rightarrow> policy" where
  "dispatched ph t p =
     (let p1 = p\<lparr>last_phase := Some (if ph = PPrefill then PPrefill else PDecode)\<rparr>
      in if ph = PPrefill then p1\<lparr>last_prefill := Some t\<rparr> else p1)"

section \<open>Coordination\<close>

definition service_time :: "policy \<Rightarrow> policy_inputs \<Rightarrow> rat" where
  "service_time p i = max (1 / 1000) (delivery_budget p - output_age i)"

text \<open>Rank zero broadcasts five numbers: a status, phase, budget, reason and service time.\<close>

type_synonym packet = "rat list"

definition phases :: "decision_phase list" where
  "phases = [PIdle, PPrefill, PDecode]"

definition reasons :: "reason list" where
  "reasons = [RIdle, RDecodeOnly, RBaseline, RPrefillOnly, RDecoderService, RPrefillService, ROutputAge,
     RFitsDeliveryBudget]"

fun index_of :: "'a \<Rightarrow> 'a list \<Rightarrow> nat" where
  "index_of x [] = 0"
| "index_of x (y # ys) = (if x = y then 0 else Suc (index_of x ys))"

definition select_packet :: "policy \<Rightarrow> policy_inputs \<Rightarrow> packet" where
  "select_packet p i =
     (case policy_choose p i of
        Inl e \<Rightarrow> [-1, 0, 0, 0, 0]
      | Inr d \<Rightarrow> [1, of_nat (index_of (d_phase d) phases), of_int (d_budget d),
                  of_nat (index_of (d_reason d) reasons), service_time p i])"

definition whole :: "rat \<Rightarrow> bool" where
  "whole v = (v = of_int \<lfloor>v\<rfloor>)"

text \<open>Reading a packet; \<open>None\<close> stands for the caught \<open>ValueError\<close>.\<close>

definition decode_packet :: "packet \<Rightarrow> (decision \<times> rat) option" where
  "decode_packet packet =
     (case packet of
        [status, phase, budget, reason, service] \<Rightarrow>
          if \<not> (whole phase \<and> whole budget \<and> whole reason) then None
          else if \<not> (0 \<le> phase \<and> phase < 3 \<and> 0 \<le> reason \<and> reason < 8) then None
          else Some (mk_decision (phases ! nat \<lfloor>phase\<rfloor>) \<lfloor>budget\<rfloor> (reasons ! nat \<lfloor>reason\<rfloor>), service)
      | _ \<Rightarrow> None)"

text \<open>The check that a rank makes on the packet it received; \<open>alignment\<close> zero makes it raise, and
  the handler counts that as a rejection.\<close>

definition valid_decision :: "policy_inputs \<Rightarrow> decision \<Rightarrow> rat \<Rightarrow> bool" where
  "valid_decision i d service \<longleftrightarrow> 0 < service \<and>
     (case d_phase d of
        PPrefill \<Rightarrow> pending i \<and> 0 < d_budget d \<and> d_budget d \<le> prefill_budget i \<and>
          (if atomic_prompt i then d_budget d = prefill_budget i
           else d_budget d \<noteq> prefill_budget i \<longrightarrow> alignment i \<noteq> 0 \<and> d_budget d mod alignment i = 0)
      | PDecode \<Rightarrow> decoders i \<and> d_budget d = 0
      | PIdle \<Rightarrow> \<not> pending i \<and> \<not> decoders i \<and> d_budget d = 0)"

definition rank_vote :: "packet \<Rightarrow> policy_inputs \<Rightarrow> bool" where
  "rank_vote packet i =
     (case decode_packet packet of None \<Rightarrow> False | Some (d, service) \<Rightarrow> valid_decision i d service)"

text \<open>
  \<open>choose_coordinated\<close> on one rank: \<open>tp\<close> is the size in \<open>tp_info\<close>, \<open>grouped\<close> says whether there is a
  process group, and \<open>packet\<close> and \<open>votes\<close> are what the two collectives deliver.
\<close>

definition choose_coordinated ::
  "nat option \<Rightarrow> bool \<Rightarrow> packet \<Rightarrow> nat \<Rightarrow> policy \<Rightarrow> policy_inputs \<Rightarrow> (decision \<times> rat option) res" where
  "choose_coordinated tp grouped packet votes p i =
     (if mode p \<noteq> Latency \<or> tp = None \<or> tp = Some 1 then
        res_bind (policy_choose p i) (\<lambda>d. Inr (d, if mode p = Latency then Some (service_time p i) else None))
      else if \<not> grouped then Inl RuntimeError
      else if hd packet \<noteq> 1 then Inl RuntimeError
      else if votes \<noteq> the tp then Inl RuntimeError
      else case decode_packet packet of
        None \<Rightarrow> Inl RuntimeError
      | Some (d, service) \<Rightarrow> Inr (d, Some service))"

text \<open>All ranks of a group, rank zero first: the broadcast delivers its packet to everyone and the
  reduction the number of ranks that accept it.\<close>

definition coordinate :: "(policy \<times> policy_inputs) list \<Rightarrow> (decision \<times> rat option) res list" where
  "coordinate ranks =
     (let packet = select_packet (fst (hd ranks)) (snd (hd ranks));
          votes = length (filter (\<lambda>(p, i). rank_vote packet i) ranks)
      in map (\<lambda>(p, i). choose_coordinated (Some (length ranks)) True packet votes p i) ranks)"

section \<open>Lemmas\<close>

lemma choose_total: "alignment i \<noteq> 0 \<Longrightarrow> \<exists>d. policy_choose p i = Inr d"
  by (auto simp: policy_choose_def Let_def split: if_splits)

lemma choose_valid:
  assumes c: "policy_choose p i = Inr d" and b: "0 < prefill_budget i" "0 < alignment i"
  shows "valid_decision i d (service_time p i)"
proof -
  have s: "0 < service_time p i" by (simp add: service_time_def less_max_iff_disj)
  consider (fixed) "d_phase d = PPrefill" "pending i" "d_budget d = prefill_budget i"
    | (part) k where "d_phase d = PPrefill" "pending i" "\<not> atomic_prompt i"
        "d_budget d = min (prefill_budget i) (max (alignment i) (k * alignment i))"
    | (dec) "d_phase d = PDecode" "decoders i" "d_budget d = 0"
    | (idle) "d_phase d = PIdle" "\<not> pending i" "\<not> decoders i" "d_budget d = 0"
  proof (cases "pending i \<and> mode p \<noteq> Baseline \<and> decoders i \<and> last_phase p \<noteq> Some PPrefill")
    case False
    then show ?thesis using c that(1,3,4)
      by (cases "pending i"; cases "mode p = Baseline \<or> \<not> decoders i"; cases "decoders i")
        (auto simp: policy_choose_def mk_decision_def)
  next
    case True
    let ?k = "max (alignment i) (slack_budget p i) div alignment i"
    have "d = mk_decision PDecode 0 ROutputAge \<or> (\<exists>r. d = mk_decision PPrefill (prefill_budget i) r) \<or>
        \<not> atomic_prompt i \<and>
          (\<exists>r. d = mk_decision PPrefill (min (prefill_budget i) (max (alignment i) (?k * alignment i))) r)"
      using c True b(2) by (simp add: policy_choose_def Let_def split: if_splits) metis+
    then show ?thesis using True that(1,2,3) by (auto simp: mk_decision_def)
  qed
  then show ?thesis
  proof cases
    case part
    have "max (alignment i) (k * alignment i) mod alignment i = 0" by (simp add: max_def)
    then have "d_budget d \<noteq> prefill_budget i \<Longrightarrow> d_budget d mod alignment i = 0"
      unfolding part(4) by (simp add: min_def split: if_splits)
    moreover have "0 < d_budget d" "d_budget d \<le> prefill_budget i"
      unfolding part(4) using b by (simp_all add: less_max_iff_disj)
    ultimately show ?thesis using part s b by (simp add: valid_decision_def)
  qed (use s b in \<open>simp_all add: valid_decision_def\<close>)
qed

section \<open>Properties\<close>

text \<open>
  C22: in latency mode a prefill is never followed by another prefill while requests decode, whatever
  the ages and the budgets are; and when the last pass was not a prefill, a request that has
  waited for the service bound gets one.
\<close>

theorem policy_alternates:
  assumes "mode p = Latency" "decoders i" "pending i" "0 < alignment i"
  shows "(last_phase p = Some PPrefill \<longrightarrow> (\<exists>d. policy_choose p i = Inr d \<and> d_phase d = PDecode \<and>
       last_phase (dispatched (d_phase d) (now i) p) \<noteq> Some PPrefill)) \<and>
     (last_phase p \<noteq> Some PPrefill \<and> prefill_service_bound p \<le> queue_age p i \<longrightarrow>
       (\<exists>d. policy_choose p i = Inr d \<and> d_phase d = PPrefill \<and>
          last_phase (dispatched (d_phase d) (now i) p) = Some PPrefill \<and>
          last_prefill (dispatched (d_phase d) (now i) p) = Some (now i)))"
  using assms by (auto simp: policy_choose_def dispatched_def mk_decision_def Let_def)

definition demo_policy :: policy where
  "demo_policy = \<lparr>mode = Latency, delivery_budget = 1 / 10, prefill_service_bound = 1,
     last_phase = Some PPrefill, last_prefill = Some 3\<rparr>"

definition demo_inputs :: policy_inputs where
  "demo_inputs = \<lparr>now = 5, pending = True, decoders = True, oldest_queue_age = 2, output_age = 0,
     prefill_budget = 1000, alignment = 64, prefill_seconds = 1 / 4, decode_seconds = 1 / 20,
     atomic_prompt = False\<rparr>"

theorem policy_alternates_witness:
  "\<exists>d d'. policy_choose demo_policy demo_inputs = Inr d \<and> d_phase d = PDecode \<and>
     policy_choose (demo_policy\<lparr>last_phase := Some PDecode\<rparr>) demo_inputs = Inr d' \<and> d_phase d' = PPrefill"
  using policy_alternates[of demo_policy demo_inputs]
    policy_alternates[of "demo_policy\<lparr>last_phase := Some PDecode\<rparr>" demo_inputs]
  by (auto simp: demo_policy_def demo_inputs_def queue_age_def)

lemma nth_index_of: "x \<in> set xs \<Longrightarrow> xs ! index_of x xs = x \<and> index_of x xs < length xs"
  by (induction xs) auto

lemma whole_of_int [simp]: "whole (of_int n)" "whole (of_nat k)"
  by (simp_all add: whole_def)

lemma decode_select:
  "policy_choose p i = Inr d \<Longrightarrow> decode_packet (select_packet p i) = Some (d, service_time p i)"
proof -
  assume d: "policy_choose p i = Inr d"
  have "d_phase d \<in> set phases" by (cases "d_phase d") (simp_all add: phases_def)
  then have ph: "phases ! index_of (d_phase d) phases = d_phase d" "index_of (d_phase d) phases < 3"
    using nth_index_of by (fastforce simp: phases_def)+
  have "d_reason d \<in> set reasons" by (cases "d_reason d") (simp_all add: reasons_def)
  then have re: "reasons ! index_of (d_reason d) reasons = d_reason d" "index_of (d_reason d) reasons < 8"
    using nth_index_of by (fastforce simp: reasons_def)+
  have "(of_nat (index_of (d_phase d) phases) :: rat) < 3" "(of_nat (index_of (d_reason d) reasons) :: rat) < 8"
    using ph(2) re(2) by (metis of_nat_less_iff of_nat_numeral)+
  moreover have "nat \<lfloor>of_nat k :: rat\<rfloor> = k" for k by simp
  moreover have "mk_decision (d_phase d) (d_budget d) (d_reason d) = d" by (simp add: mk_decision_def)
  ultimately show ?thesis using ph(1) re(1) d by (simp add: decode_packet_def select_packet_def)
qed

text \<open>What a rank with inputs \<open>i\<close> can execute: the meaning of the check a rank votes on.\<close>

definition can_run :: "policy_inputs \<Rightarrow> decision \<Rightarrow> bool" where
  "can_run i d \<longleftrightarrow>
     (d_phase d = PPrefill \<longrightarrow> pending i \<and> 0 < d_budget d \<and> d_budget d \<le> prefill_budget i \<and>
        (d_budget d < prefill_budget i \<longrightarrow> \<not> atomic_prompt i \<and> alignment i dvd d_budget d)) \<and>
     (d_phase d = PDecode \<longrightarrow> decoders i \<and> d_budget d = 0) \<and>
     (d_phase d = PIdle \<longrightarrow> \<not> pending i \<and> \<not> decoders i \<and> d_budget d = 0)"

lemma valid_can_run: "0 < service \<Longrightarrow> valid_decision i d service \<longleftrightarrow> can_run i d"
  by (cases "d_phase d") (auto simp: valid_decision_def can_run_def dvd_eq_mod_eq_0)

lemma service_time_pos: "0 < service_time p i"
  by (simp add: service_time_def less_max_iff_disj)

text \<open>
  C23: coordination of two or more ranks in latency mode, with arbitrary inputs on each.  All ranks
  get the same result: the choice of rank zero with its service time if every rank can execute it,
  and a raised error if some rank cannot or rank zero cannot choose.  A rank can execute a prefill
  if it has pending work and the budget is positive, within its own budget and, unless it is that whole
  budget, aligned and not for an atomic prompt; a decode if it has decoders; and idle only if it
  has no work.  With a positive budget and alignment rank zero always chooses, and something
  it can execute itself, so ranks that see the envelope of rank zero never raise.
\<close>

theorem coordination_agrees:
  assumes "2 \<le> length ranks" "\<forall>(p, i)\<in>set ranks. mode p = Latency"
    and "(p0, i0) = hd ranks"
  shows "coordinate ranks = replicate (length ranks)
       (case policy_choose p0 i0 of
          Inr d \<Rightarrow> if \<forall>(p, i)\<in>set ranks. can_run i d then Inr (d, Some (service_time p0 i0)) else Inl RuntimeError
        | Inl e \<Rightarrow> Inl RuntimeError) \<and>
     (0 < prefill_budget i0 \<and> 0 < alignment i0 \<longrightarrow> (\<exists>d. policy_choose p0 i0 = Inr d \<and> can_run i0 d))"
proof -
  let ?pk = "select_packet p0 i0"
  let ?votes = "length (filter (\<lambda>(p, i). rank_vote ?pk i) ranks)"
  have hd0: "fst (hd ranks) = p0" "snd (hd ranks) = i0" using assms(3) by (metis fst_conv snd_conv)+
  define r where "r = (if hd ?pk \<noteq> 1 \<or> ?votes \<noteq> length ranks then Inl RuntimeError
      else case decode_packet ?pk of None \<Rightarrow> Inl RuntimeError | Some (d, service) \<Rightarrow> Inr (d, Some service))"
  have "choose_coordinated (Some (length ranks)) True ?pk ?votes p i = r" if "(p, i) \<in> set ranks" for p i
    using that assms(1,2) by (auto simp: choose_coordinated_def r_def)
  then have "coordinate ranks = map (\<lambda>x. r) ranks" unfolding coordinate_def Let_def hd0 by (auto intro!: map_cong)
  then have all: "coordinate ranks = replicate (length ranks) r" by (simp add: map_replicate_const)
  have votes: "?votes = length ranks \<longleftrightarrow> (\<forall>(p, i)\<in>set ranks. rank_vote ?pk i)"
    by (metis (no_types, lifting) filter_id_conv length_filter_less linorder_neq_iff)
  have "r = (case policy_choose p0 i0 of
      Inr d \<Rightarrow> if \<forall>(p, i)\<in>set ranks. can_run i d then Inr (d, Some (service_time p0 i0)) else Inl RuntimeError
    | Inl e \<Rightarrow> Inl RuntimeError)"
  proof (cases "policy_choose p0 i0")
    case (Inl e)
    then show ?thesis by (simp add: r_def select_packet_def)
  next
    case (Inr d)
    have "hd ?pk = 1" using Inr by (simp add: select_packet_def)
    moreover have "rank_vote ?pk i = can_run i d" for i
      by (simp add: rank_vote_def decode_select[OF Inr] valid_can_run[OF service_time_pos])
    ultimately show ?thesis using votes by (simp add: r_def decode_select[OF Inr] Inr)
  qed
  moreover have "\<exists>d. policy_choose p0 i0 = Inr d \<and> can_run i0 d" if "0 < prefill_budget i0" "0 < alignment i0"
    using choose_total[of i0 p0] choose_valid[OF _ that, of p0] that valid_can_run[OF service_time_pos, of i0 _ p0 i0]
    by fastforce
  ultimately show ?thesis using all by simp
qed

theorem coordination_agrees_witness:
  "\<exists>r. coordinate [(demo_policy, demo_inputs), (demo_policy, demo_inputs\<lparr>decoders := False\<rparr>)] = [r, r] \<and>
     r = Inl RuntimeError"
proof -
  let ?ranks = "[(demo_policy, demo_inputs), (demo_policy, demo_inputs\<lparr>decoders := False\<rparr>)]"
  have a: "2 \<le> length ?ranks" "\<forall>(p, i)\<in>set ?ranks. mode p = Latency" "(demo_policy, demo_inputs) = hd ?ranks"
    by (simp_all add: demo_policy_def)
  have c: "policy_choose demo_policy demo_inputs = Inr (mk_decision PDecode 0 RDecoderService)"
    by (simp add: policy_choose_def demo_policy_def demo_inputs_def)
  have n: "\<not> (\<forall>(p, i)\<in>set ?ranks. can_run i (mk_decision PDecode 0 RDecoderService))"
    by (simp add: can_run_def mk_decision_def)
  show ?thesis using coordination_agrees[OF a] n unfolding c by (auto simp: numeral_2_eq_2)
qed

end
