(* ===== verification/Speculation.thy ===== *)
theory Speculation
  imports CacheBudget
begin

text \<open>
  \<open>SpeculationPolicy\<close> of \<open>runtime/scheduler/speculation.py\<close> and the preparation of its depths in
  \<open>AdaptiveDFlash.from_env\<close> of \<open>runtime/engine/adaptive_dflash.py\<close>.  Times and the hysteresis are
  rational numbers.  A bounded deque is a list that drops its oldest entries; the costs are a
  function from depths, of which only the prepared ones are used.
\<close>

section \<open>State\<close>

record spec_policy =
  depths :: "nat list"
  fixed_depth :: nat
  source :: string
  window :: nat
  hysteresis :: rat
  refresh_interval :: nat
  acceptance :: "bool list list"
  costs :: "nat \<Rightarrow> rat list"
  rounds :: nat
  last_depth :: nat
  probe_cursor :: nat
  last_probe_round :: int

definition spec_init ::
  "nat list \<Rightarrow> nat \<Rightarrow> string \<Rightarrow> nat \<Rightarrow> nat \<Rightarrow> rat \<Rightarrow> spec_policy res" where
  "spec_init prepared fixed src win refresh hyst =
     (let ds = sorted_list_of_set (set prepared) in
      if ds = [] \<or> 0 \<notin> set ds \<or> fixed \<notin> set ds \<or> (\<exists>d\<in>set ds. 16 < d) \<or> src \<noteq> ''dflash2'' \<or>
         win < 4 \<or> 128 < win \<or> refresh < 4 \<or> 128 < refresh \<or> hyst < 0 \<or> 1 / 2 < hyst
      then Inl ValueError
      else Inr \<lparr>depths = ds, fixed_depth = fixed, source = src, window = win, hysteresis = hyst,
             refresh_interval = refresh, acceptance = replicate (Max (set ds)) [], costs = (\<lambda>_. []),
             rounds = 0, last_depth = fixed, probe_cursor = 0, last_probe_round = -1\<rparr>)"

section \<open>Observation\<close>

fun accept_samples :: "nat \<Rightarrow> nat \<Rightarrow> bool list list \<Rightarrow> bool list list" where
  "accept_samples win 0 acc = acc"
| "accept_samples win (Suc k) acc =
     (let acc1 = accept_samples win k acc in acc1[k := deque_append win True (acc1 ! k)])"

definition observe :: "nat \<Rightarrow> nat \<Rightarrow> rat \<Rightarrow> string \<Rightarrow> spec_policy \<Rightarrow> spec_policy res" where
  "observe proposed accepted seconds src p =
     (if proposed \<notin> set (depths p) \<or> proposed < accepted \<or> src \<noteq> source p \<or> seconds \<le> 0 then Inl ValueError
      else let acc1 = accept_samples (window p) accepted (acceptance p);
               acc2 = (if accepted < proposed
                       then acc1[accepted := deque_append (window p) False (acc1 ! accepted)] else acc1)
           in Inr (p\<lparr>acceptance := acc2,
                     costs := (costs p)(proposed := deque_append (window p) seconds (costs p proposed)),
                     rounds := rounds p + 1\<rparr>))"

fun progress_loop :: "bool list list \<Rightarrow> rat \<Rightarrow> rat \<Rightarrow> rat" where
  "progress_loop [] progress reach = progress"
| "progress_loop (samples # rest) progress reach =
     (let reach1 = reach * ((1 + of_nat (length (filter id samples))) / (2 + of_nat (length samples)))
      in progress_loop rest (progress + reach1) reach1)"

definition expected_progress :: "nat \<Rightarrow> spec_policy \<Rightarrow> rat res" where
  "expected_progress d p =
     (if d \<notin> set (depths p) then Inl ValueError else Inr (progress_loop (take d (acceptance p)) 1 1))"


section \<open>Choice\<close>





definition missing_depths :: "nat list \<Rightarrow> spec_policy \<Rightarrow> nat list" where
  "missing_depths legal p = filter (\<lambda>d. costs p d = []) legal"


definition note_probe :: "nat list \<Rightarrow> spec_policy \<Rightarrow> spec_policy" where
  "note_probe legal p =
     p\<lparr>probe_cursor := (if missing_depths legal p = [] then probe_cursor p + 1 else probe_cursor p),
       last_probe_round := int (rounds p)\<rparr>"

text \<open>\<open>max\<close> with the key \<open>(score, -depth)\<close> over ascending depths: the first best one.\<close>

fun best_score :: "(nat \<times> rat) \<Rightarrow> (nat \<times> rat) list \<Rightarrow> nat \<times> rat" where
  "best_score b [] = b"
| "best_score b (x # xs) = best_score (if snd b < snd x then x else b) xs"

definition depth_score :: "spec_policy \<Rightarrow> nat \<times> rat \<Rightarrow> nat \<times> rat" where
  "depth_score p = (\<lambda>(d, c). (d, projr (expected_progress d p) / c))"

definition pick_depth :: "(nat \<times> rat) list \<Rightarrow> spec_policy \<Rightarrow> nat" where
  "pick_depth measured p =
     (let scores = map (depth_score p) measured;
          (best, s) = best_score (hd scores) (tl scores)
      in case map_of scores (last_depth p) of
           Some cur \<Rightarrow> if s \<le> cur * (1 + hysteresis p) then last_depth p else best
         | None \<Rightarrow> best)"


section \<open>Preparation\<close>

text \<open>
  \<open>from_env\<close> for a configuration that passes its static requirements: the depths from the
  environment variable, or the default ones, and the forced depth.
\<close>

record dflash =
  df_depths :: "nat list"
  df_fixed :: nat
  df_override :: "nat option"

definition dflash_depths :: "int \<Rightarrow> int list option \<Rightarrow> int list" where
  "dflash_depths maximum raw =
     (case raw of
        Some ds \<Rightarrow> sorted_list_of_set (set ds)
      | None \<Rightarrow> sorted_list_of_set {0, min 3 maximum, min 7 maximum, maximum})"

definition dflash_from_env ::
  "string \<Rightarrow> bool \<Rightarrow> int \<Rightarrow> int list option \<Rightarrow> int option \<Rightarrow> dflash option res" where
  "dflash_from_env mode supported maximum raw forced =
     (if mode = ''fixed'' then Inr None
      else if mode \<noteq> ''cost'' then Inl ValueError
      else if \<not> supported \<or> maximum < 3 then Inl ValueError
      else let ds = dflash_depths maximum raw in
        if length ds < 2 \<or> 4 < length ds \<or> 0 \<notin> set ds \<or> maximum \<notin> set ds \<or>
           (\<exists>d\<in>set ds. d \<noteq> 0 \<and> (d < 3 \<or> maximum < d)) then Inl ValueError
        else if (case forced of Some f \<Rightarrow> f \<notin> set ds | None \<Rightarrow> False) then Inl ValueError
        else Inr (Some \<lparr>df_depths = map nat ds, df_fixed = nat maximum, df_override = map_option nat forced\<rparr>))"

definition dflash_policy :: "dflash \<Rightarrow> spec_policy res" where
  "dflash_policy a = spec_init (df_depths a) (df_fixed a) ''dflash2'' 64 16 (1 / 20)"

section \<open>Invariant\<close>

definition spec_ok :: "spec_policy \<Rightarrow> bool" where
  "spec_ok p \<longleftrightarrow> sorted_wrt (<) (depths p) \<and> 0 \<in> set (depths p) \<and> fixed_depth p \<in> set (depths p) \<and>
     last_depth p \<in> set (depths p) \<and> length (acceptance p) = Max (set (depths p)) \<and> 4 \<le> window p \<and>
     (\<forall>a\<in>set (acceptance p). length a \<le> window p) \<and> 0 \<le> hysteresis p \<and>
     (\<forall>d\<in>set (depths p). length (costs p d) \<le> window p \<and> (\<forall>c\<in>set (costs p d). 0 < c))"

lemma accept_samples_ok:
  assumes "\<forall>a\<in>set acc. length a \<le> w" "0 < w"
  shows "length (accept_samples w k acc) = length acc \<and> (\<forall>a\<in>set (accept_samples w k acc). length a \<le> w)"
proof (induction k)
  case (Suc k)
  let ?acc = "accept_samples w k acc"
  have "length (deque_append w True (?acc ! k)) \<le> w" if "k < length ?acc"
    using Suc that assms(2) by (simp add: nth_mem)
  then have "length a \<le> w" if "a \<in> set (?acc[k := deque_append w True (?acc ! k)])" for a
    using that Suc set_update_subset_insert[of ?acc k "deque_append w True (?acc ! k)"]
    by (cases "k < length ?acc") (auto simp: list_update_beyond)
  then show ?case using Suc by (simp add: Let_def)
qed (use assms in simp)

lemma spec_init_ok: "spec_init ds f src w r h = Inr p \<Longrightarrow> spec_ok p"
  by (auto simp: spec_init_def spec_ok_def Let_def split: if_splits)

section \<open>Lemmas on the choice\<close>






lemma note_probe_simps [simp]:
  "spec_ok (note_probe l p) = spec_ok p" "depths (note_probe l p) = depths p"
  by (simp_all add: spec_ok_def note_probe_def)

lemma pick_note_probe [simp]: "pick_depth ms (note_probe l p) = pick_depth ms p"
proof -
  have "depth_score (note_probe l p) = depth_score p" "last_depth (note_probe l p) = last_depth p"
    "hysteresis (note_probe l p) = hysteresis p"
    by (simp_all add: depth_score_def expected_progress_def note_probe_def fun_eq_iff)
  then show ?thesis by (simp add: pick_depth_def Let_def split: option.split prod.split)
qed





section \<open>Properties\<close>


definition demo_spec :: spec_policy where
  "demo_spec = projr (spec_init [7, 0, 3] 7 ''dflash2'' 64 16 (1 / 20))"

lemma demo_spec_eval: "spec_init [7, 0, 3] 7 ''dflash2'' 64 16 (1 / 20) = Inr demo_spec" "depths demo_spec = [0, 3, 7]"
  by (simp_all add: demo_spec_def spec_init_def Let_def)


lemma accept_samples_nth:
  "j < length acc \<Longrightarrow> accept_samples w k acc ! j = (if j < k then deque_append w True (acc ! j) else acc ! j)"
  "length (accept_samples w k acc) = length acc"
proof (induction k)
  case (Suc k)
  { case 1 then show ?case using Suc by (cases "j = k") (simp_all add: Let_def)
  next
    case 2 then show ?case using Suc by (simp add: Let_def) }
qed simp_all

text \<open>
  C25: an observation is atomic.  An invalid one raises.  A valid one keeps the invariant and changes just
  this: every accepted position gets a success, the first rejected one, if there is any, a failure,
  and the positions behind it stay as they were, because nothing was learnt about them; the
  proposed depth gets the measured time; each history keeps its last \<open>window\<close> entries; and the
  number of rounds grows by one.
\<close>

theorem observe_atomic:
  assumes ok: "spec_ok p"
  shows "(if n \<in> set (depths p) \<and> k \<le> n \<and> src = source p \<and> 0 < sec
     then \<exists>p'. observe n k sec src p = Inr p' \<and> spec_ok p' \<and>
       p' = p\<lparr>acceptance := acceptance p', costs := costs p', rounds := rounds p + 1\<rparr> \<and>
       length (acceptance p') = length (acceptance p) \<and>
       (\<forall>j < length (acceptance p). acceptance p' ! j =
          (let h = acceptance p ! j @ (if j < k then [True] else if j = k \<and> k < n then [False] else [])
           in drop (length h - window p) h)) \<and>
       (\<forall>d. d \<noteq> n \<longrightarrow> costs p' d = costs p d) \<and>
       costs p' n = drop (length (costs p n @ [sec]) - window p) (costs p n @ [sec])
     else observe n k sec src p = Inl ValueError)"
proof (cases "n \<in> set (depths p) \<and> k \<le> n \<and> src = source p \<and> 0 < sec")
  case False
  then show ?thesis by (auto simp: observe_def)
next
  case True
  let ?a1 = "accept_samples (window p) k (acceptance p)"
  let ?a2 = "if k < n then ?a1[k := deque_append (window p) False (?a1 ! k)] else ?a1"
  let ?c = "deque_append (window p) sec (costs p n)"
  let ?p = "p\<lparr>acceptance := ?a2, costs := (costs p)(n := ?c), rounds := rounds p + 1\<rparr>"
  have run: "observe n k sec src p = Inr ?p" using True by (simp add: observe_def Let_def)
  have w: "0 < window p" and a: "\<forall>a\<in>set (acceptance p). length a \<le> window p" using ok by (simp_all add: spec_ok_def)
  note A = accept_samples_ok[OF a w, of k]
  have "n \<le> Max (set (depths p))" using True by simp
  then have kl: "k < n \<Longrightarrow> k < length ?a1" using A ok by (simp add: spec_ok_def)
  have a2: "length ?a2 = length (acceptance p) \<and> (\<forall>a\<in>set ?a2. length a \<le> window p)"
    using A kl w by (auto dest!: set_update_subset_insert[THEN subsetD] simp: nth_mem)
  have c: "length ?c \<le> window p" "\<forall>x\<in>set ?c. 0 < x"
    using ok True set_deque_append[of "window p" sec "costs p n"] by (auto simp: spec_ok_def)
  have "?a2 ! j = (let h = acceptance p ! j @ (if j < k then [True] else if j = k \<and> k < n then [False] else [])
      in drop (length h - window p) h)" if "j < length (acceptance p)" for j
    using that a nth_mem[OF that] accept_samples_nth(1)[OF that, of "window p" k]
    by (auto simp: Let_def deque_append_def nth_list_update accept_samples_nth(2))
  moreover have "spec_ok ?p" using ok a2 c by (auto simp: spec_ok_def)
  ultimately show ?thesis
    using True run a2 by (auto simp: deque_append_def)
qed

theorem observe_atomic_witness:
  "\<exists>p'. observe 7 2 (1 / 50) ''dflash2'' demo_spec = Inr p' \<and> spec_ok p' \<and> rounds p' = rounds demo_spec + 1"
proof -
  have "source demo_spec = ''dflash2''" by (simp add: demo_spec_def spec_init_def Let_def)
  then obtain p' where p': "observe 7 2 (1 / 50) ''dflash2'' demo_spec = Inr p'" "spec_ok p'"
    "p' = demo_spec\<lparr>acceptance := acceptance p', costs := costs p', rounds := rounds demo_spec + 1\<rparr>"
    using observe_atomic[OF spec_init_ok[OF demo_spec_eval(1)], of 7 2 "''dflash2''" "1 / 50"] demo_spec_eval(2)
    by (simp add: Let_def) blast
  have "rounds p' = rounds demo_spec + 1" by (subst p'(3)) simp
  then show ?thesis using p'(1,2) by blast
qed

lemma factor_bounds:
  "0 < (1 + of_nat (length (filter id s))) / (2 + of_nat (length s) :: rat)"
  "(1 + of_nat (length (filter id s))) / (2 + of_nat (length s) :: rat) \<le> 1"
proof -
  have "of_nat (length (filter id s)) \<le> (of_nat (length s) :: rat)" by simp
  then have "1 + of_nat (length (filter id s)) \<le> (2 + of_nat (length s) :: rat)" by linarith
  moreover have pos: "0 < (2 + of_nat (length s) :: rat)" by (simp add: add_pos_nonneg)
  ultimately show "(1 + of_nat (length (filter id s))) / (2 + of_nat (length s) :: rat) \<le> 1"
    by (simp only: divide_le_eq_1_pos)
  show "0 < (1 + of_nat (length (filter id s))) / (2 + of_nat (length s) :: rat)"
    using pos by (simp add: add_pos_nonneg)
qed

definition success_rate :: "bool list \<Rightarrow> rat" where
  "success_rate samples = (1 + of_nat (length (filter id samples))) / (2 + of_nat (length samples))"

lemma progress_loop_sum:
  "progress_loop xs progress reach = progress + reach * (\<Sum>n<length xs. \<Prod>j\<le>n. success_rate (xs ! j))"
proof (induction xs arbitrary: progress reach)
  case (Cons s xs)
  have sum: "(\<Sum>n<length (s # xs). \<Prod>j\<le>n. success_rate ((s # xs) ! j)) =
      success_rate s + success_rate s * (\<Sum>n<length xs. \<Prod>j\<le>n. success_rate (xs ! j))"
    by (simp only: length_Cons sum.lessThan_Suc_shift prod.atMost_Suc_shift)
      (simp add: sum_distrib_left prod.atMost_Suc_shift del: prod.atMost_Suc)
  have "progress_loop (s # xs) progress reach =
      progress_loop xs (progress + reach * success_rate s) (reach * success_rate s)"
    by (simp add: Let_def success_rate_def)
  then show ?case unfolding sum Cons.IH by (simp only: distrib_left mult.assoc add.assoc)
qed simp

lemma reach_prob:
  "0 < (\<Prod>j<n. success_rate (xs ! j))" "(\<Prod>j<n. success_rate (xs ! j)) \<le> 1"
proof -
  have b: "0 < success_rate s" "success_rate s \<le> 1" for s
    using factor_bounds by (simp_all only: success_rate_def)
  show "0 < (\<Prod>j<n. success_rate (xs ! j))" by (rule prod_pos) (simp add: b)
  show "(\<Prod>j<n. success_rate (xs ! j)) \<le> 1" by (rule prod_le_1) (simp add: b less_imp_le)
qed

lemma expected_progress_sum:
  assumes "d \<in> set (depths p)" "spec_ok p"
  shows "expected_progress d p = Inr (\<Sum>n\<le>d. \<Prod>j<n. success_rate (acceptance p ! j))"
proof -
  have len: "d \<le> length (acceptance p)" using assms by (simp add: spec_ok_def)
  have "(\<Sum>n<d. \<Prod>j\<le>n. success_rate (take d (acceptance p) ! j)) = (\<Sum>n<d. \<Prod>j<Suc n. success_rate (acceptance p ! j))"
    by (intro sum.cong refl prod.cong) (auto simp: lessThan_Suc_atMost)
  moreover have "(\<Sum>n\<le>d. \<Prod>j<n. success_rate (acceptance p ! j)) =
      1 + (\<Sum>n<d. \<Prod>j<Suc n. success_rate (acceptance p ! j))"
    by (simp only: lessThan_Suc_atMost[symmetric] sum.lessThan_Suc_shift) simp
  ultimately show ?thesis
    using assms(1) len progress_loop_sum[of "take d (acceptance p)" 1 1] by (simp add: expected_progress_def min_absorb2)
qed

text \<open>
  C26: the expected progress of a depth is the expected number of tokens of its round: the sum, over the
  lengths up to the depth, of the estimated probability that so many positions are all accepted,
  each position estimated by its successes plus one over its samples plus two.  So it lies
  between one token and the depth plus one, and a deeper block has strictly more of it.  A depth
  that was not prepared raises.
\<close>

theorem progress_bounds:
  assumes "spec_ok p"
  shows "if d \<in> set (depths p) then
       expected_progress d p = Inr (\<Sum>n\<le>d. \<Prod>j<n.
         (1 + of_nat (length (filter id (acceptance p ! j)))) / (2 + of_nat (length (acceptance p ! j)))) \<and>
       1 \<le> projr (expected_progress d p) \<and> projr (expected_progress d p) \<le> of_nat d + 1 \<and>
       (\<forall>e\<in>set (depths p). d < e \<longrightarrow> projr (expected_progress d p) < projr (expected_progress e p))
     else expected_progress d p = Inl ValueError"
proof (cases "d \<in> set (depths p)")
  case True
  let ?q = "\<lambda>n. \<Prod>j<n. success_rate (acceptance p ! j)"
  note eq = expected_progress_sum[OF _ assms]
  have "(\<Sum>n\<le>d. ?q n) \<le> (\<Sum>n\<le>d. 1)" using reach_prob(2) by (intro sum_mono)
  then have upper: "(\<Sum>n\<le>d. ?q n) \<le> of_nat d + 1" by simp
  have "(\<Sum>n\<in>{0}. ?q n) \<le> (\<Sum>n\<le>d. ?q n)"
    using reach_prob(1) by (intro sum_mono2) (auto intro: less_imp_le)
  then have lower: "1 \<le> (\<Sum>n\<le>d. ?q n)" by simp
  have "(\<Sum>n\<le>d. ?q n) < (\<Sum>n\<le>e. ?q n)" if "d < e" for e
    using that reach_prob(1) by (intro sum_strict_mono2[of _ _ e]) (auto intro: less_imp_le)
  then show ?thesis using True eq upper lower by (simp add: success_rate_def)
next
  case False
  then show ?thesis by (simp add: expected_progress_def)
qed

theorem progress_bounds_witness:
  "expected_progress 3 demo_spec = Inr (1 + 1 / 2 + 1 / 4 + 1 / 8)"
proof -
  have "acceptance demo_spec ! j = []" if "j < 7" for j
    using that by (simp add: demo_spec_def spec_init_def Let_def)
  then have "(\<Sum>n\<le>3. \<Prod>j<n. (1 + of_nat (length (filter id (acceptance demo_spec ! j)))) /
      (2 + of_nat (length (acceptance demo_spec ! j)))) = (1 + 1 / 2 + 1 / 4 + 1 / 8 :: rat)"
    by (simp add: numeral_3_eq_3 lessThan_Suc)
  then show ?thesis
    using progress_bounds[OF spec_init_ok[OF demo_spec_eval(1)], of 3] demo_spec_eval(2) by simp
qed

end
