(* ===== verification/EventRings.thy ===== *)
theory EventRings
  imports CacheBudget
begin

text \<open>
  The bounded rings that clients poll: \<open>serving/request_ring.py\<close> and \<open>daemon/logring.py\<close>.  The
  abstract view of a ring is the history of everything that was ever added: the buffer is its
  tail and the cursor its length.
\<close>

section \<open>Request ring\<close>

record request_record =
  rq_ts :: string
  rq_method :: string
  rq_path :: string
  rq_status :: int
  rq_model :: "string option"
  rq_duration_ms :: int
  rq_ttft_ms :: "int option"
  rq_prompt_tokens :: "int option"
  rq_completion_tokens :: "int option"
  rq_stream :: "bool option"
  rq_error :: "string option"

record request_ring =
  ring_capacity :: nat
  ring_buf :: "(nat \<times> request_record) list"
  ring_next :: nat

definition ring_init :: "nat \<Rightarrow> request_ring" where
  "ring_init capacity = \<lparr>ring_capacity = capacity, ring_buf = [], ring_next = 0\<rparr>"

definition ring_add :: "request_record \<Rightarrow> request_ring \<Rightarrow> request_ring" where
  "ring_add rec r =
     r\<lparr>ring_buf := deque_append (ring_capacity r) (ring_next r, rec) (ring_buf r),
       ring_next := ring_next r + 1\<rparr>"

text \<open>\<open>limit\<close> is at least one: the route clamps it.\<close>

definition ring_since :: "nat \<Rightarrow> nat \<Rightarrow> request_ring \<Rightarrow> request_record list \<times> nat" where
  "ring_since cursor limit r =
     (let matched = filter (\<lambda>(idx, rec). cursor \<le> idx) (ring_buf r);
          out = map snd (take limit matched)
      in (out, if length out < length matched then fst (matched ! (length out - 1)) + 1 else ring_next r))"

definition clamp_limit :: "int \<Rightarrow> nat" where
  "clamp_limit limit = nat (max 1 (min limit 512))"

definition p95_ms :: "request_ring \<Rightarrow> int" where
  "p95_ms r =
     (let durs = sort (map (\<lambda>(idx, rec). rq_duration_ms rec) (ring_buf r)) in
      if durs = [] then 0 else durs ! (max 0 ((95 * length durs + 99) div 100 - 1)))"

text \<open>\<open>round\<close> rounds a half to the even neighbour.\<close>

definition py_round :: "rat \<Rightarrow> int" where
  "py_round x = (if x - of_int \<lfloor>x\<rfloor> < 1 / 2 \<or> (x - of_int \<lfloor>x\<rfloor> = 1 / 2 \<and> even \<lfloor>x\<rfloor>) then \<lfloor>x\<rfloor> else \<lfloor>x\<rfloor> + 1)"

definition ttft_mean_ms :: "request_ring \<Rightarrow> int" where
  "ttft_mean_ms r =
     (let vals = List.map_filter (\<lambda>(idx, rec). rq_ttft_ms rec) (ring_buf r) in
      if vals = [] then 0 else py_round (of_int (sum_list vals) / of_nat (length vals)))"

definition ring_count :: "request_ring \<Rightarrow> nat" where
  "ring_count r = ring_next r"

section \<open>Log ring\<close>

record log_record =
  lr_seq :: nat
  lr_ts :: rat
  lr_kind :: string
  lr_text :: string

record log_ring =
  log_capacity :: nat
  log_buf :: "log_record list"
  log_next :: nat
  log_subs :: "nat list"

definition log_init :: "nat \<Rightarrow> log_ring" where
  "log_init capacity = \<lparr>log_capacity = capacity, log_buf = [], log_next = 0, log_subs = []\<rparr>"

text \<open>
  \<open>append\<close> returns the stored record and the callbacks it invoked; what a callback raises is
  ignored.  Subscribers are named by numbers.
\<close>

definition log_append :: "string \<Rightarrow> string \<Rightarrow> rat \<Rightarrow> log_ring \<Rightarrow> log_record \<times> (nat \<times> log_record) list \<times> log_ring" where
  "log_append text kind ts r =
     (let rec = \<lparr>lr_seq = log_next r, lr_ts = ts, lr_kind = kind, lr_text = text\<rparr>
      in (rec, map (\<lambda>s. (s, rec)) (log_subs r),
          r\<lparr>log_buf := deque_append (log_capacity r) rec (log_buf r), log_next := log_next r + 1\<rparr>))"

definition log_since :: "nat \<Rightarrow> log_ring \<Rightarrow> log_record list \<times> nat" where
  "log_since cursor r = (filter (\<lambda>rec. cursor \<le> lr_seq rec) (log_buf r), log_next r)"

definition log_cursor :: "log_ring \<Rightarrow> nat" where
  "log_cursor r = log_next r"

definition log_subscribe :: "nat \<Rightarrow> log_ring \<Rightarrow> log_ring" where
  "log_subscribe s r = r\<lparr>log_subs := List.insert s (log_subs r)\<rparr>"

definition log_unsubscribe :: "nat \<Rightarrow> log_ring \<Rightarrow> log_ring" where
  "log_unsubscribe s r = r\<lparr>log_subs := removeAll s (log_subs r)\<rparr>"

definition subscriber_count :: "log_ring \<Rightarrow> nat" where
  "subscriber_count r = length (log_subs r)"

section \<open>The history\<close>

definition ring_rep :: "request_record list \<Rightarrow> request_ring \<Rightarrow> bool" where
  "ring_rep h r \<longleftrightarrow> ring_next r = length h \<and>
     ring_buf r = drop (length h - ring_capacity r) (enumerate 0 h)"

lemma ring_rep_init: "ring_rep [] (ring_init c)"
  by (simp add: ring_rep_def ring_init_def)

lemma ring_rep_add:
  assumes "ring_rep h r"
  shows "ring_rep (h @ [rec]) (ring_add rec r)"
proof -
  have e: "enumerate 0 (h @ [rec]) = enumerate 0 h @ [(length h, rec)]" by (simp add: enumerate_append_eq)
  show ?thesis
    using assms deque_append_history[of "ring_capacity r" "(length h, rec)" "enumerate 0 h"]
    by (simp add: ring_rep_def ring_add_def e)
qed

lemma ring_capacity_add [simp]: "ring_capacity (ring_add rec r) = ring_capacity r"
  by (simp add: ring_add_def)

lemma ring_capacity_fold [simp]: "ring_capacity (fold ring_add h (ring_init c)) = c"
  by (induction h rule: rev_induct) (simp_all add: ring_init_def)

lemma ring_rep_fold: "ring_rep h (fold ring_add h (ring_init c))"
  by (induction h rule: rev_induct) (simp_all add: ring_rep_init ring_rep_add)

lemma drop_enumerate_eq: "drop k (enumerate n xs) = enumerate (n + k) (drop k xs)"
proof (induction k arbitrary: n xs)
  case (Suc k)
  then show ?case by (cases xs) simp_all
qed simp

lemma filter_enumerate: "filter (\<lambda>(i, x). c \<le> i) (enumerate n xs) = drop (c - n) (enumerate n xs)"
proof (induction xs arbitrary: n)
  case (Cons x xs)
  have all: "filter (\<lambda>(i, x). c \<le> i) (enumerate n xs) = enumerate n xs" if "c \<le> n" for n
    using that by (auto simp: filter_id_conv in_set_enumerate_eq)
  show ?case
  proof (cases "c \<le> n")
    case True
    then show ?thesis using all[of "Suc n"] by simp
  next
    case False
    then have "c - n = Suc (c - Suc n)" by simp
    then show ?thesis using Cons[of "Suc n"] False by simp
  qed
qed simp

lemma ring_matched:
  assumes "ring_rep h r"
  shows "filter (\<lambda>(idx, rec). c \<le> idx) (ring_buf r) = drop (max c (length h - ring_capacity r)) (enumerate 0 h)"
proof -
  let ?k = "length h - ring_capacity r"
  have "ring_buf r = enumerate ?k (drop ?k h)" using assms by (simp add: ring_rep_def drop_enumerate_eq)
  then have "filter (\<lambda>(idx, rec). c \<le> idx) (ring_buf r) = drop (c - ?k) (enumerate ?k (drop ?k h))"
    using filter_enumerate[of c ?k "drop ?k h"] by simp
  also have "\<dots> = drop (c - ?k) (drop ?k (enumerate 0 h))" by (simp add: drop_enumerate_eq)
  also have "\<dots> = drop (max c ?k) (enumerate 0 h)" by (simp add: drop_drop max_def)
  finally show ?thesis .
qed

text \<open>A poll: what it returns and where it leaves the cursor.\<close>

lemma ring_since_eq:
  assumes r: "ring_rep h r" and l: "0 < limit" and k: "k = max c (length h - ring_capacity r)"
  shows "ring_since c limit r = (take limit (drop k h), if k + limit < length h then k + limit else length h)"
proof -
  let ?m = "drop k (enumerate 0 h)"
  have m: "filter (\<lambda>(idx, rec). c \<le> idx) (ring_buf r) = ?m" using ring_matched[OF r] k by simp
  have out: "map snd (take limit ?m) = take limit (drop k h)"
    by (simp only: take_map[symmetric] drop_map[symmetric] map_snd_enumerate)
  have nxt: "ring_next r = length h" using r by (simp add: ring_rep_def)
  show ?thesis
  proof (cases "k + limit < length h")
    case True
    then have "fst (?m ! (limit - 1)) + 1 = k + limit" using l by (simp add: nth_enumerate_eq)
    then show ?thesis using True unfolding ring_since_def m Let_def out nxt by simp
  next
    case False
    then show ?thesis unfolding ring_since_def m Let_def out nxt by auto
  qed
qed

text \<open>
  A client that polls from a cursor until a poll returns nothing, with a fuel that bounds the number of polls.
\<close>

fun poll_all :: "nat \<Rightarrow> nat \<Rightarrow> nat \<Rightarrow> request_ring \<Rightarrow> request_record list \<times> nat" where
  "poll_all 0 cursor limit r = ([], cursor)"
| "poll_all (Suc k) cursor limit r =
     (let (out, next) = ring_since cursor limit r in
      if out = [] then ([], next)
      else let (rest, final) = poll_all k next limit r in (out @ rest, final))"

lemma poll_all_eq:
  assumes r: "ring_rep h r" and l: "0 < limit" and b: "c \<le> length h"
  shows "length h - max c (length h - ring_capacity r) < fuel \<Longrightarrow>
    poll_all fuel c limit r = (drop (max c (length h - ring_capacity r)) h, length h)"
  using b
proof (induction fuel arbitrary: c)
  case (Suc n)
  let ?k = "max c (length h - ring_capacity r)"
  note S = ring_since_eq[OF r l, of ?k c]
  have kl: "?k \<le> length h" using Suc.prems(2) by simp
  show ?case
  proof (cases "?k = length h")
    case True
    then show ?thesis using S by simp
  next
    case False
    then have lt: "?k < length h" by (rule le_neq_implies_less[OF kl])
    then have ne: "take limit (drop ?k h) \<noteq> []" using l by (simp add: le_max_iff_disj)
    show ?thesis
    proof (cases "?k + limit < length h")
      case True
      then have mx: "max (?k + limit) (length h - ring_capacity r) = ?k + limit" by simp
      have f: "length h - max (?k + limit) (length h - ring_capacity r) < n"
        using True l Suc.prems(1) lt unfolding mx by linarith
      note IH = Suc.IH[OF f less_imp_le[OF True]]
      have "take limit (drop ?k h) @ drop (?k + limit) h = drop ?k h"
        by (metis add.commute append_take_drop_id drop_drop)
      then show ?thesis using S ne True IH unfolding mx by simp
    next
      case F: False
      have "poll_all n (length h) limit r = ([], length h)"
      proof (cases n)
        case (Suc m)
        then show ?thesis using ring_since_eq[OF r l refl, of "length h"] by simp
      qed simp
      then show ?thesis using S ne F by simp
    qed
  qed
qed simp

section \<open>Properties\<close>

text \<open>
  C27: a client that polls the request ring with a positive limit gets every record from its cursor on
  that is still in the ring, once each and in order, ends with the all-time count as its cursor,
  and needs no more polls than there are such records plus one.  When the limit cuts an answer short, the next cursor is
  the one behind the last returned record, not that of the record as the docstring of \<open>since\<close> has it.
\<close>

theorem ring_poll_complete:
  assumes "0 < limit" "cursor \<le> length h" "length h - max cursor (length h - cap) < fuel"
  shows "poll_all fuel cursor limit (fold ring_add h (ring_init cap)) =
     (drop (max cursor (length h - cap)) h, length h)"
proof -
  have "ring_rep h (fold ring_add h (ring_init cap))" "ring_capacity (fold ring_add h (ring_init cap)) = cap"
    by (rule ring_rep_fold, rule ring_capacity_fold)
  then show ?thesis using poll_all_eq[OF _ assms(1,2)] assms(3) by simp
qed

definition demo_record :: "int \<Rightarrow> request_record" where
  "demo_record d = \<lparr>rq_ts = [], rq_method = ''GET'', rq_path = ''/'', rq_status = 200, rq_model = None,
     rq_duration_ms = d, rq_ttft_ms = None, rq_prompt_tokens = None, rq_completion_tokens = None,
     rq_stream = None, rq_error = None\<rparr>"

theorem ring_poll_complete_witness:
  "poll_all 4 1 2 (fold ring_add (map demo_record [10, 20, 30, 40, 50]) (ring_init 3)) =
     (map demo_record [30, 40, 50], 5)"
  using ring_poll_complete[of 2 1 "map demo_record [10, 20, 30, 40, 50]" 3 4] by simp

text \<open>The log ring holds the last records of its history, numbered without a gap.\<close>

definition log_rep :: "log_record list \<Rightarrow> log_ring \<Rightarrow> bool" where
  "log_rep h r \<longleftrightarrow> log_next r = length h \<and> map lr_seq h = [0..<length h] \<and>
     log_buf r = drop (length h - log_capacity r) h"

lemma log_rep_append:
  assumes "log_rep h r" "log_append text kind ts r = (rec, pushed, r')"
  shows "log_rep (h @ [rec]) r' \<and> log_capacity r' = log_capacity r \<and> log_subs r' = log_subs r"
  using assms deque_append_history[of "log_capacity r" rec h]
  by (auto simp: log_rep_def log_append_def Let_def)

text \<open>
  C28: appending to the log ring numbers the record with the all-time count, offers it to every
  subscriber exactly once, and afterwards a read from any cursor gives exactly the records of the
  history from that cursor on that are among the last ones the ring keeps.
\<close>

theorem log_append_since:
  assumes "log_rep h r" "distinct (log_subs r)" "log_append text kind ts r = (rec, pushed, r')"
  shows "lr_seq rec = length h \<and> lr_text rec = text \<and> map fst pushed = log_subs r \<and> (\<forall>(s, x)\<in>set pushed. x = rec) \<and>
     log_rep (h @ [rec]) r' \<and>
     log_since cursor r' =
       (drop (max cursor (length h + 1 - log_capacity r)) (h @ [rec]), length h + 1)"
proof -
  note R = log_rep_append[OF assms(1,3)]
  have rec: "lr_seq rec = length h" "lr_text rec = text" "map fst pushed = log_subs r" "\<forall>(s, x)\<in>set pushed. x = rec"
    using assms(1,3) by (auto simp: log_append_def log_rep_def Let_def o_def)
  let ?h = "h @ [rec]" and ?k = "length h + 1 - log_capacity r"
  have seq: "map lr_seq ?h = [0..<length ?h]" using R by (simp add: log_rep_def)
  have f: "filter (\<lambda>x. cursor \<le> lr_seq x) xs = drop (cursor - n) xs" if "map lr_seq xs = [n..<n + length xs]" for xs n
    using that
  proof (induction xs arbitrary: n)
    case (Cons x xs)
    then have x: "lr_seq x = n" "map lr_seq xs = [Suc n..<Suc n + length xs]"
      by (simp_all add: upt_conv_Cons del: upt_Suc)
    show ?case
    proof (cases "cursor \<le> n")
      case True
      have "\<forall>y\<in>set xs. cursor \<le> lr_seq y"
      proof
        fix y assume "y \<in> set xs"
        then have "lr_seq y \<in> set (map lr_seq xs)" by simp
        then show "cursor \<le> lr_seq y" unfolding x(2) using True by (simp del: upt_Suc)
      qed
      then show ?thesis using True x(1) by (simp add: filter_id_conv)
    next
      case False
      then show ?thesis using Cons.IH[OF x(2)] x(1) by (cases "cursor - n") (simp_all add: Suc_diff_Suc[symmetric])
    qed
  qed simp
  have "map lr_seq (drop ?k ?h) = [?k..<?k + length (drop ?k ?h)]"
    using seq by (simp add: drop_map[symmetric] del: drop_append) (simp add: drop_upt)
  from f[OF this] have "filter (\<lambda>x. cursor \<le> lr_seq x) (drop ?k ?h) = drop (max cursor ?k) ?h"
    by (simp add: drop_drop max_def del: drop_append)
  then show ?thesis using R rec by (simp add: log_since_def log_rep_def del: drop_append)
qed

theorem log_append_since_witness:
  "\<exists>rec r'. log_append ''up'' ''line'' 0 (log_subscribe 3 (log_init 2)) = (rec, [(3, rec)], r') \<and>
     log_since 0 r' = ([rec], 1)"
proof -
  obtain rec pushed r' where a: "log_append ''up'' ''line'' 0 (log_subscribe 3 (log_init 2)) = (rec, pushed, r')"
    by (metis prod_cases3)
  have "log_rep [] (log_subscribe 3 (log_init 2))" "log_subs (log_subscribe 3 (log_init 2)) = [3]"
    "log_capacity (log_subscribe 3 (log_init 2)) = 2"
    by (simp_all add: log_rep_def log_subscribe_def log_init_def)
  then show ?thesis using log_append_since[OF _ _ a, of "[]" 0] a
    by (auto simp: log_append_def Let_def)
qed

end
