(* ===== verification/Messages.thy ===== *)
theory Messages
  imports Complex_Main Prelude
begin

text \<open>
  \<open>message/utils.py\<close> and the message classes of \<open>message/backend.py\<close>, \<open>message/tokenizer.py\<close> and
  \<open>message/frontend.py\<close>: dataclasses are encoded into tagged dictionaries and decoded again on the
  other side of a queue.  Python values are a datatype; a dictionary is an association list with
  string keys, a dataclass instance its class name and its fields in the order of the declaration,
  a tensor its dimension, its dtype (\<open>str(dtype)\<close>) and the bit patterns of its elements.
  \<open>PFunction\<close> is a function object, and \<open>POther\<close> another value without attributes of its own, such as a
  set.  What numpy and torch do is a parameter: \<open>np_tobytes\<close> stands for \<open>t.numpy().tobytes()\<close> and \<open>np_frombuffer\<close> for
  \<open>torch.from_numpy(np.frombuffer(b, dtype=getattr(np, d)).copy())\<close>.  The class map
  of a decoder is \<open>globals()\<close> of its module: the message classes, and everything else that the module
  imports or the interpreter puts there.
\<close>

section \<open>Values\<close>

record tensor =
  t_dim :: nat
  t_dtype :: string
  t_data :: "int list"

datatype pyval =
    PNone
  | PBool bool
  | PInt int
  | PFloat rat
  | PStr string
  | PBytes "nat list"
  | PList "pyval list"
  | PTuple "pyval list"
  | PDict "(string \<times> pyval) list"
  | PTensor tensor
  | PObj string "(string \<times> pyval) list"
  | PFunction
  | POther

type_synonym dataclass_fields = "(string \<times> pyval option) list"

text \<open>What a name of a class map can be: a dataclass, another callable with what a call by keywords gives, or
  a value that cannot be called.  A name bound to \<open>None\<close> counts as missing.\<close>

datatype global_value =
    GClass dataclass_fields
  | GFunction "(string \<times> pyval) list \<Rightarrow> pyval res"
  | GValue

type_synonym class_map = "string \<Rightarrow> global_value option"

record numpy =
  np_tobytes :: "tensor \<Rightarrow> nat list res"
  np_frombuffer :: "string \<Rightarrow> nat list \<Rightarrow> tensor res"

section \<open>Encoding\<close>

definition type_key :: string where "type_key = ''__type__''"
definition raw_dict_key :: string where "raw_dict_key = ''__raw_dict__''"

definition wrap_dict :: "(string \<times> pyval) list \<Rightarrow> pyval" where
  "wrap_dict encoded =
     (if type_key \<in> fst ` set encoded \<or> raw_dict_key \<in> fst ` set encoded
      then PDict [(raw_dict_key, PDict encoded)] else PDict encoded)"

definition tensor_record :: "numpy \<Rightarrow> tensor \<Rightarrow> pyval res" where
  "tensor_record np t =
     res_bind (py_assert (t_dim t = 1)) (\<lambda>_.
     res_bind (np_tobytes np t) (\<lambda>b.
       Inr (PDict [(type_key, PStr ''Tensor''), (''buffer'', PBytes b), (''dtype'', PStr (t_dtype t))])))"

definition obj_record :: "string \<Rightarrow> (string \<times> pyval) list \<Rightarrow> pyval" where
  "obj_record n fs = PDict (fold (\<lambda>(k, v). AList.update k v) fs [(type_key, PStr n)])"

fun serialize_any :: "numpy \<Rightarrow> pyval \<Rightarrow> pyval res"
  and serialize_list :: "numpy \<Rightarrow> pyval list \<Rightarrow> pyval list res"
  and serialize_fields :: "numpy \<Rightarrow> (string \<times> pyval) list \<Rightarrow> (string \<times> pyval) list res" where
  "serialize_any np (PDict kvs) = res_bind (serialize_fields np kvs) (\<lambda>e. Inr (wrap_dict e))"
| "serialize_any np (PList xs) = res_bind (serialize_list np xs) (\<lambda>e. Inr (PList e))"
| "serialize_any np (PTuple xs) = res_bind (serialize_list np xs) (\<lambda>e. Inr (PTuple e))"
| "serialize_any np (PTensor t) = tensor_record np t"
| "serialize_any np (PObj n fs) = res_bind (serialize_fields np fs) (\<lambda>e. Inr (obj_record n e))"
| "serialize_any np PFunction = Inr (PDict [(type_key, PStr ''function'')])"
| "serialize_any np POther = Inl AttributeError"
| "serialize_any np v = Inr v"
| "serialize_list np [] = Inr []"
| "serialize_list np (x # xs) =
     res_bind (serialize_any np x) (\<lambda>e. res_bind (serialize_list np xs) (\<lambda>es. Inr (e # es)))"
| "serialize_fields np [] = Inr []"
| "serialize_fields np ((k, x) # xs) =
     res_bind (serialize_any np x) (\<lambda>e. res_bind (serialize_fields np xs) (\<lambda>es. Inr ((k, e) # es)))"

text \<open>\<open>serialize_type\<close>, the encoder of a message; a builtin value has no \<open>__dict__\<close>.\<close>

definition serialize_type :: "numpy \<Rightarrow> pyval \<Rightarrow> pyval res" where
  "serialize_type np v =
     (case v of
        PTensor t \<Rightarrow> tensor_record np t
      | PObj n fs \<Rightarrow> res_bind (serialize_fields np fs) (\<lambda>e. Inr (obj_record n e))
      | PFunction \<Rightarrow> Inr (PDict [(type_key, PStr ''function'')])
      | _ \<Rightarrow> Inl AttributeError)"

section \<open>Decoding\<close>

text \<open>\<open>s.replace("torch.", "")\<close>\<close>

fun strip_torch :: "string \<Rightarrow> string" where
  "strip_torch [] = []"
| "strip_torch (c # s) =
     (if take 6 (c # s) = ''torch.'' then strip_torch (drop 5 s) else c # strip_torch s)"

fun hashable :: "pyval \<Rightarrow> bool" where
  "hashable (PList xs) = False"
| "hashable (PDict kvs) = False"
| "hashable (PObj n fs) = False"
| "hashable (PTuple xs) = list_all hashable xs"
| "hashable v = True"

definition tensor_of_record :: "numpy \<Rightarrow> (string \<times> pyval) list \<Rightarrow> pyval res" where
  "tensor_of_record np kvs =
     (case map_of kvs ''buffer'' of None \<Rightarrow> Inl KeyError
      | Some buf \<Rightarrow>
        (case map_of kvs ''dtype'' of None \<Rightarrow> Inl KeyError
         | Some (PStr d) \<Rightarrow>
             (case buf of PBytes b \<Rightarrow> res_bind (np_frombuffer np (strip_torch d) b) (\<lambda>t. Inr (PTensor t))
              | _ \<Rightarrow> Inl AssertionError)
         | Some (PBytes _) \<Rightarrow> Inl TypeError
         | Some _ \<Rightarrow> Inl AttributeError))"

text \<open>\<open>cls(**kwargs)\<close> of a dataclass\<close>

definition construct :: "string \<Rightarrow> dataclass_fields \<Rightarrow> (string \<times> pyval) list \<Rightarrow> pyval res" where
  "construct n cls kwargs =
     (if (\<exists>k\<in>fst ` set kwargs. k \<notin> fst ` set cls) \<or>
         (\<exists>(f, d)\<in>set cls. d = None \<and> f \<notin> fst ` set kwargs) then Inl TypeError
      else Inr (PObj n (map (\<lambda>(f, d). (f, case map_of kwargs f of Some v \<Rightarrow> v | None \<Rightarrow> the d)) cls)))"

definition call_global :: "string \<Rightarrow> global_value \<Rightarrow> (string \<times> pyval) list \<Rightarrow> pyval res" where
  "call_global n g kwargs =
     (case g of GClass cls \<Rightarrow> construct n cls kwargs | GFunction f \<Rightarrow> f kwargs | GValue \<Rightarrow> Inl TypeError)"

fun deserialize_any :: "numpy \<Rightarrow> class_map \<Rightarrow> pyval \<Rightarrow> pyval res"
  and deserialize_list :: "numpy \<Rightarrow> class_map \<Rightarrow> pyval list \<Rightarrow> pyval list res"
  and deserialize_fields :: "numpy \<Rightarrow> class_map \<Rightarrow> (string \<times> pyval) list \<Rightarrow> (string \<times> pyval) list res"
  and deserialize_kwargs :: "numpy \<Rightarrow> class_map \<Rightarrow> (string \<times> pyval) list \<Rightarrow> (string \<times> pyval) list res" where
  "deserialize_any np env (PDict kvs) =
     (if length kvs = 1 \<and> fst (hd kvs) = raw_dict_key then
        (case kvs of
           (k, PDict inner) # _ \<Rightarrow> res_bind (deserialize_fields np env inner) (\<lambda>d. Inr (PDict d))
         | _ \<Rightarrow> Inl AttributeError)
      else
        (case map_of kvs type_key of
           None \<Rightarrow> res_bind (deserialize_fields np env kvs) (\<lambda>d. Inr (PDict d))
         | Some (PStr n) \<Rightarrow>
             if n = ''Tensor'' then tensor_of_record np kvs
             else (case env n of None \<Rightarrow> Inl ValueError
                   | Some g \<Rightarrow> res_bind (deserialize_kwargs np env kvs) (call_global n g))
         | Some v \<Rightarrow> if hashable v then Inl ValueError else Inl TypeError))"
| "deserialize_any np env (PList xs) = res_bind (deserialize_list np env xs) (\<lambda>d. Inr (PList d))"
| "deserialize_any np env (PTuple xs) = res_bind (deserialize_list np env xs) (\<lambda>d. Inr (PTuple d))"
| "deserialize_any np env (PTensor t) = Inl ValueError"
| "deserialize_any np env (PObj n fs) = Inl ValueError"
| "deserialize_any np env PFunction = Inl ValueError"
| "deserialize_any np env POther = Inl ValueError"
| "deserialize_any np env v = Inr v"
| "deserialize_list np env [] = Inr []"
| "deserialize_list np env (x # xs) =
     res_bind (deserialize_any np env x) (\<lambda>d. res_bind (deserialize_list np env xs) (\<lambda>ds. Inr (d # ds)))"
| "deserialize_fields np env [] = Inr []"
| "deserialize_fields np env ((k, x) # xs) =
     res_bind (deserialize_any np env x) (\<lambda>d. res_bind (deserialize_fields np env xs) (\<lambda>ds. Inr ((k, d) # ds)))"
| "deserialize_kwargs np env [] = Inr []"
| "deserialize_kwargs np env ((k, x) # xs) =
     (if k = type_key then deserialize_kwargs np env xs
      else res_bind (deserialize_any np env x) (\<lambda>d.
           res_bind (deserialize_kwargs np env xs) (\<lambda>ds. Inr ((k, d) # ds))))"

text \<open>\<open>deserialize_type\<close>, the decoder of a module; it starts with \<open>data["__type__"]\<close>.\<close>

definition deserialize_type :: "numpy \<Rightarrow> class_map \<Rightarrow> pyval \<Rightarrow> pyval res" where
  "deserialize_type np env data =
     (case data of
        PDict kvs \<Rightarrow>
          (case map_of kvs type_key of
             None \<Rightarrow> Inl KeyError
           | Some (PStr n) \<Rightarrow>
               if n = ''Tensor'' then tensor_of_record np kvs
               else (case env n of None \<Rightarrow> Inl ValueError
                     | Some g \<Rightarrow> res_bind (deserialize_kwargs np env kvs) (call_global n g))
           | Some v \<Rightarrow> if hashable v then Inl ValueError else Inl TypeError)
      | _ \<Rightarrow> Inl TypeError)"

section \<open>The other globals of a message module\<close>

text \<open>
  Every message module imports \<open>serialize_type\<close>, \<open>deserialize_type\<close> and \<open>dataclass\<close>, so a record can name them
  too.  \<open>serialize_type\<close> takes one argument \<open>self\<close>; \<open>deserialize_type\<close> takes a class map of decoded values,
  of which only a function can be called, and that is a decorator that \<open>dataclass\<close> returned and
  that has no class to work on; \<open>dataclass\<close> with any of its options returns such a decorator.
\<close>

definition value_global :: "pyval \<Rightarrow> global_value option" where
  "value_global v =
     (case v of
        PNone \<Rightarrow> None
      | PFunction \<Rightarrow> Some (GFunction (\<lambda>kwargs. Inl (if fst ` set kwargs = {''cls''} then AttributeError else TypeError)))
      | _ \<Rightarrow> Some GValue)"

definition call_serialize :: "numpy \<Rightarrow> (string \<times> pyval) list \<Rightarrow> pyval res" where
  "call_serialize np kwargs =
     (if fst ` set kwargs \<noteq> {''self''} then Inl TypeError else serialize_type np (the (map_of kwargs ''self'')))"

text \<open>With a class map that is no dictionary only a tensor record gets by; the others fail at \<open>cls_map.get\<close>.\<close>

definition call_deserialize :: "numpy \<Rightarrow> (string \<times> pyval) list \<Rightarrow> pyval res" where
  "call_deserialize np kwargs =
     (if fst ` set kwargs \<noteq> {''cls_map'', ''data''} then Inl TypeError
      else let data = the (map_of kwargs ''data'') in
        case the (map_of kwargs ''cls_map'') of
          PDict vs \<Rightarrow> deserialize_type np (\<lambda>n. Option.bind (map_of vs n) value_global) data
        | _ \<Rightarrow>
          (case data of
             PDict kvs \<Rightarrow>
               (case map_of kvs type_key of
                  None \<Rightarrow> Inl KeyError
                | Some n \<Rightarrow> if n = PStr ''Tensor'' then tensor_of_record np kvs else Inl AttributeError)
           | _ \<Rightarrow> Inl TypeError))"

definition dataclass_options :: "string list" where
  "dataclass_options = [''init'', ''repr'', ''eq'', ''order'', ''unsafe_hash'', ''frozen'', ''match_args'', ''kw_only'',
     ''slots'', ''weakref_slot'']"

definition call_dataclass :: "(string \<times> pyval) list \<Rightarrow> pyval res" where
  "call_dataclass kwargs = (if fst ` set kwargs \<subseteq> set dataclass_options then Inr PFunction else Inl TypeError)"

text \<open>The rest cannot be called, or raise the same error when they are: the future import, the generic
  aliases of \<open>typing\<close>, the module \<open>torch\<close>, and what the interpreter sets; \<open>__doc__\<close> is \<open>None\<close>.\<close>

definition module_globals :: "numpy \<Rightarrow> string list \<Rightarrow> (string \<times> dataclass_fields) list \<Rightarrow> class_map" where
  "module_globals np imports classes = map_of
     (map (map_prod id GClass) classes @
      [(''serialize_type'', GFunction (call_serialize np)), (''deserialize_type'', GFunction (call_deserialize np)),
       (''dataclass'', GFunction call_dataclass)] @
      map (\<lambda>n. (n, GValue))
        (imports @ [''annotations'', ''Dict'', ''List'', ''__name__'', ''__package__'', ''__loader__'', ''__spec__'',
                    ''__file__'', ''__cached__'', ''__builtins__'']))"

section \<open>Message classes\<close>

text \<open>\<open>core.py\<close>\<close>

definition SamplingParams_fields :: dataclass_fields where
  "SamplingParams_fields = [(''temperature'', Some (PFloat 0)), (''top_k'', Some (PInt (-1))),
     (''top_p'', Some (PFloat 1)), (''ignore_eos'', Some (PBool False)),
     (''max_tokens'', Some (PInt 1024)), (''stop_strs'', Some (PList []))]"

text \<open>\<open>message/backend.py\<close>\<close>

definition BatchBackendMsg_fields :: dataclass_fields where
  "BatchBackendMsg_fields = [(''data'', None)]"

definition UserMsg_fields :: dataclass_fields where
  "UserMsg_fields = [(''uid'', None), (''input_ids'', None), (''sampling_params'', None),
     (''mm_embeds'', Some PNone), (''mm_inputs'', Some PNone),
     (''mm_positions'', Some PNone), (''mm_delta'', Some (PInt 0)),
     (''checkpoint_endpoints'', Some (PTuple [])), (''timing'', Some PNone)]"

definition AbortBackendMsg_fields :: dataclass_fields where
  "AbortBackendMsg_fields = [(''uid'', None)]"

definition CacheRebuildBackendMsg_fields :: dataclass_fields where
  "CacheRebuildBackendMsg_fields = [(''request_id'', None), (''moe_cache_size'', Some PNone), (''num_pages'', Some PNone),
     (''num_mamba_slots'', Some PNone), (''num_swa_pages'', Some PNone),
     (''mode'', Some (PStr ''if_idle''))]"

definition backend_classes :: "numpy \<Rightarrow> class_map" where
  "backend_classes np = module_globals np [''torch''] [
     (''BaseBackendMsg'', []),
     (''BatchBackendMsg'', BatchBackendMsg_fields),
     (''ExitMsg'', []),
     (''UserMsg'', UserMsg_fields),
     (''AbortBackendMsg'', AbortBackendMsg_fields),
     (''CacheRebuildBackendMsg'', CacheRebuildBackendMsg_fields),
     (''SamplingParams'', SamplingParams_fields)]"

text \<open>\<open>message/tokenizer.py\<close>\<close>

definition BatchTokenizerMsg_fields :: dataclass_fields where
  "BatchTokenizerMsg_fields = [(''data'', None)]"

definition DetokenizeMsg_fields :: dataclass_fields where
  "DetokenizeMsg_fields = [(''uid'', None), (''next_token'', None), (''finished'', None),
     (''finish_reason'', Some PNone), (''matched_stop'', Some PNone),
     (''stop_strs'', Some PNone), (''kv_used_pages'', Some (PInt 0)),
     (''kv_total_pages'', Some (PInt 0)), (''mamba_used_slots'', Some (PInt 0)),
     (''mamba_total_slots'', Some (PInt 0)), (''swa_used_tokens'', Some (PInt 0)),
     (''swa_total_tokens'', Some (PInt 0)), (''gpu_mem_bytes'', Some (PInt 0)),
     (''moe_stats'', Some PNone), (''timing'', Some PNone),
     (''runtime_snapshot'', Some PNone)]"

definition PromptAdmittedMsg_fields :: dataclass_fields where
  "PromptAdmittedMsg_fields = [(''uid'', None), (''prompt_tokens'', None), (''cached_tokens'', Some (PInt 0)),
     (''timing'', Some PNone)]"

definition TokenizeMsg_fields :: dataclass_fields where
  "TokenizeMsg_fields = [(''uid'', None), (''text'', None), (''sampling_params'', None),
     (''chat_template_kwargs'', Some PNone), (''tools'', Some PNone),
     (''mm_inputs'', Some PNone), (''checkpoint_endpoints'', Some (PTuple [])),
     (''timing'', Some PNone)]"

definition AbortMsg_fields :: dataclass_fields where
  "AbortMsg_fields = [(''uid'', None)]"

definition CacheRebuildMsg_fields :: dataclass_fields where
  "CacheRebuildMsg_fields = [(''request_id'', None), (''moe_cache_size'', Some PNone), (''num_pages'', Some PNone),
     (''num_mamba_slots'', Some PNone), (''num_swa_pages'', Some PNone),
     (''mode'', Some (PStr ''if_idle''))]"

definition CacheRebuildResultMsg_fields :: dataclass_fields where
  "CacheRebuildResultMsg_fields = [(''request_id'', None), (''status'', None), (''moe_cache_size'', Some (PInt 0)),
     (''num_pages'', Some (PInt 0)), (''mamba_slots'', Some (PInt 0)),
     (''num_swa_pages'', Some (PInt 0)), (''error'', Some PNone)]"

definition ErrorReplyMsg_fields :: dataclass_fields where
  "ErrorReplyMsg_fields = [(''uid'', None), (''error'', None), (''code'', Some PNone)]"

definition tokenizer_classes :: "numpy \<Rightarrow> class_map" where
  "tokenizer_classes np = module_globals np [''Any''] [
     (''BaseTokenizerMsg'', []),
     (''BatchTokenizerMsg'', BatchTokenizerMsg_fields),
     (''DetokenizeMsg'', DetokenizeMsg_fields),
     (''PromptAdmittedMsg'', PromptAdmittedMsg_fields),
     (''TokenizeMsg'', TokenizeMsg_fields),
     (''AbortMsg'', AbortMsg_fields),
     (''CacheRebuildMsg'', CacheRebuildMsg_fields),
     (''CacheRebuildResultMsg'', CacheRebuildResultMsg_fields),
     (''ErrorReplyMsg'', ErrorReplyMsg_fields),
     (''SamplingParams'', SamplingParams_fields)]"

text \<open>\<open>message/frontend.py\<close>\<close>

definition BatchFrontendMsg_fields :: dataclass_fields where
  "BatchFrontendMsg_fields = [(''data'', None)]"

definition UserReply_fields :: dataclass_fields where
  "UserReply_fields = [(''uid'', None), (''incremental_output'', None), (''finished'', None),
     (''prompt_tokens_delta'', Some (PInt 0)), (''completion_tokens_delta'', Some (PInt 0)),
     (''cached_tokens'', Some (PInt 0)), (''kv_used_pages'', Some (PInt 0)),
     (''kv_total_pages'', Some (PInt 0)), (''mamba_used_slots'', Some (PInt 0)),
     (''mamba_total_slots'', Some (PInt 0)), (''swa_used_tokens'', Some (PInt 0)),
     (''swa_total_tokens'', Some (PInt 0)), (''gpu_mem_bytes'', Some (PInt 0)),
     (''moe_stats'', Some PNone), (''error'', Some PNone), (''error_code'', Some PNone),
     (''finish_reason'', Some PNone), (''matched_stop'', Some PNone),
     (''timing'', Some PNone), (''runtime_snapshot'', Some PNone)]"

definition CacheRebuildReply_fields :: dataclass_fields where
  "CacheRebuildReply_fields = [(''request_id'', None), (''status'', None), (''moe_cache_size'', Some (PInt 0)),
     (''num_pages'', Some (PInt 0)), (''mamba_slots'', Some (PInt 0)),
     (''num_swa_pages'', Some (PInt 0)), (''error'', Some PNone)]"

definition frontend_classes :: "numpy \<Rightarrow> class_map" where
  "frontend_classes np = module_globals np [] [
     (''BaseFrontendMsg'', []),
     (''BatchFrontendMsg'', BatchFrontendMsg_fields),
     (''UserReply'', UserReply_fields),
     (''CacheRebuildReply'', CacheRebuildReply_fields)]"

section \<open>Transport\<close>

text \<open>
  A queue packs the encoded message and unpacks it on the other side; packing keeps every value
  except that a tuple comes back as a list (\<open>relay True\<close>).  \<open>relay False\<close> is the identity.
\<close>

fun relay :: "bool \<Rightarrow> pyval \<Rightarrow> pyval" where
  "relay b (PList xs) = PList (map (relay b) xs)"
| "relay b (PTuple xs) = (if b then PList (map (relay b) xs) else PTuple (map (relay b) xs))"
| "relay b (PDict kvs) = PDict (map (map_prod id (relay b)) kvs)"
| "relay b (PObj n fs) = PObj n (map (map_prod id (relay b)) fs)"
| "relay b v = v"

definition queue_transfer ::
  "(pyval \<Rightarrow> 'b) \<Rightarrow> ('b \<Rightarrow> pyval res) \<Rightarrow> numpy \<Rightarrow> class_map \<Rightarrow> pyval \<Rightarrow> pyval res" where
  "queue_transfer pack unpack np env msg =
     res_bind (serialize_type np msg) (\<lambda>d. res_bind (unpack (pack d)) (deserialize_type np env))"

section \<open>Well-formed values\<close>

definition tensor_ok :: "numpy \<Rightarrow> tensor \<Rightarrow> bool" where
  "tensor_ok np t \<longleftrightarrow> t_dim t = 1 \<and>
     (case np_tobytes np t of Inl _ \<Rightarrow> False | Inr b \<Rightarrow> np_frombuffer np (strip_torch (t_dtype t)) b = Inr t)"

definition class_ok :: "global_value option \<Rightarrow> (string \<times> pyval) list \<Rightarrow> bool" where
  "class_ok c fs \<longleftrightarrow> (case c of
       Some (GClass cls) \<Rightarrow> map fst fs = map fst cls \<and> distinct (map fst cls) \<and> type_key \<notin> set (map fst cls)
     | _ \<Rightarrow> False)"

fun wf_val :: "numpy \<Rightarrow> class_map \<Rightarrow> pyval \<Rightarrow> bool" where
  "wf_val np env (PList xs) = list_all (wf_val np env) xs"
| "wf_val np env (PTuple xs) = list_all (wf_val np env) xs"
| "wf_val np env (PDict kvs) = (distinct (map fst kvs) \<and> list_all (\<lambda>(k, v). wf_val np env v) kvs)"
| "wf_val np env (PTensor t) = tensor_ok np t"
| "wf_val np env (PObj n fs) =
     (n \<noteq> ''Tensor'' \<and> class_ok (env n) fs \<and> list_all (\<lambda>(k, v). wf_val np env v) fs)"
| "wf_val np env PFunction = False"
| "wf_val np env POther = False"
| "wf_val np env v = True"

lemma keys_serialize: "serialize_fields np kvs = Inr e \<Longrightarrow> map fst e = map fst kvs"
  by (induction kvs arbitrary: e) (auto simp: res_bind_eq_Inr)

section \<open>Round trip\<close>

lemma fold_update_append:
  "distinct (map fst (xs @ e)) \<Longrightarrow> fold (\<lambda>(k, v). AList.update k v) e xs = xs @ e"
proof (induction e arbitrary: xs)
  case (Cons a e)
  obtain k v where a: "a = (k, v)" by (cases a)
  have "k \<notin> fst ` set xs" using Cons.prems a by auto
  then have "AList.update k v xs = xs @ [(k, v)]" by (induction xs) auto
  then show ?case using Cons.IH[of "xs @ [(k, v)]"] Cons.prems a by simp
qed simp

lemma obj_record_eq:
  "distinct (map fst e) \<Longrightarrow> type_key \<notin> set (map fst e) \<Longrightarrow> obj_record n e = PDict ((type_key, PStr n) # e)"
  using fold_update_append[of "[(type_key, PStr n)]" e] by (simp add: obj_record_def)

lemma map_fst_relay [simp]: "map fst (map (map_prod id f) e) = map fst e"
  by (induction e) auto

lemma map_of_relay: "map_of (map (map_prod id f) e) k = map_option f (map_of e k)"
  by (induction e) auto

lemma kwargs_eq_fields:
  "type_key \<notin> set (map fst e) \<Longrightarrow> deserialize_kwargs np env e = deserialize_fields np env e"
  by (induction e) auto

lemma construct_all:
  assumes "map fst kw = map fst cls" "distinct (map fst cls)"
  shows "construct n cls kw = Inr (PObj n kw)"
proof -
  have k: "fst ` set kw = fst ` set cls" using assms(1) by (metis set_map)
  have "map (\<lambda>(f, d). (f, case map_of kw f of Some v \<Rightarrow> v | None \<Rightarrow> the d)) cls =
    map (\<lambda>f. (f, case map_of kw f of Some v \<Rightarrow> v | None \<Rightarrow> the (the (map_of cls f)))) (map fst cls)"
    using assms(2) by (auto simp: map_of_eq_Some_iff split: option.splits)
  also have "\<dots> = map (\<lambda>f. (f, the (map_of kw f))) (map fst kw)"
    unfolding assms(1)[symmetric] by (auto split: option.splits) (metis domIff dom_map_of_conv_image_fst imageI fst_conv)
  also have "\<dots> = kw"
  proof -
    have "distinct (map fst kw)" using assms by simp
    then have "(k, the (map_of kw k)) = (k, v)" if "(k, v) \<in> set kw" for k v using that by simp
    then show ?thesis unfolding map_map by (auto simp del: assms(1) intro!: map_idI)
  qed
  finally show ?thesis unfolding construct_def using k by force
qed

lemma deserialize_object:
  assumes "deserialize_fields np env e = Inr fs" "map fst e = map fst fs" "n \<noteq> ''Tensor''" "class_ok (env n) fs"
  shows "deserialize_any np env (PDict ((type_key, PStr n) # e)) = Inr (PObj n fs)"
    and "deserialize_type np env (PDict ((type_key, PStr n) # e)) = Inr (PObj n fs)"
proof -
  obtain cls where c: "env n = Some (GClass cls)" "map fst fs = map fst cls" "distinct (map fst cls)" "type_key \<notin> set (map fst cls)"
    using assms(4) by (auto simp: class_ok_def split: option.splits global_value.splits)
  have k: "deserialize_kwargs np env e = Inr fs" using kwargs_eq_fields[of e np env] assms(1,2) c by metis
  show "deserialize_any np env (PDict ((type_key, PStr n) # e)) = Inr (PObj n fs)"
    using assms(3) c k construct_all[OF c(2,3)] by (simp add: raw_dict_key_def type_key_def call_global_def)
  show "deserialize_type np env (PDict ((type_key, PStr n) # e)) = Inr (PObj n fs)"
    using assms(3) c k construct_all[OF c(2,3)] by (simp add: deserialize_type_def type_key_def call_global_def)
qed

lemma deserialize_wrapped:
  assumes d: "deserialize_fields np env (map (map_prod id (relay b)) e) = Inr fs"
  shows "deserialize_any np env (relay b (wrap_dict e)) = Inr (PDict fs)"
proof (cases "type_key \<in> fst ` set e \<or> raw_dict_key \<in> fst ` set e")
  case True
  then show ?thesis using d by (simp add: wrap_dict_def)
next
  case False
  let ?e = "map (map_prod id (relay b)) e"
  have "\<not> (length ?e = 1 \<and> fst (hd ?e) = raw_dict_key)" using False by (cases e) auto
  then have "(length ?e = 1 \<and> fst (hd ?e) = raw_dict_key) = False" by blast
  moreover have "map_of ?e type_key = None" using False by (simp add: map_of_relay map_of_eq_None_iff)
  ultimately have "deserialize_any np env (PDict ?e) = Inr (PDict fs)"
    using d by (simp only: deserialize_any.simps if_False option.case res_bind_simps)
  then show ?thesis using False by (simp add: wrap_dict_def)
qed

lemma tensor_roundtrip:
  assumes "tensor_ok np t"
  shows "\<exists>s. tensor_record np t = Inr s \<and> deserialize_any np env (relay b s) = Inr (PTensor t) \<and>
    deserialize_type np env (relay b s) = Inr (PTensor t)"
proof -
  obtain x where "t_dim t = 1" "np_tobytes np t = Inr x" "np_frombuffer np (strip_torch (t_dtype t)) x = Inr t"
    using assms by (auto simp: tensor_ok_def split: sum.splits)
  then show ?thesis
    by (simp add: tensor_record_def tensor_of_record_def deserialize_type_def type_key_def raw_dict_key_def)
qed

lemma class_ok_relay [simp]: "class_ok c (map (map_prod id f) fs) = class_ok c fs"
  by (simp add: class_ok_def split: option.splits global_value.splits)

lemma class_okD: "class_ok c fs \<Longrightarrow> distinct (map fst fs) \<and> type_key \<notin> set (map fst fs)"
  by (simp add: class_ok_def split: option.splits global_value.splits) (metis set_map)

lemma object_roundtrip:
  assumes s: "serialize_fields np fs = Inr e" "deserialize_fields np env (map (map_prod id (relay b)) e) = Inr (map (map_prod id (relay b)) fs)"
    and n: "n \<noteq> ''Tensor''" "class_ok (env n) fs"
  shows "deserialize_any np env (relay b (obj_record n e)) = Inr (relay b (PObj n fs)) \<and>
    deserialize_type np env (relay b (obj_record n e)) = Inr (relay b (PObj n fs))"
proof -
  note k = keys_serialize[OF s(1)] and c = class_okD[OF n(2)]
  have "map fst (map (map_prod id (relay b)) e) = map fst (map (map_prod id (relay b)) fs)" using k by simp
  note D = deserialize_object[OF s(2) this n(1)]
  then show ?thesis using n c k by (simp add: obj_record_eq)
qed

lemma serialize_roundtrip:
  "wf_val np env v \<Longrightarrow> \<exists>s. serialize_any np v = Inr s \<and> deserialize_any np env (relay b s) = Inr (relay b v)"
  "list_all (wf_val np env) xs \<Longrightarrow> \<exists>s. serialize_list np xs = Inr s \<and>
     deserialize_list np env (map (relay b) s) = Inr (map (relay b) xs)"
  "list_all (\<lambda>(k, v). wf_val np env v) fs \<Longrightarrow> \<exists>s. serialize_fields np fs = Inr s \<and>
     deserialize_fields np env (map (map_prod id (relay b)) s) = Inr (map (map_prod id (relay b)) fs)"
proof (induction np v and np xs and np fs rule: serialize_any_serialize_list_serialize_fields.induct)
  case (1 np kvs)
  then show ?case using deserialize_wrapped by fastforce
next
  case (4 np t)
  then show ?case using tensor_roundtrip by fastforce
next
  case (5 np n fs)
  then show ?case using object_roundtrip by fastforce
qed fastforce+

lemma relay_False [simp]: "relay False v = v"
proof (induction v)
  case (PDict kvs)
  then show ?case by (auto intro!: map_idI)
next
  case (PObj n fs)
  then show ?case by (auto intro!: map_idI)
qed (auto intro!: map_idI)

lemma map_relay_False [simp]: "map (map_prod id (relay False)) kvs = kvs"
  by (auto intro!: map_idI)

lemma message_codec:
  assumes "wf_val np env (PObj n fs)"
  shows "\<exists>s. serialize_type np (PObj n fs) = Inr s \<and>
    deserialize_type np env (relay b s) = Inr (relay b (PObj n fs))"
proof -
  have w: "n \<noteq> ''Tensor''" "class_ok (env n) fs" "list_all (\<lambda>(k, v). wf_val np env v) fs" using assms by simp_all
  obtain e where e: "serialize_fields np fs = Inr e"
    "deserialize_fields np env (map (map_prod id (relay b)) e) = Inr (map (map_prod id (relay b)) fs)"
    using serialize_roundtrip(3)[OF w(3)] by blast
  show ?thesis using object_roundtrip[OF e w(1,2)] e(1) by (simp add: serialize_type_def)
qed

section \<open>Properties\<close>

text \<open>
  C29: every well-formed message survives encoding and decoding unchanged, and a queue whose
  transport only turns tuples into lists delivers it with just that change.
\<close>

theorem queue_delivers:
  assumes "wf_val np env (PObj n fs)"
    and "\<forall>d. serialize_type np (PObj n fs) = Inr d \<longrightarrow> unpack (pack d) = Inr (relay True d)"
  shows "res_bind (serialize_type np (PObj n fs)) (deserialize_type np env) = Inr (PObj n fs) \<and>
     queue_transfer pack unpack np env (PObj n fs) = Inr (relay True (PObj n fs))"
proof
  show "res_bind (serialize_type np (PObj n fs)) (deserialize_type np env) = Inr (PObj n fs)"
    using message_codec[OF assms(1), of False] by auto
  obtain s where "serialize_type np (PObj n fs) = Inr s"
    "deserialize_type np env (relay True s) = Inr (relay True (PObj n fs))"
    using message_codec[OF assms(1), of True] by blast
  then show "queue_transfer pack unpack np env (PObj n fs) = Inr (relay True (PObj n fs))"
    using assms(2) by (simp add: queue_transfer_def)
qed

definition demo_numpy :: numpy where
  "demo_numpy = \<lparr>np_tobytes = (\<lambda>t. Inr (map nat (t_data t))),
     np_frombuffer = (\<lambda>d b. Inr \<lparr>t_dim = 1, t_dtype = ''torch.'' @ d, t_data = map int b\<rparr>)\<rparr>"

text \<open>A request whose multimodal payload uses the tag keys as field names.\<close>

definition demo_fields :: "(string \<times> pyval) list" where
  "demo_fields = [(''uid'', PInt 7),
     (''input_ids'', PTensor \<lparr>t_dim = 1, t_dtype = ''torch.int32'', t_data = [5, 6]\<rparr>),
     (''sampling_params'', PObj ''SamplingParams''
        [(''temperature'', PFloat 0), (''top_k'', PInt (-1)), (''top_p'', PFloat 1),
         (''ignore_eos'', PBool False), (''max_tokens'', PInt 16), (''stop_strs'', PList [PStr ''end''])]),
     (''mm_embeds'', PNone), (''mm_inputs'', PDict [(''__type__'', PStr ''object''), (''n'', PInt 1)]),
     (''mm_positions'', PNone), (''mm_delta'', PInt 0),
     (''checkpoint_endpoints'', PTuple [PInt 2]), (''timing'', PNone)]"

theorem queue_delivers_witness:
  "queue_transfer id (\<lambda>d. Inr (relay True d)) demo_numpy (backend_classes demo_numpy) (PObj ''UserMsg'' demo_fields) =
     Inr (PObj ''UserMsg'' (list_update demo_fields 7 (''checkpoint_endpoints'', PList [PInt 2])))"
proof -
  have "wf_val demo_numpy (backend_classes demo_numpy) (PObj ''UserMsg'' demo_fields)"
    by (simp add: demo_fields_def demo_numpy_def backend_classes_def module_globals_def UserMsg_fields_def SamplingParams_fields_def
        class_ok_def tensor_ok_def type_key_def)
  from queue_delivers[OF this, of "\<lambda>d. Inr (relay True d)" id]
  show ?thesis by (simp add: demo_fields_def)
qed

text \<open>
  A plain payload: dictionaries, lists, tuples and scalars, with any keys.
\<close>

fun plain :: "pyval \<Rightarrow> bool" where
  "plain (PList xs) = list_all plain xs"
| "plain (PTuple xs) = list_all plain xs"
| "plain (PDict kvs) = (distinct (map fst kvs) \<and> list_all (\<lambda>(k, v). plain v) kvs)"
| "plain (PTensor t) = False"
| "plain (PObj n fs) = False"
| "plain PFunction = False"
| "plain POther = False"
| "plain v = True"

lemma plain_wf: "plain v \<Longrightarrow> wf_val np env v"
proof (induction v)
  case (PDict kvs)
  then show ?case by (fastforce simp: list_all_iff)
qed (auto simp: list_all_iff)

text \<open>
  C30: a plain payload, in which clients choose the keys, decodes to itself under every class map:
  no choice of keys makes the decoder build an object, read a tensor or raise.
\<close>

theorem payload_transparent:
  assumes "plain v"
  shows "res_bind (serialize_any np v) (deserialize_any np env) = Inr v"
  using serialize_roundtrip(1)[OF plain_wf[OF assms], of np env False] by auto

theorem payload_transparent_witness:
  "res_bind (serialize_any demo_numpy (PDict [(''__type__'', PStr ''Tensor''), (''__raw_dict__'', PDict [(''__type__'', PInt 3)])]))
     (deserialize_any demo_numpy (backend_classes demo_numpy)) =
   Inr (PDict [(''__type__'', PStr ''Tensor''), (''__raw_dict__'', PDict [(''__type__'', PInt 3)])])"
  by (rule payload_transparent) simp

end
