(* ===== verification/MessageTypes.thy ===== *)
theory MessageTypes
  imports Messages
begin

text \<open>
  Type safety of the decoder of \<open>message/utils.py\<close>: whatever bytes arrive on a queue, a value that
  decodes at all is built only from instances of the classes of the decoding module, each with
  exactly the fields its class declares.
\<close>

fun typed :: "class_map \<Rightarrow> pyval \<Rightarrow> bool" where
  "typed env (PList xs) = list_all (typed env) xs"
| "typed env (PTuple xs) = list_all (typed env) xs"
| "typed env (PDict kvs) = list_all (\<lambda>(k, v). typed env v) kvs"
| "typed env (PObj n fs) =
     ((case env n of Some (GClass cls) \<Rightarrow> map fst fs = map fst cls | _ \<Rightarrow> False) \<and>
      list_all (\<lambda>(k, v). typed env v) fs)"
| "typed env POther = False"
| "typed env v = True"

text \<open>The defaults of the declared fields are themselves typed, and so is what the other callables give.\<close>

definition entry_typed :: "class_map \<Rightarrow> global_value \<Rightarrow> bool" where
  "entry_typed env g = (case g of
       GClass cls \<Rightarrow> \<forall>(f, d)\<in>set cls. case d of None \<Rightarrow> True | Some v \<Rightarrow> typed env v
     | GFunction f \<Rightarrow> \<forall>kw v. list_all (\<lambda>(k, v). typed env v) kw \<longrightarrow> f kw = Inr v \<longrightarrow> typed env v
     | GValue \<Rightarrow> True)"

definition env_typed :: "class_map \<Rightarrow> bool" where
  "env_typed env \<longleftrightarrow> (\<forall>n g. env n = Some g \<longrightarrow> entry_typed env g)"

lemma construct_typed:
  assumes env: "env_typed env" and cls: "env n = Some (GClass cls)"
    and kw: "list_all (\<lambda>(k, v). typed env v) kwargs" and v: "construct n cls kwargs = Inr v"
  shows "typed env v"
proof -
  have field: "typed env (case map_of kwargs f of Some v \<Rightarrow> v | None \<Rightarrow> the d)" if "(f, d) \<in> set cls" for f d
  proof (cases "map_of kwargs f")
    case None
    then have "f \<notin> fst ` set kwargs" by (simp add: map_of_eq_None_iff)
    then have "d \<noteq> None" using v that by (auto simp: construct_def split: if_splits)
    then show ?thesis using env cls that None by (fastforce simp: env_typed_def entry_typed_def)
  next
    case (Some w)
    then show ?thesis using kw map_of_SomeD[OF Some] by (auto simp: list_all_iff)
  qed
  let ?fs = "map (\<lambda>(f, d). (f, case map_of kwargs f of Some v \<Rightarrow> v | None \<Rightarrow> the d)) cls"
  have "v = PObj n ?fs" using v by (simp add: construct_def split: if_splits)
  moreover have "map fst ?fs = map fst cls" by (simp add: comp_def split_def)
  moreover have "list_all (\<lambda>(k, v). typed env v) ?fs"
    using field by (auto simp: list_all_iff)
  ultimately show ?thesis using cls by (simp del: map_map)
qed

lemma call_typed:
  assumes "env_typed env" "env n = Some g" "list_all (\<lambda>(k, v). typed env v) kw" "call_global n g kw = Inr v"
  shows "typed env v"
proof (cases g)
  case (GClass cls)
  then show ?thesis using assms(2-4) construct_typed[OF assms(1), of n cls kw v] by (simp add: call_global_def)
next
  case (GFunction f)
  have "entry_typed env g" using assms(1,2) by (simp add: env_typed_def)
  then have "list_all (\<lambda>(k, v). typed env v) kw \<longrightarrow> f kw = Inr v \<longrightarrow> typed env v"
    unfolding GFunction entry_typed_def global_value.case by (elim allE)
  then show ?thesis using assms(3,4) GFunction by (simp add: call_global_def)
next
  case GValue
  then show ?thesis using assms(4) by (simp add: call_global_def)
qed

lemma tensor_of_record_typed: "tensor_of_record np kvs = Inr v \<Longrightarrow> typed env v"
  by (auto simp: tensor_of_record_def res_bind_eq_Inr split: option.splits pyval.splits)

lemma deserialize_typed:
  "deserialize_any np env x = Inr v \<Longrightarrow> env_typed env \<Longrightarrow> typed env v"
  "deserialize_list np env xs = Inr vs \<Longrightarrow> env_typed env \<Longrightarrow> list_all (typed env) vs"
  "deserialize_fields np env kvs = Inr ds \<Longrightarrow> env_typed env \<Longrightarrow> list_all (\<lambda>(k, v). typed env v) ds"
  "deserialize_kwargs np env kws = Inr es \<Longrightarrow> env_typed env \<Longrightarrow> list_all (\<lambda>(k, v). typed env v) es"
proof (induction np env x and np env xs and np env kvs and np env kws
    arbitrary: v and vs and ds and es
    rule: deserialize_any_deserialize_list_deserialize_fields_deserialize_kwargs.induct)
  case (1 np env kvs)
  show ?case
  proof (cases "length kvs = 1 \<and> fst (hd kvs) = raw_dict_key")
    case True
    then obtain k x where kvs: "kvs = [(k, x)]" by (cases kvs) auto
    then obtain inner where x: "x = PDict inner" using "1.prems"(1) True by (cases x) auto
    obtain d where "deserialize_fields np env inner = Inr d" "v = PDict d"
      using "1.prems"(1) True kvs x by (auto simp: res_bind_eq_Inr)
    then show ?thesis using "1.IH"(1)[OF True, of "(k, x)" "[]" k x inner d] "1.prems"(2) kvs x by simp
  next
    case False
    show ?thesis
    proof (cases "map_of kvs type_key")
      case None
      then show ?thesis using "1.IH"(2)[OF False None] "1.prems" False by (auto simp: res_bind_eq_Inr)
    next
      case (Some w)
      then obtain n where w: "w = PStr n"
        using "1.prems"(1) False by (cases w) (auto split: if_splits)
      show ?thesis
      proof (cases "n = ''Tensor''")
        case True
        then show ?thesis using "1.prems"(1) False Some w tensor_of_record_typed by auto
      next
        case no: False
        then obtain g ks where "env n = Some g" "deserialize_kwargs np env kvs = Inr ks" "call_global n g ks = Inr v"
          using "1.prems"(1) False Some w by (auto simp: res_bind_eq_Inr split: option.splits)
        then show ?thesis
          using "1.IH"(3)[OF False Some w no] "1.prems"(2) call_typed by blast
      qed
    qed
  qed
qed (auto simp: res_bind_eq_Inr split: if_splits)

lemma deserialize_type_cases:
  assumes "deserialize_type np env data = Inr v"
  obtains (tensor) kvs where "data = PDict kvs" "map_of kvs type_key = Some (PStr ''Tensor'')"
      "tensor_of_record np kvs = Inr v"
    | (call) kvs n g ks where "data = PDict kvs" "map_of kvs type_key = Some (PStr n)" "n \<noteq> ''Tensor''" "env n = Some g"
      "deserialize_kwargs np env kvs = Inr ks" "call_global n g ks = Inr v"
proof -
  obtain kvs where kvs: "data = PDict kvs" using assms by (cases data) (auto simp: deserialize_type_def)
  then obtain n where n: "map_of kvs type_key = Some (PStr n)"
    using assms by (auto simp: deserialize_type_def split: option.splits pyval.splits if_splits)
  show thesis
  proof (cases "n = ''Tensor''")
    case True
    then show thesis using tensor[of kvs] assms kvs n by (simp add: deserialize_type_def)
  next
    case False
    then show thesis
      using call[of kvs n] assms kvs n by (auto simp: deserialize_type_def res_bind_eq_Inr split: option.splits)
  qed
qed

lemma deserialize_type_typed: "deserialize_type np env data = Inr v \<Longrightarrow> env_typed env \<Longrightarrow> typed env v"
  using call_typed deserialize_typed(4) tensor_of_record_typed by (elim deserialize_type_cases) blast+

section \<open>The functions a record can name\<close>

text \<open>An encoding has no instances in it.\<close>

lemma fold_update_all:
  "list_all (\<lambda>(k, v). P v) e \<Longrightarrow> list_all (\<lambda>(k, v). P v) acc \<Longrightarrow>
   list_all (\<lambda>(k, v). P v) (fold (\<lambda>(k, v). AList.update k v) e acc)"
proof (induction e arbitrary: acc)
  case (Cons a e)
  obtain k v where a: "a = (k, v)" by (cases a)
  have "list_all (\<lambda>(k, v). P v) (AList.update k v acc)" if "P v" "list_all (\<lambda>(k, v). P v) acc"
    using that by (induction acc) auto
  then show ?case using Cons a by simp
qed simp

lemma serialize_typed:
  "serialize_any np v = Inr s \<Longrightarrow> typed env s"
  "serialize_list np vs = Inr ss \<Longrightarrow> list_all (typed env) ss"
  "serialize_fields np kvs = Inr es \<Longrightarrow> list_all (\<lambda>(k, v). typed env v) es"
proof (induction np v and np vs and np kvs arbitrary: s and ss and es
    rule: serialize_any_serialize_list_serialize_fields.induct)
  case (5 np n fs)
  then obtain e where e: "serialize_fields np fs = Inr e" "s = obj_record n e" by (auto simp: res_bind_eq_Inr)
  then show ?case using 5 fold_update_all[of "typed env" e] by (simp add: obj_record_def)
qed (auto simp: res_bind_eq_Inr wrap_dict_def tensor_record_def)

lemma call_serialize_typed:
  assumes "call_serialize np kw = Inr v"
  shows "typed env v \<and> (\<exists>kvs. v = PDict kvs)"
proof -
  obtain x where x: "serialize_type np x = Inr v" using assms by (auto simp: call_serialize_def split: if_splits)
  have "serialize_any np x = Inr v" "\<exists>kvs. v = PDict kvs"
    using x by (auto simp: serialize_type_def tensor_record_def obj_record_def res_bind_eq_Inr split: pyval.splits)
  then show ?thesis using serialize_typed(1) by blast
qed

lemma call_deserialize_typed:
  assumes "call_deserialize np kw = Inr v"
  shows "typed env v \<and> (\<exists>t. v = PTensor t)"
proof -
  let ?env = "\<lambda>vs n. Option.bind (map_of vs n) value_global"
  have t: "tensor_of_record np kvs = Inr v \<Longrightarrow> \<exists>t. v = PTensor t" for kvs
    by (auto simp: tensor_of_record_def res_bind_eq_Inr split: option.splits pyval.splits)
  let ?data = "the (map_of kw ''data'')"
  have keys: "fst ` set kw = {''cls_map'', ''data''}"
    by (rule ccontr) (use assms in \<open>simp only: call_deserialize_def if_True not_True_eq_False sum.distinct simp_thms\<close>)
  have "(\<exists>kvs. tensor_of_record np kvs = Inr v) \<or> (\<exists>vs. deserialize_type np (?env vs) ?data = Inr v)"
  proof (cases "\<exists>vs. the (map_of kw ''cls_map'') = PDict vs")
    case True
    then obtain vs where "the (map_of kw ''cls_map'') = PDict vs" by blast
    then have "deserialize_type np (?env vs) ?data = Inr v"
      using assms unfolding call_deserialize_def keys Let_def by simp
    then show ?thesis by blast
  next
    case False
    then have "(case ?data of
        PDict kvs \<Rightarrow>
          (case map_of kvs type_key of None \<Rightarrow> Inl KeyError
           | Some n \<Rightarrow> if n = PStr ''Tensor'' then tensor_of_record np kvs else Inl AttributeError)
      | _ \<Rightarrow> Inl TypeError) = Inr v"
      using assms unfolding call_deserialize_def keys Let_def
      by (cases "the (map_of kw ''cls_map'')") simp_all
    then show ?thesis by (cases ?data) (auto split: option.splits if_splits)
  qed
  moreover have "\<exists>kvs. tensor_of_record np kvs = Inr v" if "deserialize_type np (?env vs) ?data = Inr v" for vs
    using that
  proof (cases rule: deserialize_type_cases)
    case (call kvs n g ks)
    obtain x where "value_global x = Some g" using call(4) by (cases "map_of vs n") auto
    then have "call_global n g ks \<noteq> Inr v" by (cases x) (auto simp: value_global_def call_global_def)
    then show ?thesis using call(6) by simp
  qed blast
  ultimately have "\<exists>t. v = PTensor t" using t by blast
  then show ?thesis by auto
qed

lemma call_dataclass_typed: "call_dataclass kw = Inr v \<Longrightarrow> v = PFunction"
  by (simp add: call_dataclass_def split: if_splits)

definition entries_typed :: "(string \<times> dataclass_fields) list \<Rightarrow> class_map \<Rightarrow> bool" where
  "entries_typed classes env \<longleftrightarrow> (\<forall>(n, cls)\<in>set classes. \<forall>(f, d)\<in>set cls. case d of None \<Rightarrow> True | Some v \<Rightarrow> typed env v)"

lemma module_globals_entry:
  assumes "module_globals np imps classes n = Some g"
  obtains cls where "(n, cls) \<in> set classes" "g = GClass cls"
    | "n = ''serialize_type''" "g = GFunction (call_serialize np)"
    | "n = ''deserialize_type''" "g = GFunction (call_deserialize np)"
    | "n = ''dataclass''" "g = GFunction call_dataclass"
    | "g = GValue"
proof -
  have "(n, g) \<in> map_prod id GClass ` set classes \<or>
      (n, g) \<in> {(''serialize_type'', GFunction (call_serialize np)), (''deserialize_type'', GFunction (call_deserialize np)),
        (''dataclass'', GFunction call_dataclass)} \<or> g = GValue"
    using map_of_SomeD[OF assms[unfolded module_globals_def]] unfolding set_append set_map
    by (elim UnE) auto
  then show thesis
  proof (elim disjE)
    assume "(n, g) \<in> map_prod id GClass ` set classes"
    then show thesis using that(1) by auto
  qed (use that(2-5) in blast)+
qed

lemma module_globals_typed:
  assumes "\<And>env. entries_typed classes env"
  shows "env_typed (module_globals np imps classes)"
  unfolding env_typed_def
proof (intro allI impI)
  fix n g assume "module_globals np imps classes n = Some g"
  then show "entry_typed (module_globals np imps classes) g"
  proof (cases rule: module_globals_entry)
    case (1 cls)
    have "\<forall>(f, d)\<in>set cls. case d of None \<Rightarrow> True | Some v \<Rightarrow> typed (module_globals np imps classes) v"
      using assms 1(1) unfolding entries_typed_def by (blast dest: bspec)
    then show ?thesis unfolding 1(2) entry_typed_def by simp
  next
    case 2
    then show ?thesis using call_serialize_typed by (simp add: entry_typed_def)
  next
    case 3
    then show ?thesis using call_deserialize_typed by (simp add: entry_typed_def)
  next
    case 4
    have "typed (module_globals np imps classes) v" if "call_dataclass kw = Inr v" for kw v
      using call_dataclass_typed[OF that] by simp
    then show ?thesis unfolding 4(2) entry_typed_def by simp
  qed (simp add: entry_typed_def)
qed

lemmas message_fields = SamplingParams_fields_def BatchBackendMsg_fields_def UserMsg_fields_def
  AbortBackendMsg_fields_def CacheRebuildBackendMsg_fields_def BatchTokenizerMsg_fields_def
  DetokenizeMsg_fields_def PromptAdmittedMsg_fields_def TokenizeMsg_fields_def AbortMsg_fields_def
  CacheRebuildMsg_fields_def CacheRebuildResultMsg_fields_def ErrorReplyMsg_fields_def
  BatchFrontendMsg_fields_def UserReply_fields_def CacheRebuildReply_fields_def

lemma classes_typed:
  "env_typed (backend_classes np)" "env_typed (tokenizer_classes np)" "env_typed (frontend_classes np)"
  unfolding backend_classes_def tokenizer_classes_def frontend_classes_def
  by (rule module_globals_typed, simp add: entries_typed_def message_fields)+

section \<open>Properties\<close>

text \<open>
  C37: what decoding can build.  On every input, even one no encoder produced, the decoder of the scheduler,
  the tokenizer or the front end either raises or returns a value in which every instance, at
  any depth, is of one of the classes of its module and has exactly the declared fields in order,
  missing ones filled by their defaults.  The value itself is what the tag of the record names: a
  tensor, an instance of that very class, or, because the class map is the whole \<open>globals()\<close> of the
  module, the result of one of three imported functions, which is a dictionary, a tensor or a
  function and never an instance.  So a record with the tag \<open>dataclass\<close> decodes to a function.
\<close>

theorem decode_typed:
  assumes "env \<in> {backend_classes np, tokenizer_classes np, frontend_classes np}"
  shows "(\<forall>v. deserialize_type np env data = Inr v \<longrightarrow> typed env v \<and>
       (\<exists>kvs n. data = PDict kvs \<and> map_of kvs type_key = Some (PStr n) \<and>
          (if n = ''Tensor'' then \<exists>t. v = PTensor t
           else case env n of
             Some (GClass cls) \<Rightarrow> \<exists>fs. v = PObj n fs \<and> map fst fs = map fst cls
           | Some (GFunction f) \<Rightarrow> n \<in> {''serialize_type'', ''deserialize_type'', ''dataclass''} \<and>
               ((\<exists>kvs. v = PDict kvs) \<or> (\<exists>t. v = PTensor t) \<or> v = PFunction)
           | _ \<Rightarrow> False))) \<and>
     deserialize_type np env (PDict [(type_key, PStr ''dataclass'')]) = Inr PFunction"
proof (intro conjI allI impI)
  have env: "env_typed env" using assms classes_typed by auto
  obtain imps classes where m: "env = module_globals np imps classes"
    using assms by (auto simp: backend_classes_def tokenizer_classes_def frontend_classes_def)
  have "env ''dataclass'' = Some (GFunction call_dataclass)"
    using assms by (auto simp: backend_classes_def tokenizer_classes_def frontend_classes_def module_globals_def)
  then show "deserialize_type np env (PDict [(type_key, PStr ''dataclass'')]) = Inr PFunction"
    by (simp add: deserialize_type_def call_global_def call_dataclass_def)
  fix v assume v: "deserialize_type np env data = Inr v"
  show "typed env v" by (rule deserialize_type_typed[OF v env])
  show "\<exists>kvs n. data = PDict kvs \<and> map_of kvs type_key = Some (PStr n) \<and>
      (if n = ''Tensor'' then \<exists>t. v = PTensor t
       else case env n of
         Some (GClass cls) \<Rightarrow> \<exists>fs. v = PObj n fs \<and> map fst fs = map fst cls
       | Some (GFunction f) \<Rightarrow> n \<in> {''serialize_type'', ''deserialize_type'', ''dataclass''} \<and>
           ((\<exists>kvs. v = PDict kvs) \<or> (\<exists>t. v = PTensor t) \<or> v = PFunction)
       | _ \<Rightarrow> False)"
    using v
  proof (cases rule: deserialize_type_cases)
    case (tensor kvs)
    then show ?thesis by (auto simp: tensor_of_record_def res_bind_eq_Inr split: option.splits pyval.splits)
  next
    case (call kvs n g ks)
    have "module_globals np imps classes n = Some g" using call(4) m by simp
    then show ?thesis
    proof (cases rule: module_globals_entry)
      case (1 cls)
      have "\<exists>fs. v = PObj n fs \<and> map fst fs = map fst cls"
        using call(6) 1(2) by (auto simp: call_global_def construct_def comp_def split_def split: if_splits)
      then show ?thesis using call(1-4) 1(2) by auto
    next
      case 2
      then show ?thesis using call call_serialize_typed[of np ks v] by (auto simp: call_global_def)
    next
      case 3
      then show ?thesis using call call_deserialize_typed[of np ks v] by (auto simp: call_global_def)
    next
      case 4
      then show ?thesis using call call_dataclass_typed[of ks v] by (auto simp: call_global_def)
    next
      case 5
      then show ?thesis using call by (simp add: call_global_def)
    qed
  qed
qed

definition demo_record :: pyval where
  "demo_record =
     PDict [(type_key, PStr ''UserMsg''), (''uid'', PInt 7), (''input_ids'', PList []),
            (''sampling_params'', PDict [(type_key, PStr ''SamplingParams''), (''top_k'', PInt 1)])]"

theorem decode_typed_witness:
  "\<exists>v. deserialize_type demo_numpy (backend_classes demo_numpy) demo_record = Inr v \<and>
     typed (backend_classes demo_numpy) v"
proof -
  obtain v where v: "deserialize_type demo_numpy (backend_classes demo_numpy) demo_record = Inr v"
    by (simp add: deserialize_type_def demo_record_def type_key_def raw_dict_key_def backend_classes_def
        module_globals_def call_global_def construct_def message_fields)
  show ?thesis using decode_typed[of "backend_classes demo_numpy" demo_numpy demo_record] v by simp
qed

end
