(* ===== verification/Scheduler.thy ===== *)
theory Scheduler
  imports Prefill Policy
begin

text \<open>
  The scheduler loop of \<open>runtime/scheduler/scheduler.py\<close> over the plain cache manager: inbound
  messages, batch selection, preparation and launch, draining a finished forward, freeing a
  request, abort acknowledgements, cache rebuild, and the two loops that compose them.

  The objects the loop shares are identified by their uid: \<open>sc_objs\<close> holds the \<open>Req\<close> objects (one
  per admitted uid), \<open>sc_running\<close>, \<open>sc_finished\<close> and \<open>sc_freed\<close> (\<open>table_idx == -1\<close>) are uids.
  A chunk of a prompt is an object of its own, which the pending list and the batch in flight
  share; a batch holds a copy of it, and an abort that marks it in the batch removes it from
  the pending list.  For the other entries of a batch only the uid counts.
  The forward pass is a parameter: the tokens it samples for each uid.  Timing, telemetry,
  logging, status replies' gauges, speculative drafts, exact checkpoints and the device copies
  are outside the model, and so are the sockets: inbound messages are a list, replies a log.
\<close>

section \<open>Messages\<close>

record rebuild_request =
  rb_id :: string
  rb_moe :: "int option"
  rb_pages :: "int option"
  rb_mamba :: "int option"
  rb_swa :: "int option"
  rb_mode :: string

text \<open>\<open>mm_inputs\<close>: none, or images, with whether the vision tower exists and encodes them.\<close>

datatype msg_in =
    UserMsg int "token list" sampling_params "bool option"
  | AbortBackendMsg int
  | CacheRebuildBackendMsg rebuild_request
  | BatchBackendMsg "msg_in list"
  | ExitMsg

datatype error_text = PromptTooLong nat nat | ImageError | RequestAborted

datatype rebuild_status = Unsupported | Busy | Rejected | Failed | Rebuilt

datatype msg_out =
    DetokenizeMsg int token bool "string option" "string option" "string list option"
  | ErrorReplyMsg int error_text "string option"
  | PromptAdmittedMsg int nat nat
  | CacheRebuildResultMsg string rebuild_status nat

section \<open>State\<close>

record ('c, 'h) sched_env =
  en_ops :: "('c, 'h) cache_ops"
  en_fresh :: 'c
  en_clock :: "nat \<Rightarrow> int"
  en_eos :: "token list"
  en_anchor :: "token option"
  en_decode :: "token list \<Rightarrow> string"
  en_utf8_len :: "string \<Rightarrow> nat"
  en_supports_rebuild :: bool
  en_tp_size :: nat
  en_prefill_budget :: int

record ('c, 'h) sched =
  sc_cm :: "'c cman"
  sc_tm :: table_man
  sc_max_seq_len :: nat
  sc_pend :: "'h pending list"
  sc_objs :: "'h req list"
  sc_freed :: "int list"
  sc_running :: "int list"
  sc_last :: "'h batch option"
  sc_finished :: "int list"
  sc_acks :: "int list"
  sc_tombs :: "int list"
  sc_rebuild :: "rebuild_request option"
  sc_pages :: nat
  sc_out :: "msg_out list"
  sc_ticks :: nat

definition obj :: "('c, 'h) sched \<Rightarrow> int \<Rightarrow> 'h req" where
  "obj s uid = the (find (\<lambda>r. r_uid r = uid) (sc_objs s))"

definition put_obj :: "'h req \<Rightarrow> ('c, 'h) sched \<Rightarrow> ('c, 'h) sched" where
  "put_obj r s = s\<lparr>sc_objs := map (\<lambda>x. if r_uid x = r_uid r then r else x) (sc_objs s)\<rparr>"

definition send_result :: "msg_out list \<Rightarrow> ('c, 'h) sched \<Rightarrow> ('c, 'h) sched" where
  "send_result ms s = s\<lparr>sc_out := sc_out s @ ms\<rparr>"

definition dm_of :: "('c, 'h) sched \<Rightarrow> 'h decode_man" where
  "dm_of s = \<lparr>dm_page_size = page_size (sc_cm s), running_reqs = map (obj s) (sc_running s)\<rparr>"

definition runnable :: "('c, 'h) sched \<Rightarrow> bool" where
  "runnable s \<longleftrightarrow> pm_runnable (sc_pend s) \<or> dm_runnable (dm_of s)"

text \<open>Two readings of the clock for \<open>cache_req\<close>.\<close>

definition commit_req ::
  "('c, 'h) sched_env \<Rightarrow> 'h req \<Rightarrow> bool \<Rightarrow> ('c, 'h) sched \<Rightarrow> ('h req \<times> ('c, 'h) sched) res" where
  "commit_req env r finished s =
     res_bind (cache_req (en_ops env) (en_clock env (sc_ticks s)) (en_clock env (sc_ticks s + 1)) r finished (sc_cm s))
       (\<lambda>(r', cm). Inr (r', s\<lparr>sc_cm := cm, sc_ticks := sc_ticks s + 2\<rparr>))"

section \<open>Freeing a request\<close>

definition clamp :: "'h req \<Rightarrow> 'h req" where
  "clamp r = (if length (r_input_ids r) < r_cached_len r
              then r\<lparr>r_overadvanced := True, r_cached_len := length (r_input_ids r)\<rparr> else r)"

definition release :: "('c, 'h) sched_env \<Rightarrow> 'h req \<Rightarrow> ('c, 'h) sched \<Rightarrow> ('h req \<times> ('c, 'h) sched) res" where
  "release env r s =
     res_bind (commit_req env (clamp r) True s) (\<lambda>(r', s1).
       Inr (r', s1\<lparr>sc_tm := tm_release (r_table_idx r) (sc_tm s1)\<rparr>))"

text \<open>\<open>_free_req_resources\<close> of a \<open>Req\<close> object, with the sentinel, and of a chunk.\<close>

definition free_req_resources :: "('c, 'h) sched_env \<Rightarrow> int \<Rightarrow> ('c, 'h) sched \<Rightarrow> ('c, 'h) sched res" where
  "free_req_resources env uid s =
     (if uid \<in> set (sc_freed s) then Inr s
      else res_bind (release env (obj s uid) s) (\<lambda>(r, s1).
        Inr (put_obj r s1\<lparr>sc_freed := uid # sc_freed s1\<rparr>)))"

definition free_chunk :: "('c, 'h) sched_env \<Rightarrow> 'h req \<Rightarrow> ('c, 'h) sched \<Rightarrow> ('c, 'h) sched res" where
  "free_chunk env r s = res_bind (release env r s) (\<lambda>(r', s1). Inr s1)"

section \<open>Inbound messages\<close>

definition in_flight :: "bool \<Rightarrow> int \<Rightarrow> ('c, 'h) sched \<Rightarrow> bool" where
  "in_flight chunked uid s \<longleftrightarrow> (case sc_last s of None \<Rightarrow> False
     | Some b \<Rightarrow> (\<exists>r\<in>set (b_reqs b). r_chunked r = chunked \<and> r_uid r = uid))"

definition mark_chunk :: "int \<Rightarrow> ('c, 'h) sched \<Rightarrow> ('c, 'h) sched" where
  "mark_chunk uid s = s\<lparr>sc_last := map_option (\<lambda>b. b\<lparr>b_reqs :=
     map (\<lambda>r. if r_chunked r \<and> r_uid r = uid then r\<lparr>r_aborted := True\<rparr> else r) (b_reqs b)\<rparr>) (sc_last s)\<rparr>"

definition tombstone_limit :: nat where "tombstone_limit = 65536"

definition add_tombstone :: "int \<Rightarrow> int list \<Rightarrow> int list" where
  "add_tombstone uid ts =
     (let ts1 = (if uid \<in> set ts then ts else ts @ [uid]) in drop (length ts1 - tombstone_limit) ts1)"

definition process_user ::
  "('c, 'h) sched_env \<Rightarrow> int \<Rightarrow> token list \<Rightarrow> sampling_params \<Rightarrow> bool option \<Rightarrow> ('c, 'h) sched \<Rightarrow> ('c, 'h) sched" where
  "process_user env uid ids sp images s =
     (if uid \<in> set (sc_tombs s) then s\<lparr>sc_tombs := removeAll uid (sc_tombs s)\<rparr>
      else if sc_max_seq_len s \<le> length ids then
        send_result [ErrorReplyMsg uid (PromptTooLong (length ids) (sc_max_seq_len s)) (Some ''context_length_exceeded'')] s
      else
        let room = int (sc_max_seq_len s) - int (length ids);
            sp1 = (if room < max_tokens sp then sp\<lparr>max_tokens := room\<rparr> else sp)
        in if images \<noteq> None \<and> (images = Some False \<or> en_prefill_budget env < int (length ids))
           then send_result [ErrorReplyMsg uid ImageError None] s
           else s\<lparr>sc_pend := pm_add_one_req uid ids sp1 (images \<noteq> None) (sc_pend s)\<rparr>)"

definition abort_found ::
  "('c, 'h) sched_env \<Rightarrow> int \<Rightarrow> ('c, 'h) sched \<Rightarrow> ('c, 'h) sched res" where
  "abort_found env uid s =
     (let (chunk, pend) = pm_abort_req uid (sc_pend s); s1 = s\<lparr>sc_pend := pend\<rparr> in
      case chunk of
        Some c \<Rightarrow> if in_flight True uid s1 then Inr (mark_chunk uid s1) else free_chunk env c s1
      | None \<Rightarrow>
          (case dm_abort_req uid (dm_of s1) of
             (None, dm) \<Rightarrow> Inr s1
           | (Some r, dm) \<Rightarrow>
               let s2 = s1\<lparr>sc_running := map r_uid (running_reqs dm)\<rparr> in
               if in_flight False uid s2 then Inr (put_obj (r\<lparr>r_aborted := True\<rparr>) s2)
               else free_req_resources env uid s2))"

definition process_abort :: "('c, 'h) sched_env \<Rightarrow> int \<Rightarrow> ('c, 'h) sched \<Rightarrow> ('c, 'h) sched res" where
  "process_abort env uid s =
     res_bind (abort_found env uid (s\<lparr>sc_tombs := add_tombstone uid (sc_tombs s)\<rparr>)) (\<lambda>s1.
       Inr (s1\<lparr>sc_acks := List.insert uid (sc_acks s1)\<rparr>))"

definition reply_rebuild :: "string \<Rightarrow> rebuild_status \<Rightarrow> ('c, 'h) sched \<Rightarrow> ('c, 'h) sched" where
  "reply_rebuild rid st s = send_result [CacheRebuildResultMsg rid st (sc_pages s)] s"

definition process_rebuild :: "('c, 'h) sched_env \<Rightarrow> rebuild_request \<Rightarrow> ('c, 'h) sched \<Rightarrow> ('c, 'h) sched" where
  "process_rebuild env m s =
     (if \<not> en_supports_rebuild env \<or> rb_mode m \<noteq> ''if_idle'' \<or> 1 < en_tp_size env
      then reply_rebuild (rb_id m) Unsupported s
      else if runnable s then reply_rebuild (rb_id m) Busy s
      else s\<lparr>sc_rebuild := Some m\<rparr>)"

text \<open>\<open>_process_one_msg\<close>; \<open>ExitMsg\<close> raises KeyboardInterrupt, which ends the loop.\<close>

fun process_one_msg :: "('c, 'h) sched_env \<Rightarrow> msg_in \<Rightarrow> ('c, 'h) sched \<Rightarrow> ('c, 'h) sched res"
  and process_msgs :: "('c, 'h) sched_env \<Rightarrow> msg_in list \<Rightarrow> ('c, 'h) sched \<Rightarrow> ('c, 'h) sched res" where
  "process_one_msg env (BatchBackendMsg ms) s = process_msgs env ms s"
| "process_one_msg env ExitMsg s = Inl KeyboardInterrupt"
| "process_one_msg env (UserMsg uid ids sp images) s = Inr (process_user env uid ids sp images s)"
| "process_one_msg env (AbortBackendMsg uid) s = process_abort env uid s"
| "process_one_msg env (CacheRebuildBackendMsg m) s = Inr (process_rebuild env m s)"
| "process_msgs env [] s = Inr s"
| "process_msgs env (m # ms) s = res_bind (process_one_msg env m s) (process_msgs env ms)"

section \<open>Launching a batch\<close>

definition schedule_decode_batch :: "('c, 'h) sched \<Rightarrow> 'h batch option" where
  "schedule_decode_batch s = dm_schedule_next_batch (dm_of s)"

text \<open>\<open>_schedule_next_batch\<close> up to the preparation: the policy's decision is an argument.\<close>

definition select_batch ::
  "('c, 'h) sched_env \<Rightarrow> decision \<Rightarrow> ('c, 'h) sched \<Rightarrow> ('h batch option \<times> ('c, 'h) sched) res" where
  "select_batch env dec s =
     (if d_phase dec = PDecode then Inr (schedule_decode_batch s, s)
      else res_bind (pm_schedule_next_batch (plain_admission 0 (en_ops env)) (en_clock env (sc_ticks s))
                       (d_budget dec) (dm_of s) (sc_pend s) (sc_cm s) (sc_tm s))
        (\<lambda>(ob, pend, cm, tm).
          let s1 = s\<lparr>sc_pend := pend, sc_cm := cm, sc_tm := tm, sc_ticks := sc_ticks s + 1\<rparr> in
          case ob of Some b \<Rightarrow> Inr (Some b, s1) | None \<Rightarrow> Inr (schedule_decode_batch s1, s1)))"

text \<open>\<open>_prepare_batch\<close>: page allocation; the rest stages device metadata.\<close>

definition prepare_batch ::
  "('c, 'h) sched_env \<Rightarrow> 'h batch \<Rightarrow> ('c, 'h) sched \<Rightarrow> ('h batch \<times> ('c, 'h) sched) res" where
  "prepare_batch env b s =
     (let reqs = (if is_decode b then map (\<lambda>r. r\<lparr>r_decode_idx := r_decode_idx r + 1\<rparr>) (b_reqs b) else b_reqs b) in
      res_bind (allocate_paged (en_ops env) reqs (sc_cm s)) (\<lambda>(reqs', cm).
        Inr (b\<lparr>b_reqs := reqs'\<rparr>, s\<lparr>sc_cm := cm\<rparr>)))"

definition report_prompt_admissions :: "'h batch \<Rightarrow> ('c, 'h) sched \<Rightarrow> ('c, 'h) sched" where
  "report_prompt_admissions b s =
     (if is_prefill b then send_result (map (\<lambda>(uid, n, c). PromptAdmittedMsg uid n c) (b_prompt_admissions b)) s else s)"

text \<open>
  The store after the objects \<open>rs\<close> changed: \<open>Req\<close> objects replace or join the known ones, chunks
  are also what the pending list refers to.
\<close>

definition store_reqs :: "'h req list \<Rightarrow> ('c, 'h) sched \<Rightarrow> ('c, 'h) sched" where
  "store_reqs rs s = s\<lparr>
     sc_objs := union_reqs (sc_objs s) (filter (\<lambda>r. \<not> r_chunked r) rs),
     sc_pend := map (\<lambda>p. p\<lparr>p_chunked := map_option (\<lambda>c.
       case find (\<lambda>r. r_chunked r \<and> r_uid r = r_uid c) rs of Some r \<Rightarrow> r | None \<Rightarrow> c) (p_chunked p)\<rparr>) (sc_pend s)\<rparr>"

text \<open>\<open>_forward\<close>: the engine completes every request of the batch.\<close>

definition forward :: "'h batch \<Rightarrow> ('c, 'h) sched \<Rightarrow> 'h batch \<times> ('c, 'h) sched" where
  "forward b s =
     (let rs = map complete_one (b_reqs b);
          s1 = store_reqs rs s
      in (b\<lparr>b_reqs := rs\<rparr>, s1\<lparr>sc_running := map r_uid (running_reqs (filter_reqs rs (dm_of s1)))\<rparr>))"

definition launch ::
  "('c, 'h) sched_env \<Rightarrow> decision \<Rightarrow> ('c, 'h) sched \<Rightarrow> ('h batch option \<times> ('c, 'h) sched) res" where
  "launch env dec s =
     res_bind (select_batch env dec s) (\<lambda>(ob, s1).
       case ob of None \<Rightarrow> Inr (None, s1)
       | Some b \<Rightarrow> res_bind (prepare_batch env b s1) (\<lambda>(b1, s2).
           let (b2, s3) = forward b1 (report_prompt_admissions b1 s2) in Inr (Some b2, s3)))"

section \<open>Draining a batch\<close>

definition is_infix :: "'a list \<Rightarrow> 'a list \<Rightarrow> bool" where
  "is_infix xs ys = list_ex (\<lambda>i. take (length xs) (drop i ys) = xs) [0..<length ys + 1]"

definition match_stop_str :: "('c, 'h) sched_env \<Rightarrow> 'h req \<Rightarrow> string option" where
  "match_stop_str env r =
     (let prompt_len = int (r_max_device_len r) - r_output_len r; n = int (length (r_input_ids r)) in
      if n \<le> prompt_len then None
      else let max_bytes = Max (set (map (en_utf8_len env) (stop_strs (r_sampling r))));
               start = max prompt_len (n - int (max_bytes + 1));
               tail = en_decode env (drop (nat start) (r_input_ids r))
           in find (\<lambda>s. is_infix s tail) (stop_strs (r_sampling r)))"

text \<open>The tokens of one request, up to and including the one that ends it.\<close>

fun drain_tokens ::
  "('c, 'h) sched_env \<Rightarrow> token list \<Rightarrow> 'h req \<Rightarrow> ('h req \<times> msg_out list \<times> bool) res" where
  "drain_tokens env [] r = Inr (r, [], False)"
| "drain_tokens env (t # ts) r =
     res_bind (append_host [t] r) (\<lambda>r1.
       let sp = r_sampling r1;
           hit_length = r_max_device_len r1 \<le> length (r_input_ids r1);
           hit_eos = (\<not> ignore_eos sp \<and> t \<in> set (en_eos env));
           matched = (if \<not> hit_eos \<and> stop_strs sp \<noteq> [] then match_stop_str env r1 else None);
           fin = (hit_length \<or> hit_eos \<or> matched \<noteq> None);
           reason = (if fin then Some (if hit_eos \<or> matched \<noteq> None then ''stop'' else ''length'') else None);
           r2 = (if en_anchor env = Some t \<and> r_anchor r1 = None \<and> \<not> fin
                 then r1\<lparr>r_anchor := Some (length (r_input_ids r1))\<rparr> else r1);
           m = DetokenizeMsg (r_uid r) t fin reason matched (if stop_strs sp = [] then None else Some (stop_strs sp))
       in if fin then Inr (clamp r2, [m], True)
          else res_bind (drain_tokens env ts r2) (\<lambda>(r3, ms, b). Inr (r3, m # ms, b)))"

text \<open>The accumulator of the drain: the replies and the newly finished uids.\<close>

definition remove_running :: "int \<Rightarrow> ('c, 'h) sched \<Rightarrow> ('c, 'h) sched" where
  "remove_running uid s = s\<lparr>sc_running := removeAll uid (sc_running s)\<rparr>"

definition drain_req ::
  "('c, 'h) sched_env \<Rightarrow> bool \<Rightarrow> token list \<Rightarrow> int \<Rightarrow> ('c, 'h) sched \<Rightarrow>
   (('c, 'h) sched \<times> msg_out list \<times> int list) res" where
  "drain_req env prefill toks uid s =
     (if r_aborted (obj s uid) then
        res_bind (free_req_resources env uid (remove_running uid s)) (\<lambda>s1. Inr (s1, [], [uid]))
      else if uid \<in> set (sc_finished s) then Inr (s, [], [])
      else res_bind (drain_tokens env toks (obj s uid)) (\<lambda>(r, ms, fin).
        let s1 = put_obj r s in
        if fin then res_bind (free_req_resources env uid (remove_running uid s1)) (\<lambda>s2. Inr (s2, ms, [uid]))
        else if prefill \<and> uid \<notin> set (sc_freed s1) then
          res_bind (commit_req env r False s1) (\<lambda>(r', s2). Inr (put_obj r' s2, ms, []))
        else Inr (s1, ms, [])))"

definition drain_entry ::
  "('c, 'h) sched_env \<Rightarrow> bool \<Rightarrow> (int \<Rightarrow> token list) \<Rightarrow> 'h req \<Rightarrow> ('c, 'h) sched \<Rightarrow>
   (('c, 'h) sched \<times> msg_out list \<times> int list) res" where
  "drain_entry env prefill toks r s =
     (if r_chunked r then
        (if r_aborted r then res_bind (free_chunk env r s) (\<lambda>s1. Inr (s1, [], [])) else Inr (s, [], []))
      else drain_req env prefill (toks (r_uid r)) (r_uid r) s)"

fun drain_loop ::
  "('c, 'h) sched_env \<Rightarrow> bool \<Rightarrow> (int \<Rightarrow> token list) \<Rightarrow> 'h req list \<Rightarrow> ('c, 'h) sched \<Rightarrow>
   msg_out list \<Rightarrow> int list \<Rightarrow> (('c, 'h) sched \<times> msg_out list \<times> int list) res" where
  "drain_loop env prefill toks [] s ms fins = Inr (s, ms, fins)"
| "drain_loop env prefill toks (r # rs) s ms fins =
     res_bind (drain_entry env prefill toks r s) (\<lambda>(s1, ms1, fins1).
       drain_loop env prefill toks rs s1 (ms @ ms1) (fins @ fins1))"

definition process_last_data ::
  "('c, 'h) sched_env \<Rightarrow> (int \<Rightarrow> token list) \<Rightarrow> 'h batch option \<Rightarrow> ('c, 'h) sched \<Rightarrow> ('c, 'h) sched res" where
  "process_last_data env toks last_data s =
     (case last_data of None \<Rightarrow> Inr s
      | Some b \<Rightarrow>
          res_bind (drain_loop env (is_prefill b) toks (b_reqs b) (s\<lparr>sc_cm := lazy_free_enter (sc_cm s)\<rparr>) [] [])
            (\<lambda>(s1, reply, fins).
              Inr (send_result reply (s1\<lparr>sc_cm := lazy_free_exit (sc_cm s1), sc_finished := fins\<rparr>))))"

definition flush_abort_acks :: "('c, 'h) sched \<Rightarrow> ('c, 'h) sched" where
  "flush_abort_acks s =
     send_result (map (\<lambda>uid. ErrorReplyMsg uid RequestAborted None) (sort (sc_acks s))) (s\<lparr>sc_acks := []\<rparr>)"

section \<open>Cache rebuild\<close>

text \<open>
  What \<open>engine.rebuild_runtime_cache\<close> does: the new page count, page table, row width and longest
  sequence; a rejection; or an exception before or after the tear-down, with the page count it
  leaves.
\<close>

datatype engine_result =
    EngineDone nat "nat \<Rightarrow> slot list" nat nat
  | EngineRejected
  | EngineRaised bool nat

definition apply_rebuild ::
  "('c, 'h) sched_env \<Rightarrow> rebuild_request \<Rightarrow> nat \<Rightarrow> (nat \<Rightarrow> slot list) \<Rightarrow> nat \<Rightarrow> nat \<Rightarrow> ('c, 'h) sched \<Rightarrow> ('c, 'h) sched res"
where
  "apply_rebuild env m n table width max_seq s =
     (let s1 = s\<lparr>sc_max_seq_len := max_seq, sc_pages := n\<rparr> in
      if rb_pages m = None \<and> rb_mamba m = None \<and> rb_swa m = None then Inr s1
      else let s2 = s1\<lparr>sc_cm := cm_rebuild n table (en_fresh env) (sc_cm s)\<rparr>;
               s3 = (if rb_pages m \<noteq> None then s2\<lparr>sc_tm := tm_rebuild width (sc_tm s2)\<rparr> else s2)
           in res_bind (cm_check_integrity (en_ops env) (sc_cm s3)) (\<lambda>_. Inr s3))"

text \<open>
  \<open>_execute_pending_rebuild\<close> with the engine's answers to the request and to the roll-back.  An
  exception of the integrity check counts as one after the tear-down.
\<close>

definition execute_pending_rebuild ::
  "('c, 'h) sched_env \<Rightarrow> engine_result \<Rightarrow> engine_result \<Rightarrow> rebuild_request \<Rightarrow> ('c, 'h) sched \<Rightarrow> ('c, 'h) sched" where
  "execute_pending_rebuild env first second m s =
     (let s0 = s\<lparr>sc_rebuild := None\<rparr>;
          roll_back = (\<lambda>s1. if 1 < en_tp_size env then reply_rebuild (rb_id m) Failed s1
            else case second of
                EngineDone n table width max_seq \<Rightarrow>
                  (case apply_rebuild env m n table width max_seq s1 of
                     Inr s2 \<Rightarrow> reply_rebuild (rb_id m) Rejected s2
                   | Inl e \<Rightarrow> reply_rebuild (rb_id m) Failed (s1\<lparr>sc_pages := n\<rparr>))
              | EngineRaised torn n \<Rightarrow> reply_rebuild (rb_id m) Failed (s1\<lparr>sc_pages := n\<rparr>)
              | EngineRejected \<Rightarrow> reply_rebuild (rb_id m) Failed s1)
      in case first of
           EngineRejected \<Rightarrow> reply_rebuild (rb_id m) Rejected s0
         | EngineRaised torn n \<Rightarrow>
             if torn then roll_back (s0\<lparr>sc_pages := n\<rparr>) else reply_rebuild (rb_id m) Rejected s0
         | EngineDone n table width max_seq \<Rightarrow>
             (case apply_rebuild env m n table width max_seq s0 of
                Inr s1 \<Rightarrow> reply_rebuild (rb_id m) Rebuilt s1
              | Inl e \<Rightarrow> roll_back (s0\<lparr>sc_pages := n\<rparr>)))"

section \<open>The loops\<close>

record 'h inputs =
  in_msgs :: "msg_in list"
  in_decision :: decision
  in_tokens :: "int \<Rightarrow> token list"
  in_engine :: "engine_result \<times> engine_result"

definition maybe_rebuild ::
  "('c, 'h) sched_env \<Rightarrow> engine_result \<times> engine_result \<Rightarrow> ('c, 'h) sched \<Rightarrow> ('c, 'h) sched" where
  "maybe_rebuild env answers s =
     (case sc_rebuild s of
        Some m \<Rightarrow> if sc_last s = None \<and> \<not> runnable s
                  then execute_pending_rebuild env (fst answers) (snd answers) m s else s
      | None \<Rightarrow> s)"

text \<open>One pass of \<open>overlap_loop\<close>; \<open>sc_last\<close> is the batch that is still in flight.\<close>

definition overlap_loop :: "('c, 'h) sched_env \<Rightarrow> 'h inputs \<Rightarrow> ('c, 'h) sched \<Rightarrow> ('c, 'h) sched res" where
  "overlap_loop env i s =
     res_bind (process_msgs env (in_msgs i) s) (\<lambda>s1.
     res_bind (launch env (in_decision i) (maybe_rebuild env (in_engine i) s1)) (\<lambda>(ongoing, s2).
     res_bind (process_last_data env (in_tokens i) (sc_last s2) s2) (\<lambda>s3.
       Inr ((flush_abort_acks s3)\<lparr>sc_last := ongoing\<rparr>))))"

text \<open>One pass of \<open>normal_loop\<close>: no batch is in flight between passes.\<close>

definition normal_loop :: "('c, 'h) sched_env \<Rightarrow> 'h inputs \<Rightarrow> ('c, 'h) sched \<Rightarrow> ('c, 'h) sched res" where
  "normal_loop env i s =
     res_bind (process_msgs env (in_msgs i) s) (\<lambda>s1.
     res_bind (launch env (in_decision i) (maybe_rebuild env (in_engine i) s1)) (\<lambda>(ongoing, s2).
     res_bind (process_last_data env (in_tokens i) ongoing s2) (\<lambda>s3. Inr (flush_abort_acks s3))))"

definition run_when_idle :: "('c, 'h) sched_env \<Rightarrow> ('c, 'h) sched \<Rightarrow> unit res" where
  "run_when_idle env s = cm_check_integrity (en_ops env) (sc_cm s)"

definition sched_init :: "'c cman \<Rightarrow> table_man \<Rightarrow> nat \<Rightarrow> ('c, 'h) sched" where
  "sched_init cm tm max_seq =
     \<lparr>sc_cm = cm, sc_tm = tm, sc_max_seq_len = max_seq, sc_pend = [], sc_objs = [], sc_freed = [],
      sc_running = [], sc_last = None, sc_finished = [], sc_acks = [], sc_tombs = [], sc_rebuild = None,
      sc_pages = num_pages cm,
      sc_out = [], sc_ticks = 0\<rparr>"

end
