(* ===== verification/SchedInv.thy ===== *)
theory SchedInv
  imports Scheduler PrefillInv
begin

text \<open>
  The invariant of the scheduler loop and its preservation by every part of a pass, over the
  contract of the prefix cache.  Between parts, \<open>L\<close> lists the entries of the batch in flight that
  are not drained yet and \<open>Ob\<close> the entries of the batch launched in this pass; \<open>F\<close> and \<open>nf\<close> are the
  finished uids that belong to them.
\<close>

section \<open>What admission puts into a batch\<close>

definition admits :: "'h pending \<Rightarrow> 'h req \<Rightarrow> bool" where
  "admits p r \<longleftrightarrow> r_uid r = p_uid p \<and> r_mm r = p_mm p \<and> \<not> r_aborted r \<and>
     r_device_len r = length (r_input_ids r) \<and>
     r_max_device_len r = length (r_input_ids r) + nat (output_len p) \<and> r_output_len r = output_len p"

lemma add_one_req_admits:
  assumes "add_one_req ad p h t cached live pp nt restore ev alloc a m tm = Inr (Some r, a', tm')"
  shows "admits p r"
  using assms
  by (auto simp: add_one_req_def Let_def res_bind_eq_Inr mk_req_def admits_def
      split: if_splits option.splits prod.splits)

lemma try_add_one_admits:
  assumes "try_add_one ad tic p a m tm = Inr (Some r, a', m', tm')"
  shows "admits p r"
  using assms
  by (auto simp: try_add_one_def Let_def res_bind_eq_Inr split: if_splits option.splits prod.splits
      dest: add_one_req_admits)

definition chunked_entries :: "'h pending list \<Rightarrow> 'h req list \<Rightarrow> 'h pending list" where
  "chunked_entries ps rs = map (\<lambda>(p, r). p\<lparr>p_chunked := Some r\<rparr>) (filter (\<lambda>(p, r). r_chunked r) (zip ps rs))"

lemma prefill_loop_admits:
  "prefill_loop ad tic ps a m tm acc = Inr (acc', a', m', tm') \<Longrightarrow>
   \<exists>dn rest Q. ps = dn @ rest \<and> list_all2 admits dn Q \<and> pa_reqs acc' = pa_reqs acc @ Q \<and>
     pa_chunked acc' = pa_chunked acc @ chunked_entries dn Q \<and> pa_remaining acc' = pa_remaining acc @ rest"
proof (induction ps arbitrary: a m tm acc)
  case Nil
  then show ?case by (intro exI[of _ "[]"]) (simp add: chunked_entries_def)
next
  case (Cons p ps)
  obtain got a1 m1 tm1 where t: "try_add_one ad tic p a m tm = Inr (got, a1, m1, tm1)"
    using Cons.prems by (auto simp: res_bind_eq_Inr)
  show ?case
  proof (cases got)
    case None
    then have "acc' = acc\<lparr>pa_remaining := pa_remaining acc @ p # ps\<rparr>" using Cons.prems t by simp
    then show ?thesis by (intro exI[of _ "[]"] exI[of _ "p # ps"]) (simp add: chunked_entries_def)
  next
    case (Some r)
    have ad: "admits p r" using try_add_one_admits[of ad tic p a m tm r] t Some by simp
    obtain acc1 where l: "prefill_loop ad tic ps a1 m1 tm1 acc1 = Inr (acc', a', m', tm')"
      "pa_reqs acc1 = pa_reqs acc @ [r]"
      "pa_chunked acc1 = pa_chunked acc @ (if r_chunked r then [p\<lparr>p_chunked := Some r\<rparr>] else [])"
      "pa_remaining acc1 = pa_remaining acc"
      using Cons.prems t Some by (auto simp: Let_def)
    from Cons.IH[OF l(1)] obtain dn rest Q where IH: "ps = dn @ rest" "list_all2 admits dn Q"
      "pa_reqs acc' = pa_reqs acc1 @ Q" "pa_chunked acc' = pa_chunked acc1 @ chunked_entries dn Q"
      "pa_remaining acc' = pa_remaining acc1 @ rest" by (elim exE conjE) (rule that)
    then show ?thesis using ad l
      by (intro exI[of _ "p # dn"] exI[of _ rest] exI[of _ "r # Q"]) (simp add: chunked_entries_def)
  qed
qed

lemma schedule_admits:
  assumes "pm_schedule_next_batch ad tic budget d pend m tm = Inr (Some b, pend', m', tm')"
  shows "\<exists>dn rest. pend = dn @ rest \<and> list_all2 admits dn (b_reqs b) \<and> pend' = chunked_entries dn (b_reqs b) @ rest \<and>
    b_phase b = Prefill"
proof -
  let ?acc = "\<lparr>pa_reqs = [], pa_chunked = [], pa_remaining = [], pa_admissions = [], pa_new = 0, pa_cached = 0\<rparr>"
  obtain acc' a' where l: "prefill_loop ad tic pend (mk_adder budget (inflight_tokens d)) m tm ?acc = Inr (acc', a', m', tm')"
    "b_reqs b = pa_reqs acc'" "b_phase b = Prefill" "pend' = pa_chunked acc' @ pa_remaining acc'"
    using assms by (auto simp: pm_schedule_next_batch_def res_bind_eq_Inr mk_batch_def split: if_splits)
  from prefill_loop_admits[OF l(1)] show ?thesis using l(2-4) by auto
qed

section \<open>The invariant\<close>

definition live :: "('c, 'h) sched \<Rightarrow> 'h req list" where
  "live s = filter (\<lambda>r. r_uid r \<notin> set (sc_freed s)) (sc_objs s)"

definition orphans :: "'h req list \<Rightarrow> 'h req list" where
  "orphans L = filter (\<lambda>r. r_chunked r \<and> r_aborted r) L"

definition holders :: "('c, 'h) sched \<Rightarrow> 'h req list \<Rightarrow> 'h req list" where
  "holders s L = map clamp (live s) @ chunks (sc_pend s) @ orphans L"

definition nc :: "'h req list \<Rightarrow> int set" where
  "nc L = r_uid ` set (filter (\<lambda>r. \<not> r_chunked r) L)"

definition flights :: "'h req list \<Rightarrow> 'h req list \<Rightarrow> int \<Rightarrow> nat" where
  "flights L Ob u = (if u \<in> nc L then 1 else 0) + (if u \<in> nc Ob then 1 else 0)"

definition pend_good :: "nat \<Rightarrow> 'h pending \<Rightarrow> bool" where
  "pend_good W p \<longleftrightarrow> pend_ok W p \<and> 1 \<le> output_len p \<and> int (input_len p) + output_len p \<le> int W \<and>
     (\<forall>c. p_chunked p = Some c \<longrightarrow> r_chunked c \<and> \<not> r_aborted c \<and> r_uid c = p_uid p)"

definition live_ok :: "nat \<Rightarrow> nat \<Rightarrow> 'h req \<Rightarrow> bool" where
  "live_ok W k r \<longleftrightarrow> r_device_len r = r_cached_len r + 1 \<and> r_cached_len r \<le> r_allocated_len r \<and>
     r_device_len r \<le> r_max_device_len r \<and> r_max_device_len r \<le> W \<and>
     r_device_len r = length (r_input_ids r) + k"

definition sched_shape ::
  "nat \<Rightarrow> ('c, 'h) sched \<Rightarrow> 'h req list \<Rightarrow> int list \<Rightarrow> 'h req list \<Rightarrow> int list \<Rightarrow> bool" where
  "sched_shape W s L F Ob nf \<longleftrightarrow>
     distinct (map r_uid (sc_objs s) @ map p_uid (sc_pend s)) \<and>
     (\<forall>p\<in>set (sc_pend s). pend_good W p) \<and>
     (\<forall>r\<in>set (sc_objs s). \<not> r_chunked r) \<and>
     distinct (sc_running s) \<and> set (sc_running s) \<subseteq> r_uid ` set (live s) \<and>
     (\<forall>r\<in>set (live s). live_ok W (flights L Ob (r_uid r)) r \<and>
        (if r_uid r \<in> set (sc_running s) then r_device_len r < r_max_device_len r \<and> \<not> r_aborted r
         else 0 < flights L Ob (r_uid r) \<and> (r_aborted r \<or> r_device_len r = r_max_device_len r))) \<and>
     distinct (map r_uid L) \<and> distinct (map r_uid Ob) \<and> nc L \<union> nc Ob \<subseteq> r_uid ` set (sc_objs s) \<and>
     nc L \<inter> set (sc_freed s) \<subseteq> set F \<and> nc Ob \<inter> set (sc_freed s) \<subseteq> set nf \<and>
     set F \<union> set nf \<subseteq> set (sc_freed s) \<and> set (sc_freed s) \<subseteq> r_uid ` set (sc_objs s) \<and>
     (\<forall>x\<in>set L. r_chunked x \<and> r_aborted x \<longrightarrow> r_uid x \<notin> r_uid ` set (sc_objs s) \<union> p_uid ` set (sc_pend s)) \<and>
     (\<forall>x\<in>set Ob. r_chunked x \<longrightarrow> \<not> r_aborted x)"

text \<open>A chunk in the latest batch is the object its pending entry refers to.\<close>

definition shared :: "('c, 'h) sched \<Rightarrow> 'h req list \<Rightarrow> bool" where
  "shared s B \<longleftrightarrow> (\<forall>x\<in>set B. \<forall>p\<in>set (sc_pend s). r_chunked x \<longrightarrow> \<not> r_aborted x \<longrightarrow> p_uid p = r_uid x \<longrightarrow>
     p_chunked p = Some x)"

definition sched_mem ::
  "('c, 'h) cache_ops \<Rightarrow> (nat \<Rightarrow> 'c \<Rightarrow> 'h multiset \<Rightarrow> bool) \<Rightarrow> ('c \<Rightarrow> 'h \<Rightarrow> token list) \<Rightarrow>
   ('c \<Rightarrow> 'h \<Rightarrow> slot list) \<Rightarrow> ('c \<Rightarrow> slot multiset) \<Rightarrow> nat \<Rightarrow> ('c, 'h) sched_env \<Rightarrow> ('c, 'h) sched \<Rightarrow> 'h req list \<Rightarrow> bool" where
  "sched_mem ops ok key val slots W env s R \<longleftrightarrow>
     cm_inv ops ok key val slots (sc_cm s) R \<and> table_ok (sc_tm s) (r_table_idx ` set R) \<and>
     rows_ok W (sc_cm s) (sc_tm s) \<and> page_size (sc_cm s) dvd W \<and> sc_max_seq_len s \<le> W \<and>
     en_ops env = ops \<and> ok (page_size (sc_cm s)) (en_fresh env) {#} \<and> slots (en_fresh env) = {#}"

lemma clamp_simps [simp]:
  "r_uid (clamp r) = r_uid r" "r_table_idx (clamp r) = r_table_idx r" "r_handle (clamp r) = r_handle r"
  "r_chunked (clamp r) = r_chunked r" "r_mm (clamp r) = r_mm r" "r_input_ids (clamp r) = r_input_ids r"
  by (simp_all add: clamp_def)

lemma clamp_id: "r_cached_len r \<le> length (r_input_ids r) \<Longrightarrow> clamp r = r"
  by (simp add: clamp_def)

lemma put_obj_simps [simp]:
  "sc_cm (put_obj r s) = sc_cm s" "sc_tm (put_obj r s) = sc_tm s" "sc_pend (put_obj r s) = sc_pend s"
  "sc_freed (put_obj r s) = sc_freed s" "sc_running (put_obj r s) = sc_running s"
  "sc_last (put_obj r s) = sc_last s" "sc_finished (put_obj r s) = sc_finished s"
  "sc_acks (put_obj r s) = sc_acks s" "sc_tombs (put_obj r s) = sc_tombs s" "sc_out (put_obj r s) = sc_out s"
  "sc_max_seq_len (put_obj r s) = sc_max_seq_len s" "sc_rebuild (put_obj r s) = sc_rebuild s"
  "sc_ticks (put_obj r s) = sc_ticks s"
  by (simp_all add: put_obj_def)

lemma obj_eq:
  assumes "distinct (map r_uid (sc_objs s))" "r \<in> set (sc_objs s)" "r_uid r = u"
  shows "obj s u = r"
proof -
  have "find (\<lambda>x. r_uid x = u) xs = Some r" if "distinct (map r_uid xs)" "r \<in> set xs" for xs
    using that assms(3) by (induction xs) (auto simp: image_iff)
  then show ?thesis using assms(1,2) by (simp add: obj_def)
qed

text \<open>The live objects apart from one.\<close>

definition others :: "int \<Rightarrow> ('c, 'h) sched \<Rightarrow> 'h req list" where
  "others u s = filter (\<lambda>r. r_uid r \<noteq> u) (live s)"

lemma distinct_map_split:
  assumes "distinct (map f xs)" "x \<in> set xs"
  shows "mset xs = add_mset x (mset (filter (\<lambda>y. f y \<noteq> f x) xs))"
  using assms
proof (induction xs)
  case (Cons a xs)
  show ?case
  proof (cases "x = a")
    case True
    then have "\<forall>y\<in>set xs. f y \<noteq> f x" using Cons.prems(1) by (metis distinct.simps(2) image_eqI list.set_map list.simps(9))
    then have "filter (\<lambda>y. f y \<noteq> f x) xs = xs" by (simp add: filter_id_conv)
    then show ?thesis using True by simp
  next
    case False
    then show ?thesis using Cons by (auto simp: image_iff)
  qed
qed simp

lemma live_others:
  assumes "distinct (map r_uid (sc_objs s))" "r \<in> set (live s)"
  shows "mset (live s) = add_mset r (mset (others (r_uid r) s))"
  unfolding others_def using assms distinct_map_split[of r_uid "live s" r]
  by (simp add: live_def distinct_map_filter)

lemma live_put_obj:
  assumes "distinct (map r_uid (sc_objs s))" "r \<in> set (live s)" "r_uid r' = r_uid r"
  shows "mset (live (put_obj r' s)) = add_mset r' (mset (others (r_uid r) s))"
proof -
  have "mset (filter P (map (\<lambda>x. if r_uid x = r_uid r' then r' else x) xs)) =
      add_mset r' (mset (filter (\<lambda>x. r_uid x \<noteq> r_uid r) (filter P xs)))"
    if "distinct (map r_uid xs)" "r \<in> set xs" "P r" "\<And>x y. r_uid x = r_uid y \<Longrightarrow> P x = P y" for P xs
    using that(1,2)
  proof (induction xs)
    case (Cons a xs)
    show ?case
    proof (cases "r = a")
      case True
      then have "r_uid r \<notin> r_uid ` set xs" using Cons.prems(1) by auto
      then have m: "map (\<lambda>x. if r_uid x = r_uid r' then r' else x) xs = xs"
        and f: "filter (\<lambda>x. r_uid x \<noteq> r_uid r) (filter P xs) = filter P xs"
        using assms(3) by (auto intro!: map_idI filter_cong simp: image_iff)
      have "P r'" using that(3) that(4)[OF assms(3)] by simp
      then show ?thesis using True m f assms(3) that(3) by simp
    next
      case False
      then have "r_uid a \<noteq> r_uid r" using Cons.prems by (auto simp: image_iff)
      then show ?thesis using Cons False assms(3) by (auto simp del: mset_filter mset_map)
    qed
  qed simp
  note key = this
  have "mset (filter (\<lambda>x. r_uid x \<notin> set (sc_freed s)) (map (\<lambda>x. if r_uid x = r_uid r' then r' else x) (sc_objs s))) =
      add_mset r' (mset (filter (\<lambda>x. r_uid x \<noteq> r_uid r) (filter (\<lambda>x. r_uid x \<notin> set (sc_freed s)) (sc_objs s))))"
    by (rule key) (use assms(1,2) in \<open>simp_all add: live_def\<close>)
  then show ?thesis unfolding live_def others_def put_obj_def by (simp del: mset_filter mset_map filter_filter)
qed

lemma live_freed:
  "live (put_obj r s\<lparr>sc_freed := u # sc_freed s\<rparr>) = filter (\<lambda>x. r_uid x \<noteq> u) (live (put_obj r s))"
  by (auto simp: live_def intro: filter_cong)

lemma others_put_obj: "u = r_uid r' \<Longrightarrow> others u (put_obj r' s) = others u s"
proof -
  assume u: "u = r_uid r'"
  have "filter (\<lambda>r. r_uid r \<noteq> u) (filter P (map (\<lambda>x. if r_uid x = r_uid r' then r' else x) xs)) =
      filter (\<lambda>r. r_uid r \<noteq> u) (filter P xs)" for P xs
    using u by (induction xs) auto
  then show ?thesis by (simp add: others_def live_def put_obj_def)
qed

section \<open>Freeing and committing\<close>

text \<open>The fields that freeing and committing leave alone.\<close>

definition frame :: "('c, 'h) sched \<Rightarrow> ('c, 'h) sched \<Rightarrow> bool" where
  "frame s s' \<longleftrightarrow> sc_pend s' = sc_pend s \<and> sc_last s' = sc_last s \<and> sc_finished s' = sc_finished s \<and>
     sc_acks s' = sc_acks s \<and> sc_tombs s' = sc_tombs s \<and> sc_rebuild s' = sc_rebuild s \<and>
     sc_out s' = sc_out s \<and> sc_max_seq_len s' = sc_max_seq_len s"

section \<open>The shape under changes of one object\<close>

lemma shapeD:
  assumes "sched_shape W s L F Ob nf"
  shows "distinct (map r_uid (sc_objs s))" "distinct (map p_uid (sc_pend s))"
    "r_uid ` set (sc_objs s) \<inter> p_uid ` set (sc_pend s) = {}"
    "p \<in> set (sc_pend s) \<Longrightarrow> pend_good W p" "r \<in> set (sc_objs s) \<Longrightarrow> \<not> r_chunked r"
    "distinct (sc_running s)" "set (sc_running s) \<subseteq> r_uid ` set (live s)"
    "r \<in> set (live s) \<Longrightarrow> live_ok W (flights L Ob (r_uid r)) r"
    "r \<in> set (live s) \<Longrightarrow> r_uid r \<in> set (sc_running s) \<Longrightarrow> r_device_len r < r_max_device_len r \<and> \<not> r_aborted r"
    "r \<in> set (live s) \<Longrightarrow> r_uid r \<notin> set (sc_running s) \<Longrightarrow>
       0 < flights L Ob (r_uid r) \<and> (r_aborted r \<or> r_device_len r = r_max_device_len r)"
    "distinct (map r_uid L)" "distinct (map r_uid Ob)" "nc L \<subseteq> r_uid ` set (sc_objs s)"
    "nc Ob \<subseteq> r_uid ` set (sc_objs s)" "nc L \<inter> set (sc_freed s) \<subseteq> set F" "nc Ob \<inter> set (sc_freed s) \<subseteq> set nf"
    "set F \<subseteq> set (sc_freed s)" "set nf \<subseteq> set (sc_freed s)"
    "x \<in> set L \<Longrightarrow> r_chunked x \<Longrightarrow> r_aborted x \<Longrightarrow> r_uid x \<notin> r_uid ` set (sc_objs s) \<union> p_uid ` set (sc_pend s)"
    "x \<in> set Ob \<Longrightarrow> r_chunked x \<Longrightarrow> \<not> r_aborted x" "set (sc_freed s) \<subseteq> r_uid ` set (sc_objs s)"
  using assms unfolding sched_shape_def distinct_append set_map by (auto split: if_splits)

lemma nc_Cons: "nc (x # L) = (if r_chunked x then nc L else insert (r_uid x) (nc L))"
  by (simp add: nc_def)

lemma nc_uids: "u \<in> nc L \<Longrightarrow> u \<in> r_uid ` set L"
  by (auto simp: nc_def)

lemma flights_head:
  assumes "distinct (map r_uid (x # L))" "\<not> r_chunked x"
  shows "flights (x # L) Ob (r_uid x) = Suc (flights L Ob (r_uid x))"
    "u \<noteq> r_uid x \<Longrightarrow> flights (x # L) Ob u = flights L Ob u"
proof -
  have "r_uid x \<notin> nc L" using assms(1) nc_uids[of "r_uid x" L] by auto
  then show "flights (x # L) Ob (r_uid x) = Suc (flights L Ob (r_uid x))"
    using assms(2) by (simp add: flights_def nc_Cons)
  show "u \<noteq> r_uid x \<Longrightarrow> flights (x # L) Ob u = flights L Ob u"
    using assms(2) by (simp add: flights_def nc_Cons)
qed

lemma set_others: "set (others u s) = {r \<in> set (live s). r_uid r \<noteq> u}"
  by (simp add: others_def)

lemma live_subset: "r \<in> set (live s) \<Longrightarrow> r \<in> set (sc_objs s) \<and> r_uid r \<notin> set (sc_freed s)"
  by (simp add: live_def)

text \<open>An entry that needs no drain.\<close>

lemma shape_skip:
  assumes "sched_shape W s (x # L) F Ob nf" "r_chunked x \<or> r_uid x \<in> set (sc_freed s)"
  shows "sched_shape W s L F Ob nf"
proof -
  note D = shapeD[OF assms(1)]
  have f: "flights (x # L) Ob (r_uid r) = flights L Ob (r_uid r)" if "r \<in> set (live s)" for r
  proof (cases "r_chunked x")
    case True
    then show ?thesis by (simp add: flights_def nc_Cons)
  next
    case False
    then have "r_uid r \<noteq> r_uid x" using assms(2) live_subset[OF that] by auto
    then show ?thesis using flights_head(2)[OF D(11) False] by blast
  qed
  have n: "nc L \<subseteq> nc (x # L)" by (auto simp: nc_Cons)
  have l: "\<forall>r\<in>set (live s). live_ok W (flights L Ob (r_uid r)) r \<and>
        (if r_uid r \<in> set (sc_running s) then r_device_len r < r_max_device_len r \<and> \<not> r_aborted r
         else 0 < flights L Ob (r_uid r) \<and> (r_aborted r \<or> r_device_len r = r_max_device_len r))"
    using D(8-10) f by (metis (full_types))
  show ?thesis using assms(1) l n unfolding sched_shape_def by auto
qed

text \<open>
  The object of the first entry changes: it stays live with one token more (\<open>shape_token\<close>), or it is
  freed (\<open>shape_freed\<close>).
\<close>

lemma shape_token:
  assumes S: "sched_shape W s (x # L) F Ob nf" and x: "\<not> r_chunked x"
    and r: "r \<in> set (live s)" "r_uid r = r_uid x"
    and r': "r_uid r' = r_uid r" "\<not> r_chunked r'" "live_ok W (flights L Ob (r_uid r)) r'"
      "if r_uid r \<in> set (sc_running s) then r_device_len r' < r_max_device_len r' \<and> \<not> r_aborted r'
       else 0 < flights L Ob (r_uid r) \<and> (r_aborted r' \<or> r_device_len r' = r_max_device_len r')"
    and s': "frame s s'" "sc_running s' = sc_running s" "sc_freed s' = sc_freed s" "sc_objs s' = sc_objs (put_obj r' s)"
  shows "sched_shape W s' L F Ob nf"
proof -
  note D = shapeD[OF S]
  have ul: "map r_uid (sc_objs s') = map r_uid (sc_objs s)" unfolding s'(4) by (simp add: put_obj_def)
  have us: "r_uid ` set (sc_objs s') = r_uid ` set (sc_objs s)" using ul by (metis list.set_map)
  have "live s' = live (put_obj r' s)" by (simp add: live_def s'(3,4))
  then have "mset (live s') = add_mset r' (mset (others (r_uid r) s))"
    using live_put_obj[OF D(1) r(1) r'(1)] by simp
  then have lv: "set (live s') = insert r' {y \<in> set (live s). r_uid y \<noteq> r_uid r}"
    by (metis set_mset_add_mset_insert set_mset_mset set_others)
  have p: "sc_pend s' = sc_pend s" using s'(1) by (simp add: frame_def)
  have l: "\<forall>y\<in>set (live s'). live_ok W (flights L Ob (r_uid y)) y \<and>
        (if r_uid y \<in> set (sc_running s') then r_device_len y < r_max_device_len y \<and> \<not> r_aborted y
         else 0 < flights L Ob (r_uid y) \<and> (r_aborted y \<or> r_device_len y = r_max_device_len y))"
  proof
    fix y assume y: "y \<in> set (live s')"
    show "live_ok W (flights L Ob (r_uid y)) y \<and>
        (if r_uid y \<in> set (sc_running s') then r_device_len y < r_max_device_len y \<and> \<not> r_aborted y
         else 0 < flights L Ob (r_uid y) \<and> (r_aborted y \<or> r_device_len y = r_max_device_len y))"
    proof (cases "y = r'")
      case True
      then show ?thesis using r'(1,3,4) s'(2) by simp
    next
      case False
      then have y: "y \<in> set (live s)" "r_uid y \<noteq> r_uid x" using y lv r(2) by auto
      then have f: "flights (x # L) Ob (r_uid y) = flights L Ob (r_uid y)" using flights_head(2)[OF D(11) x] by blast
      show ?thesis using D(8)[OF y(1)] D(9)[OF y(1)] D(10)[OF y(1)] s'(2) unfolding f by simp
    qed
  qed
  have u: "r_uid ` set (live s') = r_uid ` set (live s)" using lv r(1) r'(1) by (auto simp: image_iff)
  have c: "\<forall>y\<in>set (sc_objs s'). \<not> r_chunked y" unfolding s'(4) using D(5) r'(2) by (auto simp: put_obj_def)
  have n: "nc L \<subseteq> nc (x # L)" by (auto simp: nc_Cons)
  show ?thesis
    using S l c n unfolding sched_shape_def p us ul s'(2,3) u by auto
qed

lemma shape_freed:
  assumes S: "sched_shape W s (x # L) F Ob nf" and x: "\<not> r_chunked x"
    and s': "frame s s'" "sc_running s' = removeAll (r_uid x) (sc_running s)"
      "sc_freed s' = r_uid x # sc_freed s" "map r_uid (sc_objs s') = map r_uid (sc_objs s)"
      "\<forall>y\<in>set (sc_objs s'). \<not> r_chunked y" "set (live s') = set (others (r_uid x) s)"
  shows "sched_shape W s' L F Ob (nf @ [r_uid x])"
proof -
  note D = shapeD[OF S]
  have us: "r_uid ` set (sc_objs s') = r_uid ` set (sc_objs s)" using s'(4) by (metis list.set_map)
  have p: "sc_pend s' = sc_pend s" using s'(1) by (simp add: frame_def)
  have l: "\<forall>y\<in>set (live s'). live_ok W (flights L Ob (r_uid y)) y \<and>
        (if r_uid y \<in> set (sc_running s') then r_device_len y < r_max_device_len y \<and> \<not> r_aborted y
         else 0 < flights L Ob (r_uid y) \<and> (r_aborted y \<or> r_device_len y = r_max_device_len y))"
  proof
    fix y assume "y \<in> set (live s')"
    then have y: "y \<in> set (live s)" "r_uid y \<noteq> r_uid x" unfolding s'(6) set_others by simp_all
    then have f: "flights (x # L) Ob (r_uid y) = flights L Ob (r_uid y)" using flights_head(2)[OF D(11) x] by blast
    show "live_ok W (flights L Ob (r_uid y)) y \<and>
        (if r_uid y \<in> set (sc_running s') then r_device_len y < r_max_device_len y \<and> \<not> r_aborted y
         else 0 < flights L Ob (r_uid y) \<and> (r_aborted y \<or> r_device_len y = r_max_device_len y))"
      using D(8)[OF y(1)] D(9)[OF y(1)] D(10)[OF y(1)] y(2) unfolding f s'(2) by simp
  qed
  have run: "set (sc_running s') \<subseteq> r_uid ` set (live s')"
    using D(7) unfolding s'(2,6) set_others by auto
  have u: "r_uid x \<notin> nc L" using D(11) nc_uids[of "r_uid x" L] by auto
  have n: "nc L \<subseteq> nc (x # L)" by (auto simp: nc_Cons)
  have fr: "nc L \<inter> set (sc_freed s') \<subseteq> set F" "nc Ob \<inter> set (sc_freed s') \<subseteq> set (nf @ [r_uid x])"
    "set F \<union> set (nf @ [r_uid x]) \<subseteq> set (sc_freed s')"
    using D(15-18) u n unfolding s'(3) by auto
  have fo: "set (sc_freed s') \<subseteq> r_uid ` set (sc_objs s)" using D(13,21) x unfolding s'(3) by (simp add: nc_Cons)
  show ?thesis
    using S l run fr fo n s'(4,5) D(6)
    unfolding sched_shape_def p us s'(4) by (auto simp: s'(2) distinct_removeAll)
qed

section \<open>The log of replies\<close>

definition is_terminal :: "int \<Rightarrow> msg_out \<Rightarrow> bool" where
  "is_terminal u m = (case m of
      DetokenizeMsg v t fin rs ms ss \<Rightarrow> v = u \<and> fin
    | ErrorReplyMsg v e c \<Rightarrow> v = u
    | _ \<Rightarrow> False)"

text \<open>
  Everything a request may get before its end: admissions, tokens, and a rejection of the prompt.  The only reply left
  out is the acknowledgement of an abort, which the scheduler sends for any uid that a client aborts, finished or not.
\<close>

definition is_progress :: "int \<Rightarrow> msg_out \<Rightarrow> bool" where
  "is_progress u m = (case m of
      DetokenizeMsg v t fin rs ms ss \<Rightarrow> v = u
    | PromptAdmittedMsg v n c \<Rightarrow> v = u
    | ErrorReplyMsg v e c \<Rightarrow> v = u \<and> e \<noteq> RequestAborted
    | _ \<Rightarrow> False)"

definition ended :: "int \<Rightarrow> msg_out list \<Rightarrow> bool" where
  "ended u ms \<longleftrightarrow> (\<exists>m\<in>set ms. is_terminal u m)"

text \<open>After a terminal reply of a uid there is no reply to it except acknowledgements of aborts.\<close>

fun quiet :: "msg_out list \<Rightarrow> bool" where
  "quiet [] = True"
| "quiet (m # ms) = ((\<forall>u. is_terminal u m \<longrightarrow> (\<forall>m'\<in>set ms. \<not> is_progress u m')) \<and> quiet ms)"

lemma ended_append [simp]: "ended u (xs @ ys) \<longleftrightarrow> ended u xs \<or> ended u ys"
  by (auto simp: ended_def)

lemma ended_Nil [simp]: "\<not> ended u []"
  by (simp add: ended_def)

lemma quiet_append:
  "quiet (xs @ ys) \<longleftrightarrow> quiet xs \<and> quiet ys \<and> (\<forall>u. ended u xs \<longrightarrow> (\<forall>m\<in>set ys. \<not> is_progress u m))"
  by (induction xs) (auto simp: ended_def)

lemma quiet_nth:
  "quiet ms \<Longrightarrow> i < j \<Longrightarrow> j < length ms \<Longrightarrow> is_terminal u (ms ! i) \<Longrightarrow> \<not> is_progress u (ms ! j)"
proof (induction ms arbitrary: i j)
  case (Cons m ms)
  then show ?case by (cases i; cases j) auto
qed simp

text \<open>\<open>got\<close> lists the uids of the requests received so far, \<open>ms\<close> the replies not sent yet.\<close>

definition log_inv :: "('c, 'h) sched \<Rightarrow> 'h req list \<Rightarrow> msg_out list \<Rightarrow> int list \<Rightarrow> bool" where
  "log_inv s Ob ms got \<longleftrightarrow>
     quiet (sc_out s @ ms) \<and>
     (\<forall>u. ended u (sc_out s @ ms) \<longrightarrow> u \<notin> p_uid ` set (sc_pend s) \<union> r_uid ` set (live s)) \<and>
     (\<forall>u\<in>set (sc_acks s). u \<notin> p_uid ` set (sc_pend s) \<union> set (sc_running s) \<union> nc Ob) \<and>
     (\<forall>r\<in>set (live s). r_aborted r \<longrightarrow> r_uid r \<in> set (sc_acks s)) \<and>
     (\<forall>u\<in>set got. u \<in> p_uid ` set (sc_pend s) \<union> r_uid ` set (live s) \<union> set (sc_acks s) \<or> ended u (sc_out s @ ms)) \<and>
     (\<forall>u\<in>set (sc_tombs s). u \<in> set (sc_acks s) \<or> ended u (sc_out s @ ms)) \<and>
     (\<forall>u. u \<in> set (sc_acks s) \<or> ended u (sc_out s @ ms) \<longrightarrow> u \<in> set got \<union> set (sc_tombs s)) \<and>
     r_uid ` set (sc_objs s) \<union> p_uid ` set (sc_pend s) \<subseteq> set got"

lemma log_invD:
  assumes "log_inv s Ob ms got"
  shows "quiet (sc_out s @ ms)" "ended u (sc_out s @ ms) \<Longrightarrow> u \<notin> p_uid ` set (sc_pend s)"
    "ended u (sc_out s @ ms) \<Longrightarrow> u \<notin> r_uid ` set (live s)"
    "u \<in> set (sc_acks s) \<Longrightarrow> u \<notin> p_uid ` set (sc_pend s)" "u \<in> set (sc_acks s) \<Longrightarrow> u \<notin> set (sc_running s)"
    "u \<in> set (sc_acks s) \<Longrightarrow> u \<notin> nc Ob" "r \<in> set (live s) \<Longrightarrow> r_aborted r \<Longrightarrow> r_uid r \<in> set (sc_acks s)"
    "u \<in> set got \<Longrightarrow> u \<in> p_uid ` set (sc_pend s) \<or> u \<in> r_uid ` set (live s) \<or> u \<in> set (sc_acks s) \<or> ended u (sc_out s @ ms)"
    "u \<in> set (sc_tombs s) \<Longrightarrow> u \<in> set (sc_acks s) \<or> ended u (sc_out s @ ms)"
    "u \<in> set (sc_acks s) \<or> ended u (sc_out s @ ms) \<Longrightarrow> u \<in> set got \<union> set (sc_tombs s)"
    "r_uid ` set (sc_objs s) \<subseteq> set got" "p_uid ` set (sc_pend s) \<subseteq> set got"
  using assms unfolding log_inv_def by auto

text \<open>A step that concerns one live object and sends replies \<open>ns\<close> for it.\<close>

lemma log_drain:
  assumes G: "log_inv s Ob ms got" and fr: "frame s s'" "set (sc_running s') \<subseteq> set (sc_running s)"
      "r_uid ` set (sc_objs s') = r_uid ` set (sc_objs s)"
    and u: "u \<in> r_uid ` set (live s)" "u \<notin> p_uid ` set (sc_pend s)"
    and lv: "r_uid ` set (live s') = (if gone then r_uid ` set (live s) - {u} else r_uid ` set (live s))"
      "\<And>r. r \<in> set (live s') \<Longrightarrow> r_aborted r \<Longrightarrow> \<exists>r0\<in>set (live s). r_aborted r0 \<and> r_uid r0 = r_uid r"
    and ns: "\<And>v m. m \<in> set ns \<Longrightarrow> is_progress v m \<or> is_terminal v m \<Longrightarrow> v = u" "quiet ns"
      "ended u ns \<Longrightarrow> gone" "gone \<Longrightarrow> ended u ns \<or> u \<in> set (sc_acks s)"
  shows "log_inv s' Ob (ms @ ns) got"
proof -
  note D = log_invD[OF G]
  have f: "sc_pend s' = sc_pend s" "sc_acks s' = sc_acks s" "sc_tombs s' = sc_tombs s" "sc_out s' = sc_out s"
    using fr(1) by (simp_all add: frame_def)
  have e: "\<not> ended u (sc_out s @ ms)" using D(3)[of u] u(1) by blast
  have e': "ended v ns \<Longrightarrow> v = u" for v using ns(1) by (auto simp: ended_def)
  have sub: "r_uid ` set (live s') \<subseteq> r_uid ` set (live s)" using lv(1) by auto
  have "quiet ((sc_out s @ ms) @ ns)"
    unfolding quiet_append[of "sc_out s @ ms"] using D(1) ns(1,2) e by blast
  moreover have "v \<notin> p_uid ` set (sc_pend s) \<union> r_uid ` set (live s')" if "ended v ((sc_out s @ ms) @ ns)" for v
  proof (cases "ended v ns")
    case True
    then show ?thesis using e'[OF True] ns(3) u(2) lv(1) by auto
  next
    case False
    then show ?thesis using that D(2,3)[of v] sub by auto
  qed
  moreover have "\<forall>v\<in>set (sc_acks s). v \<notin> p_uid ` set (sc_pend s) \<union> set (sc_running s') \<union> nc Ob"
    using D(4-6) fr(2) by blast
  moreover have "\<forall>r\<in>set (live s'). r_aborted r \<longrightarrow> r_uid r \<in> set (sc_acks s)"
    using lv(2) D(7) by metis
  moreover have "v \<in> p_uid ` set (sc_pend s) \<union> r_uid ` set (live s') \<union> set (sc_acks s) \<or> ended v ((sc_out s @ ms) @ ns)"
    if "v \<in> set got" for v
  proof (cases "v = u")
    case True
    then show ?thesis using D(8)[OF that] lv(1) ns(4) by auto
  next
    case False
    then show ?thesis using D(8)[OF that] lv(1) by auto
  qed
  moreover have "\<forall>v\<in>set (sc_tombs s). v \<in> set (sc_acks s) \<or> ended v ((sc_out s @ ms) @ ns)"
    using D(9) by auto
  moreover have "v \<in> set got \<union> set (sc_tombs s)" if "v \<in> set (sc_acks s) \<or> ended v ((sc_out s @ ms) @ ns)" for v
  proof (cases "ended v ns")
    case True
    have "u \<in> r_uid ` set (sc_objs s)" using u(1) live_subset by blast
    then show ?thesis using e'[OF True] D(11) by blast
  next
    case False
    then show ?thesis using that D(10)[of v] by auto
  qed
  ultimately show ?thesis using D(11,12) unfolding log_inv_def f fr(3) by simp
qed

lemma log_cong:
  assumes "log_inv s Ob ms got" "frame s s'" "sc_running s' = sc_running s" "live s' = live s" "sc_objs s' = sc_objs s"
  shows "log_inv s' Ob ms got"
proof -
  have f: "sc_pend s' = sc_pend s" "sc_acks s' = sc_acks s" "sc_tombs s' = sc_tombs s" "sc_out s' = sc_out s"
    using assms(2) by (simp_all add: frame_def)
  show ?thesis using assms(1) unfolding log_inv_def f assms(3-5) .
qed

text \<open>One token of one request.\<close>

definition same_req :: "'h req \<Rightarrow> 'h req \<Rightarrow> bool" where
  "same_req r r' \<longleftrightarrow> r_uid r' = r_uid r \<and> r_handle r' = r_handle r \<and> r_table_idx r' = r_table_idx r \<and> r_mm r' = r_mm r \<and>
     r_chunked r' = r_chunked r \<and> r_aborted r' = r_aborted r \<and> r_device_len r' = r_device_len r \<and>
     r_allocated_len r' = r_allocated_len r \<and> r_max_device_len r' = r_max_device_len r"

lemma drain_one_token:
  assumes "length (r_input_ids r) < r_max_device_len r" "\<not> r_chunked r"
  shows "\<exists>r' m fin. drain_tokens env [t] r = Inr (r', [m], fin) \<and> same_req r r' \<and>
     r_input_ids r' = r_input_ids r @ [t] \<and>
     r_cached_len r' = (if fin then min (r_cached_len r) (length (r_input_ids r) + 1) else r_cached_len r) \<and>
     (\<forall>v. is_progress v m \<longleftrightarrow> v = r_uid r) \<and> (\<forall>v. is_terminal v m \<longleftrightarrow> v = r_uid r \<and> fin) \<and>
     (r_max_device_len r \<le> length (r_input_ids r) + 1 \<longrightarrow> fin)"
proof -
  have a: "append_host [t] r = Inr (r\<lparr>r_input_ids := r_input_ids r @ [t]\<rparr>)"
    using assms by (simp add: append_host_def)
  let ?r1 = "r\<lparr>r_input_ids := r_input_ids r @ [t]\<rparr>"
  define eos where "eos = (\<not> ignore_eos (r_sampling r) \<and> t \<in> set (en_eos env))"
  define mt where "mt = (if \<not> eos \<and> stop_strs (r_sampling r) \<noteq> [] then match_stop_str env ?r1 else None)"
  define fin where "fin = (r_max_device_len r \<le> length (r_input_ids r) + 1 \<or> eos \<or> mt \<noteq> None)"
  define m where "m = DetokenizeMsg (r_uid r) t fin
    (if fin then Some (if eos \<or> mt \<noteq> None then ''stop'' else ''length'') else None) mt
    (if stop_strs (r_sampling r) = [] then None else Some (stop_strs (r_sampling r)))"
  define r2 where "r2 = (if en_anchor env = Some t \<and> r_anchor r = None \<and> \<not> fin
    then ?r1\<lparr>r_anchor := Some (length (r_input_ids r) + 1)\<rparr> else ?r1)"
  have run: "drain_tokens env [t] r = Inr (if fin then clamp r2 else r2, [m], fin)"
    by (auto simp: a Let_def eos_def mt_def fin_def m_def r2_def)
  have "same_req r (if fin then clamp r2 else r2)" by (simp add: same_req_def r2_def clamp_def)
  moreover have "r_input_ids (if fin then clamp r2 else r2) = r_input_ids r @ [t]" by (simp add: r2_def)
  moreover have "r_cached_len (if fin then clamp r2 else r2) =
      (if fin then min (r_cached_len r) (length (r_input_ids r) + 1) else r_cached_len r)"
    by (simp add: r2_def clamp_def)
  moreover have "(\<forall>v. is_progress v m \<longleftrightarrow> v = r_uid r)" "(\<forall>v. is_terminal v m \<longleftrightarrow> v = r_uid r \<and> fin)"
    by (auto simp: m_def is_progress_def is_terminal_def)
  moreover have "r_max_device_len r \<le> length (r_input_ids r) + 1 \<longrightarrow> fin" by (simp add: fin_def)
  ultimately show ?thesis using run by blast
qed

locale scheduler_client = prefill_client ops inv valid key val slots
  for ops :: "('c, 'h) cache_ops"
    and inv :: "nat \<Rightarrow> 'c \<Rightarrow> 'h multiset \<Rightarrow> bool"
    and valid :: "'c \<Rightarrow> 'h \<Rightarrow> bool"
    and key :: "'c \<Rightarrow> 'h \<Rightarrow> token list"
    and val :: "'c \<Rightarrow> 'h \<Rightarrow> slot list"
    and slots :: "'c \<Rightarrow> slot multiset"
begin

abbreviation smem :: "nat \<Rightarrow> ('c, 'h) sched_env \<Rightarrow> ('c, 'h) sched \<Rightarrow> 'h req list \<Rightarrow> bool" where
  "smem \<equiv> sched_mem ops inv key val slots"

lemma smem_perm: "mset R = mset R' \<Longrightarrow> smem W env s R = smem W env s R'"
  using minv_perm[of R R' "sc_cm s"] mset_eq_setD[of R R'] by (simp add: sched_mem_def)

lemma smem_cong:
  "sc_cm s' = sc_cm s \<Longrightarrow> sc_tm s' = sc_tm s \<Longrightarrow> sc_max_seq_len s' = sc_max_seq_len s \<Longrightarrow>
   smem W env s' R = smem W env s R"
  by (simp add: sched_mem_def)

lemma cache_req_law:
  assumes m: "minv s (r # R)"
  shows "\<exists>r' s'. cache_req ops tic tic' r finished s = Inr (r', s') \<and>
     minv s' (if finished then R else r' # R) \<and> (\<exists>h. r' = r\<lparr>r_handle := h\<rparr>) \<and> (finished \<longrightarrow> r' = r) \<and>
     page_size s' = page_size s \<and> (\<forall>t. length (page_table s' t) = length (page_table s t))"
proof (cases "r_mm r")
  case True
  then obtain s' where s': "cache_req ops tic tic' r finished s = Inr (r, s')" "minv s' (if finished then R else r # R)"
      "page_size s' = page_size s" "page_table s' = page_table s"
    using cache_req_mm[OF m True, of tic tic' finished] by blast
  have "\<exists>h. r = r\<lparr>r_handle := h\<rparr>" by (rule exI[of _ "r_handle r"]) simp
  then show ?thesis using s' by (intro exI[of _ r] exI[of _ s']) simp
next
  case False
  have id: "\<exists>h. r = r\<lparr>r_handle := h\<rparr>" by (rule exI[of _ "r_handle r"]) simp
  show ?thesis
  proof (cases finished)
    case True
    then show ?thesis using cache_req_finished[OF m False, of tic tic'] id by auto
  next
    case F: False
    obtain r' s' where "cache_req ops tic tic' r False s = Inr (r', s')" "minv s' (r' # R)"
      "\<exists>new. r' = r\<lparr>r_handle := new\<rparr>" "page_size s' = page_size s"
      "\<forall>t. length (page_table s' t) = length (page_table s t)"
      using cache_req_unfinished[OF m False, of tic tic'] by blast
    then show ?thesis using F by auto
  qed
qed

lemma commit_req_law:
  assumes m: "smem W env s (r # R)"
  shows "\<exists>h s'. commit_req env r False s = Inr (r\<lparr>r_handle := h\<rparr>, s') \<and> smem W env s' (r\<lparr>r_handle := h\<rparr> # R) \<and>
     (\<exists>cm n. s' = s\<lparr>sc_cm := cm, sc_ticks := n\<rparr>)"
proof -
  have "minv (sc_cm s) (r # R)" using m by (simp add: sched_mem_def)
  from cache_req_law[OF this, of "en_clock env (sc_ticks s)" "en_clock env (sc_ticks s + 1)" False]
  obtain h cm where c: "cache_req ops (en_clock env (sc_ticks s)) (en_clock env (sc_ticks s + 1)) r False (sc_cm s) =
      Inr (r\<lparr>r_handle := h\<rparr>, cm)" "minv cm (r\<lparr>r_handle := h\<rparr> # R)" "page_size cm = page_size (sc_cm s)"
    "\<forall>t. length (page_table cm t) = length (page_table (sc_cm s) t)" by auto
  then show ?thesis using m
    by (intro exI[of _ h] exI[of _ "s\<lparr>sc_cm := cm, sc_ticks := sc_ticks s + 2\<rparr>"])
      (auto simp: commit_req_def sched_mem_def rows_ok_def)
qed

lemma release_law:
  assumes m: "smem W env s (clamp r # R)"
  shows "\<exists>s'. release env r s = Inr (clamp r, s') \<and> smem W env s' R \<and>
     (\<exists>cm tm n. s' = s\<lparr>sc_cm := cm, sc_tm := tm, sc_ticks := n\<rparr>)"
proof -
  have mi: "minv (sc_cm s) (clamp r # R)" using m by (simp add: sched_mem_def)
  from cache_req_law[OF this, of "en_clock env (sc_ticks s)" "en_clock env (sc_ticks s + 1)" True]
  obtain cm where c: "cache_req ops (en_clock env (sc_ticks s)) (en_clock env (sc_ticks s + 1)) (clamp r) True (sc_cm s) =
      Inr (clamp r, cm)" "minv cm R" "page_size cm = page_size (sc_cm s)"
    "\<forall>t. length (page_table cm t) = length (page_table (sc_cm s) t)" by auto
  let ?tm = "tm_release (r_table_idx r) (sc_tm s)"
  have "r_table_idx r \<notin> r_table_idx ` set R" using minvD(3)[OF mi] by auto
  then have u: "r_table_idx ` set (clamp r # R) - {r_table_idx r} = r_table_idx ` set R" by auto
  have "table_ok ?tm (r_table_idx ` set R)"
    using tm_release_ok[of "sc_tm s" "r_table_idx ` set (clamp r # R)" "r_table_idx r"] m
    unfolding u by (simp add: sched_mem_def)
  moreover have "token_pool ?tm = token_pool (sc_tm s)" by (simp add: tm_release_def)
  ultimately show ?thesis using m c
    by (intro exI[of _ "s\<lparr>sc_cm := cm, sc_tm := ?tm, sc_ticks := sc_ticks s + 2\<rparr>"])
      (auto simp: release_def commit_req_def sched_mem_def rows_ok_def)
qed

text \<open>A live object is freed once: it leaves the holders, and its uid joins the freed ones.\<close>

lemma free_law:
  assumes d: "distinct (map r_uid (sc_objs s))" and r: "r \<in> set (live s)"
    and m: "smem W env s (clamp r # R)"
  shows "\<exists>s'. free_req_resources env (r_uid r) s = Inr s' \<and> smem W env s' R \<and>
     mset (live s') = mset (others (r_uid r) s) \<and> sc_freed s' = r_uid r # sc_freed s \<and>
     frame s s' \<and> sc_running s' = sc_running s \<and> sc_objs s' = sc_objs (put_obj (clamp r) s)"
proof -
  obtain s1 where s1: "release env r s = Inr (clamp r, s1)" "smem W env s1 R"
    "\<exists>cm tm n. s1 = s\<lparr>sc_cm := cm, sc_tm := tm, sc_ticks := n\<rparr>" using release_law[OF m] by blast
  then obtain cm tm n where e: "s1 = s\<lparr>sc_cm := cm, sc_tm := tm, sc_ticks := n\<rparr>" by blast
  have o: "obj s (r_uid r) = r" using obj_eq[OF d] r by (simp add: live_def)
  have nf: "r_uid r \<notin> set (sc_freed s)" using r by (simp add: live_def)
  let ?s' = "put_obj (clamp r) s1\<lparr>sc_freed := r_uid r # sc_freed s1\<rparr>"
  have run: "free_req_resources env (r_uid r) s = Inr ?s'"
    using s1(1) o nf by (simp add: free_req_resources_def)
  have d1: "distinct (map r_uid (sc_objs s1))" and r1: "r \<in> set (live s1)"
    using d r by (simp_all add: e live_def)
  have "live ?s' = filter (\<lambda>x. r_uid x \<noteq> r_uid r) (live (put_obj (clamp r) s1))" by (rule live_freed)
  also have "mset \<dots> = filter_mset (\<lambda>x. r_uid x \<noteq> r_uid r) (mset (live (put_obj (clamp r) s1)))" by simp
  also have "\<dots> = filter_mset (\<lambda>x. r_uid x \<noteq> r_uid r) (mset (others (r_uid r) s1))"
    unfolding live_put_obj[OF d1 r1, of "clamp r", simplified] by simp
  also have "\<dots> = mset (others (r_uid r) s)"
    by (simp add: others_def live_def e filter_filter_mset conj_ac)
  finally have l: "mset (live ?s') = mset (others (r_uid r) s)" .
  have "smem W env ?s' R" using s1(2) smem_cong[of ?s' s1 W env R] by simp
  then show ?thesis using run l
    by (intro exI[of _ ?s']) (simp add: e put_obj_def frame_def)
qed

end

section \<open>Draining\<close>

context scheduler_client
begin

lemma smem_token:
  assumes m: "smem W env s (clamp r # R)" and k: "live_ok W (Suc k) r"
    and r': "same_req r r'" "r_input_ids r' = r_input_ids r @ [t]"
      "r_cached_len r' = r_cached_len r \<or> r_cached_len r' = min (r_cached_len r) (length (r_input_ids r) + 1)"
  shows "smem W env s (clamp r' # R)"
proof -
  have mi: "minv (sc_cm s) (clamp r # R)" using m by (simp add: sched_mem_def)
  have k': "r_cached_len r \<le> r_allocated_len r" using k by (simp add: live_ok_def)
  have "minv (sc_cm s) (clamp r' # R)"
    by (rule minv_advance[OF mi]) (use r' k' in \<open>auto simp: clamp_def same_req_def\<close>)
  moreover have "r_table_idx r' = r_table_idx r" using r'(1) by (simp add: same_req_def)
  ultimately show ?thesis using m by (simp add: sched_mem_def)
qed

lemma holders_split:
  assumes "distinct (map r_uid (sc_objs s))" "r \<in> set (live s)"
  shows "mset (holders s L) = mset (clamp r # map clamp (others (r_uid r) s) @ chunks (sc_pend s) @ orphans L)"
  using live_others[OF assms] by (simp add: holders_def)

lemma orphans_Cons: "orphans (x # L) = (if r_chunked x \<and> r_aborted x then [x] else []) @ orphans L"
  by (simp add: orphans_def)

text \<open>What a drain step guarantees.\<close>

definition drained ::
  "nat \<Rightarrow> ('c, 'h) sched_env \<Rightarrow> ('c, 'h) sched \<Rightarrow> 'h req list \<Rightarrow> 'h req list \<Rightarrow> int list \<Rightarrow> int list \<Rightarrow>
   ('c, 'h) sched \<Rightarrow> msg_out list \<Rightarrow> int list \<Rightarrow> bool" where
  "drained W env s L Ob nf got s' ms fins \<longleftrightarrow>
     sched_shape W s' L (sc_finished s) Ob (nf @ fins) \<and> smem W env s' (holders s' L) \<and> frame s s' \<and>
     (\<forall>ms0. log_inv s Ob ms0 got \<longrightarrow> log_inv s' Ob (ms0 @ ms) got)"

lemma frame_refl [simp]: "frame s s"
  by (simp add: frame_def)

lemma frame_trans: "frame s t \<Longrightarrow> frame t u \<Longrightarrow> frame s u"
  by (simp add: frame_def)

lemma drained_same:
  assumes "sched_shape W s L (sc_finished s) Ob nf" "smem W env s (holders s L)"
  shows "drained W env s L Ob nf got s [] []"
  using assms by (simp add: drained_def)

lemma drain_free:
  assumes S: "sched_shape W s (x # L) (sc_finished s) Ob nf" and x: "\<not> r_chunked x"
    and s1: "frame s s1" "sc_running s1 = sc_running s" "sc_freed s1 = sc_freed s"
      "map r_uid (sc_objs s1) = map r_uid (sc_objs s)" "\<forall>y\<in>set (sc_objs s1). \<not> r_chunked y"
      "others (r_uid x) s1 = others (r_uid x) s" "r \<in> set (live s1)" "r_uid r = r_uid x" "r_uid x \<in> r_uid ` set (live s)"
    and m: "smem W env s1 (clamp r # map clamp (others (r_uid x) s) @ chunks (sc_pend s) @ orphans L)"
  shows "\<exists>s'. free_req_resources env (r_uid x) (remove_running (r_uid x) s1) = Inr s' \<and>
    sched_shape W s' L (sc_finished s) Ob (nf @ [r_uid x]) \<and> smem W env s' (holders s' L) \<and> frame s s' \<and>
    r_uid ` set (live s') = r_uid ` set (live s) - {r_uid x} \<and> set (live s') \<subseteq> set (live s) \<and>
    set (sc_running s') \<subseteq> set (sc_running s) \<and> r_uid ` set (sc_objs s') = r_uid ` set (sc_objs s)"
proof -
  note D = shapeD[OF S]
  let ?s0 = "remove_running (r_uid x) s1"
  have l0: "live ?s0 = live s1" "sc_objs ?s0 = sc_objs s1" by (simp_all add: live_def remove_running_def)
  have m0: "smem W env ?s0 (clamp r # map clamp (others (r_uid x) s) @ chunks (sc_pend s) @ orphans L)"
    using m smem_cong[of ?s0 s1] by (simp add: remove_running_def)
  have d1: "distinct (map r_uid (sc_objs s1))" using D(1) s1(4) by simp
  from free_law[of ?s0, unfolded l0, OF d1 s1(7) m0] obtain s' where
    s': "free_req_resources env (r_uid r) ?s0 = Inr s'"
      "smem W env s' (map clamp (others (r_uid x) s) @ chunks (sc_pend s) @ orphans L)"
      "mset (live s') = mset (others (r_uid r) ?s0)" "sc_freed s' = r_uid r # sc_freed ?s0" "frame ?s0 s'"
      "sc_running s' = sc_running ?s0" "sc_objs s' = sc_objs (put_obj (clamp r) ?s0)" by blast
  have fr: "frame s s'" using s'(5) s1(1) by (simp add: frame_def remove_running_def)
  have ot: "others (r_uid x) ?s0 = others (r_uid x) s" using s1(6) by (simp add: others_def l0)
  have lv: "mset (live s') = mset (others (r_uid x) s)" using s'(3) s1(8) ot by simp
  then have lvs: "set (live s') = set (others (r_uid x) s)" by (rule mset_eq_setD)
  have sh: "sched_shape W s' L (sc_finished s) Ob (nf @ [r_uid x])"
  proof (rule shape_freed[OF S x fr])
    show "sc_running s' = removeAll (r_uid x) (sc_running s)" using s'(6) s1(2) by (simp add: remove_running_def)
    show "sc_freed s' = r_uid x # sc_freed s" using s'(4) s1(3,8) by (simp add: remove_running_def)
    show "map r_uid (sc_objs s') = map r_uid (sc_objs s)"
      unfolding s'(7) s1(4)[symmetric] by (simp add: put_obj_def remove_running_def)
    have "\<not> r_chunked r" using s1(5) live_subset[OF s1(7)] by blast
    then show "\<forall>y\<in>set (sc_objs s'). \<not> r_chunked y"
      unfolding s'(7) using s1(5) by (auto simp: put_obj_def remove_running_def)
  qed (rule lvs)
  have "mset (map clamp (others (r_uid x) s) @ chunks (sc_pend s) @ orphans L) = mset (holders s' L)"
    using lv fr by (simp add: holders_def frame_def)
  then have "smem W env s' (holders s' L)" using s'(2) smem_perm by blast
  moreover have "r_uid ` set (live s') = r_uid ` set (live s) - {r_uid x}" "set (live s') \<subseteq> set (live s)"
    unfolding lvs set_others by auto
  moreover have "set (sc_running s') \<subseteq> set (sc_running s)" using s'(6) s1(2) by (auto simp: remove_running_def)
  moreover have "map r_uid (sc_objs s') = map r_uid (sc_objs s)"
    unfolding s'(7) s1(4)[symmetric] by (simp add: put_obj_def remove_running_def)
  then have "r_uid ` set (sc_objs s') = r_uid ` set (sc_objs s)" by (metis list.set_map)
  ultimately show ?thesis using s'(1) s1(8) sh fr by auto
qed

end

lemma image_replace: "x \<in> A \<Longrightarrow> f x' = f x \<Longrightarrow> f ` insert x' {y \<in> A. f y \<noteq> f x} = f ` A"
proof -
  assume x: "x \<in> A" "f x' = f x"
  have "f ` A = insert (f x) (f ` {y \<in> A. f y \<noteq> f x})" using x(1) by auto
  then show ?thesis using x(2) by simp
qed

context scheduler_client
begin

lemma others_uid: "y \<in> set (others u s) \<Longrightarrow> r_uid y \<noteq> u"
  by (simp add: others_def)

lemma drain_finished_or_on:
  assumes S: "sched_shape W s (x # L) (sc_finished s) Ob nf" and x: "\<not> r_chunked x"
    and m: "smem W env s (holders s (x # L))" and t: "length toks = 1"
    and r: "r \<in> set (live s)" "r_uid r = r_uid x" "\<not> r_aborted r"
  shows "\<exists>s' ms fins. drain_req env pre toks (r_uid x) s = Inr (s', ms, fins) \<and> drained W env s L Ob nf got s' ms fins"
proof -
  note D = shapeD[OF S]
  let ?u = "r_uid x" and ?k = "flights L Ob (r_uid x)"
  obtain tok where tok: "toks = [tok]" using t by (cases toks) auto
  have ob: "obj s ?u = r" using obj_eq[OF D(1)] live_subset[OF r(1)] r(2) by blast
  have nf: "?u \<notin> set (sc_freed s)" using live_subset[OF r(1)] r(2) by simp
  then have nF: "?u \<notin> set (sc_finished s)" using D(17) by blast
  have uo: "?u \<in> r_uid ` set (sc_objs s)"
    using live_subset[OF r(1)] unfolding r(2)[symmetric] by (intro imageI) simp
  have ul: "?u \<in> r_uid ` set (live s)" unfolding r(2)[symmetric] using r(1) by (rule imageI)
  have up: "?u \<notin> p_uid ` set (sc_pend s)" using D(3) uo by (metis IntI empty_iff)
  have "?u \<notin> nc L" using D(11) nc_uids[of ?u L] by auto
  then have k1: "?k \<le> 1" by (simp add: flights_def)
  have f1: "flights (x # L) Ob (r_uid r) = Suc ?k" using flights_head(1)[OF D(11) x] r(2) by simp
  have ok: "live_ok W (Suc ?k) r" using D(8)[OF r(1)] unfolding f1 .
  have nchunk: "\<not> r_chunked r" using D(5) live_subset[OF r(1)] by blast
  have lt: "length (r_input_ids r) < r_max_device_len r" using ok by (simp add: live_ok_def)
  from drain_one_token[OF lt nchunk, of env tok] obtain r' msg fin where
    d: "drain_tokens env [tok] r = Inr (r', [msg], fin)" "same_req r r'" "r_input_ids r' = r_input_ids r @ [tok]"
      "r_cached_len r' = (if fin then min (r_cached_len r) (length (r_input_ids r) + 1) else r_cached_len r)"
      "\<forall>v. is_progress v msg \<longleftrightarrow> v = r_uid r" "\<forall>v. is_terminal v msg \<longleftrightarrow> v = r_uid r \<and> fin"
      "r_max_device_len r \<le> length (r_input_ids r) + 1 \<longrightarrow> fin" by blast
  have u': "r_uid r' = r_uid r" "\<not> r_chunked r'" "\<not> r_aborted r'" using d(2) nchunk r(3) by (simp_all add: same_req_def)
  let ?R = "map clamp (others ?u s) @ chunks (sc_pend s) @ orphans L"
  have or: "orphans (x # L) = orphans L" using x by (simp add: orphans_Cons)
  have m1: "smem W env s (clamp r # ?R)"
    using m smem_perm[OF holders_split[OF D(1) r(1), of "x # L"]] r(2) or by simp
  have m2: "smem W env s (clamp r' # ?R)"
    by (rule smem_token[OF m1 ok d(2,3)]) (use d(4) in auto)
  let ?s1 = "put_obj r' s"
  have m3: "smem W env ?s1 (clamp r' # ?R)" using m2 smem_cong[of ?s1 s] by simp
  have l1: "mset (live ?s1) = add_mset r' (mset (others ?u s))"
    using live_put_obj[OF D(1) r(1) u'(1)] r(2) by simp
  have l1s: "set (live ?s1) = insert r' (set (others ?u s))" using l1 by (metis set_mset_add_mset_insert set_mset_mset)
  have fr1: "frame s ?s1" by (simp add: frame_def)
  show ?thesis
  proof (cases fin)
    case True
    have P: "sc_running ?s1 = sc_running s" "sc_freed ?s1 = sc_freed s" "map r_uid (sc_objs ?s1) = map r_uid (sc_objs s)"
      by (simp_all add: put_obj_def)
    have P4: "\<forall>y\<in>set (sc_objs ?s1). \<not> r_chunked y" using D(5) u'(2) by (auto simp: put_obj_def)
    have P5: "others ?u ?s1 = others ?u s" using others_put_obj[of ?u r' s] u'(1) r(2) by simp
    have P6: "r' \<in> set (live ?s1)" unfolding l1s by simp
    have P7: "r_uid r' = ?u" "?u \<in> r_uid ` set (live s)" using u'(1) r(2) ul by auto
    from drain_free[OF S x fr1 P P4 P5 P6 P7 m3] obtain s' where
      s': "free_req_resources env ?u (remove_running ?u ?s1) = Inr s'"
        "sched_shape W s' L (sc_finished s) Ob (nf @ [?u])" "smem W env s' (holders s' L)" "frame s s'"
        "r_uid ` set (live s') = r_uid ` set (live s) - {?u}" "set (live s') \<subseteq> set (live s)"
        "set (sc_running s') \<subseteq> set (sc_running s)" "r_uid ` set (sc_objs s') = r_uid ` set (sc_objs s)"
      by (elim exE conjE) (rule that)
    have "log_inv s' Ob (ms0 @ [msg]) got" if G: "log_inv s Ob ms0 got" for ms0
    proof (rule log_drain[OF G s'(4,7,8), of ?u True])
      show "?u \<in> r_uid ` set (live s)" by (rule ul)
      show "ended ?u [msg] \<Longrightarrow> True" ..
      show "True \<Longrightarrow> ended ?u [msg] \<or> ?u \<in> set (sc_acks s)" using d(6) True r(2) by (simp add: ended_def)
    qed (use up s'(5,6) d(5,6) r(2) in auto)
    then have "drained W env s L Ob nf got s' [msg] [?u]" using s'(2-4) by (simp add: drained_def)
    moreover have "drain_req env pre toks ?u s = Inr (s', [msg], [?u])"
      using True d(1) s'(1) r(3) nF by (simp add: drain_req_def ob tok)
    ultimately show ?thesis by blast
  next
    case False
    have dl: "r_device_len r' = r_device_len r" "r_max_device_len r' = r_max_device_len r" "r_cached_len r' = r_cached_len r"
      "r_allocated_len r' = r_allocated_len r"
      using d(2,4) False by (simp_all add: same_req_def)
    have ok': "live_ok W ?k r'" using ok d(3) dl by (simp add: live_ok_def)
    have run: "if r_uid r \<in> set (sc_running s) then r_device_len r' < r_max_device_len r' \<and> \<not> r_aborted r'
       else 0 < ?k \<and> (r_aborted r' \<or> r_device_len r' = r_max_device_len r')"
    proof (cases "r_uid r \<in> set (sc_running s)")
      case T: True
      then show ?thesis using D(9)[OF r(1) T] dl u'(3) by simp
    next
      case F: False
      have mx: "r_device_len r = r_max_device_len r" using D(10)[OF r(1) F] r(3) by simp
      have "?k \<noteq> 0" using ok mx d(7) False by (auto simp: live_ok_def)
      then show ?thesis using F mx dl by simp
    qed
    have sh: "sched_shape W s'' L (sc_finished s) Ob nf"
      if s'': "frame s s''" "sc_running s'' = sc_running s" "sc_freed s'' = sc_freed s" "sc_objs s'' = sc_objs (put_obj r'' s)"
        "r'' = r' \<or> (\<exists>h. r'' = r'\<lparr>r_handle := h\<rparr>)" for s'' r''
    proof (rule shape_token[OF S x r(1,2)])
      show "live_ok W (flights L Ob (r_uid r)) r''" using s''(5) ok' r(2) by (auto simp: live_ok_def)
      show "if r_uid r \<in> set (sc_running s) then r_device_len r'' < r_max_device_len r'' \<and> \<not> r_aborted r''
         else 0 < flights L Ob (r_uid r) \<and> (r_aborted r'' \<or> r_device_len r'' = r_max_device_len r'')"
        using run s''(5) r(2) by auto
    qed (use s'' u' in auto)
    have lg: "log_inv s'' Ob (ms0 @ [msg]) got"
      if G: "log_inv s Ob ms0 got" and s'': "frame s s''" "sc_running s'' = sc_running s" "sc_freed s'' = sc_freed s"
        "sc_objs s'' = sc_objs (put_obj r'' s)" "r'' = r' \<or> (\<exists>h. r'' = r'\<lparr>r_handle := h\<rparr>)" for ms0 s'' r''
    proof -
      have u'': "r_uid r'' = r_uid r" "\<not> r_aborted r''" using s''(5) u' by auto
      have "live s'' = live (put_obj r'' s)" by (simp add: live_def s''(3,4))
      then have "mset (live s'') = add_mset r'' (mset (others ?u s))"
        using live_put_obj[OF D(1) r(1) u''(1)] r(2) by simp
      then have lv: "set (live s'') = insert r'' (set (others ?u s))" by (metis set_mset_add_mset_insert set_mset_mset)
      have "map r_uid (sc_objs s'') = map r_uid (sc_objs s)" unfolding s''(4) using u''(1) by (simp add: put_obj_def)
      then have os: "r_uid ` set (sc_objs s'') = r_uid ` set (sc_objs s)" by (metis list.set_map)
      show ?thesis
      proof (rule log_drain[OF G s''(1) _ os, of ?u False])
        show "?u \<in> r_uid ` set (live s)" by (rule ul)
        show "r_uid ` set (live s'') = (if False then r_uid ` set (live s) - {?u} else r_uid ` set (live s))"
          unfolding lv set_others using image_replace[OF r(1) u''(1)] r(2) by simp
        show "\<exists>r0\<in>set (live s). r_aborted r0 \<and> r_uid r0 = r_uid y" if "y \<in> set (live s'')" "r_aborted y" for y
          using that u''(2) unfolding lv set_others by auto
        show "ended ?u [msg] \<Longrightarrow> False" using d(6) False by (simp add: ended_def)
      qed (use up s''(2) d(5,6) r(2) False in auto)
    qed
    show ?thesis
    proof (cases pre)
      case T: True
      have c: "clamp r' = r'"
        by (rule clamp_id) (use ok' k1 in \<open>auto simp: live_ok_def\<close>)
      have m4: "smem W env ?s1 (r' # ?R)" using m3 unfolding c .
      from commit_req_law[OF m4] obtain h s2 where
        h: "commit_req env r' False ?s1 = Inr (r'\<lparr>r_handle := h\<rparr>, s2)" "smem W env s2 (r'\<lparr>r_handle := h\<rparr> # ?R)"
        "\<exists>cm n. s2 = ?s1\<lparr>sc_cm := cm, sc_ticks := n\<rparr>" by blast
      let ?r = "r'\<lparr>r_handle := h\<rparr>" and ?s3 = "put_obj (r'\<lparr>r_handle := h\<rparr>) s2"
      from h(3) obtain cm n where s2: "s2 = ?s1\<lparr>sc_cm := cm, sc_ticks := n\<rparr>" by blast
      have f3: "frame s ?s3" "sc_running ?s3 = sc_running s" "sc_freed ?s3 = sc_freed s"
        by (simp_all add: s2 frame_def)
      have o3: "sc_objs ?s3 = sc_objs (put_obj ?r s)"
        unfolding s2 by (simp add: put_obj_def o_def cong: map_cong)
      have l3: "mset (live ?s3) = add_mset ?r (mset (others ?u s))"
      proof -
        have "live ?s3 = live (put_obj ?r s)" using f3(3) o3 by (simp add: live_def)
        then show ?thesis using live_put_obj[OF D(1) r(1), of ?r] u'(1) r(2) by simp
      qed
      have "clamp ?r = ?r" by (rule clamp_id) (use ok' k1 in \<open>auto simp: live_ok_def\<close>)
      then have "mset (?r # ?R) = mset (holders ?s3 L)" using l3 f3(1) by (simp add: holders_def frame_def)
      moreover have "smem W env ?s3 (?r # ?R)" using h(2) smem_cong[of ?s3 s2] by simp
      ultimately have "smem W env ?s3 (holders ?s3 L)" using smem_perm by blast
      moreover have "sched_shape W ?s3 L (sc_finished s) Ob nf" by (rule sh[OF f3 o3]) blast
      ultimately have "drained W env s L Ob nf got ?s3 [msg] []"
        using f3(1) lg[OF _ f3 o3 disjI2[OF exI[of _ h, OF refl]]] by (simp add: drained_def)
      moreover have "drain_req env pre toks ?u s = Inr (?s3, [msg], [])"
        using False T d(1) r(3) nF nf h(1) by (simp add: drain_req_def ob tok)
      ultimately show ?thesis by blast
    next
      case F: False
      have "mset (clamp r' # ?R) = mset (holders ?s1 L)" using l1 by (simp add: holders_def)
      then have "smem W env ?s1 (holders ?s1 L)" using m3 smem_perm by blast
      moreover have "sched_shape W ?s1 L (sc_finished s) Ob nf" by (rule sh[OF fr1 _ _ refl disjI1[OF refl]]) simp_all
      ultimately have "drained W env s L Ob nf got ?s1 [msg] []"
        using fr1 lg[OF _ fr1 _ _ refl disjI1[OF refl]] by (simp add: drained_def)
      moreover have "drain_req env pre toks ?u s = Inr (?s1, [msg], [])"
        using False F d(1) r(3) nF by (simp add: drain_req_def ob tok)
      ultimately show ?thesis by blast
    qed
  qed
qed

end

end
