(* ===== verification/SchedDrain.thy ===== *)
theory SchedDrain
  imports SchedInv
begin

text \<open>
  Draining a whole batch and the control messages keep the invariant of the scheduler loop.
\<close>

context scheduler_client
begin

lemma nc_member: "x \<in> set L \<Longrightarrow> \<not> r_chunked x \<Longrightarrow> r_uid x \<in> nc L"
  by (simp add: nc_def)

lemma smem_clamp:
  assumes "smem W env s (r # R)"
  shows "clamp r = r"
proof -
  have "minv (sc_cm s) (r # R)" using assms by (simp add: sched_mem_def)
  from minvD(4)[OF this, of r] show ?thesis by (intro clamp_id) (simp add: req_mem_def Let_def)
qed

lemma drain_chunk:
  assumes S: "sched_shape W s (x # L) (sc_finished s) Ob nf" and m: "smem W env s (holders s (x # L))"
    and x: "r_chunked x"
  shows "\<exists>s'. drain_entry env pre toks x s = Inr (s', [], []) \<and> drained W env s L Ob nf got s' [] []"
proof (cases "r_aborted x")
  case False
  have "sched_shape W s L (sc_finished s) Ob nf" using shape_skip[OF S] x by blast
  moreover have "smem W env s (holders s L)" using m False by (simp add: holders_def orphans_Cons)
  ultimately show ?thesis using x False by (intro exI[of _ s]) (simp add: drain_entry_def drained_same)
next
  case True
  let ?R = "map clamp (live s) @ chunks (sc_pend s) @ orphans L"
  have "mset (holders s (x # L)) = mset (x # ?R)" using True x by (simp add: holders_def orphans_Cons)
  then have mx: "smem W env s (x # ?R)" using m smem_perm by blast
  then have "smem W env s (clamp x # ?R)" unfolding smem_clamp[OF mx] .
  from release_law[OF this] obtain s' where s': "release env x s = Inr (clamp x, s')" "smem W env s' ?R"
    "\<exists>cm tm n. s' = s\<lparr>sc_cm := cm, sc_tm := tm, sc_ticks := n\<rparr>" by blast
  then obtain cm tm n where e: "s' = s\<lparr>sc_cm := cm, sc_tm := tm, sc_ticks := n\<rparr>" by blast
  have same: "live s' = live s" "sc_objs s' = sc_objs s" "sc_pend s' = sc_pend s" "sc_freed s' = sc_freed s"
    "sc_running s' = sc_running s" "frame s s'"
    by (simp_all add: e live_def frame_def)
  have sh: "sched_shape W s' L (sc_finished s) Ob nf"
    using shape_skip[OF S disjI1[OF x]] unfolding sched_shape_def same by simp
  have "smem W env s' (holders s' L)" using s'(2) same by (simp add: holders_def)
  moreover have "log_inv s' Ob ms0 got" if "log_inv s Ob ms0 got" for ms0
    by (rule log_cong[OF that]) (use same in simp_all)
  ultimately have "drained W env s L Ob nf got s' [] []" using sh same(6) by (simp add: drained_def)
  then show ?thesis using x True s'(1) by (intro exI[of _ s']) (simp add: drain_entry_def free_chunk_def)
qed

lemma drain_entry_law:
  assumes S: "sched_shape W s (x # L) (sc_finished s) Ob nf" and m: "smem W env s (holders s (x # L))"
    and t: "\<And>u. length (toks u) = 1"
  shows "\<exists>s' ms fins. drain_entry env pre toks x s = Inr (s', ms, fins) \<and> drained W env s L Ob nf got s' ms fins"
proof (cases "r_chunked x")
  case True
  then show ?thesis using drain_chunk[OF S m] by blast
next
  case x: False
  note D = shapeD[OF S]
  let ?u = "r_uid x"
  have run: "drain_entry env pre toks x s = drain_req env pre (toks ?u) ?u s" using x by (simp add: drain_entry_def)
  have or: "orphans (x # L) = orphans L" using x by (simp add: orphans_Cons)
  show ?thesis
  proof (cases "?u \<in> set (sc_freed s)")
    case True
    have sh: "sched_shape W s L (sc_finished s) Ob nf" using shape_skip[OF S] True by blast
    have mL: "smem W env s (holders s L)" using m or by (simp add: holders_def)
    have F: "?u \<in> set (sc_finished s)" using D(15) True nc_member[of x "x # L"] x by auto
    show ?thesis
    proof (cases "r_aborted (obj s ?u)")
      case False
      then show ?thesis using run F sh mL by (simp add: drain_req_def drained_same)
    next
      case ab: True
      have nr: "?u \<notin> set (sc_running s)" using D(7) True by (auto simp: live_def)
      have rr: "remove_running ?u s = s" using nr by (simp add: remove_running_def)
      have "sched_shape W s L (sc_finished s) Ob (nf @ [?u])"
        using sh True unfolding sched_shape_def by auto
      then have "drained W env s L Ob nf got s [] [?u]" using mL by (simp add: drained_def)
      then show ?thesis using run ab True by (simp add: drain_req_def free_req_resources_def rr)
    qed
  next
    case nf: False
    have "?u \<in> r_uid ` set (sc_objs s)" using D(13) nc_member[of x "x # L"] x by auto
    then obtain r where r0: "r \<in> set (sc_objs s)" "r_uid r = ?u" by force
    then have r: "r \<in> set (live s)" using nf by (simp add: live_def)
    have ob: "obj s ?u = r" using obj_eq[OF D(1) r0] .
    show ?thesis
    proof (cases "r_aborted r")
      case False
      show ?thesis unfolding run by (rule drain_finished_or_on[OF S x m t r r0(2) False])
    next
      case True
      have mr: "smem W env s (clamp r # map clamp (others ?u s) @ chunks (sc_pend s) @ orphans L)"
        using m smem_perm[OF holders_split[OF D(1) r, of "x # L"]] r0(2) or by simp
      have uin: "?u \<in> r_uid ` set (live s)" unfolding r0(2)[symmetric] using r by (rule imageI)
      have nch: "\<forall>y\<in>set (sc_objs s). \<not> r_chunked y" using D(5) by blast
      from drain_free[OF S x frame_refl refl refl refl nch refl r r0(2) uin mr] obtain s' where
        s': "free_req_resources env ?u (remove_running ?u s) = Inr s'"
          "sched_shape W s' L (sc_finished s) Ob (nf @ [?u])" "smem W env s' (holders s' L)" "frame s s'"
          "r_uid ` set (live s') = r_uid ` set (live s) - {?u}" "set (live s') \<subseteq> set (live s)"
          "set (sc_running s') \<subseteq> set (sc_running s)" "r_uid ` set (sc_objs s') = r_uid ` set (sc_objs s)"
        by (elim exE conjE) (rule that)
      have up: "?u \<notin> p_uid ` set (sc_pend s)" using D(3) r0 by (metis IntI empty_iff imageI)
      have "log_inv s' Ob (ms0 @ []) got" if H: "log_inv s Ob ms0 got" for ms0
      proof (rule log_drain[OF H s'(4,7,8) uin up, where gone = True])
        show "\<exists>r0\<in>set (live s). r_aborted r0 \<and> r_uid r0 = r_uid y" if "y \<in> set (live s')" "r_aborted y" for y
          using that s'(6) by blast
        show "True \<Longrightarrow> ended ?u [] \<or> ?u \<in> set (sc_acks s)" using log_invD(7)[OF H r True] r0(2) by simp
      qed (use s'(5) in simp_all)
      then have "drained W env s L Ob nf got s' [] [?u]" using s'(2-4) by (simp add: drained_def)
      then show ?thesis using run ob True s'(1) by (simp add: drain_req_def)
    qed
  qed
qed

lemma drain_loop_law:
  "sched_shape W s L (sc_finished s) Ob nf \<Longrightarrow> smem W env s (holders s L) \<Longrightarrow> (\<And>u. length (toks u) = 1) \<Longrightarrow>
   log_inv s Ob ms got \<Longrightarrow>
   \<exists>s' ms' fins. drain_loop env pre toks L s ms nf = Inr (s', ms', fins) \<and> sched_shape W s' [] (sc_finished s) Ob fins \<and>
     smem W env s' (holders s' []) \<and> frame s s' \<and> log_inv s' Ob ms' got"
proof (induction L arbitrary: s ms nf)
  case Nil
  then show ?case by simp
next
  case (Cons x L)
  have "\<exists>s1 ms1 fins1. drain_entry env pre toks x s = Inr (s1, ms1, fins1) \<and>
      drained W env s L Ob nf got s1 ms1 fins1"
    by (rule drain_entry_law[OF Cons.prems(1-3)])
  then obtain s1 ms1 fins1 where d: "drain_entry env pre toks x s = Inr (s1, ms1, fins1)"
    "drained W env s L Ob nf got s1 ms1 fins1" by blast
  have f: "sc_finished s1 = sc_finished s" using d(2) by (simp add: drained_def frame_def)
  have "log_inv s1 Ob (ms @ ms1) got" using d(2) Cons.prems(4) by (simp add: drained_def)
  from Cons.IH[OF _ _ Cons.prems(3) this, of "nf @ fins1"] obtain s' ms' fins where
    "drain_loop env pre toks L s1 (ms @ ms1) (nf @ fins1) = Inr (s', ms', fins)"
    "sched_shape W s' [] (sc_finished s) Ob fins" "smem W env s' (holders s' [])" "frame s1 s'" "log_inv s' Ob ms' got"
    using d(2) f unfolding drained_def by auto
  then show ?case using d frame_trans by (fastforce simp: drained_def)
qed

text \<open>The accumulated batch becomes the one in flight.\<close>

lemma shape_rebase:
  assumes "sched_shape W s [] F Ob nf" "set nf \<subseteq> set G" "set G \<subseteq> set (sc_freed s)"
  shows "sched_shape W s Ob G [] []"
proof -
  have f: "flights Ob [] u = flights [] Ob u" for u by (simp add: flights_def nc_def)
  show ?thesis using assms unfolding sched_shape_def f by (auto simp: nc_def)
qed

lemma orphans_none: "\<forall>x\<in>set L. r_chunked x \<longrightarrow> \<not> r_aborted x \<Longrightarrow> orphans L = []"
  by (auto simp: orphans_def filter_empty_conv)

lemma smem_lazy:
  assumes "smem W env s R"
  shows "lazy_free_list (sc_cm s) = None \<Longrightarrow> smem W env (s\<lparr>sc_cm := lazy_free_enter (sc_cm s)\<rparr>) R"
    "smem W env (s\<lparr>sc_cm := lazy_free_exit (sc_cm s)\<rparr>) R"
proof -
  have m: "minv (sc_cm s) R" using assms by (simp add: sched_mem_def)
  have e: "page_size (lazy_free_enter c) = page_size c" "page_table (lazy_free_enter c) = page_table c"
    "page_size (lazy_free_exit c) = page_size c" "page_table (lazy_free_exit c) = page_table c" for c :: "'c cman"
    by (simp_all add: lazy_free_enter_def lazy_free_exit_def)
  show "lazy_free_list (sc_cm s) = None \<Longrightarrow> smem W env (s\<lparr>sc_cm := lazy_free_enter (sc_cm s)\<rparr>) R"
    using assms minv_lazy(1)[OF m] by (simp add: sched_mem_def rows_ok_def e)
  show "smem W env (s\<lparr>sc_cm := lazy_free_exit (sc_cm s)\<rparr>) R"
    using assms minv_lazy(2)[OF m] by (simp add: sched_mem_def rows_ok_def e)
qed

lemma shape_cong:
  assumes "sc_objs s' = sc_objs s" "sc_pend s' = sc_pend s" "sc_freed s' = sc_freed s" "sc_running s' = sc_running s"
  shows "sched_shape W s' L F Ob nf = sched_shape W s L F Ob nf" "holders s' L = holders s L" "live s' = live s"
proof -
  show l: "live s' = live s" using assms by (simp add: live_def)
  show "sched_shape W s' L F Ob nf = sched_shape W s L F Ob nf" unfolding sched_shape_def l assms ..
  show "holders s' L = holders s L" unfolding holders_def l assms ..
qed

lemma log_inv_cong:
  assumes "sc_pend s' = sc_pend s" "live s' = live s" "sc_acks s' = sc_acks s" "sc_tombs s' = sc_tombs s"
    "sc_running s' = sc_running s" "sc_out s' @ ms' = sc_out s @ ms" "sc_objs s' = sc_objs s"
  shows "log_inv s' Ob ms' got = log_inv s Ob ms got"
  unfolding log_inv_def assms ..

lemma process_last_law:
  assumes S: "sched_shape W s L (sc_finished s) Ob []" and m: "smem W env s (holders s L)"
    and lz: "lazy_free_list (sc_cm s) = None" and t: "\<And>u. length (toks u) = 1" and G: "log_inv s Ob [] got"
    and L: "L = (case ld of None \<Rightarrow> [] | Some b \<Rightarrow> b_reqs b)"
  shows "\<exists>s'. process_last_data env toks ld s = Inr s' \<and> sched_shape W s' Ob (sc_finished s') [] [] \<and>
    smem W env s' (holders s' Ob) \<and> lazy_free_list (sc_cm s') = None \<and> log_inv s' Ob [] got \<and>
    sc_pend s' = sc_pend s \<and> sc_acks s' = sc_acks s \<and> sc_rebuild s' = sc_rebuild s \<and> sc_last s' = sc_last s"
proof (cases ld)
  case None
  have Ob: "orphans Ob = []" using orphans_none[of Ob] shapeD(20)[OF S] by blast
  have "sched_shape W s Ob (sc_finished s) [] []"
    using S shapeD(17)[OF S] L None by (intro shape_rebase[of W s "sc_finished s" Ob "[]"]) simp_all
  moreover have "holders s Ob = holders s L" using L None Ob by (simp add: holders_def orphans_def)
  ultimately show ?thesis using m lz G None by (simp add: process_last_data_def)
next
  case (Some b)
  let ?s0 = "s\<lparr>sc_cm := lazy_free_enter (sc_cm s)\<rparr>"
  have S0: "sched_shape W ?s0 (b_reqs b) (sc_finished ?s0) Ob []" using S shape_cong(1)[of ?s0 s] L Some by simp
  have m0: "smem W env ?s0 (holders ?s0 (b_reqs b))"
    using smem_lazy(1)[OF m lz] shape_cong(2)[of ?s0 s] L Some by simp
  have G0: "log_inv ?s0 Ob [] got" using G log_inv_cong[of ?s0 s "[]" "[]"] shape_cong(3)[of ?s0 s] by simp
  from drain_loop_law[OF S0 m0 t G0] obtain s1 reply fins where
    d: "drain_loop env (is_prefill b) toks (b_reqs b) ?s0 [] [] = Inr (s1, reply, fins)"
      "sched_shape W s1 [] (sc_finished s) Ob fins" "smem W env s1 (holders s1 [])" "frame ?s0 s1" "log_inv s1 Ob reply got"
    by fastforce
  let ?s1 = "s1\<lparr>sc_cm := lazy_free_exit (sc_cm s1), sc_finished := fins\<rparr>"
  let ?s' = "send_result reply ?s1"
  have run: "process_last_data env toks ld s = Inr ?s'" using d(1) Some by (simp add: process_last_data_def)
  have same: "sc_objs ?s' = sc_objs s1" "sc_pend ?s' = sc_pend s1" "sc_freed ?s' = sc_freed s1" "sc_running ?s' = sc_running s1"
    "sc_acks ?s' = sc_acks s1" "sc_tombs ?s' = sc_tombs s1" "sc_out ?s' = sc_out s1 @ reply" "sc_finished ?s' = fins"
    by (simp_all add: send_result_def)
  have "sched_shape W s1 Ob fins [] []"
    using shape_rebase[OF d(2) order_refl] shapeD(18)[OF d(2)] by blast
  then have sh: "sched_shape W ?s' Ob (sc_finished ?s') [] []" using shape_cong(1)[of ?s' s1] same by simp
  have "orphans Ob = []" using orphans_none[of Ob] shapeD(20)[OF d(2)] by blast
  then have "holders ?s' Ob = holders s1 []" using shape_cong(2)[of ?s' s1 Ob] same by (simp add: holders_def orphans_def)
  moreover have "smem W env ?s' (holders s1 [])"
    using smem_lazy(2)[OF d(3)] smem_cong[of ?s' "s1\<lparr>sc_cm := lazy_free_exit (sc_cm s1)\<rparr>"] by (simp add: send_result_def)
  moreover have "lazy_free_list (sc_cm ?s') = None" by (simp add: send_result_def lazy_free_exit_def)
  moreover have "log_inv ?s' Ob [] got"
    using d(5) log_inv_cong[of ?s' s1 "[]" reply Ob got] shape_cong(3)[of ?s' s1] same by simp
  moreover have "sc_pend ?s' = sc_pend s" "sc_acks ?s' = sc_acks s" "sc_rebuild ?s' = sc_rebuild s" "sc_last ?s' = sc_last s"
    using d(4) by (simp_all add: frame_def send_result_def)
  ultimately show ?thesis using run sh by metis
qed

text \<open>At the end of a pass nobody who was aborted is live, so the acknowledgements close their uids.\<close>

lemma flush_law:
  assumes S: "sched_shape W s Ob (sc_finished s) [] []" and G: "log_inv s Ob [] got"
  shows "log_inv (flush_abort_acks s) [] [] got"
proof -
  note D = log_invD[OF G]
  let ?ms = "map (\<lambda>uid. ErrorReplyMsg uid RequestAborted None) (sort (sc_acks s))"
  let ?s = "flush_abort_acks s"
  have f: "sc_pend ?s = sc_pend s" "live ?s = live s" "sc_acks ?s = []" "sc_tombs ?s = sc_tombs s" "sc_out ?s = sc_out s @ ?ms"
    "sc_objs ?s = sc_objs s"
    by (simp_all add: flush_abort_acks_def send_result_def live_def)
  have e: "ended u ?ms \<longleftrightarrow> u \<in> set (sc_acks s)" for u by (auto simp: ended_def is_terminal_def)
  have np: "\<not> is_progress u m" if "m \<in> set ?ms" for u m using that by (auto simp: is_progress_def)
  have "quiet (map (\<lambda>uid. ErrorReplyMsg uid RequestAborted None) us)" for us
    by (induction us) (auto simp: is_progress_def)
  then have q: "quiet ?ms" .
  have gone: "u \<notin> r_uid ` set (live s)" if u: "u \<in> set (sc_acks s)" for u
  proof
    assume "u \<in> r_uid ` set (live s)"
    then obtain r where r: "r \<in> set (live s)" "r_uid r = u" by blast
    then have "0 < flights Ob [] u" using shapeD(10)[OF S r(1)] D(5)[OF u] by simp
    then show False using D(6)[OF u] by (simp add: flights_def nc_def split: if_splits)
  qed
  have "quiet (sc_out s @ ?ms)" using D(1) q np by (simp add: quiet_append)
  moreover have "u \<notin> p_uid ` set (sc_pend s) \<union> r_uid ` set (live s)" if "ended u (sc_out s @ ?ms)" for u
    using that gone D(2,3)[of u] D(4)[of u] by (auto simp: e)
  moreover have "\<forall>r\<in>set (live s). \<not> r_aborted r" using D(7) gone by blast
  moreover have "u \<in> p_uid ` set (sc_pend s) \<union> r_uid ` set (live s) \<or> ended u (sc_out s @ ?ms)" if "u \<in> set got" for u
    using D(8)[OF that] by (auto simp: e)
  moreover have "ended u (sc_out s @ ?ms)" if "u \<in> set (sc_tombs s)" for u
    using D(9)[OF that] by (auto simp: e)
  moreover have "u \<in> set got \<union> set (sc_tombs s)" if "ended u (sc_out s @ ?ms)" for u
    using that D(10)[of u] by (auto simp: e)
  ultimately show ?thesis using D(11,12) unfolding log_inv_def f by simp
qed

end

end
