(* ===== verification/SchedMsg.thy ===== *)
theory SchedMsg
  imports SchedDrain
begin

text \<open>
  Inbound messages keep the invariant of the scheduler loop.
\<close>

section \<open>The invariant between messages\<close>

definition in_flight_reqs :: "('c, 'h) sched \<Rightarrow> 'h req list" where
  "in_flight_reqs s = (case sc_last s of None \<Rightarrow> [] | Some b \<Rightarrow> b_reqs b)"

definition sched_inv ::
  "('c, 'h) cache_ops \<Rightarrow> (nat \<Rightarrow> 'c \<Rightarrow> 'h multiset \<Rightarrow> bool) \<Rightarrow> ('c \<Rightarrow> 'h \<Rightarrow> token list) \<Rightarrow>
   ('c \<Rightarrow> 'h \<Rightarrow> slot list) \<Rightarrow> ('c \<Rightarrow> slot multiset) \<Rightarrow> nat \<Rightarrow> ('c, 'h) sched_env \<Rightarrow> ('c, 'h) sched \<Rightarrow> int list \<Rightarrow> bool" where
  "sched_inv ops ok key val slots W env s got \<longleftrightarrow>
     sched_shape W s (in_flight_reqs s) (sc_finished s) [] [] \<and>
     sched_mem ops ok key val slots W env s (holders s (in_flight_reqs s)) \<and>
     lazy_free_list (sc_cm s) = None \<and> log_inv s [] [] got \<and> shared s (in_flight_reqs s) \<and>
     r_uid ` set (in_flight_reqs s) \<subseteq> set got"

text \<open>
  What a message must satisfy: a request has a prompt, a positive token limit and a uid that no
  earlier request had; a tombstone that is dropped for room belongs to a request that has arrived.
\<close>

fun received :: "msg_in \<Rightarrow> int list" where
  "received (UserMsg uid ids sp images) = [uid]"
| "received (BatchBackendMsg ms) = concat (map received ms)"
| "received (AbortBackendMsg uid) = []"
| "received (CacheRebuildBackendMsg m) = []"
| "received ExitMsg = []"

fun msg_ok :: "('c, 'h) sched_env \<Rightarrow> msg_in \<Rightarrow> ('c, 'h) sched \<Rightarrow> int list \<Rightarrow> bool"
  and msgs_ok :: "('c, 'h) sched_env \<Rightarrow> msg_in list \<Rightarrow> ('c, 'h) sched \<Rightarrow> int list \<Rightarrow> bool" where
  "msg_ok env (UserMsg uid ids sp images) s got \<longleftrightarrow> ids \<noteq> [] \<and> 1 \<le> max_tokens sp \<and> uid \<notin> set got"
| "msg_ok env (AbortBackendMsg uid) s got \<longleftrightarrow>
     set (sc_tombs s) - set (add_tombstone uid (sc_tombs s)) \<subseteq> set got"
| "msg_ok env (CacheRebuildBackendMsg m) s got \<longleftrightarrow> True"
| "msg_ok env (BatchBackendMsg ms) s got \<longleftrightarrow> msgs_ok env ms s got"
| "msg_ok env ExitMsg s got \<longleftrightarrow> True"
| "msgs_ok env [] s got \<longleftrightarrow> True"
| "msgs_ok env (m # ms) s got \<longleftrightarrow> msg_ok env m s got \<and>
     (case process_one_msg env m s of Inl e \<Rightarrow> True | Inr s' \<Rightarrow> msgs_ok env ms s' (received m @ got))"

section \<open>The shape\<close>

lemma shape_pend:
  assumes S: "sched_shape W s L F Ob nf" and P: "set P \<subseteq> set (sc_pend s)" "distinct (map p_uid P)"
  shows "sched_shape W (s\<lparr>sc_pend := P\<rparr>) L F Ob nf"
proof -
  note D = shapeD[OF S]
  have l: "live (s\<lparr>sc_pend := P\<rparr>) = live s" by (simp add: live_def)
  have sub: "p_uid ` set P \<subseteq> p_uid ` set (sc_pend s)" using P(1) by (rule image_mono)
  have g: "\<forall>p\<in>set P. pend_good W p" using D(4) P(1) by blast
  have dj: "set (map r_uid (sc_objs s)) \<inter> set (map p_uid P) = {}" unfolding set_map using D(3) sub by blast
  have ch: "\<forall>x\<in>set L. r_chunked x \<and> r_aborted x \<longrightarrow> r_uid x \<notin> r_uid ` set (sc_objs s) \<union> p_uid ` set P"
    using D(19) sub by blast
  show ?thesis using S P(2) g dj ch unfolding sched_shape_def distinct_append l by simp
qed

lemma shape_gone:
  assumes S: "sched_shape W s L F [] []" and u: "u \<notin> nc L" "u \<in> r_uid ` set (sc_objs s)"
    and s': "sc_pend s' = sc_pend s" "sc_running s' = removeAll u (sc_running s)" "sc_freed s' = u # sc_freed s"
      "map r_uid (sc_objs s') = map r_uid (sc_objs s)" "\<forall>y\<in>set (sc_objs s'). \<not> r_chunked y"
      "set (live s') = set (others u s)"
  shows "sched_shape W s' L F [] []"
proof -
  note D = shapeD[OF S]
  have us: "r_uid ` set (sc_objs s') = r_uid ` set (sc_objs s)" using s'(4) by (metis list.set_map)
  have l: "\<forall>y\<in>set (live s'). live_ok W (flights L [] (r_uid y)) y \<and>
        (if r_uid y \<in> set (sc_running s') then r_device_len y < r_max_device_len y \<and> \<not> r_aborted y
         else 0 < flights L [] (r_uid y) \<and> (r_aborted y \<or> r_device_len y = r_max_device_len y))"
  proof
    fix y assume "y \<in> set (live s')"
    then have y: "y \<in> set (live s)" "r_uid y \<noteq> u" unfolding s'(6) set_others by simp_all
    show "live_ok W (flights L [] (r_uid y)) y \<and>
        (if r_uid y \<in> set (sc_running s') then r_device_len y < r_max_device_len y \<and> \<not> r_aborted y
         else 0 < flights L [] (r_uid y) \<and> (r_aborted y \<or> r_device_len y = r_max_device_len y))"
      using D(8)[OF y(1)] D(9)[OF y(1)] D(10)[OF y(1)] y(2) unfolding s'(2) by simp
  qed
  have run: "set (sc_running s') \<subseteq> r_uid ` set (live s')" using D(7) unfolding s'(2,6) set_others by auto
  show ?thesis
    using S l run u s'(4,5) D(6)
    unfolding sched_shape_def us s'(1,4) by (auto simp: s'(2,3) distinct_removeAll nc_def)
qed

lemma shape_marked:
  assumes S: "sched_shape W s L F [] []" and r: "r \<in> set (live s)" and u: "r_uid r \<in> nc L"
  shows "sched_shape W (put_obj (r\<lparr>r_aborted := True\<rparr>) (remove_running (r_uid r) s)) L F [] []"
proof -
  note D = shapeD[OF S]
  let ?r = "r\<lparr>r_aborted := True\<rparr>" and ?s0 = "remove_running (r_uid r) s"
  let ?s' = "put_obj ?r ?s0"
  have l0: "live ?s0 = live s" "sc_objs ?s0 = sc_objs s" by (simp_all add: live_def remove_running_def)
  have ul: "map r_uid (sc_objs ?s') = map r_uid (sc_objs s)" by (simp add: put_obj_def l0)
  have us: "r_uid ` set (sc_objs ?s') = r_uid ` set (sc_objs s)" using ul by (metis list.set_map)
  have "mset (live ?s') = add_mset ?r (mset (others (r_uid r) ?s0))"
    using live_put_obj[of ?s0 r ?r] D(1) r l0 by simp
  then have lv: "set (live ?s') = insert ?r {y \<in> set (live s). r_uid y \<noteq> r_uid r}"
    by (metis l0(1) set_mset_add_mset_insert set_mset_mset set_others)
  have l: "\<forall>y\<in>set (live ?s'). live_ok W (flights L [] (r_uid y)) y \<and>
        (if r_uid y \<in> set (sc_running ?s') then r_device_len y < r_max_device_len y \<and> \<not> r_aborted y
         else 0 < flights L [] (r_uid y) \<and> (r_aborted y \<or> r_device_len y = r_max_device_len y))"
  proof
    fix y assume y: "y \<in> set (live ?s')"
    show "live_ok W (flights L [] (r_uid y)) y \<and>
        (if r_uid y \<in> set (sc_running ?s') then r_device_len y < r_max_device_len y \<and> \<not> r_aborted y
         else 0 < flights L [] (r_uid y) \<and> (r_aborted y \<or> r_device_len y = r_max_device_len y))"
    proof (cases "y = ?r")
      case True
      then show ?thesis using D(8)[OF r] u by (simp add: live_ok_def remove_running_def flights_def)
    next
      case False
      then have y: "y \<in> set (live s)" "r_uid y \<noteq> r_uid r" using y lv by auto
      then show ?thesis using D(8)[OF y(1)] D(9)[OF y(1)] D(10)[OF y(1)] by (simp add: remove_running_def)
    qed
  qed
  have run: "set (sc_running ?s') \<subseteq> r_uid ` set (live ?s')"
    using D(7) unfolding lv by (auto simp: remove_running_def)
  have c: "\<forall>y\<in>set (sc_objs ?s'). \<not> r_chunked y"
    using D(5) live_subset[OF r] by (auto simp: put_obj_def l0)
  show ?thesis
    using S l run c ul D(6) unfolding sched_shape_def us ul
    by (auto simp: remove_running_def distinct_removeAll)
qed

section \<open>Aborting\<close>

lemma pm_abort_split:
  "pm_abort_req uid pend = (c, pend') \<Longrightarrow> distinct (map p_uid pend) \<Longrightarrow>
   pend' = filter (\<lambda>p. p_uid p \<noteq> uid) pend \<and>
   mset (chunks pend) = mset ((case c of None \<Rightarrow> [] | Some r \<Rightarrow> [r]) @ chunks pend') \<and>
   (\<forall>r. c = Some r \<longrightarrow> (\<exists>p\<in>set pend. p_uid p = uid \<and> p_chunked p = Some r))"
proof (induction pend arbitrary: c pend')
  case (Cons p pend)
  show ?case
  proof (cases "p_uid p = uid")
    case True
    then have "\<forall>q\<in>set pend. p_uid q \<noteq> uid"
      using Cons.prems(2) by (metis distinct.simps(2) image_eqI list.set_map list.simps(9))
    then have "filter (\<lambda>q. p_uid q \<noteq> uid) pend = pend" by (simp add: filter_id_conv)
    then show ?thesis using Cons.prems True by (auto split: option.splits)
  next
    case False
    obtain c1 p1 where a: "pm_abort_req uid pend = (c1, p1)" by fastforce
    have e: "c = c1" "pend' = p # p1" using Cons.prems(1) False a by auto
    have "distinct (map p_uid pend)" using Cons.prems(2) by simp
    note IH = Cons.IH[OF a this]
    have "mset (chunks (p # pend)) = mset ((case c of None \<Rightarrow> [] | Some r \<Rightarrow> [r]) @ chunks pend')"
      using IH unfolding e by (simp split: option.splits)
    then show ?thesis using IH False unfolding e by auto
  qed
qed simp

lemma cache_req_lazy:
  fixes ops :: "('c, 'h) cache_ops"
  assumes "cache_req ops tic tic' r fin s = Inr (r', s')" "lazy_free_list s = None"
  shows "lazy_free_list s' = None"
proof -
  have f: "lazy_free_list b = None" if "free_both xs a = Inr b" "lazy_free_list a = None" for xs and a b :: "'c cman"
    using that by (auto simp: free_both_def res_bind_eq_Inr cm_free_swa_def with_swa_def cm_free_def split: if_splits option.splits)
  have u: "lazy_free_list b = lazy_free_list a" if "cm_unlock ops h a = Inr b \<or> cm_lock ops h a = Inr b" for h and a b :: "'c cman"
    using that by (auto simp: cm_unlock_def cm_lock_def with_cache_def res_bind_eq_Inr)
  show ?thesis
    using assms unfolding cache_req_def Let_def
    by (auto simp: res_bind_eq_Inr dest!: f split: if_splits prod.splits) (auto dest!: u[OF disjI1] u[OF disjI2] f)
qed

text \<open>The log after the abort of \<open>u\<close>.\<close>

lemma add_tombstone_sub: "set (add_tombstone u ts) \<subseteq> insert u (set ts)"
  by (auto simp: add_tombstone_def Let_def dest: in_set_dropD split: if_splits)

lemma add_tombstone_new: "u \<notin> set ts \<Longrightarrow> u \<in> set (add_tombstone u ts)"
proof -
  assume u: "u \<notin> set ts"
  let ?n = "Suc (length ts) - tombstone_limit"
  have n: "?n \<le> length ts" by (simp add: tombstone_limit_def)
  have "add_tombstone u ts = drop ?n ts @ [u]"
    using u n by (simp add: add_tombstone_def Let_def)
  then show ?thesis by simp
qed

lemma log_abort:
  assumes G: "log_inv s [] [] got"
    and t: "set (sc_tombs s) - set (add_tombstone u (sc_tombs s)) \<subseteq> set got"
    and f: "sc_acks s' = List.insert u (sc_acks s)" "sc_tombs s' = add_tombstone u (sc_tombs s)" "sc_out s' = sc_out s"
      "r_uid ` set (sc_objs s') = r_uid ` set (sc_objs s)"
    and p: "sc_pend s' = filter (\<lambda>p. p_uid p \<noteq> u) (sc_pend s)"
    and r: "set (sc_running s') \<subseteq> set (sc_running s) - {u}"
    and l: "r_uid ` set (live s') \<subseteq> r_uid ` set (live s)" "r_uid ` set (live s) - {u} \<subseteq> r_uid ` set (live s')"
      "\<And>x. x \<in> set (live s') \<Longrightarrow> r_aborted x \<Longrightarrow> r_uid x = u \<or> x \<in> set (live s)"
  shows "log_inv s' [] [] got"
proof -
  note D = log_invD[OF G]
  have pu: "p_uid ` set (sc_pend s') = p_uid ` set (sc_pend s) - {u}" unfolding p by auto
  have a: "set (sc_acks s') = insert u (set (sc_acks s))" using f(1) by simp
  have nil: "nc [] = {}" by (simp add: nc_def)
  have tm: "set (sc_tombs s') \<subseteq> insert u (set (sc_tombs s))" unfolding f(2) by (rule add_tombstone_sub)
  have c1: "\<forall>v. ended v (sc_out s @ []) \<longrightarrow> v \<notin> p_uid ` set (sc_pend s') \<union> r_uid ` set (live s')"
  proof (intro allI impI)
    fix v assume "ended v (sc_out s @ [])"
    then have "v \<notin> p_uid ` set (sc_pend s)" "v \<notin> r_uid ` set (live s)" using D(2,3)[of v] by simp_all
    then show "v \<notin> p_uid ` set (sc_pend s') \<union> r_uid ` set (live s')" using l(1) unfolding pu by (metis DiffE UnE subsetD)
  qed
  have c2: "\<forall>v\<in>set (sc_acks s'). v \<notin> p_uid ` set (sc_pend s') \<union> set (sc_running s') \<union> nc []"
  proof
    fix v assume "v \<in> set (sc_acks s')"
    then have "v = u \<or> v \<notin> p_uid ` set (sc_pend s) \<and> v \<notin> set (sc_running s)" using D(4,5)[of v] unfolding a by auto
    then show "v \<notin> p_uid ` set (sc_pend s') \<union> set (sc_running s') \<union> nc []" using r unfolding pu nil by (metis Diff_iff UnE empty_iff insertI1 subsetD)
  qed
  have c3: "\<forall>x\<in>set (live s'). r_aborted x \<longrightarrow> r_uid x \<in> set (sc_acks s')"
    using l(3) D(7) unfolding a by (metis insert_iff)
  have c4: "\<forall>v\<in>set got. v \<in> p_uid ` set (sc_pend s') \<union> r_uid ` set (live s') \<union> set (sc_acks s') \<or> ended v (sc_out s @ [])"
  proof
    fix v assume "v \<in> set got"
    from D(8)[OF this] l(2) have "v = u \<or> v \<in> p_uid ` set (sc_pend s) \<or> v \<in> r_uid ` set (live s') \<or>
        v \<in> set (sc_acks s) \<or> ended v (sc_out s @ [])" by (cases "v = u") auto
    then show "v \<in> p_uid ` set (sc_pend s') \<union> r_uid ` set (live s') \<union> set (sc_acks s') \<or> ended v (sc_out s @ [])"
      unfolding pu a by (cases "v = u") simp_all
  qed
  have c5: "\<forall>v\<in>set (sc_tombs s'). v \<in> set (sc_acks s') \<or> ended v (sc_out s @ [])"
    using D(9) tm unfolding a by (metis insert_iff subsetD)
  have keep: "v \<in> set got \<or> v \<in> set (sc_tombs s')" if "v \<in> set (sc_tombs s)" for v
    using that t f(2) by auto
  have "u \<in> set got \<or> u \<in> set (sc_tombs s')"
    using keep[of u] add_tombstone_new[of u "sc_tombs s"] unfolding f(2) by (metis)
  then have c6: "\<forall>v. v \<in> set (sc_acks s') \<or> ended v (sc_out s @ []) \<longrightarrow> v \<in> set got \<union> set (sc_tombs s')"
    using D(10) keep unfolding a by (metis UnCI UnE insert_iff)
  have c7: "r_uid ` set (sc_objs s) \<union> p_uid ` set (sc_pend s') \<subseteq> set got" using D(11,12) unfolding pu by (metis Diff_subset Un_least subset_trans)
  show ?thesis unfolding log_inv_def f(3,4) by (intro conjI) (rule D(1) c1 c2 c3 c4 c5 c6 c7)+
qed

definition abort_effect :: "int \<Rightarrow> ('c, 'h) sched \<Rightarrow> ('c, 'h) sched \<Rightarrow> bool" where
  "abort_effect u s s' \<longleftrightarrow>
     sc_acks s' = sc_acks s \<and> sc_tombs s' = sc_tombs s \<and> sc_out s' = sc_out s \<and> sc_finished s' = sc_finished s \<and>
     r_uid ` set (sc_objs s') = r_uid ` set (sc_objs s) \<and>
     sc_pend s' = filter (\<lambda>p. p_uid p \<noteq> u) (sc_pend s) \<and> set (sc_running s') \<subseteq> set (sc_running s) - {u} \<and>
     r_uid ` set (live s') \<subseteq> r_uid ` set (live s) \<and> r_uid ` set (live s) - {u} \<subseteq> r_uid ` set (live s') \<and>
     (\<forall>x\<in>set (live s'). r_aborted x \<longrightarrow> r_uid x = u \<or> x \<in> set (live s)) \<and>
     r_uid ` set (in_flight_reqs s') = r_uid ` set (in_flight_reqs s)"

definition mem_inv ::
  "('c, 'h) cache_ops \<Rightarrow> (nat \<Rightarrow> 'c \<Rightarrow> 'h multiset \<Rightarrow> bool) \<Rightarrow> ('c \<Rightarrow> 'h \<Rightarrow> token list) \<Rightarrow>
   ('c \<Rightarrow> 'h \<Rightarrow> slot list) \<Rightarrow> ('c \<Rightarrow> slot multiset) \<Rightarrow> nat \<Rightarrow> ('c, 'h) sched_env \<Rightarrow> ('c, 'h) sched \<Rightarrow> bool" where
  "mem_inv ops ok key val slots W env s \<longleftrightarrow>
     sched_shape W s (in_flight_reqs s) (sc_finished s) [] [] \<and>
     sched_mem ops ok key val slots W env s (holders s (in_flight_reqs s)) \<and>
     lazy_free_list (sc_cm s) = None \<and> shared s (in_flight_reqs s)"

lemma sched_inv_split:
  "sched_inv ops ok key val slots W env s got \<longleftrightarrow>
     mem_inv ops ok key val slots W env s \<and> log_inv s [] [] got \<and> r_uid ` set (in_flight_reqs s) \<subseteq> set got"
  by (auto simp: sched_inv_def mem_inv_def)

lemma release_lazy:
  assumes "release env r s = Inr (r', s')" "lazy_free_list (sc_cm s) = None"
  shows "lazy_free_list (sc_cm s') = None"
  using assms cache_req_lazy by (fastforce simp: release_def commit_req_def res_bind_eq_Inr)

context scheduler_client
begin

lemma abort_chunk_idle:
  assumes M: "mem_inv ops inv key val slots W env s" and c: "pm_abort_req u (sc_pend s) = (Some c, P)"
    and nf: "\<not> in_flight True u s"
  shows "\<exists>s'. free_chunk env c (s\<lparr>sc_pend := P\<rparr>) = Inr s' \<and> mem_inv ops inv key val slots W env s' \<and> abort_effect u s s'"
proof -
  have S: "sched_shape W s (in_flight_reqs s) (sc_finished s) [] []" and m: "smem W env s (holders s (in_flight_reqs s))"
    and lz: "lazy_free_list (sc_cm s) = None" and sh: "shared s (in_flight_reqs s)"
    using M by (simp_all add: mem_inv_def)
  note D = shapeD[OF S]
  note A = pm_abort_split[OF c D(2)]
  let ?s1 = "s\<lparr>sc_pend := P\<rparr>" and ?L = "in_flight_reqs s"
  let ?R = "map clamp (live s) @ chunks P @ orphans ?L"
  have "mset (holders s ?L) = mset (c # ?R)" using A by (simp add: holders_def)
  then have "smem W env s (c # ?R)" using m smem_perm by blast
  then have m1: "smem W env ?s1 (c # ?R)" using smem_cong[of ?s1 s] by simp
  then have "smem W env ?s1 (clamp c # ?R)" unfolding smem_clamp[OF m1] .
  from release_law[OF this] obtain s' where s': "release env c ?s1 = Inr (clamp c, s')" "smem W env s' ?R"
    "\<exists>cm tm n. s' = ?s1\<lparr>sc_cm := cm, sc_tm := tm, sc_ticks := n\<rparr>" by blast
  then obtain cm tm n where e: "s' = ?s1\<lparr>sc_cm := cm, sc_tm := tm, sc_ticks := n\<rparr>" by blast
  have "sched_shape W ?s1 ?L (sc_finished s) [] []"
    using A D(2) by (intro shape_pend[OF S]) (auto simp: distinct_map_filter)
  then have S': "sched_shape W s' ?L (sc_finished s) [] []" using shape_cong(1)[of s' ?s1] e by simp
  have fl: "in_flight_reqs s' = ?L" "live s' = live s" "sc_finished s' = sc_finished s"
    by (simp_all add: e in_flight_reqs_def live_def)
  have "smem W env s' (holders s' ?L)" using s'(2) fl e by (simp add: holders_def)
  moreover have "lazy_free_list (sc_cm s') = None" using release_lazy[OF s'(1)] lz by simp
  moreover have "shared s' ?L" using sh A by (auto simp: shared_def e)
  ultimately have "mem_inv ops inv key val slots W env s'" using S' fl by (simp add: mem_inv_def)
  moreover have "u \<notin> set (sc_running s)"
  proof -
    have "u \<in> p_uid ` set (sc_pend s)" using A by auto
    then have "u \<notin> r_uid ` set (sc_objs s)" using D(3) by blast
    then show ?thesis using D(7) live_subset by blast
  qed
  then have "abort_effect u s s'" using A fl by (auto simp: abort_effect_def e)
  ultimately show ?thesis using s'(1) by (intro exI[of _ s']) (simp add: free_chunk_def)
qed

lemma flying_chunk:
  assumes M: "mem_inv ops inv key val slots W env s" and c: "pm_abort_req u (sc_pend s) = (Some c, P)"
    and x: "x \<in> set (in_flight_reqs s)" "r_chunked x" "r_uid x = u"
  shows "x = c" "\<not> r_aborted c"
proof -
  have S: "sched_shape W s (in_flight_reqs s) (sc_finished s) [] []" and sh: "shared s (in_flight_reqs s)"
    using M by (simp_all add: mem_inv_def)
  note D = shapeD[OF S]
  note A = pm_abort_split[OF c D(2)]
  obtain p where p: "p \<in> set (sc_pend s)" "p_uid p = u" "p_chunked p = Some c" using A by blast
  have "u \<in> p_uid ` set (sc_pend s)" using p by blast
  then have na: "\<not> r_aborted x" using D(19)[OF x(1,2)] x(3) by blast
  show "x = c" using sh x na p unfolding shared_def by fastforce
  then show "\<not> r_aborted c" using na by simp
qed

lemma smem_aborted:
  assumes m: "smem W env s (c # R)"
  shows "smem W env s (c\<lparr>r_aborted := True\<rparr> # R)"
proof -
  have mi: "minv (sc_cm s) (c # R)" using m by (simp add: sched_mem_def)
  have "r_cached_len c \<le> length (r_input_ids c)" using minvD(4)[OF mi, of c] by (simp add: req_mem_def Let_def)
  then have "minv (sc_cm s) (c\<lparr>r_aborted := True\<rparr> # R)" by (intro minv_advance[OF mi]) simp_all
  then show ?thesis using m by (simp add: sched_mem_def)
qed

lemma abort_chunk_flying:
  assumes M: "mem_inv ops inv key val slots W env s" and c: "pm_abort_req u (sc_pend s) = (Some c, P)"
    and fl: "in_flight True u s"
  shows "mem_inv ops inv key val slots W env (mark_chunk u (s\<lparr>sc_pend := P\<rparr>)) \<and>
    abort_effect u s (mark_chunk u (s\<lparr>sc_pend := P\<rparr>))"
proof -
  have S: "sched_shape W s (in_flight_reqs s) (sc_finished s) [] []" and m: "smem W env s (holders s (in_flight_reqs s))"
    and lz: "lazy_free_list (sc_cm s) = None" and sh: "shared s (in_flight_reqs s)"
    using M by (simp_all add: mem_inv_def)
  note D = shapeD[OF S]
  note A = pm_abort_split[OF c D(2)]
  let ?L = "in_flight_reqs s" and ?s1 = "s\<lparr>sc_pend := P\<rparr>"
  let ?s' = "mark_chunk u ?s1" and ?c = "c\<lparr>r_aborted := True\<rparr>"
  let ?mk = "\<lambda>r. if r_chunked r \<and> r_uid r = u then r\<lparr>r_aborted := True\<rparr> else r"
  obtain b x where b: "sc_last s = Some b" "x \<in> set (b_reqs b)" "r_chunked x" "r_uid x = u"
    using fl by (auto simp: in_flight_def split: option.splits)
  have L: "?L = b_reqs b" "in_flight_reqs ?s' = map ?mk ?L" using b(1) by (simp_all add: in_flight_reqs_def mark_chunk_def)
  have xc: "x = c" "\<not> r_aborted c" using flying_chunk[OF M c _ b(3,4)] b(2) L(1) by auto
  have cL: "c \<in> set ?L" "r_chunked c" "r_uid c = u" using b xc L(1) by auto
  have uL: "map r_uid (map ?mk ?L) = map r_uid ?L" by simp
  have nc: "nc (map ?mk ?L) = nc ?L"
    unfolding nc_def by (force simp: image_iff)
  have f: "flights (map ?mk ?L) [] v = flights ?L [] v" for v by (simp add: flights_def nc)
  have same: "live ?s' = live s" "sc_objs ?s' = sc_objs s" "sc_freed ?s' = sc_freed s" "sc_running ?s' = sc_running s"
    "sc_pend ?s' = P" "sc_cm ?s' = sc_cm s" "sc_tm ?s' = sc_tm s" "sc_max_seq_len ?s' = sc_max_seq_len s"
    "sc_finished ?s' = sc_finished s" "sc_acks ?s' = sc_acks s" "sc_tombs ?s' = sc_tombs s" "sc_out ?s' = sc_out s"
    by (simp_all add: mark_chunk_def live_def)
  have uP: "u \<in> p_uid ` set (sc_pend s)" "u \<notin> p_uid ` set P" "set P \<subseteq> set (sc_pend s)" using A by auto
  have uo: "u \<notin> r_uid ` set (sc_objs s)" using D(3) uP(1) by blast
  have S1: "sched_shape W ?s1 ?L (sc_finished s) [] []"
    using A D(2) by (intro shape_pend[OF S]) (auto simp: distinct_map_filter)
  have ab: "\<forall>y\<in>set (map ?mk ?L). r_chunked y \<and> r_aborted y \<longrightarrow> r_uid y \<notin> r_uid ` set (sc_objs s) \<union> p_uid ` set P"
  proof (intro ballI impI)
    fix y assume "y \<in> set (map ?mk ?L)" "r_chunked y \<and> r_aborted y"
    then obtain z where z: "z \<in> set ?L" "y = ?mk z" "r_chunked z" by (auto split: if_splits)
    show "r_uid y \<notin> r_uid ` set (sc_objs s) \<union> p_uid ` set P"
    proof (cases "r_uid z = u")
      case True
      then show ?thesis using z uo uP(2) by simp
    next
      case False
      then have "y = z" "r_aborted z" using z \<open>r_chunked y \<and> r_aborted y\<close> by auto
      then show ?thesis using D(19)[OF z(1,3)] uP(3) by auto
    qed
  qed
  have S': "sched_shape W ?s' (map ?mk ?L) (sc_finished s) [] []"
    using S1 ab unfolding sched_shape_def uL nc f same
    by (simp add: live_def)
  have key: "mset (orphans (map ?mk xs)) = mset (if c \<in> set xs then ?c # orphans xs else orphans xs)"
    if "distinct (map r_uid xs)" "\<forall>z\<in>set xs. r_chunked z \<and> r_uid z = u \<longrightarrow> z = c" for xs
    using that
  proof (induction xs)
    case (Cons a xs)
    have IH: "mset (orphans (map ?mk xs)) = mset (if c \<in> set xs then ?c # orphans xs else orphans xs)"
      using Cons by simp
    show ?case
    proof (cases "r_chunked a \<and> r_uid a = u")
      case True
      then have "a = c" using Cons.prems(2) by simp
      moreover have "c \<notin> set xs" using Cons.prems(1) \<open>a = c\<close> by auto
      ultimately show ?thesis using IH cL xc(2) by (simp add: orphans_Cons del: mset_filter mset_map)
    next
      case False
      then have "a \<noteq> c" using cL by auto
      then show ?thesis using IH False by (auto simp: orphans_Cons simp del: mset_filter mset_map)
    qed
  qed (simp add: orphans_def)
  have only: "\<forall>z\<in>set ?L. r_chunked z \<and> r_uid z = u \<longrightarrow> z = c"
    using flying_chunk(1)[OF M c] by blast
  have "mset (orphans (map ?mk ?L)) = mset (?c # orphans ?L)" unfolding key[OF D(11) only] if_P[OF cL(1)] ..
  then have h: "mset (holders ?s' (map ?mk ?L)) = mset (?c # map clamp (live s) @ chunks P @ orphans ?L)"
    unfolding holders_def same mset_append by simp
  have "mset (holders s ?L) = mset (c # map clamp (live s) @ chunks P @ orphans ?L)" using A by (simp add: holders_def)
  then have m1: "smem W env s (c # map clamp (live s) @ chunks P @ orphans ?L)" using m smem_perm by blast
  then have "smem W env s (?c # map clamp (live s) @ chunks P @ orphans ?L)" by (rule smem_aborted)
  then have m': "smem W env ?s' (holders ?s' (map ?mk ?L))"
    using smem_perm[OF h] smem_cong[of ?s' s] same by simp
  have "shared ?s' (map ?mk ?L)" using sh uP(2,3) unfolding shared_def same by (auto split: if_splits)
  then have "mem_inv ops inv key val slots W env ?s'" using S' m' lz L(2) same by (simp add: mem_inv_def)
  moreover have "u \<notin> set (sc_running s)" using uo D(7) live_subset by blast
  moreover have "r_uid ` set (in_flight_reqs ?s') = r_uid ` set ?L" unfolding L(2) using uL by (metis list.set_map)
  moreover have "P = filter (\<lambda>p. p_uid p \<noteq> u) (sc_pend s)" using A by simp
  ultimately show ?thesis unfolding abort_effect_def same by blast
qed

lemma abort_idle:
  assumes M: "mem_inv ops inv key val slots W env s" and u: "u \<notin> set (sc_running s)"
    and A: "P = filter (\<lambda>p. p_uid p \<noteq> u) (sc_pend s)" "mset (chunks (sc_pend s)) = mset (chunks P)"
  shows "mem_inv ops inv key val slots W env (s\<lparr>sc_pend := P\<rparr>) \<and> abort_effect u s (s\<lparr>sc_pend := P\<rparr>)"
proof -
  let ?s1 = "s\<lparr>sc_pend := P\<rparr>" and ?L = "in_flight_reqs s"
  have S: "sched_shape W s ?L (sc_finished s) [] []" and m: "smem W env s (holders s ?L)"
    and lz: "lazy_free_list (sc_cm s) = None" and sh: "shared s ?L"
    using M by (simp_all add: mem_inv_def)
  note D = shapeD[OF S]
  have S1: "sched_shape W ?s1 ?L (sc_finished s) [] []"
    using A D(2) by (intro shape_pend[OF S]) (auto simp: distinct_map_filter)
  have fl: "in_flight_reqs ?s1 = ?L" "live ?s1 = live s" by (simp_all add: in_flight_reqs_def live_def)
  have "mset (holders s ?L) = mset (holders ?s1 ?L)" using A(2) fl by (simp add: holders_def)
  then have "smem W env s (holders ?s1 ?L)" using m smem_perm by blast
  then have m1: "smem W env ?s1 (holders ?s1 ?L)" using smem_cong[of ?s1 s] by simp
  have "shared ?s1 ?L" using sh A(1) by (auto simp: shared_def)
  then have "mem_inv ops inv key val slots W env ?s1" using S1 m1 lz fl by (simp add: mem_inv_def)
  moreover have "abort_effect u s ?s1" using A(1) u fl by (auto simp: abort_effect_def)
  ultimately show ?thesis ..
qed

text \<open>A running object: it leaves the running ones and is freed, or marked while a forward uses it.\<close>

lemma abort_running_flying:
  assumes M: "mem_inv ops inv key val slots W env s" and r: "r \<in> set (live s)" "r_uid r = u"
    and fl: "in_flight False u s"
  shows "mem_inv ops inv key val slots W env (put_obj (r\<lparr>r_aborted := True\<rparr>) (remove_running u s)) \<and>
    (u \<notin> p_uid ` set (sc_pend s) \<longrightarrow> abort_effect u s (put_obj (r\<lparr>r_aborted := True\<rparr>) (remove_running u s)))"
proof -
  let ?L = "in_flight_reqs s" and ?r = "r\<lparr>r_aborted := True\<rparr>" and ?s0 = "remove_running u s"
  let ?s' = "put_obj ?r ?s0"
  have S: "sched_shape W s ?L (sc_finished s) [] []" and m: "smem W env s (holders s ?L)"
    and lz: "lazy_free_list (sc_cm s) = None" and sh: "shared s ?L"
    using M by (simp_all add: mem_inv_def)
  note D = shapeD[OF S]
  have un: "u \<in> nc ?L"
    using fl by (auto simp: in_flight_def in_flight_reqs_def nc_def split: option.splits)
  have L': "in_flight_reqs ?s' = ?L" "sc_finished ?s' = sc_finished s" "sc_pend ?s' = sc_pend s" "sc_cm ?s' = sc_cm s"
    "sc_tm ?s' = sc_tm s" "sc_max_seq_len ?s' = sc_max_seq_len s" "sc_running ?s' = removeAll u (sc_running s)"
    "sc_acks ?s' = sc_acks s" "sc_tombs ?s' = sc_tombs s" "sc_out ?s' = sc_out s"
    by (simp_all add: in_flight_reqs_def remove_running_def)
  have S': "sched_shape W ?s' ?L (sc_finished s) [] []" using shape_marked[OF S r(1)] un r(2) by simp
  have l0: "live ?s0 = live s" "sc_objs ?s0 = sc_objs s" by (simp_all add: live_def remove_running_def)
  have o0: "others u ?s0 = others u s" by (simp add: others_def l0)
  have l: "mset (live ?s') = add_mset ?r (mset (others u s))"
    using live_put_obj[of ?s0 r ?r] D(1) r l0 o0 by simp
  have "mset (holders s ?L) = mset (clamp r # map clamp (others u s) @ chunks (sc_pend s) @ orphans ?L)"
    using holders_split[OF D(1) r(1)] r(2) by simp
  then have m1: "smem W env s (clamp r # map clamp (others u s) @ chunks (sc_pend s) @ orphans ?L)"
    using m smem_perm by blast
  have cl: "(clamp r)\<lparr>r_aborted := True\<rparr> = clamp ?r" by (simp add: clamp_def)
  have m2: "smem W env s (clamp ?r # map clamp (others u s) @ chunks (sc_pend s) @ orphans ?L)"
    using smem_aborted[OF m1] unfolding cl .
  have "mset (clamp ?r # map clamp (others u s) @ chunks (sc_pend s) @ orphans ?L) = mset (holders ?s' ?L)"
    unfolding holders_def L' using l by simp
  then have "smem W env s (holders ?s' ?L)" using m2 smem_perm by blast
  then have m3: "smem W env ?s' (holders ?s' ?L)" using smem_cong[of ?s' s] L' by simp
  have "shared ?s' ?L" using sh unfolding shared_def L' .
  then have I: "mem_inv ops inv key val slots W env ?s'" using S' m3 lz unfolding mem_inv_def L' by blast
  have ls: "set (live ?s') = insert ?r (set (others u s))" using l by (metis set_mset_add_mset_insert set_mset_mset)
  have lu: "r_uid ` set (live ?s') = r_uid ` set (live s)"
    unfolding ls set_others using image_replace[OF r(1), of r_uid ?r] r(2) by simp
  have ou: "r_uid ` set (sc_objs ?s') = r_uid ` set (sc_objs s)"
  proof -
    have "map r_uid (sc_objs ?s') = map r_uid (sc_objs s)" by (simp add: put_obj_def l0)
    then show ?thesis by (metis list.set_map)
  qed
  have ab: "\<forall>x\<in>set (live ?s'). r_aborted x \<longrightarrow> r_uid x = u \<or> x \<in> set (live s)"
    unfolding ls set_others using r(2) by auto
  have "abort_effect u s ?s'" if "u \<notin> p_uid ` set (sc_pend s)"
  proof -
    have "sc_pend s = filter (\<lambda>p. p_uid p \<noteq> u) (sc_pend s)" using that by (intro filter_True[symmetric]) auto
    moreover have "set (removeAll u (sc_running s)) \<subseteq> set (sc_running s) - {u}" by simp
    moreover have "r_uid ` set (live s) - {u} \<subseteq> r_uid ` set (live s)" by blast
    ultimately show ?thesis using ab unfolding abort_effect_def L' lu ou by blast
  qed
  then show ?thesis using I by blast
qed

lemma abort_running_idle:
  assumes M: "mem_inv ops inv key val slots W env s" and r: "r \<in> set (live s)" "r_uid r = u"
    and fl: "\<not> in_flight False u s" and up: "u \<notin> p_uid ` set (sc_pend s)"
  shows "\<exists>s'. free_req_resources env u (remove_running u s) = Inr s' \<and> mem_inv ops inv key val slots W env s' \<and>
    abort_effect u s s'"
proof -
  let ?L = "in_flight_reqs s" and ?s0 = "remove_running u s"
  have S: "sched_shape W s ?L (sc_finished s) [] []" and m: "smem W env s (holders s ?L)"
    and lz: "lazy_free_list (sc_cm s) = None" and sh: "shared s ?L"
    using M by (simp_all add: mem_inv_def)
  note D = shapeD[OF S]
  have un: "u \<notin> nc ?L"
    using fl by (auto simp: in_flight_def in_flight_reqs_def nc_def split: option.splits)
  let ?R = "map clamp (others u s) @ chunks (sc_pend s) @ orphans ?L"
  have l0: "live ?s0 = live s" "sc_objs ?s0 = sc_objs s" by (simp_all add: live_def remove_running_def)
  have o0: "others u ?s0 = others u s" by (simp add: others_def l0)
  have "mset (holders s ?L) = mset (clamp r # ?R)" using holders_split[OF D(1) r(1)] r(2) by simp
  then have "smem W env s (clamp r # ?R)" using m smem_perm by blast
  then have m1: "smem W env ?s0 (clamp r # ?R)" using smem_cong[of ?s0 s] by (simp add: remove_running_def)
  from free_law[of ?s0, unfolded l0, OF D(1) r(1) m1] obtain s' where
    s': "free_req_resources env u ?s0 = Inr s'" "smem W env s' ?R" "mset (live s') = mset (others u s)"
      "sc_freed s' = u # sc_freed ?s0" "frame ?s0 s'" "sc_running s' = sc_running ?s0"
      "sc_objs s' = sc_objs (put_obj (clamp r) ?s0)" unfolding r(2) o0 by blast
  have lv: "set (live s') = set (others u s)" using s'(3) by (rule mset_eq_setD)
  have om: "map r_uid (sc_objs s') = map r_uid (sc_objs s)" unfolding s'(7) by (simp add: put_obj_def l0)
  have fr: "sc_pend s' = sc_pend s" "sc_finished s' = sc_finished s" "in_flight_reqs s' = ?L"
    "sc_acks s' = sc_acks s" "sc_tombs s' = sc_tombs s" "sc_out s' = sc_out s"
    using s'(5) by (simp_all add: frame_def remove_running_def in_flight_reqs_def)
  have rn: "sc_running s' = removeAll u (sc_running s)" using s'(6) by (simp add: remove_running_def)
  have uo: "u \<in> r_uid ` set (sc_objs s)" unfolding r(2)[symmetric] using live_subset[OF r(1)] by blast
  have "sched_shape W s' ?L (sc_finished s) [] []"
  proof (rule shape_gone[OF S un uo fr(1) rn _ om _ lv])
    show "sc_freed s' = u # sc_freed s" using s'(4) by (simp add: remove_running_def)
    show "\<forall>y\<in>set (sc_objs s'). \<not> r_chunked y"
      unfolding s'(7) using D(5) live_subset[OF r(1)] by (auto simp: put_obj_def l0)
  qed
  moreover have "mset ?R = mset (holders s' ?L)" unfolding holders_def fr mset_append mset_map s'(3) ..
  then have "smem W env s' (holders s' ?L)" using s'(2) smem_perm by blast
  moreover have "lazy_free_list (sc_cm s') = None"
  proof -
    have "u \<notin> set (sc_freed ?s0)" using live_subset[OF r(1)] r(2) by (simp add: remove_running_def)
    then show ?thesis using s'(1) lz
      by (auto simp: free_req_resources_def res_bind_eq_Inr remove_running_def dest!: release_lazy)
  qed
  moreover have "shared s' ?L" using sh unfolding shared_def fr .
  ultimately have I: "mem_inv ops inv key val slots W env s'" unfolding mem_inv_def fr by blast
  have ou: "r_uid ` set (sc_objs s') = r_uid ` set (sc_objs s)" using om by (metis list.set_map)
  have "sc_pend s = filter (\<lambda>p. p_uid p \<noteq> u) (sc_pend s)" using up by (intro filter_True[symmetric]) auto
  moreover have "set (removeAll u (sc_running s)) \<subseteq> set (sc_running s) - {u}" by simp
  moreover have "r_uid ` {x \<in> set (live s). r_uid x \<noteq> u} \<subseteq> r_uid ` set (live s)" by blast
  moreover have "r_uid ` set (live s) - {u} \<subseteq> r_uid ` {x \<in> set (live s). r_uid x \<noteq> u}" by blast
  ultimately have "abort_effect u s s'" unfolding abort_effect_def fr rn ou lv set_others by blast
  then show ?thesis using s'(1) I by blast
qed

lemma dm_abort_of:
  assumes "distinct (sc_running s)" "\<And>v. v \<in> set (sc_running s) \<Longrightarrow> r_uid (obj s v) = v"
  shows "dm_abort_req u (dm_of s) = (if u \<in> set (sc_running s)
      then (Some (obj s u), remove_req (obj s u) (dm_of s)) else (None, dm_of s))"
    "u \<in> set (sc_running s) \<Longrightarrow> map r_uid (running_reqs (remove_req (obj s u) (dm_of s))) = removeAll u (sc_running s)"
proof -
  have "find (\<lambda>r. r_uid r = u) (map (obj s) vs) = (if u \<in> set vs then Some (obj s u) else None)"
    if "\<And>v. v \<in> set vs \<Longrightarrow> r_uid (obj s v) = v" for vs
    using that by (induction vs) auto
  then show "dm_abort_req u (dm_of s) = (if u \<in> set (sc_running s)
      then (Some (obj s u), remove_req (obj s u) (dm_of s)) else (None, dm_of s))"
    using assms(2) by (simp add: dm_abort_req_def dm_of_def)
  have "map r_uid (filter (\<lambda>x. r_uid x \<noteq> u) (map (obj s) vs)) = removeAll u vs"
    if "\<And>v. v \<in> set vs \<Longrightarrow> r_uid (obj s v) = v" for vs
    using that by (induction vs) auto
  then show "u \<in> set (sc_running s) \<Longrightarrow> map r_uid (running_reqs (remove_req (obj s u) (dm_of s))) = removeAll u (sc_running s)"
    using assms(2) by (simp add: remove_req_def dm_of_def)
qed

lemma abort_found_law:
  assumes M: "mem_inv ops inv key val slots W env s"
  shows "\<exists>s'. abort_found env u s = Inr s' \<and> mem_inv ops inv key val slots W env s' \<and> abort_effect u s s'"
proof -
  obtain c P where c: "pm_abort_req u (sc_pend s) = (c, P)" by fastforce
  have S: "sched_shape W s (in_flight_reqs s) (sc_finished s) [] []" using M by (simp add: mem_inv_def)
  note D = shapeD[OF S]
  note A = pm_abort_split[OF c D(2)]
  let ?s1 = "s\<lparr>sc_pend := P\<rparr>"
  have l1: "live ?s1 = live s" "obj ?s1 = obj s" by (simp_all add: live_def obj_def fun_eq_iff)
  have fi: "in_flight b u ?s1 = in_flight b u s" for b by (simp add: in_flight_def)
  have ob: "obj s v \<in> set (live s) \<and> r_uid (obj s v) = v" if "v \<in> set (sc_running s)" for v
    using D(7) that live_subset obj_eq[OF D(1)] by fastforce
  have dm: "dm_abort_req u (dm_of ?s1) = (if u \<in> set (sc_running s)
      then (Some (obj s u), remove_req (obj s u) (dm_of ?s1)) else (None, dm_of ?s1))"
    "u \<in> set (sc_running s) \<Longrightarrow> map r_uid (running_reqs (remove_req (obj s u) (dm_of ?s1))) = removeAll u (sc_running s)"
    using dm_abort_of[of ?s1 u] D(6) ob l1(2) by simp_all
  show ?thesis
  proof (cases c)
    case (Some r)
    then have c': "pm_abort_req u (sc_pend s) = (Some r, P)" using c by simp
    show ?thesis
    proof (cases "in_flight True u s")
      case True
      then show ?thesis using abort_chunk_flying[OF M c' True] c' fi by (simp add: abort_found_def)
    next
      case False
      then show ?thesis using abort_chunk_idle[OF M c' False] c' fi by (simp add: abort_found_def)
    qed
  next
    case None
    have A': "P = filter (\<lambda>p. p_uid p \<noteq> u) (sc_pend s)" "mset (chunks (sc_pend s)) = mset (chunks P)"
      using A None by simp_all
    show ?thesis
    proof (cases "u \<in> set (sc_running s)")
      case False
      then show ?thesis using abort_idle[OF M False A'] c None dm(1) by (simp add: abort_found_def)
    next
      case True
      have ou: "obj s u \<in> set (live s)" "r_uid (obj s u) = u" using ob[OF True] by auto
      then have up: "u \<notin> p_uid ` set (sc_pend s)" using D(3) live_subset by blast
      have "P = sc_pend s" unfolding A'(1) using up by (intro filter_True) auto
      then have e: "?s1 = s" by simp
      have rr: "s\<lparr>sc_running := map r_uid (running_reqs (remove_req (obj s u) (dm_of s)))\<rparr> = remove_running u s"
        using dm(2)[OF True] unfolding e by (simp add: remove_running_def)
      have run: "abort_found env u s = (if in_flight False u s then Inr (put_obj ((obj s u)\<lparr>r_aborted := True\<rparr>) (remove_running u s))
          else free_req_resources env u (remove_running u s))"
        using c None dm(1) True e rr by (simp add: abort_found_def in_flight_def remove_running_def)
      show ?thesis
        unfolding run using abort_running_flying[OF M ou] abort_running_idle[OF M ou _ up] up by auto
    qed
  qed
qed

section \<open>Every message\<close>

abbreviation sinv :: "nat \<Rightarrow> ('c, 'h) sched_env \<Rightarrow> ('c, 'h) sched \<Rightarrow> int list \<Rightarrow> bool" where
  "sinv \<equiv> sched_inv ops inv key val slots"

lemma mem_inv_cong:
  assumes "mem_inv ops inv key val slots W env s"
    and "sc_objs s' = sc_objs s" "sc_pend s' = sc_pend s" "sc_freed s' = sc_freed s" "sc_running s' = sc_running s"
      "sc_last s' = sc_last s" "sc_finished s' = sc_finished s" "sc_cm s' = sc_cm s" "sc_tm s' = sc_tm s"
      "sc_max_seq_len s' = sc_max_seq_len s"
  shows "mem_inv ops inv key val slots W env s'"
proof -
  have f: "in_flight_reqs s' = in_flight_reqs s" using assms(6) by (simp add: in_flight_reqs_def)
  show ?thesis
    using assms(1) unfolding mem_inv_def f shape_cong(1,2)[OF assms(2-5)] shared_def assms(3,7,8)
      smem_cong[OF assms(8-10)] .
qed

lemma process_abort_law:
  assumes I: "sinv W env s got" and t: "set (sc_tombs s) - set (add_tombstone u (sc_tombs s)) \<subseteq> set got"
  shows "\<exists>s'. process_abort env u s = Inr s' \<and> sinv W env s' got"
proof -
  let ?s0 = "s\<lparr>sc_tombs := add_tombstone u (sc_tombs s)\<rparr>"
  have "mem_inv ops inv key val slots W env ?s0"
    by (rule mem_inv_cong[of W env s]) (use I in \<open>simp_all add: sched_inv_split\<close>)
  from abort_found_law[OF this, of u] obtain s1 where s1: "abort_found env u ?s0 = Inr s1"
    "mem_inv ops inv key val slots W env s1" "abort_effect u ?s0 s1" by blast
  let ?s' = "s1\<lparr>sc_acks := List.insert u (sc_acks s1)\<rparr>"
  have l0: "live ?s0 = live s" "in_flight_reqs ?s0 = in_flight_reqs s" by (simp_all add: live_def in_flight_reqs_def)
  have l': "live ?s' = live s1" "in_flight_reqs ?s' = in_flight_reqs s1" by (simp_all add: live_def in_flight_reqs_def)
  have "mem_inv ops inv key val slots W env ?s'" by (rule mem_inv_cong[OF s1(2)]) simp_all
  moreover have "log_inv ?s' [] [] got"
  proof (rule log_abort[OF _ t])
    show "log_inv s [] [] got" using I by (simp add: sched_inv_split)
    note E = s1(3)[unfolded abort_effect_def l0]
    show "r_uid ` set (live ?s') \<subseteq> r_uid ` set (live s)" "r_uid ` set (live s) - {u} \<subseteq> r_uid ` set (live ?s')"
      "set (sc_running ?s') \<subseteq> set (sc_running s) - {u}"
      using E unfolding l' by simp_all
    show "r_uid x = u \<or> x \<in> set (live s)" if "x \<in> set (live ?s')" "r_aborted x" for x
      using E that unfolding l' by blast
  qed (use s1(3)[unfolded abort_effect_def l0] in simp_all)
  moreover have "r_uid ` set (in_flight_reqs ?s') \<subseteq> set got"
    using s1(3) I unfolding abort_effect_def sched_inv_split l0 l' by simp
  ultimately have "sinv W env ?s' got" by (simp add: sched_inv_split)
  then show ?thesis using s1(1) by (simp add: process_abort_def)
qed

lemma sinv_send:
  assumes I: "sinv W env s got" and q: "\<And>v m. m \<in> set ms \<Longrightarrow> \<not> is_progress v m \<and> \<not> is_terminal v m"
  shows "sinv W env (send_result ms s) got"
proof -
  let ?s' = "send_result ms s"
  have M: "mem_inv ops inv key val slots W env ?s'"
    by (rule mem_inv_cong[of W env s]) (use I in \<open>simp_all add: sched_inv_split send_result_def\<close>)
  have f: "sc_pend ?s' = sc_pend s" "live ?s' = live s" "sc_acks ?s' = sc_acks s" "sc_tombs ?s' = sc_tombs s"
    "sc_running ?s' = sc_running s" "sc_objs ?s' = sc_objs s" "sc_out ?s' = sc_out s @ ms"
    "in_flight_reqs ?s' = in_flight_reqs s"
    by (simp_all add: send_result_def live_def in_flight_reqs_def)
  have G: "log_inv s [] [] got" using I by (simp add: sched_inv_split)
  have e: "ended v ((sc_out s @ ms) @ []) = ended v (sc_out s @ [])" for v using q by (auto simp: ended_def)
  have "quiet xs" if "set xs \<subseteq> set ms" for xs using that q by (induction xs) auto
  then have "quiet ms" by blast
  then have "quiet ((sc_out s @ ms) @ [])" using log_invD(1)[OF G] q by (simp add: quiet_append)
  then have "log_inv ?s' [] [] got"
    using G unfolding log_inv_def f e by (elim conjE) (intro conjI, assumption+)
  then show ?thesis using M I f by (simp add: sched_inv_split)
qed

lemma process_rebuild_law: "sinv W env s got \<Longrightarrow> sinv W env (process_rebuild env m s) got"
proof -
  assume I: "sinv W env s got"
  have r: "sinv W env (reply_rebuild rid st s) got" for rid st
    unfolding reply_rebuild_def by (rule sinv_send[OF I]) (auto simp: is_progress_def is_terminal_def)
  have "mem_inv ops inv key val slots W env (s\<lparr>sc_rebuild := Some m\<rparr>)"
    by (rule mem_inv_cong[of W env s]) (use I in \<open>simp_all add: sched_inv_split\<close>)
  moreover have "log_inv (s\<lparr>sc_rebuild := Some m\<rparr>) [] [] got"
    using I by (subst log_inv_cong[of _ s _ "[]"]) (simp_all add: sched_inv_split live_def)
  ultimately have "sinv W env (s\<lparr>sc_rebuild := Some m\<rparr>) got"
    using I by (simp add: sched_inv_split in_flight_reqs_def)
  then show ?thesis using r by (simp add: process_rebuild_def)
qed

lemma log_tomb_drop:
  assumes G: "log_inv s [] [] got" and u: "u \<in> set (sc_tombs s)"
  shows "log_inv (s\<lparr>sc_tombs := removeAll u (sc_tombs s)\<rparr>) [] [] (u # got)"
proof -
  note D = log_invD[OF G]
  have l: "live (s\<lparr>sc_tombs := removeAll u (sc_tombs s)\<rparr>) = live s" by (simp add: live_def)
  have c4: "\<forall>v\<in>set (u # got). v \<in> p_uid ` set (sc_pend s) \<union> r_uid ` set (live s) \<union> set (sc_acks s) \<or> ended v (sc_out s @ [])"
    using D(8) D(9)[OF u] by (metis UnI1 UnI2 set_ConsD)
  have c6: "\<forall>v. v \<in> set (sc_acks s) \<or> ended v (sc_out s @ []) \<longrightarrow> v \<in> set (u # got) \<union> set (removeAll u (sc_tombs s))"
  proof (intro allI impI)
    fix v assume "v \<in> set (sc_acks s) \<or> ended v (sc_out s @ [])"
    from D(10)[OF this] show "v \<in> set (u # got) \<union> set (removeAll u (sc_tombs s))" by auto
  qed
  have c7: "r_uid ` set (sc_objs s) \<union> p_uid ` set (sc_pend s) \<subseteq> set (u # got)"
    using D(11,12) by (metis Un_least set_subset_Cons subset_trans)
  have c5: "\<forall>v\<in>set (removeAll u (sc_tombs s)). v \<in> set (sc_acks s) \<or> ended v (sc_out s @ [])" using D(9) by simp
  show ?thesis using G[unfolded log_inv_def] c4 c5 c6 c7 unfolding log_inv_def l by simp
qed

lemma log_fresh:
  assumes G: "log_inv s [] [] got" and u: "u \<notin> set got" "u \<notin> set (sc_tombs s)"
  shows "u \<notin> set (sc_acks s)" "\<not> ended u (sc_out s @ [])" "u \<notin> r_uid ` set (sc_objs s)" "u \<notin> p_uid ` set (sc_pend s)"
    "u \<notin> r_uid ` set (live s)"
proof -
  note D = log_invD[OF G]
  show "u \<notin> set (sc_acks s)" "\<not> ended u (sc_out s @ [])" using D(10)[of u] u by auto
  show o: "u \<notin> r_uid ` set (sc_objs s)" "u \<notin> p_uid ` set (sc_pend s)" using D(11,12) u by blast+
  show "u \<notin> r_uid ` set (live s)" using o(1) live_subset by blast
qed

lemma log_reject:
  assumes G: "log_inv s [] [] got" and u: "u \<notin> set got" "u \<notin> set (sc_tombs s)"
  shows "log_inv (send_result [ErrorReplyMsg u e c] s) [] [] (u # got)"
proof -
  note D = log_invD[OF G] and F = log_fresh[OF G u]
  let ?m = "ErrorReplyMsg u e c"
  let ?s' = "send_result [?m] s"
  have f: "sc_pend ?s' = sc_pend s" "live ?s' = live s" "sc_acks ?s' = sc_acks s" "sc_tombs ?s' = sc_tombs s"
    "sc_running ?s' = sc_running s" "sc_objs ?s' = sc_objs s" "sc_out ?s' = sc_out s @ [?m]"
    by (simp_all add: send_result_def live_def)
  have e: "ended v ((sc_out s @ [?m]) @ []) \<longleftrightarrow> v = u \<or> ended v (sc_out s @ [])" for v
    by (auto simp: ended_def is_terminal_def)
  have q: "quiet ((sc_out s @ [?m]) @ [])" using D(1) F(2) by (auto simp: quiet_append is_progress_def)
  have c1: "\<forall>v. v = u \<or> ended v (sc_out s @ []) \<longrightarrow> v \<notin> p_uid ` set (sc_pend s) \<union> r_uid ` set (live s)"
    using D(2,3) F(4,5) by (metis UnE)
  have c4: "\<forall>v\<in>set (u # got). v \<in> p_uid ` set (sc_pend s) \<union> r_uid ` set (live s) \<union> set (sc_acks s) \<or> v = u \<or> ended v (sc_out s @ [])"
    using D(8) by (metis UnI1 UnI2 set_ConsD)
  have c6: "\<forall>v. v \<in> set (sc_acks s) \<or> v = u \<or> ended v (sc_out s @ []) \<longrightarrow> v \<in> set (u # got) \<union> set (sc_tombs s)"
    using D(10) by auto
  have c7: "r_uid ` set (sc_objs s) \<union> p_uid ` set (sc_pend s) \<subseteq> set (u # got)"
    using D(11,12) by (metis Un_least set_subset_Cons subset_trans)
  have c5: "\<forall>v\<in>set (sc_tombs s). v \<in> set (sc_acks s) \<or> v = u \<or> ended v (sc_out s @ [])" using D(9) by blast
  note G' = G[unfolded log_inv_def, THEN conjunct2, THEN conjunct2]
  show ?thesis unfolding log_inv_def f e
    by (intro conjI) (rule q c1 c4 c5 c6 c7 G'[THEN conjunct1] G'[THEN conjunct2, THEN conjunct1])+
qed

lemma log_pend:
  fixes s :: "('x, 'y) sched"
  assumes G: "log_inv s [] [] got" and u: "p_uid p \<notin> set got" "p_uid p \<notin> set (sc_tombs s)"
  shows "log_inv (s\<lparr>sc_pend := sc_pend s @ [p]\<rparr>) [] [] (p_uid p # got)"
proof -
  note D = log_invD[OF G] and F = log_fresh[OF G u]
  let ?u = "p_uid p" and ?s' = "s\<lparr>sc_pend := sc_pend s @ [p]\<rparr>"
  have f: "p_uid ` set (sc_pend ?s') = insert ?u (p_uid ` set (sc_pend s))" "live ?s' = live s" "sc_acks ?s' = sc_acks s"
    "sc_tombs ?s' = sc_tombs s" "sc_running ?s' = sc_running s" "sc_objs ?s' = sc_objs s" "sc_out ?s' = sc_out s"
    by (simp_all add: live_def)
  let ?A = "p_uid ` set (sc_pend s)" and ?B = "r_uid ` set (live s)"
  have c1: "\<forall>v. ended v (sc_out s @ []) \<longrightarrow> v \<notin> insert ?u ?A \<union> ?B"
    using D(2,3) F(2) by (metis UnE insertE)
  have c2: "\<forall>v\<in>set (sc_acks s). v \<notin> insert ?u ?A \<union> set (sc_running s) \<union> nc ([] :: 'y req list)"
  proof
    fix v assume "v \<in> set (sc_acks s)"
    then show "v \<notin> insert ?u ?A \<union> set (sc_running s) \<union> nc ([] :: 'y req list)" using D(4-6)[of v] F(1) by (auto simp: nc_def)
  qed
  have c4: "\<forall>v\<in>set (?u # got). v \<in> insert ?u ?A \<union> ?B \<union> set (sc_acks s) \<or> ended v (sc_out s @ [])"
  proof
    fix v assume "v \<in> set (?u # got)"
    then consider "v = ?u" | "v \<in> set got" by auto
    then show "v \<in> insert ?u ?A \<union> ?B \<union> set (sc_acks s) \<or> ended v (sc_out s @ [])"
    proof cases
      case 2
      from D(8)[OF this] show ?thesis by (elim disjE) simp_all
    qed simp
  qed
  have c6: "\<forall>v. v \<in> set (sc_acks s) \<or> ended v (sc_out s @ []) \<longrightarrow> v \<in> set (?u # got) \<union> set (sc_tombs s)"
    using D(10) by auto
  have c7: "r_uid ` set (sc_objs s) \<union> insert ?u ?A \<subseteq> set (?u # got)"
    using D(11,12) by auto
  note G' = G[unfolded log_inv_def, THEN conjunct2, THEN conjunct2, THEN conjunct2]
  show ?thesis unfolding log_inv_def f
    by (intro conjI) (rule D(1) c1 c2 c4 c6 c7 G'[THEN conjunct1] G'[THEN conjunct2, THEN conjunct2, THEN conjunct1])+
qed

lemma pend_added:
  assumes I: "sinv W env s got" and u: "p_uid p \<notin> set got" "p_uid p \<notin> set (sc_tombs s)"
    and p: "pend_good W p" "p_chunked p = None"
  shows "sinv W env (s\<lparr>sc_pend := sc_pend s @ [p]\<rparr>) (p_uid p # got)"
proof -
  let ?s' = "s\<lparr>sc_pend := sc_pend s @ [p]\<rparr>" and ?L = "in_flight_reqs s"
  have S: "sched_shape W s ?L (sc_finished s) [] []" and m: "smem W env s (holders s ?L)"
    and lz: "lazy_free_list (sc_cm s) = None" and G: "log_inv s [] [] got" and sh: "shared s ?L"
    and ug: "r_uid ` set ?L \<subseteq> set got"
    using I by (simp_all add: sched_inv_def)
  note D = shapeD[OF S] and F = log_fresh[OF G u]
  have l: "live ?s' = live s" "in_flight_reqs ?s' = ?L" by (simp_all add: live_def in_flight_reqs_def)
  have ds: "distinct (map r_uid (sc_objs s) @ map p_uid (sc_pend s @ [p]))"
    using D(1-3) F(3,4) by auto
  have nL: "p_uid p \<notin> r_uid ` set ?L" using ug u(1) by blast
  have ab: "\<forall>x\<in>set ?L. r_chunked x \<and> r_aborted x \<longrightarrow> r_uid x \<notin> r_uid ` set (sc_objs s) \<union> p_uid ` set (sc_pend s @ [p])"
    using D(19) nL by (auto simp: image_iff)
  have gd: "\<forall>q\<in>set (sc_pend s @ [p]). pend_good W q" using D(4) p(1) by auto
  have S': "sched_shape W ?s' ?L (sc_finished s) [] []"
    using S ds ab gd unfolding sched_shape_def l by simp
  have "holders ?s' ?L = holders s ?L" using p(2) l by (simp add: holders_def)
  then have m': "smem W env ?s' (holders ?s' ?L)" using m smem_cong[of ?s' s] by simp
  have "shared ?s' ?L"
    unfolding shared_def
  proof (intro ballI impI)
    fix x q assume x: "x \<in> set ?L" and q: "q \<in> set (sc_pend ?s')" "p_uid q = r_uid x"
      and c: "r_chunked x" "\<not> r_aborted x"
    have "q \<noteq> p" using nL q(2) x by (metis imageI)
    then have "q \<in> set (sc_pend s)" using q(1) by simp
    then show "p_chunked q = Some x" using sh x c q(2) unfolding shared_def by blast
  qed
  moreover have "r_uid ` set ?L \<subseteq> set (p_uid p # got)" using ug by auto
  ultimately show ?thesis using S' m' lz log_pend[OF G u] unfolding sched_inv_def l by simp
qed

lemma process_user_law:
  assumes I: "sinv W env s got" and ok: "ids \<noteq> []" "1 \<le> max_tokens sp" "u \<notin> set got"
  shows "sinv W env (process_user env u ids sp images s) (u # got)"
proof -
  have G: "log_inv s [] [] got" and M: "mem_inv ops inv key val slots W env s"
    and ug: "r_uid ` set (in_flight_reqs s) \<subseteq> set (u # got)"
    using I by (auto simp: sched_inv_split)
  show ?thesis
  proof (cases "u \<in> set (sc_tombs s)")
    case True
    let ?s' = "s\<lparr>sc_tombs := removeAll u (sc_tombs s)\<rparr>"
    have "mem_inv ops inv key val slots W env ?s'" by (rule mem_inv_cong[OF M]) simp_all
    moreover have "in_flight_reqs ?s' = in_flight_reqs s" by (simp add: in_flight_reqs_def)
    ultimately have "sinv W env ?s' (u # got)" using log_tomb_drop[OF G True] ug by (simp add: sched_inv_split)
    then show ?thesis using True by (simp add: process_user_def)
  next
    case nt: False
    have rej: "sinv W env (send_result [ErrorReplyMsg u e c] s) (u # got)" for e c
    proof -
      let ?s' = "send_result [ErrorReplyMsg u e c] s"
      have "mem_inv ops inv key val slots W env ?s'" by (rule mem_inv_cong[OF M]) (simp_all add: send_result_def)
      moreover have "in_flight_reqs ?s' = in_flight_reqs s" by (simp add: in_flight_reqs_def send_result_def)
      ultimately show ?thesis using log_reject[OF G ok(3) nt] ug by (simp add: sched_inv_split)
    qed
    define sp1 where "sp1 = (if int (sc_max_seq_len s) - int (length ids) < max_tokens sp
      then sp\<lparr>max_tokens := int (sc_max_seq_len s) - int (length ids)\<rparr> else sp)"
    let ?p = "\<lparr>p_uid = u, p_input_ids = ids, p_sampling = sp1, p_chunked = None, p_mm = (images \<noteq> None), p_endpoints = []\<rparr>"
    have W: "sc_max_seq_len s \<le> W" using I by (simp add: sched_inv_def sched_mem_def)
    have "sinv W env (s\<lparr>sc_pend := sc_pend s @ [?p]\<rparr>) (u # got)" if "length ids < sc_max_seq_len s"
    proof -
      have "pend_good W ?p"
        using that W ok by (auto simp: pend_good_def pend_ok_def sp1_def input_len_def output_len_def)
      then show ?thesis using pend_added[OF I, of ?p] ok(3) nt by simp
    qed
    then show ?thesis
      using nt rej by (simp add: process_user_def Let_def pm_add_one_req_def sp1_def[symmetric] del: if_split)
  qed
qed

lemma sinv_set: "set got = set got' \<Longrightarrow> sinv W env s got = sinv W env s got'"
  by (simp add: sched_inv_def log_inv_def)

lemma process_law:
  "sinv W env s got \<Longrightarrow> msg_ok env m s got \<Longrightarrow>
     process_one_msg env m s = Inl KeyboardInterrupt \<or>
     (\<exists>s'. process_one_msg env m s = Inr s' \<and> sinv W env s' (received m @ got))"
  "sinv W env s got \<Longrightarrow> msgs_ok env ms s got \<Longrightarrow>
     process_msgs env ms s = Inl KeyboardInterrupt \<or>
     (\<exists>s'. process_msgs env ms s = Inr s' \<and> sinv W env s' (concat (map received ms) @ got))"
proof (induction env m s and env ms s arbitrary: got and got rule: process_one_msg_process_msgs.induct)
  case (1 env ms s)
  then show ?case by simp
next
  case (2 env s)
  then show ?case by simp
next
  case (3 env uid ids sp images s)
  then show ?case using process_user_law by simp
next
  case (4 env uid s)
  then show ?case using process_abort_law by simp
next
  case (5 env m s)
  then show ?case using process_rebuild_law by simp
next
  case (6 env s)
  then show ?case by simp
next
  case (7 env m ms s)
  have "msg_ok env m s got" using "7.prems"(2) by simp
  from "7.IH"(1)[OF "7.prems"(1) this] consider (stop) "process_one_msg env m s = Inl KeyboardInterrupt"
    | (ok) s1 where "process_one_msg env m s = Inr s1" "sinv W env s1 (received m @ got)" by blast
  then show ?case
  proof cases
    case stop
    then show ?thesis by simp
  next
    case ok
    have "msgs_ok env ms s1 (received m @ got)" using "7.prems"(2) ok(1) by simp
    from "7.IH"(2)[OF ok(1) ok(2) this] show ?thesis
      using ok(1) sinv_set[of "concat (map received ms) @ received m @ got" "concat (map received (m # ms)) @ got" W env]
      by (auto simp: Un_ac)
  qed
qed

end

end
