(* ===== verification/SchedLaunch.thy ===== *)
theory SchedLaunch
  imports SchedMsg
begin

text \<open>
  Launching a batch keeps the invariant of the scheduler loop: selection by the prefill or the
  decode manager, page allocation, the forward, and what it stores.
\<close>

section \<open>The shape after a launch\<close>

definition uids :: "'h req list \<Rightarrow> int set" where
  "uids rs = r_uid ` set rs"

definition sent :: "'h req list \<Rightarrow> 'h req list" where
  "sent rs = filter (\<lambda>r. \<not> r_chunked r) rs"

lemma nc_sent: "nc rs = uids (sent rs)"
  by (simp add: nc_def uids_def sent_def)

lemma uids_simps [simp]: "uids [] = {}" "uids (xs @ ys) = uids xs \<union> uids ys" "uids (x # xs) = insert (r_uid x) (uids xs)"
  by (auto simp: uids_def)

lemma shape_launch:
  assumes S: "sched_shape W s L F [] []"
    and rs: "distinct (map r_uid rs)" "\<forall>x\<in>set rs. \<not> r_aborted x"
      "\<forall>r\<in>set (sent rs). live_ok W (Suc (flights L [] (r_uid r))) r"
      "uids (sent rs) \<inter> set (sc_freed s) = {}"
    and ob: "sc_objs s' = filter (\<lambda>r. r_uid r \<notin> uids (sent rs)) (sc_objs s) @ sent rs" "sc_freed s' = sc_freed s"
    and pd: "distinct (map p_uid (sc_pend s'))" "\<forall>p\<in>set (sc_pend s'). pend_good W p"
      "p_uid ` set (sc_pend s') \<inter> (r_uid ` set (sc_objs s) \<union> uids (sent rs)) = {}"
      "uids (sent rs) \<union> p_uid ` set (sc_pend s') \<subseteq> r_uid ` set (sc_objs s) \<union> p_uid ` set (sc_pend s)"
    and rn: "distinct (sc_running s')"
      "set (sc_running s') = (set (sc_running s) - uids (sent rs)) \<union>
         {u. \<exists>r\<in>set (sent rs). r_uid r = u \<and> r_device_len r < r_max_device_len r}"
  shows "sched_shape W s' L F rs []"
    "live s' = filter (\<lambda>r. r_uid r \<notin> uids (sent rs)) (live s) @ sent rs"
proof -
  note D = shapeD[OF S]
  let ?N = "sent rs" and ?U = "uids (sent rs)"
  have nf: "\<forall>r\<in>set ?N. r_uid r \<notin> set (sc_freed s)" using rs(4) by (auto simp: uids_def)
  have dN: "distinct (map r_uid ?N)" using rs(1) by (simp add: sent_def distinct_map_filter)
  show lv: "live s' = filter (\<lambda>r. r_uid r \<notin> ?U) (live s) @ ?N"
    using nf by (auto simp: live_def ob filter_id_conv conj_commute intro: filter_cong)
  have lvs: "set (live s') = {r \<in> set (live s). r_uid r \<notin> ?U} \<union> set ?N" unfolding lv by auto
  have us: "r_uid ` set (sc_objs s') = r_uid ` set (sc_objs s) \<union> ?U"
    unfolding ob by (auto simp: uids_def)
  have uo: "distinct (map r_uid (sc_objs s'))"
    using D(1) dN unfolding ob by (auto simp: distinct_map_filter uids_def)
  have f: "flights L rs u = (if u \<in> ?U then Suc (flights L [] u) else flights L [] u)" for u
    by (simp add: flights_def nc_sent sent_def)
  have l: "\<forall>y\<in>set (live s'). live_ok W (flights L rs (r_uid y)) y \<and>
        (if r_uid y \<in> set (sc_running s') then r_device_len y < r_max_device_len y \<and> \<not> r_aborted y
         else 0 < flights L rs (r_uid y) \<and> (r_aborted y \<or> r_device_len y = r_max_device_len y))"
  proof
    fix y assume y: "y \<in> set (live s')"
    show "live_ok W (flights L rs (r_uid y)) y \<and>
        (if r_uid y \<in> set (sc_running s') then r_device_len y < r_max_device_len y \<and> \<not> r_aborted y
         else 0 < flights L rs (r_uid y) \<and> (r_aborted y \<or> r_device_len y = r_max_device_len y))"
    proof (cases "r_uid y \<in> ?U")
      case False
      then have yl: "y \<in> set (live s)" using y lvs by (auto simp: uids_def)
      have "r_uid y \<in> set (sc_running s') \<longleftrightarrow> r_uid y \<in> set (sc_running s)"
        using False unfolding rn(2) uids_def by (auto simp: image_iff)
      then show ?thesis using D(8)[OF yl] D(9)[OF yl] D(10)[OF yl] False f by simp
    next
      case True
      then have yN: "y \<in> set ?N" using y lvs by auto
      have ok: "live_ok W (flights L rs (r_uid y)) y" using rs(3) yN True f by simp
      have na: "\<not> r_aborted y" using rs(2) yN by (simp add: sent_def)
      have "r_uid y \<in> set (sc_running s') \<longleftrightarrow> r_device_len y < r_max_device_len y"
      proof
        assume "r_uid y \<in> set (sc_running s')"
        then obtain r where r: "r \<in> set ?N" "r_uid r = r_uid y" "r_device_len r < r_max_device_len r"
          using True unfolding rn(2) by blast
        have "r = y" using dN r(1,2) yN by (simp add: distinct_map inj_on_def)
        then show "r_device_len y < r_max_device_len y" using r(3) by simp
      next
        assume "r_device_len y < r_max_device_len y"
        then show "r_uid y \<in> set (sc_running s')" using yN unfolding rn(2) by blast
      qed
      then show ?thesis using ok na True f by (simp add: live_ok_def)
    qed
  qed
  have run: "set (sc_running s') \<subseteq> r_uid ` set (live s')"
    using D(7) unfolding rn(2) lvs by (auto simp: uids_def)
  have ch: "\<forall>r\<in>set (sc_objs s'). \<not> r_chunked r" using D(5) unfolding ob by (auto simp: sent_def)
  have ab: "\<forall>x\<in>set L. r_chunked x \<and> r_aborted x \<longrightarrow> r_uid x \<notin> r_uid ` set (sc_objs s') \<union> p_uid ` set (sc_pend s')"
  proof (intro ballI impI)
    fix x assume x: "x \<in> set L" "r_chunked x \<and> r_aborted x"
    then have "r_uid x \<notin> r_uid ` set (sc_objs s) \<union> p_uid ` set (sc_pend s)" using D(19)[of x] by blast
    then show "r_uid x \<notin> r_uid ` set (sc_objs s') \<union> p_uid ` set (sc_pend s')"
      using pd(4) unfolding us by (metis Un_iff subsetD)
  qed
  have fo: "set (sc_freed s') \<subseteq> r_uid ` set (sc_objs s')" using D(21) unfolding us ob(2) by (rule le_supI1)

  have nn: "nc rs \<inter> set (sc_freed s') = {}" using rs(4) unfolding nc_sent ob .
  have dj: "set (map r_uid (sc_objs s')) \<inter> set (map p_uid (sc_pend s')) = {}" using pd(3) us by auto
  have e: "nc L \<union> nc rs \<subseteq> r_uid ` set (sc_objs s')" using D(13) unfolding us nc_sent[of rs] by blast
  have g: "nc L \<inter> set (sc_freed s') \<subseteq> set F" "nc rs \<inter> set (sc_freed s') \<subseteq> set []" "set F \<union> set [] \<subseteq> set (sc_freed s')"
    using D(15,17) nn unfolding ob(2) by simp_all
  have c: "\<forall>x\<in>set rs. r_chunked x \<longrightarrow> \<not> r_aborted x" using rs(2) by blast
  show "sched_shape W s' L F rs []"
    unfolding sched_shape_def distinct_append
    by (intro conjI) (rule uo pd(1) dj pd(2) ch rn(1) run l D(11) rs(1) e g fo ab c)+
qed

section \<open>The log after a launch\<close>

lemma log_launch:
  assumes G: "log_inv s [] [] got"
    and f: "sc_out s' = sc_out s @ ms" "sc_acks s' = sc_acks s" "sc_tombs s' = sc_tombs s"
    and ms: "\<And>m v. m \<in> set ms \<Longrightarrow> \<not> is_terminal v m" "\<And>m v. m \<in> set ms \<Longrightarrow> is_progress v m \<Longrightarrow> v \<in> p_uid ` set (sc_pend s)"
    and ul: "p_uid ` set (sc_pend s') \<union> r_uid ` set (live s') = p_uid ` set (sc_pend s) \<union> r_uid ` set (live s)"
    and uo: "r_uid ` set (sc_objs s') \<union> p_uid ` set (sc_pend s') \<subseteq> r_uid ` set (sc_objs s) \<union> p_uid ` set (sc_pend s)"
    and up: "p_uid ` set (sc_pend s') \<subseteq> p_uid ` set (sc_pend s)"
    and rn: "nc Ob \<union> set (sc_running s') \<subseteq> p_uid ` set (sc_pend s) \<union> set (sc_running s)"
    and ab: "\<And>r. r \<in> set (live s') \<Longrightarrow> r_aborted r \<Longrightarrow> r \<in> set (live s)"
  shows "log_inv s' Ob [] got"
proof -
  note D = log_invD[OF G]
  have e: "ended v ((sc_out s @ ms) @ []) = ended v (sc_out s @ [])" for v using ms(1) by (auto simp: ended_def)
  have "quiet xs" if "set xs \<subseteq> set ms" for xs using that ms(1) by (induction xs) auto
  then have "quiet ms" by blast
  moreover have "\<not> is_progress v m" if "ended v (sc_out s)" "m \<in> set ms" for v m
    using that ms(2) D(2)[of v] by auto
  ultimately have q: "quiet ((sc_out s @ ms) @ [])" using D(1) by (simp add: quiet_append)
  have c1: "\<forall>v. ended v (sc_out s @ []) \<longrightarrow> v \<notin> p_uid ` set (sc_pend s') \<union> r_uid ` set (live s')"
    unfolding ul using D(2,3) by (metis UnE)
  have c2: "\<forall>v\<in>set (sc_acks s). v \<notin> p_uid ` set (sc_pend s') \<union> set (sc_running s') \<union> nc Ob"
  proof
    fix v assume "v \<in> set (sc_acks s)"
    then have "v \<notin> p_uid ` set (sc_pend s)" "v \<notin> set (sc_running s)" using D(4,5)[of v] by simp_all
    then show "v \<notin> p_uid ` set (sc_pend s') \<union> set (sc_running s') \<union> nc Ob" using up rn by (metis Un_iff subsetD)
  qed
  have c3: "\<forall>r\<in>set (live s'). r_aborted r \<longrightarrow> r_uid r \<in> set (sc_acks s)" using ab D(7) by blast
  have c4: "\<forall>v\<in>set got. v \<in> p_uid ` set (sc_pend s') \<union> r_uid ` set (live s') \<union> set (sc_acks s) \<or> ended v (sc_out s @ [])"
  proof
    fix v assume "v \<in> set got"
    from D(8)[OF this] show "v \<in> p_uid ` set (sc_pend s') \<union> r_uid ` set (live s') \<union> set (sc_acks s) \<or> ended v (sc_out s @ [])"
      unfolding ul by simp
  qed
  have c5: "\<forall>v\<in>set (sc_tombs s). v \<in> set (sc_acks s) \<or> ended v (sc_out s @ [])" using D(9) by blast
  have c6: "\<forall>v. v \<in> set (sc_acks s) \<or> ended v (sc_out s @ []) \<longrightarrow> v \<in> set got \<union> set (sc_tombs s)" using D(10) by blast
  have c7: "r_uid ` set (sc_objs s') \<union> p_uid ` set (sc_pend s') \<subseteq> set got" using uo D(11,12) by (meson Un_least subset_trans)
  show ?thesis unfolding log_inv_def f e by (intro conjI) (rule q c1 c2 c3 c4 c5 c6 c7)+
qed

section \<open>Running requests after a forward\<close>

lemma running_launched:
  assumes d: "distinct run" "distinct (map r_uid rs)"
    and ob: "\<And>v. v \<in> set run \<Longrightarrow> r_uid (ob v) = v" "\<And>v. v \<in> set run \<Longrightarrow> v \<notin> uids rs \<Longrightarrow> can_decode (ob v)"
    and ch: "\<And>r. r \<in> set rs \<Longrightarrow> r_chunked r \<Longrightarrow> r_uid r \<notin> set run"
  shows "distinct (map r_uid (filter can_decode (union_reqs (map ob run) rs)))"
    "set (map r_uid (filter can_decode (union_reqs (map ob run) rs))) = (set run - uids (sent rs)) \<union>
       {u. \<exists>r\<in>set (sent rs). r_uid r = u \<and> r_device_len r < r_max_device_len r}"
proof -
  have m: "map r_uid (map ob run) = run" using ob(1) by (simp add: o_def map_idI)
  have "distinct (map r_uid (union_reqs (map ob run) rs))"
    using d m by (auto simp: union_reqs_def distinct_map_filter)
  then show "distinct (map r_uid (filter can_decode (union_reqs (map ob run) rs)))"
    by (simp add: distinct_map_filter)
  have "set (filter can_decode (union_reqs (map ob run) rs)) =
      {x \<in> ob ` set run. r_uid x \<notin> uids rs \<and> can_decode x} \<union> {r \<in> set rs. can_decode r}"
    by (auto simp: union_reqs_def uids_def)
  moreover have "{x \<in> ob ` set run. r_uid x \<notin> uids rs \<and> can_decode x} = ob ` (set run - uids rs)"
    using ob by force
  moreover have "set run - uids rs = set run - uids (sent rs)"
    using ch by (auto simp: uids_def sent_def)
  moreover have "r_uid ` ob ` A = A" if "A \<subseteq> set run" for A
    using that ob(1) by force
  ultimately have e: "r_uid ` set (filter can_decode (union_reqs (map ob run) rs)) =
      (set run - uids (sent rs)) \<union> r_uid ` {r \<in> set rs. can_decode r}"
    by (simp add: image_Un)
  have "r_uid ` {r \<in> set rs. can_decode r} = {u. \<exists>r\<in>set (sent rs). r_uid r = u \<and> r_device_len r < r_max_device_len r}"
    by (auto simp: can_decode_def remain_len_def sent_def)
  then show "set (map r_uid (filter can_decode (union_reqs (map ob run) rs))) = (set run - uids (sent rs)) \<union>
       {u. \<exists>r\<in>set (sent rs). r_uid r = u \<and> r_device_len r < r_max_device_len r}"
    using e by simp
qed

section \<open>Allocation and forward in the pool\<close>

definition post :: "'h req \<Rightarrow> 'h req" where
  "post r = complete_one (note_allocated r)"

lemma post_simps [simp]:
  "r_uid (post r) = r_uid r" "r_table_idx (post r) = r_table_idx r" "r_handle (post r) = r_handle r"
  "r_mm (post r) = r_mm r" "r_chunked (post r) = r_chunked r" "r_aborted (post r) = r_aborted r"
  "r_input_ids (post r) = r_input_ids r" "r_cached_len (post r) = r_device_len r"
  "r_device_len (post r) = Suc (r_device_len r)" "r_max_device_len (post r) = r_max_device_len r"
  "r_allocated_len (post r) = max (r_allocated_len r) (r_device_len r)"
  by (simp_all add: post_def complete_one_def note_allocated_def)

locale loop_client = scheduler_client ops inv valid key val slots
  for ops :: "('c, 'h) cache_ops"
    and inv :: "nat \<Rightarrow> 'c \<Rightarrow> 'h multiset \<Rightarrow> bool"
    and valid :: "'c \<Rightarrow> 'h \<Rightarrow> bool"
    and key :: "'c \<Rightarrow> 'h \<Rightarrow> token list"
    and val :: "'c \<Rightarrow> 'h \<Rightarrow> slot list"
    and slots :: "'c \<Rightarrow> slot multiset" +
  assumes evict_short: "inv ps c H \<Longrightarrow> n \<noteq> 0 \<Longrightarrow> fst (op_size_info ops c) < n \<Longrightarrow> op_evict ops n c = Inl AssertionError"
begin

lemma allocate_short:
  assumes m: "minv s R"
    and short: "cm_available_size ops s < int (needed_pages (page_size s) reqs * page_size s)"
  shows "allocate_paged ops reqs s = Inl AssertionError"
proof -
  let ?n = "needed_pages (page_size s) reqs" and ?f = "length (free_slots s)"
  note D = minvD[OF m]
  have less: "fst (op_size_info ops (pcache s)) < int ?n * int (page_size s) - int ?f * int (page_size s)"
    using short by (simp add: cm_available_size_def)
  have "0 \<le> fst (op_size_info ops (pcache s))" using sizes[OF D(1)] by blast
  then have "int ?f * int (page_size s) < int ?n * int (page_size s)" using less by linarith
  then have n: "?f < ?n" by (metis mult_less_cancel2 of_nat_less_iff of_nat_mult)
  then have e: "int ((?n - ?f) * page_size s) = int ?n * int (page_size s) - int ?f * int (page_size s)"
    by (simp add: of_nat_diff left_diff_distrib)
  have "op_evict ops (int ((?n - ?f) * page_size s)) (pcache s) = Inl AssertionError"
    by (rule evict_short[OF D(1)]) (use e less n D(7) in simp_all)
  then show ?thesis using n by (simp add: allocate_paged_def cm_allocate_def Let_def)
qed

lemma minv_map:
  assumes "minv s (Q @ R)" "\<And>r R'. r \<in> set Q \<Longrightarrow> minv s (r # R') \<Longrightarrow> minv s (f r # R')"
  shows "minv s (map f Q @ R)"
  using assms
proof (induction Q arbitrary: R)
  case (Cons a Q)
  have "minv s (f a # Q @ R)" using Cons.prems by simp
  then have "minv s (Q @ f a # R)" using minv_perm[of "f a # Q @ R" "Q @ f a # R"] by simp
  from Cons.IH[OF this] have "minv s (map f Q @ f a # R)" using Cons.prems(2) by simp
  then show ?case using minv_perm[of "map f Q @ f a # R" "map f (a # Q) @ R"] by simp
qed simp

lemma minv_post:
  assumes m: "minv s (note_allocated r # R)" and c: "r_cached_len r \<le> r_device_len r"
  shows "minv s (clamp (post r) # R)"
proof -
  have "r_cached_len r \<le> length (r_input_ids r)"
    using minvD(4)[OF m, of "note_allocated r"] by (simp add: req_mem_def Let_def note_allocated_def)
  then show ?thesis
    by (intro minv_advance[OF m]) (use c in \<open>auto simp: note_allocated_def clamp_def max_def\<close>)
qed

lemma alloc_step:
  assumes m: "minv cm (Q @ R)" and lz: "lazy_free_list cm = None" and rows: "rows_ok W cm tm"
    and W: "page_size cm dvd W" and q: "\<forall>r\<in>set Q. r_device_len r \<le> W \<and> r_cached_len r \<le> r_device_len r"
  shows "if int (needed_pages (page_size cm) Q * page_size cm) \<le> cm_available_size ops cm
    then \<exists>cm'. allocate_paged ops Q cm = Inr (map note_allocated Q, cm') \<and> minv cm' (map (\<lambda>r. clamp (post r)) Q @ R) \<and>
       lazy_free_list cm' = None \<and> page_size cm' = page_size cm \<and> rows_ok W cm' tm
    else allocate_paged ops Q cm = Inl AssertionError"
proof (cases "int (needed_pages (page_size cm) Q * page_size cm) \<le> cm_available_size ops cm")
  case True
  have ps: "0 < page_size cm" by (rule minvD(7)[OF m])
  have fit: "div_ceil d (page_size cm) * page_size cm \<le> W" if "d \<le> W" for d
    using align_ceil_least[OF ps W that] by (simp add: align_ceil_def)
  have r: "\<forall>r\<in>set Q. div_ceil (r_device_len r) (page_size cm) * page_size cm \<le> length (page_table cm (r_table_idx r))"
    using q fit rows by (auto simp: rows_ok_def)
  from allocate_paged_law[OF m lz r True] obtain cm' where cm': "allocate_paged ops Q cm = Inr (map note_allocated Q, cm')"
    "minv cm' (map note_allocated Q @ R)" "lazy_free_list cm' = None" "page_size cm' = page_size cm"
    "\<forall>t. length (page_table cm' t) = length (page_table cm t)" by blast
  have "minv cm' (map (\<lambda>r. clamp (post r)) Q @ R)"
  proof -
    have "minv cm' (map (\<lambda>r. clamp (complete_one r)) (map note_allocated Q) @ R)"
      by (rule minv_map[OF cm'(2)]) (use q minv_post[of cm'] in \<open>auto simp: post_def\<close>)
    then show ?thesis by (simp add: post_def o_def)
  qed
  then show ?thesis using True cm' rows by (auto simp: rows_ok_def)
next
  case False
  then show ?thesis using allocate_short[OF m] by simp
qed

end

section \<open>What a forward stores\<close>

text \<open>A batch that needs more pages than are free or evictable.\<close>

definition short :: "('c, 'h) cache_ops \<Rightarrow> 'h batch \<Rightarrow> ('c, 'h) sched \<Rightarrow> bool" where
  "short op b s \<longleftrightarrow> cm_available_size op (sc_cm s) <
     int (needed_pages (page_size (sc_cm s)) (b_reqs b) * page_size (sc_cm s))"

definition forwarded :: "'h batch \<Rightarrow> ('c, 'h) sched \<Rightarrow> ('c, 'h) sched" where
  "forwarded b s = snd (forward b (report_prompt_admissions b s))"

lemma obj_eta: "obj s = (\<lambda>u. the (find (\<lambda>r. r_uid r = u) (sc_objs s)))"
  by (rule ext) (simp add: obj_def)

lemma forwarded_fields:
  "sc_cm (forwarded b s) = sc_cm s" "sc_tm (forwarded b s) = sc_tm s" "sc_freed (forwarded b s) = sc_freed s"
  "sc_acks (forwarded b s) = sc_acks s" "sc_tombs (forwarded b s) = sc_tombs s" "sc_finished (forwarded b s) = sc_finished s"
  "sc_last (forwarded b s) = sc_last s" "sc_rebuild (forwarded b s) = sc_rebuild s"
  "sc_max_seq_len (forwarded b s) = sc_max_seq_len s"
  "sc_objs (forwarded b s) = union_reqs (sc_objs s) (sent (map complete_one (b_reqs b)))"
  "sc_pend (forwarded b s) = map (\<lambda>p. p\<lparr>p_chunked := map_option (\<lambda>c.
     case find (\<lambda>r. r_chunked r \<and> r_uid r = r_uid c) (map complete_one (b_reqs b)) of Some r \<Rightarrow> r | None \<Rightarrow> c) (p_chunked p)\<rparr>) (sc_pend s)"
  "sc_out (forwarded b s) = sc_out s @ (if is_prefill b then map (\<lambda>(uid, n, c). PromptAdmittedMsg uid n c) (b_prompt_admissions b) else [])"
  "sc_running (forwarded b s) = map r_uid (filter can_decode (union_reqs (map (obj (forwarded b s)) (sc_running s)) (map complete_one (b_reqs b))))"
  by (simp_all add: forwarded_def forward_def report_prompt_admissions_def send_result_def store_reqs_def Let_def sent_def
      filter_reqs_def dm_of_def obj_eta)

lemma forward_snd: "forward b (report_prompt_admissions b s) = (b\<lparr>b_reqs := map complete_one (b_reqs b)\<rparr>, forwarded b s)"
  by (simp add: forwarded_def forward_def Let_def)

lemma can_decode_complete: "can_decode (complete_one r) \<longleftrightarrow> \<not> r_chunked r \<and> r_device_len r + 1 < r_max_device_len r"
  by (auto simp: can_decode_def remain_len_def complete_one_def)

context loop_client
begin

definition launch_ok :: "nat \<Rightarrow> ('c, 'h) sched_env \<Rightarrow> ('c, 'h) sched \<Rightarrow> 'h req list \<Rightarrow> int list \<Rightarrow> 'h req list \<Rightarrow> ('c, 'h) sched \<Rightarrow> bool" where
  "launch_ok W env s L got Ob s' \<longleftrightarrow>
     sched_shape W s' L (sc_finished s) Ob [] \<and> smem W env s' (holders s' L) \<and> lazy_free_list (sc_cm s') = None \<and>
     log_inv s' Ob [] got \<and> shared s' Ob \<and> uids Ob \<subseteq> set got \<and>
     sc_finished s' = sc_finished s \<and> sc_last s' = sc_last s \<and> sc_rebuild s' = sc_rebuild s"

text \<open>The objects of the running uids.\<close>

lemma running_objs:
  assumes S: "sched_shape W s L F Ob nf" and v: "v \<in> set (sc_running s)"
  shows "obj s v \<in> set (live s)" "r_uid (obj s v) = v"
proof -
  note D = shapeD[OF S]
  obtain r where r: "r \<in> set (live s)" "r_uid r = v" using D(7) v by blast
  then have "obj s v = r" using obj_eq[OF D(1)] live_subset by blast
  then show "obj s v \<in> set (live s)" "r_uid (obj s v) = v" using r by simp_all
qed

lemma running_split:
  assumes S: "sched_shape W s L F Ob nf"
  shows "mset (live s) = mset (sort_key r_uid (map (obj s) (sc_running s))) + mset (filter (\<lambda>r. r_uid r \<notin> set (sc_running s)) (live s))"
proof -
  note D = shapeD[OF S]
  have dl: "distinct (map r_uid (live s))" using D(1) by (simp add: live_def distinct_map_filter)
  have "r \<in> obj s ` set (sc_running s)" if "r \<in> set (live s)" "r_uid r \<in> set (sc_running s)" for r
    using obj_eq[OF D(1), of r "r_uid r"] live_subset[OF that(1)] that(2) by (metis image_eqI)
  then have "set (map (obj s) (sc_running s)) = set (filter (\<lambda>r. r_uid r \<in> set (sc_running s)) (live s))"
    using running_objs[OF S] by auto
  moreover have "distinct (map (obj s) (sc_running s))"
    using D(6) running_objs(2)[OF S] by (simp add: distinct_map) (metis inj_onI)
  moreover have "distinct (filter (\<lambda>r. r_uid r \<in> set (sc_running s)) (live s))"
    using dl by (simp add: distinct_map)
  ultimately have "mset (map (obj s) (sc_running s)) = mset (filter (\<lambda>r. r_uid r \<in> set (sc_running s)) (live s))"
    using set_eq_iff_mset_eq_distinct by blast
  then have "mset (sort_key r_uid (map (obj s) (sc_running s))) = filter_mset (\<lambda>r. r_uid r \<in> set (sc_running s)) (mset (live s))" by simp
  then show ?thesis unfolding mset_filter by (simp add: multiset_partition[of "mset (live s)" "\<lambda>r. r_uid r \<in> set (sc_running s)", symmetric])
qed

lemma running_ready:
  assumes S: "sched_shape W s L F [] []" and v: "v \<in> set (sc_running s)"
  shows "live_ok W (flights L [] v) (obj s v)" "r_device_len (obj s v) < r_max_device_len (obj s v)" "\<not> r_aborted (obj s v)"
    "\<not> r_chunked (obj s v)" "r_max_device_len (obj s v) \<le> W" "r_cached_len (obj s v) \<le> length (r_input_ids (obj s v))"
proof -
  note D = shapeD[OF S] and o = running_objs[OF S v]
  show ok: "live_ok W (flights L [] v) (obj s v)" using D(8)[OF o(1)] o(2) by simp
  show "r_device_len (obj s v) < r_max_device_len (obj s v)" "\<not> r_aborted (obj s v)" using D(9)[OF o(1)] o(2) v by simp_all
  show "\<not> r_chunked (obj s v)" using D(5) live_subset[OF o(1)] by blast
  show "r_max_device_len (obj s v) \<le> W" using ok by (simp add: live_ok_def)
  have "flights L [] v \<le> 1" by (simp add: flights_def nc_def)
  then show "r_cached_len (obj s v) \<le> length (r_input_ids (obj s v))" using ok by (simp add: live_ok_def)
qed

definition bump :: "'h req \<Rightarrow> 'h req" where
  "bump r = r\<lparr>r_decode_idx := r_decode_idx r + 1\<rparr>"

lemma bump_simps [simp]:
  "r_uid (bump r) = r_uid r" "r_table_idx (bump r) = r_table_idx r" "r_handle (bump r) = r_handle r"
  "r_mm (bump r) = r_mm r" "r_chunked (bump r) = r_chunked r" "r_aborted (bump r) = r_aborted r"
  "r_input_ids (bump r) = r_input_ids r" "r_cached_len (bump r) = r_cached_len r"
  "r_device_len (bump r) = r_device_len r" "r_max_device_len (bump r) = r_max_device_len r"
  "r_allocated_len (bump r) = r_allocated_len r"
  by (simp_all add: bump_def)

text \<open>A forward of running requests, with what it stores.\<close>

lemma stored_decode:
  assumes S: "sched_shape W s L F [] []" and F: "F = sc_finished s" and G: "log_inv s [] [] got"
    and s2: "s2 = s\<lparr>sc_cm := cm\<rparr>" and b: "b_phase b1 = Decode"
    and e: "map complete_one (b_reqs b1) = rs" and rs: "rs = map (\<lambda>r. post (bump r)) (sort_key r_uid (map (obj s) (sc_running s)))"
  shows "sched_shape W (forwarded b1 s2) L F rs []"
    "live (forwarded b1 s2) = filter (\<lambda>r. r_uid r \<notin> set (sc_running s)) (live s) @ rs"
    "log_inv (forwarded b1 s2) rs [] got"
    "sc_pend (forwarded b1 s2) = sc_pend s" "uids rs \<subseteq> set got"
    "\<forall>x\<in>set rs. \<not> r_chunked x"
proof -
  note D = shapeD[OF S]
  let ?run = "sc_running s" and ?s' = "forwarded b1 s2"
  have mem: "x \<in> set rs \<longleftrightarrow> (\<exists>v\<in>set ?run. x = post (bump (obj s v)))" for x unfolding rs by auto
  have uo: "r_uid (obj s v) = v" if "v \<in> set ?run" for v using running_objs(2)[OF S that] .
  note R = running_ready[OF S]
  show nch: "\<forall>x\<in>set rs. \<not> r_chunked x" using mem R(4) by auto
  then have st: "sent rs = rs" by (simp add: sent_def filter_id_conv)
  have u: "uids rs = set ?run" using mem uo by (force simp: uids_def)
  have "mset (map r_uid rs) = mset (map r_uid (map (obj s) ?run))"
    unfolding rs by (simp add: o_def multiset.map_comp)
  also have "map r_uid (map (obj s) ?run) = ?run" using uo by (simp add: map_idI)
  finally have du: "distinct (map r_uid rs)" using D(6) mset_eq_imp_distinct_iff by blast
  have pend: "sc_pend ?s' = sc_pend s"
  proof -
    have "find (\<lambda>r. r_chunked r \<and> r_uid r = w) rs = None" for w using nch by (auto simp: find_None_iff)
    then show ?thesis unfolding forwarded_fields s2 e by (simp add: option.map_ident map_idI)
  qed
  then show "sc_pend ?s' = sc_pend s" .
  have fr: "sc_freed ?s' = sc_freed s" by (simp add: forwarded_fields s2)
  have ob: "sc_objs ?s' = filter (\<lambda>r. r_uid r \<notin> uids (sent rs)) (sc_objs s) @ sent rs"
    by (simp add: forwarded_fields s2 e union_reqs_def st uids_def)
  have ru: "set ?run \<subseteq> r_uid ` set (sc_objs s)" using D(7) live_subset by blast
  have nf: "set ?run \<inter> set (sc_freed s) = {}" using D(7) live_subset by force
  have upd: "set ?run \<inter> p_uid ` set (sc_pend s) = {}" using ru D(3) by blast
  have doo: "distinct (map r_uid (sc_objs ?s'))"
    using D(1) du unfolding ob st by (auto simp: distinct_map_filter uids_def)
  have ov: "obj ?s' v = post (bump (obj s v))" if "v \<in> set ?run" for v
  proof (rule obj_eq[OF doo])
    show "post (bump (obj s v)) \<in> set (sc_objs ?s')" using mem that unfolding ob st by auto
    show "r_uid (post (bump (obj s v))) = v" using uo[OF that] by simp
  qed
  have run: "sc_running ?s' = map r_uid (filter can_decode (union_reqs (map (obj ?s') ?run) rs))"
    using forwarded_fields(13)[of b1 s2] unfolding s2 e by simp
  have rn: "distinct (sc_running ?s')" "set (sc_running ?s') = (set ?run - uids (sent rs)) \<union>
       {u. \<exists>r\<in>set (sent rs). r_uid r = u \<and> r_device_len r < r_max_device_len r}"
    unfolding run using running_launched[OF D(6) du, of "obj ?s'"] ov uo u nch by auto
  have ok: "\<forall>r\<in>set (sent rs). live_ok W (Suc (flights L [] (r_uid r))) r"
  proof
    fix r assume "r \<in> set (sent rs)"
    then obtain v where v: "v \<in> set ?run" "r = post (bump (obj s v))" using mem unfolding st by blast
    then show "live_ok W (Suc (flights L [] (r_uid r))) r" using R(1,2)[OF v(1)] uo[OF v(1)] by (simp add: live_ok_def)
  qed
  have na: "\<forall>x\<in>set rs. \<not> r_aborted x" using mem R(3) by auto
  have p1: "p_uid ` set (sc_pend s) \<inter> (r_uid ` set (sc_objs s) \<union> set ?run) = {}"
    and p2: "set ?run \<union> p_uid ` set (sc_pend s) \<subseteq> r_uid ` set (sc_objs s) \<union> p_uid ` set (sc_pend s)"
    using D(3) upd ru by blast+
  note SL = shape_launch[of W s L F rs ?s', OF S du na ok _ ob fr _ _ _ _ rn, unfolded st u]
  have SL': "sched_shape W ?s' L F rs []" "live ?s' = filter (\<lambda>r. r_uid r \<notin> set ?run) (live s) @ rs"
    using SL D(2,4) nf p1 p2 unfolding pend by (auto simp: Int_commute)
  show "sched_shape W ?s' L F rs []" by (rule SL'(1))
  show lv: "live ?s' = filter (\<lambda>r. r_uid r \<notin> set ?run) (live s) @ rs" by (rule SL'(2))
  have lu: "r_uid ` set (live ?s') = r_uid ` set (live s)"
  proof -
    have "r_uid ` set rs = set ?run" using u by (simp add: uids_def)
    then show ?thesis unfolding lv using D(7) by (auto simp: image_Un)
  qed
  have ou: "r_uid ` set (sc_objs ?s') = r_uid ` set (sc_objs s)"
    unfolding ob st using ru u by (auto simp: image_Un uids_def)
  show "log_inv ?s' rs [] got"
  proof (rule log_launch[OF G, where ms = "[]"])
    show "sc_out ?s' = sc_out s @ []" using b by (simp add: forwarded_fields s2 is_prefill_def)
    show "nc rs \<union> set (sc_running ?s') \<subseteq> p_uid ` set (sc_pend s) \<union> set ?run"
      unfolding nc_sent st rn(2) u using u by (auto simp: uids_def)
    show "r \<in> set (live s)" if "r \<in> set (live ?s')" "r_aborted r" for r
      using that na unfolding lv by auto
  qed (simp_all add: forwarded_fields(4,5) s2 lu[unfolded s2] ou[unfolded s2] pend[unfolded s2])
  show "uids rs \<subseteq> set got" using ru log_invD(11)[OF G] unfolding u by blast
qed

lemma needed_pages_bump: "needed_pages ps (map bump Q) = needed_pages ps Q"
  by (simp add: needed_pages_def allocation_info_def filter_map o_def page_span_def)

lemma shared_unchunked: "\<forall>x\<in>set B. \<not> r_chunked x \<Longrightarrow> shared s B"
  by (simp add: shared_def)

lemma minv_bump: "minv cm (Q @ R) \<Longrightarrow> minv cm (map bump Q @ R)"
proof (rule minv_map)
  fix r and R' :: "'h req list"
  assume m: "minv cm (r # R')"
  have "r_cached_len r \<le> length (r_input_ids r)" using minvD(4)[OF m, of r] by (simp add: req_mem_def Let_def)
  then show "minv cm (bump r # R')" by (intro minv_advance[OF m]) simp_all
qed

lemma launch_decode:
  assumes S: "sched_shape W s L (sc_finished s) [] []" and m: "smem W env s (holders s L)"
    and lz: "lazy_free_list (sc_cm s) = None" and G: "log_inv s [] [] got" and b: "schedule_decode_batch s = Some b"
  shows "prepare_batch env b s = Inl AssertionError \<and> short ops b s \<or>
    (\<exists>b1 s2. prepare_batch env b s = Inr (b1, s2) \<and> b_phase b1 = Decode \<and>
       launch_ok W env s L got (map complete_one (b_reqs b1)) (forwarded b1 s2))"
proof -
  note D = shapeD[OF S]
  let ?run = "sc_running s"
  let ?Q = "sort_key r_uid (map (obj s) ?run)" and ?X = "filter (\<lambda>r. r_uid r \<notin> set ?run) (live s)"
  let ?R = "map clamp ?X @ chunks (sc_pend s) @ orphans L"
  have bb: "b = mk_batch ?Q Decode" using b
    by (simp add: schedule_decode_batch_def dm_schedule_next_batch_def dm_of_def split: if_splits)
  have o: "en_ops env = ops" using m by (simp add: sched_mem_def)
  note Rn = running_ready[OF S]
  have cl: "map clamp ?Q = ?Q" using Rn(6) by (intro map_idI) (auto intro: clamp_id)
  have "mset (map clamp (live s)) = mset (map clamp ?Q) + mset (map clamp ?X)"
    using arg_cong[OF running_split[OF S], of "image_mset clamp"] by simp
  then have "mset (holders s L) = mset (?Q @ ?R)" unfolding holders_def cl by simp
  then have mQ: "smem W env s (?Q @ ?R)" using m smem_perm by blast
  then have mi: "minv (sc_cm s) (map bump ?Q @ ?R)" by (intro minv_bump) (simp add: sched_mem_def)
  have len: "\<forall>r\<in>set (map bump ?Q). r_device_len r \<le> W \<and> r_cached_len r \<le> r_device_len r"
    using Rn(1,2,5) by (fastforce simp: live_ok_def)
  have rw: "rows_ok W (sc_cm s) (sc_tm s)" "page_size (sc_cm s) dvd W" using m by (simp_all add: sched_mem_def)
  note A = alloc_step[OF mi lz rw len]
  have be: "bump = (\<lambda>r. r\<lparr>r_decode_idx := r_decode_idx r + 1\<rparr>)" by (rule ext) (simp add: bump_def)
  have run: "prepare_batch env b s = res_bind (allocate_paged ops (map bump ?Q) (sc_cm s))
      (\<lambda>(reqs', cm). Inr (b\<lparr>b_reqs := reqs'\<rparr>, s\<lparr>sc_cm := cm\<rparr>))"
    by (simp add: prepare_batch_def bb mk_batch_def is_decode_def o be)
  show ?thesis
  proof (cases "int (needed_pages (page_size (sc_cm s)) (map bump ?Q) * page_size (sc_cm s)) \<le> cm_available_size ops (sc_cm s)")
    case False
    then have "short ops b s" by (simp add: short_def bb mk_batch_def needed_pages_bump)
    then show ?thesis using A False unfolding run by simp
  next
    case True
    then obtain cm where cm: "allocate_paged ops (map bump ?Q) (sc_cm s) = Inr (map note_allocated (map bump ?Q), cm)"
      "minv cm (map (\<lambda>r. clamp (post r)) (map bump ?Q) @ ?R)" "lazy_free_list cm = None"
      "page_size cm = page_size (sc_cm s)" "rows_ok W cm (sc_tm s)" using A by auto
    let ?b1 = "b\<lparr>b_reqs := map note_allocated (map bump ?Q)\<rparr>" and ?s2 = "s\<lparr>sc_cm := cm\<rparr>"
    let ?rs = "map (\<lambda>r. post (bump r)) ?Q" and ?s' = "forwarded ?b1 ?s2"
    have ph: "b_phase ?b1 = Decode" by (simp add: bb mk_batch_def)
    have e: "map complete_one (b_reqs ?b1) = ?rs" by (simp add: post_def)
    note T = stored_decode[OF S refl G refl ph e refl]
    have f: "sc_cm ?s' = cm" "sc_tm ?s' = sc_tm s" "sc_max_seq_len ?s' = sc_max_seq_len s" "sc_finished ?s' = sc_finished s"
      "sc_last ?s' = sc_last s" "sc_rebuild ?s' = sc_rebuild s"
      by (simp_all add: forwarded_fields)
    have h: "mset (holders ?s' L) = mset (map (\<lambda>r. clamp (post r)) (map bump ?Q) @ ?R)"
      unfolding holders_def T(2,4) by (simp add: multiset.map_comp o_def)
    have idx: "r_table_idx ` set (map (\<lambda>r. clamp (post r)) (map bump ?Q) @ ?R) = r_table_idx ` set (?Q @ ?R)"
      by (simp only: set_append image_Un list.set_map image_image post_simps bump_simps clamp_simps)
    have "smem W env ?s' (map (\<lambda>r. clamp (post r)) (map bump ?Q) @ ?R)"
      using mQ cm(2,4,5) unfolding sched_mem_def f idx by simp
    then have "smem W env ?s' (holders ?s' L)" using smem_perm[OF h] by blast
    then have "launch_ok W env s L got ?rs ?s'"
      using T(1,3,5) f cm(3) shared_unchunked[OF T(6), of ?s'] by (simp add: launch_ok_def)
    moreover have "prepare_batch env b s = Inr (?b1, ?s2)" unfolding run cm(1) by simp
    ultimately show ?thesis using ph e by metis
  qed
qed

end

section \<open>The entries of a prefill batch\<close>

lemma chunked_entries_Cons:
  "chunked_entries (p # ps) (r # rs) = (if r_chunked r then [p\<lparr>p_chunked := Some r\<rparr>] else []) @ chunked_entries ps rs"
  by (simp add: chunked_entries_def)

lemma chunked_entries_facts:
  assumes "list_all2 admits dn Q"
  shows "map p_uid (chunked_entries dn Q) = map r_uid (filter r_chunked Q)"
    "chunks (chunked_entries dn (map post Q)) = map post (filter r_chunked Q)"
    "map p_uid dn = map r_uid Q"
    "map p_uid (chunked_entries dn (map post Q)) = map p_uid (chunked_entries dn Q)"
proof -
  have "map p_uid (chunked_entries dn Q) = map r_uid (filter r_chunked Q) \<and>
    chunks (chunked_entries dn (map post Q)) = map post (filter r_chunked Q) \<and> map p_uid dn = map r_uid Q \<and>
    map p_uid (chunked_entries dn (map post Q)) = map p_uid (chunked_entries dn Q)"
    using assms
  proof (induction rule: list_all2_induct)
    case Nil
    show ?case by (simp add: chunked_entries_def)
  next
    case (Cons p ps r rs)
    then show ?case by (simp add: chunked_entries_Cons admits_def)
  qed
  then show "map p_uid (chunked_entries dn Q) = map r_uid (filter r_chunked Q)"
    "chunks (chunked_entries dn (map post Q)) = map post (filter r_chunked Q)" "map p_uid dn = map r_uid Q"
    "map p_uid (chunked_entries dn (map post Q)) = map p_uid (chunked_entries dn Q)" by simp_all
qed

lemma find_post:
  "distinct (map r_uid Q) \<Longrightarrow> r \<in> set Q \<Longrightarrow> r_chunked r \<Longrightarrow>
   find (\<lambda>x. r_chunked x \<and> r_uid x = r_uid r) (map post Q) = Some (post r)"
  by (induction Q) (auto simp: image_iff)

lemma find_post_None: "u \<notin> uids Q \<Longrightarrow> find (\<lambda>x. r_chunked x \<and> r_uid x = u) (map post Q) = None"
  by (induction Q) auto

lemma store_chunks:
  assumes d: "distinct (map r_uid Q)" and l: "length dn = length Q"
    and rest: "\<forall>p\<in>set rest. \<forall>c. p_chunked p = Some c \<longrightarrow> r_uid c \<notin> uids Q"
  shows "map (\<lambda>p. p\<lparr>p_chunked := map_option (\<lambda>c. case find (\<lambda>r. r_chunked r \<and> r_uid r = r_uid c) (map post Q) of
       Some r \<Rightarrow> r | None \<Rightarrow> c) (p_chunked p)\<rparr>) (chunked_entries dn Q @ rest) = chunked_entries dn (map post Q) @ rest"
    (is "map ?f _ = _")
proof -
  have "?f (p\<lparr>p_chunked := Some r\<rparr>) = p\<lparr>p_chunked := Some (post r)\<rparr>" if "r \<in> set Q" "r_chunked r" for p r
    using find_post[OF d that] by simp
  then have "map ?f (chunked_entries ps rs) = chunked_entries ps (map post rs)" if "set rs \<subseteq> set Q" for ps rs
    using that
  proof (induction rs arbitrary: ps)
    case (Cons r rs)
    then show ?case by (cases ps) (simp_all add: chunked_entries_Cons, simp_all add: chunked_entries_def)
  qed (simp add: chunked_entries_def)
  moreover have "map ?f rest = rest"
  proof (rule map_idI)
    fix p assume p: "p \<in> set rest"
    show "?f p = p"
    proof (cases "p_chunked p")
      case (Some c)
      then have "r_uid c \<notin> uids Q" using rest p by blast
      then have "find (\<lambda>r. r_chunked r \<and> r_uid r = r_uid c) (map post Q) = None"
        by (rule find_post_None)
      then show ?thesis using Some by (cases p) simp
    qed (cases p, simp)
  qed
  ultimately show ?thesis by simp
qed

lemma prefill_loop_admissions:
  "prefill_loop ad tic ps a m tm acc = Inr (acc', a', m', tm') \<Longrightarrow>
   fst ` set (pa_admissions acc) \<subseteq> uids (pa_reqs acc) \<Longrightarrow> fst ` set (pa_admissions acc') \<subseteq> uids (pa_reqs acc')"
proof (induction ps arbitrary: a m tm acc)
  case (Cons p ps)
  obtain got a1 m1 tm1 where t: "try_add_one ad tic p a m tm = Inr (got, a1, m1, tm1)"
    using Cons.prems by (auto simp: res_bind_eq_Inr)
  show ?case
  proof (cases got)
    case None
    then have "acc' = acc\<lparr>pa_remaining := pa_remaining acc @ p # ps\<rparr>" using Cons.prems(1) t by simp
    then show ?thesis using Cons.prems(2) by simp
  next
    case (Some r)
    obtain acc1 where l: "prefill_loop ad tic ps a1 m1 tm1 acc1 = Inr (acc', a', m', tm')"
      "pa_reqs acc1 = pa_reqs acc @ [r]"
      "pa_admissions acc1 = pa_admissions acc @ (if p_chunked p = None then [(r_uid r, input_len p, r_cached_len r)] else [])"
      using Cons.prems(1) t Some by (auto simp: Let_def)
    have "fst ` set (pa_admissions acc1) \<subseteq> uids (pa_reqs acc1)" using l(2,3) Cons.prems(2) by auto
    then show ?thesis using Cons.IH[OF l(1)] by simp
  qed
qed simp

lemma schedule_admissions:
  assumes "pm_schedule_next_batch ad tic budget d pend m tm = Inr (Some b, pend', m', tm')"
  shows "fst ` set (b_prompt_admissions b) \<subseteq> uids (b_reqs b)"
proof -
  let ?acc = "\<lparr>pa_reqs = [], pa_chunked = [], pa_remaining = [], pa_admissions = [], pa_new = 0, pa_cached = 0\<rparr>"
  obtain acc' a' where "prefill_loop ad tic pend (mk_adder budget (inflight_tokens d)) m tm ?acc = Inr (acc', a', m', tm')"
    "b_reqs b = pa_reqs acc'" "b_prompt_admissions b = pa_admissions acc'"
    using assms by (auto simp: pm_schedule_next_batch_def res_bind_eq_Inr mk_batch_def split: if_splits)
  then show ?thesis using prefill_loop_admissions[of ad tic pend _ m tm ?acc acc' a' m' tm'] by simp
qed

text \<open>One pending entry and the request made from it.\<close>

lemma prefill_entry:
  assumes d: "distinct (map p_uid pend)" and p: "p \<in> set pend" "pend_good W p" "admits p r" and r: "prefix_of pend r"
  shows "length (r_input_ids r) \<le> input_len p" "r_input_ids r = take (length (r_input_ids r)) (p_input_ids p)"
    "r_chunked r \<longleftrightarrow> length (r_input_ids r) < input_len p" "r_device_len r = length (r_input_ids r)"
    "int (r_max_device_len r) = int (length (r_input_ids r)) + output_len p" "r_max_device_len r \<le> W"
    "\<not> r_aborted r" "r_uid r = p_uid p" "r_mm r = p_mm p" "1 \<le> output_len p"
proof -
  obtain q where q: "q \<in> set pend" "r_uid r = p_uid q" "r_input_ids r = take (length (r_input_ids r)) (p_input_ids q)"
    "r_chunked r \<longleftrightarrow> length (r_input_ids r) < input_len q" using r by (auto simp: prefix_of_def)
  have "q = p" using d q(1,2) p(1,3) by (simp add: distinct_map inj_on_def admits_def)
  then show t: "r_input_ids r = take (length (r_input_ids r)) (p_input_ids p)"
    "r_chunked r \<longleftrightarrow> length (r_input_ids r) < input_len p" using q by simp_all
  have "length (r_input_ids r) \<le> length (p_input_ids p)" using arg_cong[OF t(1), of length] by simp
  then show le: "length (r_input_ids r) \<le> input_len p" by (simp add: input_len_def)
  show "r_device_len r = length (r_input_ids r)" "\<not> r_aborted r" "r_uid r = p_uid p" "r_mm r = p_mm p"
    using p(3) by (simp_all add: admits_def)
  show o: "1 \<le> output_len p" using p(2) by (simp add: pend_good_def)
  show mx: "int (r_max_device_len r) = int (length (r_input_ids r)) + output_len p"
    using p(3) o by (simp add: admits_def)
  show "r_max_device_len r \<le> W" using mx le p(2) by (simp add: pend_good_def)
qed

lemma uids_post [simp]: "uids (map post Q) = uids Q"
  unfolding uids_def by (simp add: image_image)

lemma sent_post: "sent (map post Q) = map post (sent Q)"
  by (simp add: sent_def filter_map o_def)

lemma pend_good_chunk:
  assumes d: "distinct (map p_uid pend)" and p: "p \<in> set pend" "pend_good W p" "admits p r" and r: "prefix_of pend r"
    and c: "r_chunked r"
  shows "pend_good W (p\<lparr>p_chunked := Some (post r)\<rparr>)"
proof -
  note E = prefill_entry[OF d p r]
  show ?thesis using E p(2) c by (auto simp: pend_good_def pend_ok_def input_len_def output_len_def)
qed

context loop_client
begin

lemma stored_prefill:
  assumes S: "sched_shape W s L F [] []" and G: "log_inv s [] [] got"
    and pd: "sc_pend s = dn @ rest" and ad: "list_all2 admits dn Q" and px: "\<forall>r\<in>set Q. prefix_of (sc_pend s) r"
    and s2: "s2 = s\<lparr>sc_pend := chunked_entries dn Q @ rest, sc_cm := cm, sc_tm := tm, sc_ticks := n\<rparr>"
    and b: "b_phase b1 = Prefill" "fst ` set (b_prompt_admissions b1) \<subseteq> uids Q"
    and e: "map complete_one (b_reqs b1) = map post Q"
  shows "sched_shape W (forwarded b1 s2) L F (map post Q) []"
    "live (forwarded b1 s2) = live s @ sent (map post Q)"
    "log_inv (forwarded b1 s2) (map post Q) [] got"
    "sc_pend (forwarded b1 s2) = chunked_entries dn (map post Q) @ rest" "uids Q \<subseteq> set got"
    "shared (forwarded b1 s2) (map post Q)"
proof -
  note D = shapeD[OF S]
  note C = chunked_entries_facts[OF ad]
  let ?run = "sc_running s" and ?rs = "map post Q" and ?s' = "forwarded b1 s2"
  have ll: "length dn = length Q" using ad by (rule list_all2_lengthD)
  have dd: "distinct (map p_uid dn)" "distinct (map p_uid rest)" "p_uid ` set dn \<inter> p_uid ` set rest = {}"
    using D(2) unfolding pd by auto
  have du: "distinct (map r_uid Q)" using dd(1) C(3) by simp
  have uq: "uids Q = p_uid ` set dn" using C(3) unfolding uids_def by (metis list.set_map)
  have up: "p_uid ` set (sc_pend s) = uids Q \<union> p_uid ` set rest" unfolding pd uq by auto
  have uo: "uids Q \<inter> r_uid ` set (sc_objs s) = {}" using D(3) unfolding up by blast
  have entry: "\<exists>p\<in>set dn. admits p r" if "r \<in> set Q" for r
    using ad that by (metis in_set_conv_nth list_all2_conv_all_nth nth_mem)
  have E: "\<exists>p\<in>set (sc_pend s). admits p r \<and> pend_good W p" if "r \<in> set Q" for r
    using entry[OF that] D(4) unfolding pd by auto
  have crest: "\<forall>p\<in>set rest. \<forall>c. p_chunked p = Some c \<longrightarrow> r_uid c \<notin> uids Q"
  proof (intro ballI allI impI)
    fix p c assume p: "p \<in> set rest" "p_chunked p = Some c"
    then have "pend_good W p" using D(4) unfolding pd by simp
    then have "r_uid c = p_uid p" using p(2) by (simp add: pend_good_def)
    then show "r_uid c \<notin> uids Q" using dd(3) p(1) unfolding uq by auto
  qed
  show pend: "sc_pend ?s' = chunked_entries dn ?rs @ rest"
    unfolding forwarded_fields(11) e using store_chunks[OF du ll crest] by (simp add: s2)
  have fr: "sc_freed ?s' = sc_freed s" by (simp add: forwarded_fields s2)
  have us: "uids (sent ?rs) \<subseteq> uids Q" unfolding uids_post[of Q, symmetric] by (auto simp: uids_def sent_def)
  have ns: "r_uid r \<notin> uids (sent ?rs)" if "r \<in> set (sc_objs s)" for r using that us uo by blast
  have ob': "sc_objs ?s' = sc_objs s @ sent ?rs"
    unfolding forwarded_fields(10) e union_reqs_def uids_def[symmetric] using ns by (simp add: s2 filter_id_conv)
  have ob: "sc_objs ?s' = filter (\<lambda>r. r_uid r \<notin> uids (sent ?rs)) (sc_objs s) @ sent ?rs"
    unfolding ob' using ns by (simp add: filter_id_conv)
  have ru: "set ?run \<subseteq> r_uid ` set (sc_objs s)" using D(7) live_subset by blast
  have nr: "u \<notin> set ?run" if "u \<in> uids Q" for u using that ru uo by blast
  have dr: "distinct (map r_uid ?rs)" using du by (simp add: o_def)
  have doo: "distinct (map r_uid (sc_objs ?s'))"
    unfolding ob' using D(1) dr us uo by (auto simp: uids_def sent_def distinct_map_filter)
  have ov: "obj ?s' v = obj s v" if v: "v \<in> set ?run" for v
    using running_objs[OF S v] live_subset by (intro obj_eq[OF doo]) (auto simp: ob')
  have run: "sc_running ?s' = map r_uid (filter can_decode (union_reqs (map (obj ?s') ?run) ?rs))"
    using forwarded_fields(13)[of b1 s2] unfolding s2 e by simp
  have cd: "can_decode (obj s v)" if "v \<in> set ?run" for v
    using running_ready(2,4)[OF S that] by (simp add: can_decode_def remain_len_def)
  have rn: "distinct (sc_running ?s')" "set (sc_running ?s') = (set ?run - uids (sent ?rs)) \<union>
       {u. \<exists>r\<in>set (sent ?rs). r_uid r = u \<and> r_device_len r < r_max_device_len r}"
    unfolding run by (rule running_launched[OF D(6) dr]; use ov running_objs(2)[OF S] cd nr in \<open>auto simp: uids_def\<close>)+
  have na: "\<forall>x\<in>set ?rs. \<not> r_aborted x" using E by (auto simp: admits_def)
  have f0: "flights L [] u = 0" if "u \<in> uids Q" for u
    using that D(13) uo by (auto simp: flights_def nc_def)
  have ok: "\<forall>r\<in>set (sent ?rs). live_ok W (Suc (flights L [] (r_uid r))) r"
  proof
    fix r assume "r \<in> set (sent ?rs)"
    then obtain q where q: "q \<in> set Q" "r = post q" "\<not> r_chunked q" by (auto simp: sent_def)
    obtain p where p: "p \<in> set (sc_pend s)" "admits p q" "pend_good W p" using E[OF q(1)] by blast
    note P = prefill_entry[OF D(2) p(1,3,2) px[rule_format, OF q(1)]]
    have "flights L [] (r_uid q) = 0" using q(1) by (intro f0) (simp add: uids_def)
    then show "live_ok W (Suc (flights L [] (r_uid r))) r" using P q(2) by (simp add: live_ok_def)
  qed
  have nfr: "uids (sent ?rs) \<inter> set (sc_freed s) = {}" using us uo D(21) by blast
  have cu: "p_uid ` set (chunked_entries dn ?rs) \<subseteq> uids Q - uids (sent ?rs)"
  proof -
    have "p_uid ` set (chunked_entries dn ?rs) = uids (filter r_chunked Q)" using C(1,4) unfolding uids_def by (metis list.set_map)
    moreover have "uids (filter r_chunked Q) \<inter> uids (sent Q) = {}"
      using du by (fastforce simp: uids_def sent_def distinct_map dest: inj_onD)
    ultimately show ?thesis unfolding sent_post by (auto simp: uids_def)
  qed
  have p1: "distinct (map p_uid (sc_pend ?s'))"
  proof -
    have "distinct (map p_uid (chunked_entries dn ?rs))" using C(1,4) du by (simp add: distinct_map_filter)
    moreover have "p_uid ` set (chunked_entries dn ?rs) \<inter> p_uid ` set rest = {}" using cu dd(3) unfolding uq by blast
    ultimately show ?thesis unfolding pend map_append distinct_append list.set_map using dd(2) by blast
  qed
  have p2: "\<forall>p\<in>set (sc_pend ?s'). pend_good W p"
  proof
    fix p assume "p \<in> set (sc_pend ?s')"
    then consider "p \<in> set rest" | "p \<in> set (chunked_entries dn ?rs)" unfolding pend by auto
    then show "pend_good W p"
    proof cases
      case 1
      then show ?thesis using D(4) pd by simp
    next
      case 2
      then obtain q r where qr: "(q, r) \<in> set (zip dn Q)" "r_chunked r" "p = q\<lparr>p_chunked := Some (post r)\<rparr>"
        by (auto simp: chunked_entries_def zip_map2)
      have a: "admits q r" using ad qr(1) by (auto simp: list_all2_iff)
      have q: "q \<in> set (sc_pend s)" "r \<in> set Q" using qr(1) pd by (auto dest: set_zip_leftD set_zip_rightD)
      show ?thesis unfolding qr(3) by (rule pend_good_chunk[OF D(2) q(1) D(4)[OF q(1)] a _ qr(2)]) (use px q(2) in blast)
    qed
  qed
  have p3: "p_uid ` set (sc_pend ?s') \<subseteq> p_uid ` set (sc_pend s)" unfolding pend up using cu by auto
  have p4: "p_uid ` set (sc_pend ?s') \<inter> (r_uid ` set (sc_objs s) \<union> uids (sent ?rs)) = {}"
  proof -
    have "p_uid ` set (sc_pend ?s') \<inter> r_uid ` set (sc_objs s) = {}" using p3 D(3) by blast
    moreover have "p_uid ` set (sc_pend ?s') \<inter> uids (sent ?rs) = {}"
      unfolding pend set_append image_Un using cu us dd(3) unfolding uq by blast
    ultimately show ?thesis by blast
  qed
  have p5: "uids (sent ?rs) \<union> p_uid ` set (sc_pend ?s') \<subseteq> r_uid ` set (sc_objs s) \<union> p_uid ` set (sc_pend s)"
    using p3 us up by blast
  note SL = shape_launch[OF S dr na ok nfr ob fr p1 p2 p4 p5 rn]
  show "sched_shape W ?s' L F ?rs []" by (rule SL(1))
  have nl: "r_uid r \<notin> uids (sent ?rs)" if "r \<in> set (live s)" for r using ns live_subset[OF that] by blast
  show lv: "live ?s' = live s @ sent ?rs" unfolding SL(2) using nl by (simp add: filter_id_conv)
  show "uids Q \<subseteq> set got" using log_invD(12)[OF G] up by blast
  have cover: "uids Q \<subseteq> uids (sent ?rs) \<union> p_uid ` set (chunked_entries dn ?rs)"
  proof -
    have "p_uid ` set (chunked_entries dn ?rs) = uids (filter r_chunked Q)" using C(1,4) unfolding uids_def by (metis list.set_map)
    then show ?thesis unfolding sent_post uids_post by (auto simp: uids_def sent_def)
  qed
  show "log_inv ?s' ?rs [] got"
  proof (rule log_launch[OF G _ _ _ _ _ _ _ p3])
    let ?ms = "map (\<lambda>(uid, n, c). PromptAdmittedMsg uid n c) (b_prompt_admissions b1)"
    show "sc_out ?s' = sc_out s @ ?ms" using b(1) by (simp add: forwarded_fields s2 is_prefill_def)
    show "sc_acks ?s' = sc_acks s" "sc_tombs ?s' = sc_tombs s" by (simp_all add: forwarded_fields s2)
    show "\<not> is_terminal v m" if "m \<in> set ?ms" for m v using that by (auto simp: is_terminal_def)
    show "v \<in> p_uid ` set (sc_pend s)" if "m \<in> set ?ms" "is_progress v m" for m v
    proof -
      have "v \<in> fst ` set (b_prompt_admissions b1)" using that by (force simp: is_progress_def)
      then show ?thesis using b(2) up by blast
    qed
    have lu: "r_uid ` set (live ?s') = r_uid ` set (live s) \<union> uids (sent ?rs)" unfolding lv by (simp add: image_Un uids_def)
    have key: "A \<union> B \<union> (C \<union> U) = K \<union> B \<union> C" if "K \<subseteq> U \<union> A" "A \<subseteq> K" "U \<subseteq> K" for A B C U K :: "int set"
      using that by blast
    have "p_uid ` set (chunked_entries dn ?rs) \<subseteq> uids Q" using cu by blast
    from key[OF cover this us]
    show "p_uid ` set (sc_pend ?s') \<union> r_uid ` set (live ?s') = p_uid ` set (sc_pend s) \<union> r_uid ` set (live s)"
      unfolding pend set_append image_Un up lu .
    have "r_uid ` set (sc_objs ?s') = r_uid ` set (sc_objs s) \<union> uids (sent ?rs)" unfolding ob' by (simp add: image_Un uids_def)
    then show "r_uid ` set (sc_objs ?s') \<union> p_uid ` set (sc_pend ?s') \<subseteq> r_uid ` set (sc_objs s) \<union> p_uid ` set (sc_pend s)"
      using p5 by blast
    show "nc ?rs \<union> set (sc_running ?s') \<subseteq> p_uid ` set (sc_pend s) \<union> set ?run"
    proof -
      have "set (sc_running ?s') \<subseteq> set ?run \<union> uids (sent ?rs)" unfolding rn(2) by (auto simp: uids_def)
      then show ?thesis unfolding nc_sent using us up by blast
    qed
    show "r \<in> set (live s)" if "r \<in> set (live ?s')" "r_aborted r" for r
      using that na unfolding lv by (auto simp: sent_def)
  qed
  show "shared ?s' ?rs"
    unfolding shared_def
  proof (intro ballI impI)
    fix x p assume x: "x \<in> set ?rs" "r_chunked x" and p: "p \<in> set (sc_pend ?s')" "p_uid p = r_uid x"
    have xu: "r_uid x \<in> uids Q" using x(1) uids_post[of Q] unfolding uids_def by blast
    have "p \<notin> set rest" using p(2) xu dd(3) unfolding uq by (metis IntI empty_iff imageI)
    then have "p \<in> set (chunked_entries dn ?rs)" using p(1) unfolding pend by simp
    then obtain q r where qr: "(q, r) \<in> set (zip dn Q)" "p = q\<lparr>p_chunked := Some (post r)\<rparr>"
      by (auto simp: chunked_entries_def zip_map2)
    have "admits q r" using ad qr(1) by (auto simp: list_all2_iff)
    then have "r_uid (post r) = r_uid x" using p(2) qr(2) by (simp add: admits_def)
    moreover have "post r \<in> set ?rs" using qr(1) by (auto dest: set_zip_rightD)
    ultimately have "post r = x" using dr x(1) by (metis distinct_map inj_onD)
    then show "p_chunked p = Some x" using qr(2) by simp
  qed
qed

text \<open>From a scheduled prefill batch to its forward.\<close>

lemma launch_prefill:
  assumes S: "sched_shape W s L (sc_finished s) [] []" and lz: "lazy_free_list cm = None" and G: "log_inv s [] [] got"
    and env: "sc_max_seq_len s \<le> W" "en_ops env = ops" "inv (page_size cm) (en_fresh env) {#}" "slots (en_fresh env) = {#}"
      "page_size cm dvd W"
    and pd: "sc_pend s = dn @ rest" and ad: "list_all2 admits dn (b_reqs b)"
    and px: "\<forall>r\<in>set (b_reqs b). prefix_of (sc_pend s) r \<and> 0 < extend_len r"
    and b: "b_phase b = Prefill" "fst ` set (b_prompt_admissions b) \<subseteq> uids (b_reqs b)"
    and m: "minv cm (b_reqs b @ chunks rest @ map clamp (live s) @ orphans L)" "rows_ok W cm tm"
      "table_ok tm (r_table_idx ` set (b_reqs b @ chunks rest @ map clamp (live s) @ orphans L))"
    and s1: "s1 = s\<lparr>sc_pend := chunked_entries dn (b_reqs b) @ rest, sc_cm := cm, sc_tm := tm, sc_ticks := n\<rparr>"
  shows "prepare_batch env b s1 = Inl AssertionError \<and> short ops b s1 \<or>
    (\<exists>b1 s2. prepare_batch env b s1 = Inr (b1, s2) \<and>
       launch_ok W env s L got (map complete_one (b_reqs b1)) (forwarded b1 s2))"
proof -
  let ?Q = "b_reqs b" and ?R = "chunks rest @ map clamp (live s) @ orphans L"
  have D: "distinct (map p_uid (sc_pend s))" "\<And>p. p \<in> set (sc_pend s) \<Longrightarrow> pend_good W p"
    using shapeD(2,4)[OF S] by auto
  have entry: "\<exists>p\<in>set (sc_pend s). admits p r \<and> pend_good W p" if "r \<in> set ?Q" for r
    using ad that D(2) unfolding pd by (metis Un_iff in_set_conv_nth list_all2_conv_all_nth nth_mem set_append)
  have len: "\<forall>r\<in>set ?Q. r_device_len r \<le> W \<and> r_cached_len r \<le> r_device_len r"
  proof
    fix r assume r: "r \<in> set ?Q"
    obtain p where p: "p \<in> set (sc_pend s)" "admits p r" "pend_good W p" using entry[OF r] by blast
    have "prefix_of (sc_pend s) r" using px r by blast
    note P = prefill_entry[OF D(1) p(1,3,2) this]
    show "r_device_len r \<le> W \<and> r_cached_len r \<le> r_device_len r"
      using P(1,4,5,6,10) px r by (auto simp: extend_len_def)
  qed
  note A = alloc_step[OF m(1) lz m(2) env(5) len]
  have run: "prepare_batch env b s1 = res_bind (allocate_paged ops ?Q cm)
      (\<lambda>(reqs', cm'). Inr (b\<lparr>b_reqs := reqs'\<rparr>, s1\<lparr>sc_cm := cm'\<rparr>))"
    using b(1) by (simp add: prepare_batch_def is_decode_def env(2) s1)
  show ?thesis
  proof (cases "int (needed_pages (page_size cm) ?Q * page_size cm) \<le> cm_available_size ops cm")
    case False
    then have "short ops b s1" by (simp add: short_def s1)
    then show ?thesis using A False unfolding run by simp
  next
    case True
    then obtain cm' where cm': "allocate_paged ops ?Q cm = Inr (map note_allocated ?Q, cm')"
      "minv cm' (map (\<lambda>r. clamp (post r)) ?Q @ ?R)" "lazy_free_list cm' = None"
      "page_size cm' = page_size cm" "rows_ok W cm' tm" using A by auto
    let ?b1 = "b\<lparr>b_reqs := map note_allocated ?Q\<rparr>"
    let ?s2 = "s\<lparr>sc_pend := chunked_entries dn ?Q @ rest, sc_cm := cm', sc_tm := tm, sc_ticks := n\<rparr>"
    let ?rs = "map post ?Q" and ?s' = "forwarded ?b1 ?s2"
    have e: "map complete_one (b_reqs ?b1) = ?rs" by (simp add: post_def)
    have px': "\<forall>r\<in>set ?Q. prefix_of (sc_pend s) r" using px by blast
    have b1: "b_phase ?b1 = Prefill" "fst ` set (b_prompt_admissions ?b1) \<subseteq> uids ?Q" using b by simp_all
    note T = stored_prefill[OF S G pd ad px' refl b1 e]
    have f: "sc_cm ?s' = cm'" "sc_tm ?s' = tm" "sc_max_seq_len ?s' = sc_max_seq_len s" "sc_finished ?s' = sc_finished s"
      "sc_last ?s' = sc_last s" "sc_rebuild ?s' = sc_rebuild s"
      by (simp_all add: forwarded_fields)
    have ch: "chunks (chunked_entries dn ?rs) = map (\<lambda>r. clamp (post r)) (filter r_chunked ?Q)"
    proof -
      have "clamp (post r) = post r" if rq: "r \<in> set ?Q" for r
      proof -
        obtain p where p: "p \<in> set (sc_pend s)" "admits p r" "pend_good W p" using entry[OF rq] by blast
        have "r_device_len r = length (r_input_ids r)" using p(2) by (simp add: admits_def)
        then show ?thesis by (intro clamp_id) simp
      qed
      then show ?thesis unfolding chunked_entries_facts(2)[OF ad] by simp
    qed
    have "mset (map f xs) = mset (map f (filter (\<lambda>r. \<not> r_chunked r) xs)) + mset (map f (filter r_chunked xs))"
      for f :: "'h req \<Rightarrow> 'h req" and xs
      by (induction xs) auto
    from this[of "\<lambda>r. clamp (post r)" ?Q]
    have "mset (map (\<lambda>r. clamp (post r)) ?Q) =
        mset (map clamp (sent ?rs)) + mset (map (\<lambda>r. clamp (post r)) (filter r_chunked ?Q))"
      unfolding sent_post by (simp add: sent_def multiset.map_comp o_def)
    then have h: "mset (holders ?s' L) = mset (map (\<lambda>r. clamp (post r)) ?Q @ ?R)"
      unfolding holders_def T(2,4) by (simp add: ch)
    have idx: "r_table_idx ` set (map (\<lambda>r. clamp (post r)) ?Q @ ?R) = r_table_idx ` set (?Q @ ?R)"
      by (simp only: set_append image_Un list.set_map image_image post_simps clamp_simps)
    have "smem W env ?s' (map (\<lambda>r. clamp (post r)) ?Q @ ?R)"
      using env m(3) cm'(2,4,5) unfolding sched_mem_def f idx by simp
    then have "smem W env ?s' (holders ?s' L)" using smem_perm[OF h] by blast
    then have "launch_ok W env s L got ?rs ?s'"
      using T(1,3,5,6) f cm'(3) by (simp add: launch_ok_def)
    moreover have "prepare_batch env b s1 = Inr (?b1, ?s2)" unfolding run cm'(1) by (simp add: s1)
    ultimately show ?thesis using e by metis
  qed
qed

end

end
