(* ===== verification/SchedLoop.thy ===== *)
theory SchedLoop
  imports SchedLaunch
begin

text \<open>
  A whole pass of the scheduler loop: launching whatever the policy decides, rebuilding the cache
  when nothing runs, and the two loops.
\<close>

section \<open>Launching\<close>

context loop_client
begin

lemma launch_ok_same:
  assumes S: "sched_shape W s L (sc_finished s) [] []" and m: "smem W env s (holders s L)"
    and lz: "lazy_free_list (sc_cm s) = None" and G: "log_inv s [] [] got"
  shows "launch_ok W env s L got [] s"
  using assms by (simp add: launch_ok_def shared_def)

text \<open>The decode branch, from a state that agrees with the one before.\<close>

lemma decode_or_nothing:
  assumes S: "sched_shape W s L (sc_finished s) [] []" and m: "smem W env s (holders s L)"
    and lz: "lazy_free_list (sc_cm s) = None" and G: "log_inv s [] [] got"
  shows "(\<exists>b. schedule_decode_batch s = Some b \<and> prepare_batch env b s = Inl AssertionError \<and> short ops b s) \<or>
    (schedule_decode_batch s = None \<and> launch_ok W env s L got [] s) \<or>
    (\<exists>b b1 s2. schedule_decode_batch s = Some b \<and> prepare_batch env b s = Inr (b1, s2) \<and>
       launch_ok W env s L got (map complete_one (b_reqs b1)) (forwarded b1 s2))"
  using launch_ok_same[OF assms] launch_decode[OF assms] by (cases "schedule_decode_batch s") auto

lemma launch_law:
  assumes S: "sched_shape W s L (sc_finished s) [] []" and m: "smem W env s (holders s L)"
    and lz: "lazy_free_list (sc_cm s) = None" and G: "log_inv s [] [] got"
  shows "(launch env dec s = Inl AssertionError \<and> (\<exists>b s1. select_batch env dec s = Inr (Some b, s1) \<and> short ops b s1)) \<or>
    (launch env dec s = Inl NotImplementedError \<and> (\<exists>p\<in>set (sc_pend s). p_mm p \<and> d_budget dec < int (input_len p))) \<or>
    (\<exists>ob s'. launch env dec s = Inr (ob, s') \<and>
       launch_ok W env s L got (case ob of None \<Rightarrow> [] | Some b \<Rightarrow> b_reqs b) s')"
proof -
  have fin: "(launch env dec s = Inl AssertionError \<and> (\<exists>b s1. select_batch env dec s = Inr (Some b, s1) \<and> short ops b s1)) \<or>
      (\<exists>ob s'. launch env dec s = Inr (ob, s') \<and>
         launch_ok W env s L got (case ob of None \<Rightarrow> [] | Some b \<Rightarrow> b_reqs b) s')"
    if sel: "select_batch env dec s = Inr (ob, s1)"
      and ok: "ob = None \<Longrightarrow> launch_ok W env s L got [] s1"
        "\<And>b. ob = Some b \<Longrightarrow> prepare_batch env b s1 = Inl AssertionError \<and> short ops b s1 \<or>
           (\<exists>b1 s2. prepare_batch env b s1 = Inr (b1, s2) \<and>
              launch_ok W env s L got (map complete_one (b_reqs b1)) (forwarded b1 s2))" for ob s1
  proof (cases ob)
    case None
    then show ?thesis using sel ok(1) by (intro disjI2 exI[of _ None] exI[of _ s1]) (simp add: launch_def)
  next
    case (Some b)
    show ?thesis
    proof (cases "prepare_batch env b s1")
      case (Inl e)
      then show ?thesis using ok(2)[OF Some] sel Some by (simp add: launch_def)
    next
      case (Inr x)
      then obtain b1 s2 where x: "prepare_batch env b s1 = Inr (b1, s2)"
        "launch_ok W env s L got (map complete_one (b_reqs b1)) (forwarded b1 s2)" using ok(2)[OF Some] by auto
      then show ?thesis using sel Some
        by (intro disjI2 exI[of _ "Some (b1\<lparr>b_reqs := map complete_one (b_reqs b1)\<rparr>)"] exI[of _ "forwarded b1 s2"])
          (simp add: launch_def forward_snd)
    qed
  qed
  show ?thesis
  proof (cases "d_phase dec = PDecode")
    case True
    then have "select_batch env dec s = Inr (schedule_decode_batch s, s)" by (simp add: select_batch_def)
    from fin[OF this] show ?thesis using decode_or_nothing[OF assms] by fastforce
  next
    case False
    let ?ad = "plain_admission 0 ops" and ?R = "map clamp (live s) @ orphans L"
    note D = shapeD[OF S]
    have o: "en_ops env = ops" using m by (simp add: sched_mem_def)
    have "mset (holders s L) = mset (chunks (sc_pend s) @ ?R)" by (simp add: holders_def)
    then have mc: "smem W env s (chunks (sc_pend s) @ ?R)" using m smem_perm by blast
    then have mi: "minv (sc_cm s) (chunks (sc_pend s) @ ?R)" "rows_ok W (sc_cm s) (sc_tm s)"
      "table_ok (sc_tm s) (r_table_idx ` set (chunks (sc_pend s) @ ?R))" by (simp_all add: sched_mem_def)
    have pk: "\<forall>p\<in>set (sc_pend s). pend_ok W p" using D(4) by (simp add: pend_good_def)
    let ?run = "pm_schedule_next_batch ?ad (en_clock env (sc_ticks s)) (d_budget dec) (dm_of s) (sc_pend s) (sc_cm s) (sc_tm s)"
    from schedule_law[OF mi(1) pk mi(2,3), of "d_budget dec" 0 "en_clock env (sc_ticks s)" "dm_of s"]
    consider (mm) "\<exists>p\<in>set (sc_pend s). p_mm p \<and> d_budget dec < int (input_len p)" "?run = Inl NotImplementedError"
      | (ok) ob pend' cm tm where "?run = Inr (ob, pend', cm, tm)"
          "scheduled (sc_pend s) ?R (d_budget dec) (inflight_tokens (dm_of s)) (sc_cm s) ob pend' cm tm" "rows_ok W cm tm"
      by blast
    then show ?thesis
    proof cases
      case mm
      then show ?thesis using False by (simp add: launch_def select_batch_def o)
    next
      case ok
      let ?s1 = "s\<lparr>sc_pend := pend', sc_cm := cm, sc_tm := tm, sc_ticks := sc_ticks s + 1\<rparr>"
      have ps: "page_size cm = page_size (sc_cm s)" "lazy_free_list cm = None"
        using ok(2) lz by (simp_all add: scheduled_def same_pool_def)
      have envs: "sc_max_seq_len s \<le> W" "inv (page_size cm) (en_fresh env) {#}" "slots (en_fresh env) = {#}" "page_size cm dvd W"
        using m ps(1) by (simp_all add: sched_mem_def)
      show ?thesis
      proof (cases ob)
        case None
        have sc: "pend' = sc_pend s" "minv cm (chunks (sc_pend s) @ ?R)" "table_ok tm (r_table_idx ` set (chunks (sc_pend s) @ ?R))"
          using ok(2) None by (simp_all add: scheduled_def)
        have sel: "select_batch env dec s = Inr (schedule_decode_batch ?s1, ?s1)"
          using False ok(1) None by (simp add: select_batch_def o Let_def)
        have same: "sc_objs ?s1 = sc_objs s" "sc_pend ?s1 = sc_pend s" "sc_freed ?s1 = sc_freed s" "sc_running ?s1 = sc_running s"
          using sc(1) by simp_all
        have S1: "sched_shape W ?s1 L (sc_finished ?s1) [] []" using S unfolding shape_cong(1)[OF same] by simp
        have "smem W env ?s1 (chunks (sc_pend s) @ ?R)"
          using sc(2,3) ok(3) envs o by (simp add: sched_mem_def)
        moreover have "mset (chunks (sc_pend s) @ ?R) = mset (holders ?s1 L)"
          unfolding shape_cong(2)[OF same] by (simp add: holders_def)
        ultimately have m1: "smem W env ?s1 (holders ?s1 L)" using smem_perm by blast
        have G1: "log_inv ?s1 [] [] got"
          using G by (subst log_inv_cong[of _ s _ "[]"]) (simp_all add: sc(1) live_def)
        have "launch_ok W env s L got Ob s'" if "launch_ok W env ?s1 L got Ob s'" for Ob s'
          using that by (simp add: launch_ok_def)
        then show ?thesis
          using fin[OF sel] decode_or_nothing[OF S1 m1 _ G1] ps(2) by fastforce
      next
        case (Some b)
        have run: "?run = Inr (Some b, pend', cm, tm)" using ok(1) Some by simp
        have sel: "select_batch env dec s = Inr (Some b, ?s1)"
          using False run by (simp add: select_batch_def o Let_def)
        from schedule_admits[OF run] obtain dn rest where a: "sc_pend s = dn @ rest" "list_all2 admits dn (b_reqs b)"
          "pend' = chunked_entries dn (b_reqs b) @ rest" "b_phase b = Prefill" by blast
        have px: "\<forall>r\<in>set (b_reqs b). prefix_of (sc_pend s) r \<and> 0 < extend_len r"
          using ok(2) Some by (simp add: scheduled_def)
        obtain rest' dn' where r: "sc_pend s = dn' @ rest'" "length (b_reqs b) = length dn'"
          "minv cm (b_reqs b @ chunks rest' @ ?R)" "table_ok tm (r_table_idx ` set (b_reqs b @ chunks rest' @ ?R))"
          using ok(2) Some unfolding scheduled_def by auto
        have "length dn' = length dn" using r(2) list_all2_lengthD[OF a(2)] by simp
        then have rr: "rest' = rest" using r(1) a(1) by simp
        have s1: "?s1 = s\<lparr>sc_pend := chunked_entries dn (b_reqs b) @ rest, sc_cm := cm, sc_tm := tm, sc_ticks := sc_ticks s + 1\<rparr>"
          by (simp add: a(3))
        note P = launch_prefill[OF S ps(2) G envs(1) o envs(2-4) a(1,2) px a(4) schedule_admissions[OF run]
            r(3)[unfolded rr] ok(3) r(4)[unfolded rr] s1]
        from fin[OF sel] P show ?thesis by blast
      qed
    qed
  qed
qed

end

section \<open>Rebuilding\<close>

text \<open>
  What the engine promises: the rows of a new page table have the width it reports, whole pages,
  and hold the longest sequence; without new pages the rows keep their width.
\<close>

definition row_width :: "('c, 'h) sched \<Rightarrow> nat" where
  "row_width s = length (page_table (sc_cm s) 0)"

definition engine_fits :: "rebuild_request \<Rightarrow> ('c, 'h) sched \<Rightarrow> engine_result \<Rightarrow> bool" where
  "engine_fits m s r = (case r of
      EngineDone n table width max_seq \<Rightarrow>
        (let w = (if rb_pages m = None then row_width s else width) in
          max_seq \<le> w \<and> page_size (sc_cm s) dvd w \<and> (\<forall>t. length (table t) = w))
    | _ \<Rightarrow> True)"

lemma row_width_keep [simp]: "row_width (s\<lparr>sc_rebuild := x\<rparr>) = row_width s"
  by (simp add: row_width_def)

lemma engine_fits_keep [simp]: "engine_fits m (s\<lparr>sc_rebuild := x\<rparr>) r = engine_fits m s r"
  by (cases r) (simp_all add: engine_fits_def)

lemma engine_fits_pages [simp]: "engine_fits m (s\<lparr>sc_pages := n\<rparr>) r = engine_fits m s r"
  by (cases r) (simp_all add: engine_fits_def row_width_def)

text \<open>Nothing is pending or running and no batch is in flight.\<close>

definition idle :: "('c, 'h) sched \<Rightarrow> bool" where
  "idle s \<longleftrightarrow> sc_last s = None \<and> \<not> runnable s"

lemma idle_fields: "idle s \<Longrightarrow> sc_pend s = [] \<and> sc_running s = [] \<and> in_flight_reqs s = []"
  by (simp add: idle_def runnable_def pm_runnable_def dm_runnable_def dm_of_def in_flight_reqs_def)

context loop_client
begin

lemma idle_holders:
  assumes "sinv W env s got" "idle s"
  shows "live s = []" "holders s [] = []"
proof -
  note I = idle_fields[OF assms(2)]
  have S: "sched_shape W s [] (sc_finished s) [] []" using assms(1) I by (simp add: sched_inv_def)
  have "r \<notin> set (live s)" for r
    using shapeD(10)[OF S, of r] I by (auto simp: flights_def nc_def)
  then show "live s = []" by (cases "live s") auto
  then show "holders s [] = []" using I by (simp add: holders_def orphans_def)
qed

lemma sinv_width: "sinv W env s got \<Longrightarrow> row_width s = W"
  by (simp add: sched_inv_def sched_mem_def rows_ok_def row_width_def)

lemma apply_rebuild_law:
  assumes I: "sinv W env s got" and i: "idle s" and f: "engine_fits m s (EngineDone n table width max_seq)"
  shows "\<exists>s' W'. apply_rebuild env m n table width max_seq s = Inr s' \<and> sinv W' env s' got \<and> idle s' \<and>
    sc_out s' = sc_out s \<and> sc_rebuild s' = sc_rebuild s \<and> sc_acks s' = sc_acks s"
proof -
  note F = idle_fields[OF i] and H = idle_holders[OF I i] and w = sinv_width[OF I]
  have S: "sched_shape W s [] (sc_finished s) [] []" and m: "smem W env s []" and lz: "lazy_free_list (sc_cm s) = None"
    and G: "log_inv s [] [] got"
    using I F H by (simp_all add: sched_inv_def)
  have mm: "minv (sc_cm s) []" "table_ok (sc_tm s) {}" "rows_ok W (sc_cm s) (sc_tm s)" "en_ops env = ops"
    "inv (page_size (sc_cm s)) (en_fresh env) {#}" "slots (en_fresh env) = {#}" "page_size (sc_cm s) dvd W"
    using m by (simp_all add: sched_mem_def)
  have shape: "sched_shape W' s' [] (sc_finished s') [] []"
    if "sc_objs s' = sc_objs s" "sc_pend s' = sc_pend s" "sc_freed s' = sc_freed s" "sc_running s' = sc_running s"
      "sc_finished s' = sc_finished s" for W' s'
    using S H F that unfolding sched_shape_def by (simp add: live_def)
  have built: "sinv W' env s' got \<and> idle s' \<and> sc_out s' = sc_out s \<and> sc_rebuild s' = sc_rebuild s \<and> sc_acks s' = sc_acks s"
    if s': "sc_objs s' = sc_objs s" "sc_pend s' = sc_pend s" "sc_freed s' = sc_freed s" "sc_running s' = sc_running s"
      "sc_finished s' = sc_finished s" "sc_last s' = sc_last s" "sc_acks s' = sc_acks s" "sc_tombs s' = sc_tombs s"
      "sc_out s' = sc_out s" "sc_rebuild s' = sc_rebuild s"
      and mem: "smem W' env s' []" "lazy_free_list (sc_cm s') = None" for W' s'
  proof -
    have l: "live s' = live s" using s' by (simp add: live_def)
    have fl: "in_flight_reqs s' = []" using s'(6) F by (simp add: in_flight_reqs_def)
    have "log_inv s' [] [] got" using G s' l by (subst log_inv_cong[of s' s "[]" "[]"]) simp_all
    moreover have "holders s' [] = []" using shape_cong(2)[OF s'(1-4)] H by simp
    moreover have "idle s'" using i s' by (simp add: idle_def runnable_def pm_runnable_def dm_runnable_def dm_of_def)
    ultimately show ?thesis
      using shape[OF s'(1-5)] mem s' fl by (simp add: sched_inv_def shared_def)
  qed
  show ?thesis
  proof (cases "rb_pages m = None \<and> rb_mamba m = None \<and> rb_swa m = None")
    case True
    let ?s' = "s\<lparr>sc_max_seq_len := max_seq, sc_pages := n\<rparr>"
    have "smem W env ?s' []" using m f True w by (simp add: sched_mem_def engine_fits_def)
    then show ?thesis using built[of ?s' W] True lz by (intro exI[of _ ?s'] exI[of _ W]) (simp add: apply_rebuild_def Let_def)
  next
    case False
    let ?W = "if rb_pages m = None then W else width"
    let ?cm = "cm_rebuild n table (en_fresh env) (sc_cm s)"
    let ?tm = "if rb_pages m \<noteq> None then tm_rebuild width (sc_tm s) else sc_tm s"
    let ?s' = "s\<lparr>sc_max_seq_len := max_seq, sc_pages := n, sc_cm := ?cm, sc_tm := ?tm\<rparr>"
    have mr: "minv ?cm []" by (rule minv_rebuild[OF mm(5,6) minvD(2)[OF mm(1)] lz])
    have lz': "lazy_free_list ?cm = None" "page_size ?cm = page_size (sc_cm s)" "page_table ?cm = table"
      using lz by (simp_all add: cm_rebuild_def)
    have ef: "max_seq \<le> ?W" "page_size (sc_cm s) dvd ?W" "\<forall>t. length (table t) = ?W"
      by (cases "rb_pages m"; use f w in \<open>simp add: engine_fits_def\<close>)+
    have "rows_ok ?W ?cm ?tm" using ef(3) mm(3) by (auto simp: rows_ok_def lz'(3) tm_rebuild_def)
    moreover have "table_ok ?tm {}" using mm(2) tm_rebuild_ok by simp
    ultimately have "smem ?W env ?s' []"
      using mr mm(4-6) ef(1,2) by (simp add: sched_mem_def lz'(2) del: if_split)
    moreover have "cm_check_integrity ops ?cm = Inr ()" by (rule check_integrity_idle[OF mr lz'(1)])
    then have "apply_rebuild env m n table width max_seq s = Inr ?s'"
      using False mm(4) by (cases "rb_pages m"; auto simp: apply_rebuild_def Let_def)
    ultimately show ?thesis using built[of ?s' ?W] lz'(1) by auto
  qed
qed

lemma sinv_idle_rebuild:
  assumes "sinv W env s got" "idle s"
  shows "sinv W env (s\<lparr>sc_rebuild := x\<rparr>) got" "idle (s\<lparr>sc_rebuild := x\<rparr>)"
proof -
  let ?s' = "s\<lparr>sc_rebuild := x\<rparr>"
  have "mem_inv ops inv key val slots W env ?s'"
    by (rule mem_inv_cong[of W env s]) (use assms(1) in \<open>simp_all add: sched_inv_split\<close>)
  moreover have "log_inv ?s' [] [] got"
    using assms(1) by (subst log_inv_cong[of _ s _ "[]"]) (simp_all add: sched_inv_split live_def)
  ultimately show "sinv W env ?s' got" using assms(1) by (simp add: sched_inv_split in_flight_reqs_def)
  show "idle ?s'" using assms(2) by (simp add: idle_def runnable_def pm_runnable_def dm_runnable_def dm_of_def)
qed

lemma sinv_idle_pages:
  assumes "sinv W env s got" "idle s"
  shows "sinv W env (s\<lparr>sc_pages := n\<rparr>) got" "idle (s\<lparr>sc_pages := n\<rparr>)"
proof -
  let ?s' = "s\<lparr>sc_pages := n\<rparr>"
  have "mem_inv ops inv key val slots W env ?s'"
    by (rule mem_inv_cong[of W env s]) (use assms(1) in \<open>simp_all add: sched_inv_split\<close>)
  moreover have "log_inv ?s' [] [] got"
    using assms(1) by (subst log_inv_cong[of _ s _ "[]"]) (simp_all add: sched_inv_split live_def)
  ultimately show "sinv W env ?s' got" using assms(1) by (simp add: sched_inv_split in_flight_reqs_def)
  show "idle ?s'" using assms(2) by (simp add: idle_def runnable_def pm_runnable_def dm_runnable_def dm_of_def)
qed

lemma maybe_rebuild_law:
  assumes I: "sinv W env s got" and f: "\<And>m. sc_rebuild s = Some m \<Longrightarrow> engine_fits m s (fst ans) \<and> engine_fits m s (snd ans)"
  shows "\<exists>W'. sinv W' env (maybe_rebuild env ans s) got \<and> sc_last (maybe_rebuild env ans s) = sc_last s"
proof (cases "\<exists>m. sc_rebuild s = Some m \<and> idle s")
  case False
  then have "maybe_rebuild env ans s = s" by (auto simp: maybe_rebuild_def idle_def split: option.splits)
  then show ?thesis using I by auto
next
  case True
  then obtain m where m: "sc_rebuild s = Some m" "idle s" by blast
  let ?s0 = "s\<lparr>sc_rebuild := None\<rparr>"
  have I0: "sinv W env ?s0 got" "idle ?s0" using sinv_idle_rebuild[OF I m(2)] by blast+
  have f0: "engine_fits m ?s0 (fst ans)" "engine_fits m ?s0 (snd ans)" using f[OF m(1)] by simp_all
  have run: "maybe_rebuild env ans s = execute_pending_rebuild env (fst ans) (snd ans) m s"
    using m by (simp add: maybe_rebuild_def idle_def)
  have r: "sinv W' env (reply_rebuild rid st s') got" "idle s' \<Longrightarrow> sc_last (reply_rebuild rid st s') = None"
    if "sinv W' env s' got" for W' rid st s'
    unfolding reply_rebuild_def
    by (rule sinv_send[OF that]) (auto simp: is_progress_def is_terminal_def send_result_def idle_def)
  have last: "sc_last s = None" using m(2) by (simp add: idle_def)
  have res: "\<exists>W'. sinv W' env (reply_rebuild rid st s') got \<and> sc_last (reply_rebuild rid st s') = None"
    if "sinv W env s' got" "idle s'" for rid st s'
    using r that by blast
  have built: "\<exists>W'. sinv W' env (case apply_rebuild env m n table width max_seq s' of
        Inr s1 \<Rightarrow> reply_rebuild (rb_id m) st s1 | Inl e \<Rightarrow> x) got \<and>
      sc_last (case apply_rebuild env m n table width max_seq s' of
        Inr s1 \<Rightarrow> reply_rebuild (rb_id m) st s1 | Inl e \<Rightarrow> x) = None"
    if ef: "engine_fits m s' (EngineDone n table width max_seq)" and s': "sinv W env s' got" "idle s'"
    for n table width max_seq st x s'
  proof -
    obtain s1 W1 where s1: "apply_rebuild env m n table width max_seq s' = Inr s1" "sinv W1 env s1 got" "idle s1"
      using apply_rebuild_law[OF s' ef] by blast
    show ?thesis unfolding s1(1) sum.case using r[OF s1(2)] s1(3) by blast
  qed
  note Ip = sinv_idle_pages[OF I0] and Ipp = sinv_idle_pages[OF sinv_idle_pages[OF I0]]
  have rolled: "\<exists>W'. sinv W' env (case snd ans of
        EngineDone n table width max_seq \<Rightarrow>
          (case apply_rebuild env m n table width max_seq (?s0\<lparr>sc_pages := k\<rparr>) of
             Inr s2 \<Rightarrow> reply_rebuild (rb_id m) Rejected s2
           | Inl e \<Rightarrow> reply_rebuild (rb_id m) Failed (?s0\<lparr>sc_pages := k, sc_pages := n\<rparr>))
      | EngineRaised torn n \<Rightarrow> reply_rebuild (rb_id m) Failed (?s0\<lparr>sc_pages := k, sc_pages := n\<rparr>)
      | EngineRejected \<Rightarrow> reply_rebuild (rb_id m) Failed (?s0\<lparr>sc_pages := k\<rparr>)) got \<and>
    sc_last (case snd ans of
        EngineDone n table width max_seq \<Rightarrow>
          (case apply_rebuild env m n table width max_seq (?s0\<lparr>sc_pages := k\<rparr>) of
             Inr s2 \<Rightarrow> reply_rebuild (rb_id m) Rejected s2
           | Inl e \<Rightarrow> reply_rebuild (rb_id m) Failed (?s0\<lparr>sc_pages := k, sc_pages := n\<rparr>))
      | EngineRaised torn n \<Rightarrow> reply_rebuild (rb_id m) Failed (?s0\<lparr>sc_pages := k, sc_pages := n\<rparr>)
      | EngineRejected \<Rightarrow> reply_rebuild (rb_id m) Failed (?s0\<lparr>sc_pages := k\<rparr>)) = None" for k
    using f0(2) res[OF Ip] res[OF Ipp] built[OF _ Ip] by (cases "snd ans") simp_all
  show ?thesis
    unfolding run last execute_pending_rebuild_def Let_def
    using res[OF I0] res[OF Ip] built[OF _ I0] rolled f0(1) by (cases "fst ans") simp_all
qed

end

section \<open>The loops\<close>

text \<open>
  What the environment of one pass must satisfy: the messages are well formed, a forward samples
  one token per request, and the engine's answers to a rebuild fit the request.
\<close>

definition inputs_ok :: "('c, 'h) sched_env \<Rightarrow> 'h inputs \<Rightarrow> ('c, 'h) sched \<Rightarrow> int list \<Rightarrow> bool" where
  "inputs_ok env i s got \<longleftrightarrow> msgs_ok env (in_msgs i) s got \<and> (\<forall>u. length (in_tokens i u) = 1) \<and>
     (case process_msgs env (in_msgs i) s of Inl e \<Rightarrow> True
      | Inr s1 \<Rightarrow> (case sc_rebuild s1 of None \<Rightarrow> True
         | Some m \<Rightarrow> engine_fits m s1 (fst (in_engine i)) \<and> engine_fits m s1 (snd (in_engine i))))"

definition received_in :: "'h inputs \<Rightarrow> int list" where
  "received_in i = concat (map received (in_msgs i))"

definition sched_pass :: "bool \<Rightarrow> ('c, 'h) sched_env \<Rightarrow> 'h inputs \<Rightarrow> ('c, 'h) sched \<Rightarrow> ('c, 'h) sched res" where
  "sched_pass overlap env i s = (if overlap then overlap_loop env i s else normal_loop env i s)"

lemma release_last:
  assumes "release env r s = Inr (r', s')"
  shows "sc_last s' = sc_last s"
  using assms by (auto simp: release_def commit_req_def res_bind_eq_Inr)

lemma abort_last:
  assumes "process_abort env u s = Inr s'" "sc_last s = None"
  shows "sc_last s' = None"
  using assms by (auto simp: process_abort_def abort_found_def res_bind_eq_Inr mark_chunk_def free_chunk_def
      free_req_resources_def put_obj_def Let_def split: prod.splits option.splits if_splits dest!: release_last)

lemma msgs_last:
  "process_one_msg env m s = Inr s' \<Longrightarrow> sc_last s = None \<Longrightarrow> sc_last s' = None"
  "process_msgs env ms s = Inr s' \<Longrightarrow> sc_last s = None \<Longrightarrow> sc_last s' = None"
proof (induction env m s and env ms s arbitrary: s' and s' rule: process_one_msg_process_msgs.induct)
  case (3 env uid ids sp images s)
  then show ?case by (auto simp: process_user_def send_result_def Let_def)
next
  case (4 env uid s)
  then show ?case using abort_last by simp
next
  case (5 env m s)
  then show ?case by (auto simp: process_rebuild_def reply_rebuild_def send_result_def)
next
  case (7 env m ms s)
  obtain s1 where s1: "process_one_msg env m s = Inr s1" "process_msgs env ms s1 = Inr s'"
    using "7.prems"(1) by (auto simp: res_bind_eq_Inr)
  show ?case using "7.IH"(2)[OF s1] "7.IH"(1)[OF s1(1) "7.prems"(2)] .
qed simp_all

text \<open>The states between passes, with the uids received so far.\<close>

inductive sched_reach ::
  "bool \<Rightarrow> ('c, 'h) sched_env \<Rightarrow> ('c, 'h) sched \<Rightarrow> ('c, 'h) sched \<Rightarrow> int list \<Rightarrow> bool"
  for overlap :: bool and env :: "('c, 'h) sched_env" and s0 :: "('c, 'h) sched" where
  start: "sched_reach overlap env s0 s0 []"
| pass: "sched_reach overlap env s0 s got \<Longrightarrow> inputs_ok env i s got \<Longrightarrow> sched_pass overlap env i s = Inr s' \<Longrightarrow>
    sched_reach overlap env s0 s' (received_in i @ got)"

text \<open>The uids that still need a terminal reply.\<close>

definition active :: "('c, 'h) sched \<Rightarrow> int set" where
  "active s = p_uid ` set (sc_pend s) \<union> r_uid ` set (live s)"

text \<open>
  Why a pass can end in an exception: an exit message, a batch that does not fit into the pool, or a
  pending image prompt that is longer than the prefill budget.
\<close>

definition stopped_by :: "('c, 'h) sched_env \<Rightarrow> 'h inputs \<Rightarrow> ('c, 'h) sched \<Rightarrow> py_error \<Rightarrow> bool" where
  "stopped_by env i s e \<longleftrightarrow> (case process_msgs env (in_msgs i) s of
      Inl e' \<Rightarrow> e = KeyboardInterrupt \<and> e' = e
    | Inr s1 \<Rightarrow>
        let s2 = maybe_rebuild env (in_engine i) s1 in
        e = AssertionError \<and> (\<exists>b s3. select_batch env (in_decision i) s2 = Inr (Some b, s3) \<and> short (en_ops env) b s3) \<or>
        e = NotImplementedError \<and> (\<exists>p\<in>set (sc_pend s2). p_mm p \<and> d_budget (in_decision i) < int (input_len p)))"

context loop_client
begin

text \<open>The invariant between passes: the acknowledgements have been sent.\<close>

definition loop_inv :: "bool \<Rightarrow> ('c, 'h) sched_env \<Rightarrow> ('c, 'h) sched \<Rightarrow> int list \<Rightarrow> bool" where
  "loop_inv overlap env s got \<longleftrightarrow> (\<exists>W. sinv W env s got) \<and> sc_acks s = [] \<and> (\<not> overlap \<longrightarrow> sc_last s = None)"

lemma flushed:
  assumes S: "sched_shape W s L (sc_finished s) [] []" and m: "smem W env s (holders s L)"
    and lz: "lazy_free_list (sc_cm s) = None" and G: "log_inv s L [] got"
    and sh: "shared s L" and ug: "uids L \<subseteq> set got"
    and L: "L = (case ob of None \<Rightarrow> [] | Some b \<Rightarrow> b_reqs b)"
  shows "sinv W env ((flush_abort_acks s)\<lparr>sc_last := ob\<rparr>) got \<and> sc_acks ((flush_abort_acks s)\<lparr>sc_last := ob\<rparr>) = []"
proof -
  let ?s' = "(flush_abort_acks s)\<lparr>sc_last := ob\<rparr>"
  have f: "sc_objs ?s' = sc_objs s" "sc_pend ?s' = sc_pend s" "sc_freed ?s' = sc_freed s" "sc_running ?s' = sc_running s"
    "sc_finished ?s' = sc_finished s" "sc_cm ?s' = sc_cm s" "sc_tm ?s' = sc_tm s" "sc_max_seq_len ?s' = sc_max_seq_len s"
    "sc_acks ?s' = []" "in_flight_reqs ?s' = L"
    by (simp_all add: flush_abort_acks_def send_result_def in_flight_reqs_def L)
  have "log_inv ?s' [] [] got"
    using flush_law[OF S G] by (subst log_inv_cong[of _ "flush_abort_acks s" "[]" "[]"]) (simp_all add: live_def)
  then show ?thesis
    using S m lz sh ug f unfolding sched_inv_def f(10)
    by (simp add: shape_cong(1,2)[OF f(1-4)] smem_cong[OF f(6-8)] shared_def uids_def)
qed

theorem pass_law:
  assumes I: "loop_inv overlap env s got" and ok: "inputs_ok env i s got"
  shows "(\<exists>e. sched_pass overlap env i s = Inl e \<and> stopped_by env i s e) \<or>
    (\<exists>s'. sched_pass overlap env i s = Inr s' \<and> loop_inv overlap env s' (received_in i @ got))"
proof -
  let ?got = "received_in i @ got"
  obtain W where W: "sinv W env s got" and last: "\<not> overlap \<Longrightarrow> sc_last s = None"
    using I by (auto simp: loop_inv_def)
  have toks: "\<And>u. length (in_tokens i u) = 1" using ok by (simp add: inputs_ok_def)
  have mo: "msgs_ok env (in_msgs i) s got" using ok by (simp add: inputs_ok_def)
  show ?thesis
  proof (cases "process_msgs env (in_msgs i) s")
    case (Inl e)
    then show ?thesis using process_law(2)[OF W mo] by (simp add: sched_pass_def overlap_loop_def normal_loop_def stopped_by_def)
  next
    case (Inr s1)
    then have W1: "sinv W env s1 ?got" using process_law(2)[OF W mo] by (simp add: received_in_def)
    have l1: "sc_last s = None \<Longrightarrow> sc_last s1 = None" using msgs_last(2)[OF Inr] .
    let ?s1 = "maybe_rebuild env (in_engine i) s1"
    have "engine_fits m s1 (fst (in_engine i)) \<and> engine_fits m s1 (snd (in_engine i))" if "sc_rebuild s1 = Some m" for m
      using ok Inr that by (simp add: inputs_ok_def)
    from maybe_rebuild_law[OF W1 this] obtain W' where W': "sinv W' env ?s1 ?got" "sc_last ?s1 = sc_last s1" by blast
    let ?L = "in_flight_reqs ?s1"
    have A: "sched_shape W' ?s1 ?L (sc_finished ?s1) [] []" "smem W' env ?s1 (holders ?s1 ?L)"
      "lazy_free_list (sc_cm ?s1) = None" "log_inv ?s1 [] [] ?got" using W'(1) by (simp_all add: sched_inv_def)
    have o: "en_ops env = ops" using W by (simp add: sched_inv_def sched_mem_def)
    from launch_law[OF A, of "in_decision i"] consider
      (err) e where "launch env (in_decision i) ?s1 = Inl e" "stopped_by env i s e"
      | (ok) ob s2 where "launch env (in_decision i) ?s1 = Inr (ob, s2)"
          "launch_ok W' env ?s1 ?L ?got (case ob of None \<Rightarrow> [] | Some b \<Rightarrow> b_reqs b) s2"
      unfolding stopped_by_def Inr sum.case Let_def o by blast
    then show ?thesis
    proof cases
      case err
      then show ?thesis using Inr by (auto simp: sched_pass_def overlap_loop_def normal_loop_def)
    next
      case ok
      let ?Ob = "case ob of None \<Rightarrow> [] | Some b \<Rightarrow> b_reqs b"
      have B: "sched_shape W' s2 ?L (sc_finished s2) ?Ob []" "smem W' env s2 (holders s2 ?L)" "lazy_free_list (sc_cm s2) = None"
        "log_inv s2 ?Ob [] ?got" "shared s2 ?Ob" "uids ?Ob \<subseteq> set ?got" "sc_last s2 = sc_last ?s1"
        using ok(2) by (simp_all add: launch_ok_def)
      show ?thesis
      proof (cases overlap)
        case True
        have "?L = (case sc_last s2 of None \<Rightarrow> [] | Some b \<Rightarrow> b_reqs b)" using B(7) by (simp add: in_flight_reqs_def)
        from process_last_law[where toks = "in_tokens i", OF B(1-3) toks B(4) this] obtain s3 where
          s3: "process_last_data env (in_tokens i) (sc_last s2) s2 = Inr s3" "sched_shape W' s3 ?Ob (sc_finished s3) [] []"
            "smem W' env s3 (holders s3 ?Ob)" "lazy_free_list (sc_cm s3) = None" "log_inv s3 ?Ob [] ?got"
            "sc_pend s3 = sc_pend s2" by blast
        have "shared s3 ?Ob" using B(5) s3(6) by (simp add: shared_def)
        from flushed[OF s3(2-5) this B(6) refl] show ?thesis
          using True Inr ok(1) s3(1) by (simp add: sched_pass_def overlap_loop_def loop_inv_def) blast
      next
        case False
        have L: "?L = []" using l1 last[OF False] W'(2) by (simp add: in_flight_reqs_def)
        have "sched_shape W' s2 [] (sc_finished s2) ?Ob []" using B(1) unfolding L .
        then have S2: "sched_shape W' s2 ?Ob (sc_finished s2) [] []"
          using shape_rebase[of W' s2 "sc_finished s2" ?Ob "[]" "sc_finished s2"] shapeD(17)[OF B(1)] by simp
        have "orphans ?Ob = []" using orphans_none[of ?Ob] shapeD(20)[OF B(1)] by blast
        then have m2: "smem W' env s2 (holders s2 ?Ob)" using B(2) by (simp add: L holders_def orphans_def)
        have G2: "log_inv s2 [] [] ?got" using B(4) by (auto simp: log_inv_def nc_def)
        from process_last_law[where toks = "in_tokens i", OF S2 m2 B(3) toks G2 refl] obtain s3 where
          s3: "process_last_data env (in_tokens i) ob s2 = Inr s3" "sched_shape W' s3 [] (sc_finished s3) [] []"
            "smem W' env s3 (holders s3 [])" "lazy_free_list (sc_cm s3) = None" "log_inv s3 [] [] ?got" "sc_last s3 = sc_last s2" by blast
        have l3: "sc_last s3 = None" using s3(6) B(7) W'(2) l1 last[OF False] by simp
        then have e: "(flush_abort_acks s3)\<lparr>sc_last := None\<rparr> = flush_abort_acks s3"
          by (simp add: flush_abort_acks_def send_result_def)
        have "shared s3 []" by (simp add: shared_def)
        from flushed[OF s3(2-5) this, of None] show ?thesis
          using False Inr ok(1) s3(1) l3 unfolding e by (simp add: sched_pass_def normal_loop_def loop_inv_def flush_abort_acks_def send_result_def) blast
      qed
    qed
  qed
qed

lemma start_inv:
  assumes "minv cm []" "lazy_free_list cm = None" "table_ok tm {}" "rows_ok W cm tm" "page_size cm dvd W" "max_seq \<le> W"
    "en_ops env = ops" "inv (page_size cm) (en_fresh env) {#}" "slots (en_fresh env) = {#}"
  shows "loop_inv overlap env (sched_init cm tm max_seq) []"
proof -
  let ?s = "sched_init cm tm max_seq"
  have f: "sc_pend ?s = []" "live ?s = []" "in_flight_reqs ?s = []" "sc_objs ?s = []" "sc_freed ?s = []" "sc_running ?s = []"
    "sc_finished ?s = []" "sc_acks ?s = []" "sc_tombs ?s = []" "sc_out ?s = []" "sc_last ?s = None" "sc_cm ?s = cm"
    "sc_tm ?s = tm" "sc_max_seq_len ?s = max_seq"
    by (simp_all add: sched_init_def live_def in_flight_reqs_def)
  have "sinv W env ?s []"
    unfolding sched_inv_def sched_shape_def sched_mem_def log_inv_def shared_def holders_def f
    using assms by (simp add: f nc_def orphans_def)
  then show ?thesis by (auto simp: loop_inv_def f)
qed

theorem reach_inv:
  assumes "sched_reach overlap env s0 s got" "loop_inv overlap env s0 []"
  shows "loop_inv overlap env s got"
  using assms
proof (induction rule: sched_reach.induct)
  case start
  then show ?case .
next
  case (pass s got i s')
  then show ?case using pass_law[of overlap env s got i] by auto
qed

theorem idle_law:
  assumes I: "loop_inv overlap env s got" and i: "idle s"
  shows "run_when_idle env s = Inr ()" "cm_available_size ops (sc_cm s) = int (num_pages (sc_cm s) * page_size (sc_cm s))"
    "tm_available (sc_tm s) = max_running_reqs (sc_tm s)" "active s = {}"
proof -
  obtain W where W: "sinv W env s got" using I by (auto simp: loop_inv_def)
  note F = idle_fields[OF i] and H = idle_holders[OF W i]
  have m: "minv (sc_cm s) []" "lazy_free_list (sc_cm s) = None" "table_ok (sc_tm s) {}" "en_ops env = ops"
    using W F H by (simp_all add: sched_inv_def sched_mem_def)
  show "run_when_idle env s = Inr ()" using check_integrity_idle[OF m(1,2)] m(4) by (simp add: run_when_idle_def)
  have "snd (op_size_info ops (pcache (sc_cm s))) = 0" using idle[OF minvD(1)[OF m(1), simplified]] .
  then show "cm_available_size ops (sc_cm s) = int (num_pages (sc_cm s) * page_size (sc_cm s))"
    using minv_sizes[OF m(1,2)] by (simp add: cm_available_size_def)
  show "tm_available (sc_tm s) = max_running_reqs (sc_tm s)" using tm_available_ok[OF m(3)] by simp
  show "active s = {}" using F H by (simp add: active_def)
qed

theorem replies_law:
  assumes I: "loop_inv overlap env s got"
  shows "quiet (sc_out s)" "u \<in> set got \<Longrightarrow> ended u (sc_out s) \<longleftrightarrow> u \<notin> active s" "active s \<subseteq> set got"
    "ended u (sc_out s) \<Longrightarrow> u \<in> set got \<union> set (sc_tombs s)"
proof -
  obtain W where G: "log_inv s [] [] got" and a: "sc_acks s = []" using I by (auto simp: loop_inv_def sched_inv_def)
  note D = log_invD[OF G]
  show "quiet (sc_out s)" using D(1) by simp
  show "ended u (sc_out s) \<longleftrightarrow> u \<notin> active s" if "u \<in> set got"
    using D(2,3)[of u] D(8)[OF that] a by (auto simp: active_def)
  have "r_uid ` set (live s) \<subseteq> r_uid ` set (sc_objs s)" using live_subset by blast
  then show "active s \<subseteq> set got" using D(11,12) by (auto simp: active_def)
  show "u \<in> set got \<union> set (sc_tombs s)" if "ended u (sc_out s)" using D(10)[of u] that by simp
qed

end

end
