(* ===== verification/SchedClaims.thy ===== *)
theory SchedClaims
  imports SchedLoop PrefillClaims
begin

text \<open>
  The properties of the scheduler loop over the radix cache, obtained from the lemmas of the locale
  \<open>loop_client\<close> through the interpretation \<open>radix_loop\<close>.
\<close>

interpretation radix_loop: loop_client radix_ops cache_ok handle_ok
  "\<lambda>s h. path_key s (handle_node h)" "\<lambda>s h. path_value s (handle_node h)" owned_slots
proof
  fix ps c H and n :: int
  assume "n \<noteq> 0" "fst (op_size_info radix_ops c) < n"
  then show "op_evict radix_ops n c = Inl AssertionError" by (simp add: radix_ops_def size_info_def evict_too_much)
qed

text \<open>
  A scheduler that has just been constructed: \<open>n\<close> pages of \<open>ps\<close> slots, \<open>k\<close> rows of \<open>width\<close> slots, whole
  pages each, and sequences of at most \<open>max_seq\<close> tokens.
\<close>

definition booted :: "nat \<Rightarrow> nat \<Rightarrow> nat \<Rightarrow> nat \<Rightarrow> nat \<Rightarrow> (radix_cache, radix_handle) sched" where
  "booted n ps k width max_seq =
     sched_init (cm_init n ps (\<lambda>_. replicate width 0) None (radix_init ps 0)) (table_init k width) max_seq"

definition env_ok :: "nat \<Rightarrow> (radix_cache, radix_handle) sched_env \<Rightarrow> bool" where
  "env_ok ps env \<longleftrightarrow> en_ops env = radix_ops \<and> en_fresh env = radix_init ps 0"

lemma booted_inv:
  assumes "env_ok ps env" "0 < ps" "ps dvd width" "max_seq \<le> width"
  shows "radix_loop.loop_inv overlap env (booted n ps k width max_seq) []"
  unfolding booted_def
proof (rule radix_loop.start_inv[where W = width])
  let ?cm = "cm_init n ps (\<lambda>_. replicate width 0) None (radix_init ps 0)"
  show "radix_cm_inv ?cm []"
    by (rule radix_cm.minv_init) (use assms in \<open>simp_all add: radix_init_ok radix_init_empty cm_init_def cm_swa_paged_def\<close>)
  show "rows_ok width ?cm (table_init k width)" by (simp add: rows_ok_def cm_init_def table_init_def)
  show "table_ok (table_init k width) {}" by (rule table_init_ok)
qed (use assms in \<open>simp_all add: env_ok_def cm_init_def radix_init_ok radix_init_empty\<close>)

section \<open>Demonstration\<close>

text \<open>One request of two tokens that may generate one, on a pool of four pages of one slot.\<close>

definition demo_env :: "(radix_cache, radix_handle) sched_env" where
  "demo_env = \<lparr>en_ops = radix_ops, en_fresh = radix_init 1 0, en_clock = int, en_eos = [2], en_anchor = None,
     en_decode = (\<lambda>_. []), en_utf8_len = length, en_supports_rebuild = False, en_tp_size = 1, en_prefill_budget = 8\<rparr>"

definition demo_in :: "radix_handle inputs" where
  "demo_in = \<lparr>in_msgs = [UserMsg 7 [5, 6] (default_sampling\<lparr>max_tokens := 1\<rparr>) None],
     in_decision = \<lparr>d_phase = PPrefill, d_budget = 8, d_reason = RBaseline\<rparr>, in_tokens = (\<lambda>_. [9]),
     in_engine = (EngineRejected, EngineRejected)\<rparr>"

definition demo_in2 :: "radix_handle inputs" where
  "demo_in2 = demo_in\<lparr>in_msgs := [UserMsg 7 [5, 6] (default_sampling\<lparr>max_tokens := 2\<rparr>) None]\<rparr>"

lemma demo_ok: "env_ok 1 demo_env" "inputs_ok demo_env demo_in (booted 4 1 2 8 8) []"
  "inputs_ok demo_env demo_in2 (booted 4 1 2 8 8) []"
  by (simp_all add: env_ok_def demo_env_def inputs_ok_def demo_in_def demo_in2_def default_sampling_def process_user_def
      booted_def sched_init_def)

lemma demo_pass:
  "map_sum id (\<lambda>s. (sc_out s, idle s)) (sched_pass False demo_env demo_in (booted 4 1 2 8 8)) =
     Inr ([PromptAdmittedMsg 7 2 0, DetokenizeMsg 7 9 True (Some ''length'') None None], True)"
  by code_simp

lemma demo_state:
  obtains s where "sched_pass False demo_env demo_in (booted 4 1 2 8 8) = Inr s" "idle s"
    "sc_out s = [PromptAdmittedMsg 7 2 0, DetokenizeMsg 7 9 True (Some ''length'') None None]"
  using demo_pass by (cases "sched_pass False demo_env demo_in (booted 4 1 2 8 8)") auto

section \<open>Properties\<close>

text \<open>
  C1: a pass of the loop from any reachable state either stops for one of three reasons (an exit message;
  an assertion, when the selected batch needs more pages than are free or evictable; a pending image
  prompt beyond the prefill budget) or succeeds; then pages, page-table rows and locks are accounted for:
  when the scheduler is idle the integrity check passes, every page is free or evictable and
  every row is free.
\<close>

theorem sched_conserves:
  assumes "env_ok ps env" "0 < ps" "ps dvd width" "max_seq \<le> width"
    and "sched_reach overlap env (booted n ps k width max_seq) s got" and "inputs_ok env i s got"
  shows "case sched_pass overlap env i s of
      Inl e \<Rightarrow> stopped_by env i s e
    | Inr s' \<Rightarrow> idle s' \<longrightarrow> run_when_idle env s' = Inr () \<and>
        cm_available_size radix_ops (sc_cm s') = int (num_pages (sc_cm s') * page_size (sc_cm s')) \<and>
        tm_available (sc_tm s') = max_running_reqs (sc_tm s')"
proof -
  have I: "radix_loop.loop_inv overlap env s got"
    using radix_loop.reach_inv[OF assms(5) booted_inv[OF assms(1-4)]] .
  show ?thesis
    using radix_loop.pass_law[OF I assms(6)] radix_loop.idle_law[of overlap env _ "received_in i @ got"]
    by (auto split: sum.split)
qed

theorem sched_conserves_witness:
  "\<exists>s'. sched_pass False demo_env demo_in (booted 4 1 2 8 8) = Inr s' \<and> run_when_idle demo_env s' = Inr ()"
proof -
  obtain s where s: "sched_pass False demo_env demo_in (booted 4 1 2 8 8) = Inr s" "idle s" by (rule demo_state)
  have "(1::nat) dvd 8" "(0::nat) < 1" "(8::nat) \<le> 8" by simp_all
  from sched_conserves[where overlap = False, OF demo_ok(1) this(2,1,3) sched_reach.start demo_ok(2)]
  have "run_when_idle demo_env s = Inr ()" unfolding s(1) using s(2) by simp
  then show ?thesis using s(1) by blast
qed

text \<open>
  C11: no slot and no row has two owners, in every state the scheduler reaches.  The slots of the free pages,
  the slots of the prefix tree and the slots behind the rows of the requests that hold memory
  (running, chunked, or dropped while still in flight) are together exactly the slots of the pool, each
  once; and the rows of those requests and the free rows are together exactly the rows of the page table, each once.
\<close>

theorem no_double_owner:
  assumes "env_ok ps env" "0 < ps" "ps dvd width" "max_seq \<le> width"
    and "sched_reach overlap env (booted n ps k width max_seq) s got"
  shows "mset (page_to_token (page_size (sc_cm s)) (all_free (sc_cm s))) + owned_slots (pcache (sc_cm s)) +
       mset (concat (map (radix_owned (sc_cm s)) (holders s (in_flight_reqs s)))) =
       mset [0..<num_pages (sc_cm s) * page_size (sc_cm s)] \<and>
     mset (map r_table_idx (holders s (in_flight_reqs s)) @ tm_free (sc_tm s)) = mset [0..<max_running_reqs (sc_tm s)]"
proof -
  have "radix_loop.loop_inv overlap env s got"
    using radix_loop.reach_inv[OF assms(5) booted_inv[OF assms(1-4)]] .
  then obtain W where "radix_loop.smem W env s (holders s (in_flight_reqs s))"
    unfolding radix_loop.loop_inv_def sched_inv_def by blast
  then have m: "radix_cm_inv (sc_cm s) (holders s (in_flight_reqs s))"
    and t: "table_ok (sc_tm s) (r_table_idx ` set (holders s (in_flight_reqs s)))"
    by (simp_all add: sched_mem_def)
  have c: "mset (concat (map f R)) = (\<Sum>r\<leftarrow>R. mset (f r))" for f :: "radix_handle req \<Rightarrow> slot list" and R
    by (induction R) simp_all
  have "mset (map r_table_idx (holders s (in_flight_reqs s)) @ tm_free (sc_tm s)) = mset [0..<max_running_reqs (sc_tm s)]"
    using radix_cm.minvD(3)[OF m] t by (intro set_eq_iff_mset_eq_distinct[THEN iffD1]) (auto simp: table_ok_def)
  moreover have "mset (page_to_token (page_size (sc_cm s)) (all_free (sc_cm s))) + owned_slots (pcache (sc_cm s)) +
       mset (concat (map (radix_owned (sc_cm s)) (holders s (in_flight_reqs s)))) =
       mset [0..<num_pages (sc_cm s) * page_size (sc_cm s)]"
    using radix_cm.minvD(6)[OF m] unfolding c by (simp add: ac_simps)
  ultimately show ?thesis by blast
qed

theorem no_double_owner_witness:
  "\<exists>s. sched_reach False demo_env (booted 4 1 2 8 8) s [7] \<and> live s \<noteq> [] \<and>
     mset (map r_table_idx (holders s (in_flight_reqs s)) @ tm_free (sc_tm s)) = mset [0..<max_running_reqs (sc_tm s)]"
proof -
  have "map_sum id (\<lambda>s. live s \<noteq> []) (sched_pass False demo_env demo_in2 (booted 4 1 2 8 8)) = Inr True"
    by code_simp
  then obtain s where s: "sched_pass False demo_env demo_in2 (booted 4 1 2 8 8) = Inr s" "live s \<noteq> []"
    by (cases "sched_pass False demo_env demo_in2 (booted 4 1 2 8 8)") auto
  have p: "(1::nat) dvd 8" "(0::nat) < 1" "(8::nat) \<le> 8" by simp_all
  have "received_in demo_in2 @ [] = [7]" by (simp add: received_in_def demo_in2_def demo_in_def)
  then have r: "sched_reach False demo_env (booted 4 1 2 8 8) s [7]"
    using sched_reach.pass[OF sched_reach.start demo_ok(3) s(1)] by simp
  show ?thesis using no_double_owner[OF demo_ok(1) p(2,1,3) r] r s(2) by blast
qed

text \<open>
  C2: replies.  In every reachable state each received request either still waits (pending or live) or
  has got a terminal reply, never both; after the first terminal reply of a uid (a finishing token, a rejection or the
  acknowledgement of an abort) the only further replies to it are acknowledgements of aborts, no token, no admission and
  no rejection; and when the scheduler is idle every received request has got a terminal reply.  An abort is acknowledged
  whatever the state of its request, so a client that aborts a finished request gets one more reply.
\<close>

theorem sched_replies:
  assumes "env_ok ps env" "0 < ps" "ps dvd width" "max_seq \<le> width"
    and "sched_reach overlap env (booted n ps k width max_seq) s got"
  shows "(\<forall>u\<in>set got. ended u (sc_out s) \<longleftrightarrow> u \<notin> active s) \<and> active s \<subseteq> set got \<and> (idle s \<longrightarrow> active s = {}) \<and>
    (\<forall>u i j. i < j \<and> j < length (sc_out s) \<and> is_terminal u (sc_out s ! i) \<longrightarrow> \<not> is_progress u (sc_out s ! j))"
proof -
  have I: "radix_loop.loop_inv overlap env s got"
    using radix_loop.reach_inv[OF assms(5) booted_inv[OF assms(1-4)]] .
  note R = radix_loop.replies_law[OF I]
  show ?thesis using R(2,3) radix_loop.idle_law(4)[OF I] quiet_nth[OF R(1)] by blast
qed

theorem sched_replies_witness:
  "\<exists>s. sched_reach False demo_env (booted 4 1 2 8 8) s [7] \<and> ended 7 (sc_out s) \<and> active s = {}"
proof -
  obtain s where s: "sched_pass False demo_env demo_in (booted 4 1 2 8 8) = Inr s" "idle s" by (rule demo_state)
  have p: "(1::nat) dvd 8" "(0::nat) < 1" "(8::nat) \<le> 8" by simp_all
  have "received_in demo_in @ [] = [7]" by (simp add: received_in_def demo_in_def)
  then have r: "sched_reach False demo_env (booted 4 1 2 8 8) s [7]"
    using sched_reach.pass[OF sched_reach.start demo_ok(2) s(1)] by simp
  show ?thesis using sched_replies[OF demo_ok(1) p(2,1,3) r] r s(2) by auto
qed

end
