(* ===== verification/Detokenize.thy ===== *)
theory Detokenize
  imports Prelude
begin

text \<open>
  Incremental detokenization (\<open>tokenizer/detokenize.py\<close>).  A Python string is the list of its
  code points.  The tokenizer itself is a third-party package: \<open>bd\<close> stands for its
  \<open>batch_decode\<close> and \<open>dec\<close> for \<open>decode\<close>, and \<open>tokenizer_ok\<close> names the facts about decoding that
  the manager relies on.  They are proved for the byte-level tokenizers, whose documented decoding is
  the UTF-8 decoding, with replacement characters, of the bytes of the tokens.  The file holds the state of one request (\<open>decode_status\<close>), the manager's
  operations on its map from uids to states, and the proof that what a request streams, piece by
  piece and interleaved with any other requests, is the one-shot decoding of its tokens cut at
  the stop string that ended it.
\<close>

type_synonym str = "nat list"

section \<open>Text helpers\<close>

definition is_chinese_char :: "nat \<Rightarrow> bool" where
  "is_chinese_char cp =
     ((cp \<ge> 0x4E00 \<and> cp \<le> 0x9FFF) \<or> (cp \<ge> 0x3400 \<and> cp \<le> 0x4DBF) \<or>
      (cp \<ge> 0x20000 \<and> cp \<le> 0x2A6DF) \<or> (cp \<ge> 0x2A700 \<and> cp \<le> 0x2B73F) \<or>
      (cp \<ge> 0x2B740 \<and> cp \<le> 0x2B81F) \<or> (cp \<ge> 0x2B820 \<and> cp \<le> 0x2CEAF) \<or>
      (cp \<ge> 0xF900 \<and> cp \<le> 0xFAFF) \<or> (cp \<ge> 0x2F800 \<and> cp \<le> 0x2FA1F))"

text \<open>\<open>text.rfind(c) + 1\<close>: zero when \<open>c\<close> does not occur.\<close>

fun rfind_end :: "nat \<Rightarrow> str \<Rightarrow> nat" where
  "rfind_end c [] = 0"
| "rfind_end c (x # xs) =
     (let n = rfind_end c xs in if n = 0 then (if x = c then 1 else 0) else Suc n)"

text \<open>\<open>text.find(sub)\<close>, with \<open>None\<close> for \<open>-1\<close>.\<close>

fun str_find :: "str \<Rightarrow> str \<Rightarrow> nat option" where
  "str_find sub [] = (if sub = [] then Some 0 else None)"
| "str_find sub (x # xs) =
     (if prefix sub (x # xs) then Some 0 else map_option Suc (str_find sub xs))"

definition newline :: nat where "newline = 10"
definition space :: nat where "space = 32"
definition replacement :: nat where "replacement = 0xFFFD"

definition find_printable_text :: "str \<Rightarrow> str" where
  "find_printable_text t =
     (if t \<noteq> [] \<and> last t = newline then t
      else if length t > 0 \<and> is_chinese_char (last t) then t
      else if length t > 1 \<and> is_chinese_char (last (butlast t)) then butlast t
      else take (rfind_end space t) t)"

text \<open>The inner loop of \<open>_stop_prefix_holdback\<close>: candidate lengths from \<open>i\<close> down to one.\<close>

fun holdback_scan :: "str \<Rightarrow> str \<Rightarrow> nat \<Rightarrow> nat" where
  "holdback_scan t stop 0 = 0"
| "holdback_scan t stop (Suc i) =
     (if suffix (take (Suc i) stop) t then Suc i else holdback_scan t stop i)"

definition stop_prefix_holdback :: "str \<Rightarrow> str list \<Rightarrow> nat" where
  "stop_prefix_holdback t stops =
     foldl (\<lambda>hold stop. max hold (holdback_scan t stop (min (length stop - 1) (length t)))) 0 stops"

section \<open>The manager\<close>

record decode_status =
  decoded_ids :: "token list"
  decoded_str :: str
  read_offset :: nat
  surr_offset :: nat
  sent_offset :: nat

text \<open>The fields of \<open>DetokenizeMsg\<close> the manager reads.\<close>

record detok_msg =
  dm_uid :: int
  dm_next_token :: token
  dm_finished :: bool
  dm_matched_stop :: "str option"
  dm_stop_strs :: "str list option"

type_synonym decode_map = "int \<rightharpoonup> decode_status"

definition fresh_status :: decode_status where
  "fresh_status = \<lparr>decoded_ids = [], decoded_str = [], read_offset = 0, surr_offset = 0,
                   sent_offset = 0\<rparr>"

definition discard :: "int \<Rightarrow> decode_map \<Rightarrow> decode_map" where
  "discard uid st = st(uid := None)"

text \<open>The first loop registers the uid, appends the token and collects the two id windows.\<close>

definition status_of :: "int \<Rightarrow> decode_map \<Rightarrow> decode_status" where
  "status_of uid st = (case st uid of None \<Rightarrow> fresh_status | Some s \<Rightarrow> s)"

definition push_token :: "token set \<Rightarrow> detok_msg \<Rightarrow> decode_status \<Rightarrow> decode_status" where
  "push_token eos msg s =
     (if \<not> (dm_finished msg \<and> dm_next_token msg \<in> eos)
      then s\<lparr>decoded_ids := decoded_ids s @ [dm_next_token msg]\<rparr> else s)"

definition read_window :: "decode_status \<Rightarrow> token list" where
  "read_window s = drop (surr_offset s) (decoded_ids s)"

definition surr_window :: "decode_status \<Rightarrow> token list" where
  "surr_window s = drop (surr_offset s) (take (read_offset s) (decoded_ids s))"

fun collect_windows ::
  "token set \<Rightarrow> detok_msg list \<Rightarrow> decode_map \<Rightarrow>
   decode_map \<times> token list list \<times> token list list" where
  "collect_windows eos [] st = (st, [], [])"
| "collect_windows eos (msg # msgs) st =
     (let s = push_token eos msg (status_of (dm_uid msg) st);
          (st', read_ids, surr_ids) = collect_windows eos msgs (st(dm_uid msg \<mapsto> s))
      in (st', read_window s # read_ids, surr_window s # surr_ids))"

text \<open>The second loop: commit the decoded text or print its stable part, then emit.\<close>

definition update_status :: "decode_status \<Rightarrow> str \<Rightarrow> decode_status \<times> str" where
  "update_status s new_text =
     (if length new_text > 0 \<and> last new_text \<noteq> replacement then
        let output_str = decoded_str s @ new_text in
        (s\<lparr>decoded_str := output_str, surr_offset := read_offset s,
           read_offset := length (decoded_ids s)\<rparr>, output_str)
      else (s, decoded_str s @ find_printable_text new_text))"

definition emit_end :: "detok_msg \<Rightarrow> str \<Rightarrow> nat" where
  "emit_end msg output_str =
     (if dm_finished msg then
        (case dm_matched_stop msg of
           Some stop \<Rightarrow>
             (if stop \<noteq> [] then
                (case str_find stop output_str of Some n \<Rightarrow> n | None \<Rightarrow> length output_str)
              else length output_str)
         | None \<Rightarrow> length output_str)
      else (case dm_stop_strs msg of
              Some stops \<Rightarrow>
                (if stops \<noteq> [] then length output_str - stop_prefix_holdback output_str stops
                 else length output_str)
            | None \<Rightarrow> length output_str))"

definition emit_chunk :: "detok_msg \<Rightarrow> decode_status \<Rightarrow> str \<Rightarrow> decode_status \<times> str" where
  "emit_chunk msg s output_str =
     (let prev_sent = sent_offset s; e = emit_end msg output_str in
      (s\<lparr>sent_offset := max prev_sent e\<rparr>,
       if e > prev_sent then drop prev_sent (take e output_str) else []))"

definition deliver_one ::
  "detok_msg \<Rightarrow> str \<Rightarrow> str \<Rightarrow> decode_map \<Rightarrow> (decode_map \<times> str) res" where
  "deliver_one msg read_str surr_str st =
     (case st (dm_uid msg) of
        None \<Rightarrow> Inl KeyError
      | Some s \<Rightarrow>
          let (s1, output_str) = update_status s (drop (length surr_str) read_str);
              (s2, chunk) = emit_chunk msg s1 output_str;
              st' = st(dm_uid msg \<mapsto> s2)
          in Inr (if dm_finished msg then st'(dm_uid msg := None) else st', chunk))"

text \<open>\<open>zip(..., strict=True)\<close> raises when the lengths differ.\<close>

fun deliver ::
  "detok_msg list \<Rightarrow> str list \<Rightarrow> str list \<Rightarrow> decode_map \<Rightarrow> (decode_map \<times> str list) res" where
  "deliver [] [] [] st = Inr (st, [])"
| "deliver (msg # msgs) (r # rs) (u # us) st =
     res_bind (deliver_one msg r u st) (\<lambda>(st1, chunk).
     res_bind (deliver msgs rs us st1) (\<lambda>(st2, chunks). Inr (st2, chunk # chunks)))"
| "deliver _ _ _ st = Inl ValueError"

definition detokenize_distinct ::
  "(token list list \<Rightarrow> str list) \<Rightarrow> token set \<Rightarrow> detok_msg list \<Rightarrow> decode_map \<Rightarrow>
   (decode_map \<times> str list) res" where
  "detokenize_distinct bd eos msgs st =
     (let (st1, read_ids, surr_ids) = collect_windows eos msgs st
      in deliver msgs (bd read_ids) (bd surr_ids) st1)"

fun detokenize_each ::
  "(token list list \<Rightarrow> str list) \<Rightarrow> token set \<Rightarrow> detok_msg list \<Rightarrow> decode_map \<Rightarrow>
   (decode_map \<times> str list) res" where
  "detokenize_each bd eos [] st = Inr (st, [])"
| "detokenize_each bd eos (msg # msgs) st =
     res_bind (detokenize_distinct bd eos [msg] st) (\<lambda>(st1, out).
     res_bind (detokenize_each bd eos msgs st1) (\<lambda>(st2, outs). Inr (st2, out @ outs)))"

definition detokenize ::
  "(token list list \<Rightarrow> str list) \<Rightarrow> token set \<Rightarrow> detok_msg list \<Rightarrow> decode_map \<Rightarrow>
   (decode_map \<times> str list) res" where
  "detokenize bd eos msgs st =
     (if card (set (map dm_uid msgs)) \<noteq> length msgs then detokenize_each bd eos msgs st
      else detokenize_distinct bd eos msgs st)"

section \<open>What the tokenizer promises\<close>

text \<open>A text is complete when it does not end in the replacement character; \<open>settled\<close> is the
  longest complete prefix.\<close>

definition complete :: "str \<Rightarrow> bool" where
  "complete t = (t = [] \<or> last t \<noteq> replacement)"

definition settled :: "str \<Rightarrow> str" where
  "settled t = rev (dropWhile ((=) replacement) (rev t))"

text \<open>
  The facts about decoding: \<open>batch_decode\<close> decodes every sequence on its own; no tokens, no text; a further token only
  rewrites the replacement characters an unfinished multi-byte character leaves at the end; and
  the text some tokens add does not depend on what stands before a complete, non-empty left
  context (a SentencePiece tokenizer strips the space in front of the first token, hence the
  non-empty context).
\<close>

definition tokenizer_ok :: "(token list list \<Rightarrow> str list) \<Rightarrow> (token list \<Rightarrow> str) \<Rightarrow> bool" where
  "tokenizer_ok bd dec \<longleftrightarrow>
     (\<forall>xss. bd xss = map dec xss) \<and> dec [] = [] \<and>
     (\<forall>xs t. prefix (settled (dec xs)) (dec (xs @ [t]))) \<and>
     (\<forall>as bs cs. bs \<noteq> [] \<and> complete (dec as) \<and> complete (dec (as @ bs)) \<longrightarrow>
        drop (length (dec bs)) (dec (bs @ cs)) = drop (length (dec (as @ bs))) (dec (as @ bs @ cs)))"

lemma tokenizer_okD:
  assumes "tokenizer_ok bd dec"
  shows "bd xss = map dec xss" "dec [] = []" "prefix (settled (dec xs)) (dec (xs @ [t]))"
    "bs \<noteq> [] \<Longrightarrow> complete (dec as) \<Longrightarrow> complete (dec (as @ bs)) \<Longrightarrow>
     drop (length (dec bs)) (dec (bs @ cs)) = drop (length (dec (as @ bs))) (dec (as @ bs @ cs))"
  using assms unfolding tokenizer_ok_def by blast+

subsection \<open>Settled text\<close>

lemma complete_simps [simp]: "complete []" "complete (xs @ [x]) = (x \<noteq> replacement)"
  by (simp_all add: complete_def)

lemma complete_append: "complete (xs @ ys) \<longleftrightarrow> (if ys = [] then complete xs else complete ys)"
  by (simp add: complete_def)

lemma settled_snoc [simp]:
  "settled (xs @ [x]) = (if x = replacement then settled xs else xs @ [x])"
  by (auto simp: settled_def)

lemma settled_Nil [simp]: "settled [] = []"
  by (simp add: settled_def)

lemma settled_id: "complete t \<Longrightarrow> settled t = t"
  by (cases t rule: rev_cases) auto

lemma complete_settled [simp]: "complete (settled t)"
  by (induction t rule: rev_induct) auto

lemma prefix_settled [simp]: "prefix (settled t) t"
  by (induction t rule: rev_induct) auto

lemma prefix_settled_iff: "complete y \<Longrightarrow> prefix y z \<longleftrightarrow> prefix y (settled z)"
proof (induction z rule: rev_induct)
  case (snoc x xs)
  then show ?case by (auto simp: complete_def)
qed simp

lemma settled_append:
  "settled (xs @ ys) = (if settled ys = [] then settled xs else xs @ settled ys)"
  by (induction ys rule: rev_induct) (auto simp flip: append_assoc)

lemma settled_append_complete: "complete xs \<Longrightarrow> settled (xs @ ys) = xs @ settled ys"
  by (simp add: settled_append settled_id)

subsection \<open>Byte-level tokenizers\<close>

text \<open>
  UTF-8 decoding with \<open>errors="replace"\<close>, byte by byte: \<open>p\<close> holds the bytes of the character that is
  under way.  A byte that cannot continue it ends it with a replacement character and starts
  anew, and so does the end of the input.  The ranges are those of the Unicode standard.
\<close>

definition utf8_length :: "nat \<Rightarrow> nat" where
  "utf8_length b =
     (if b < 0x80 then 1 else if 0xC2 \<le> b \<and> b \<le> 0xDF then 2 else if 0xE0 \<le> b \<and> b \<le> 0xEF then 3
      else if 0xF0 \<le> b \<and> b \<le> 0xF4 then 4 else 0)"

definition utf8_continues :: "nat list \<Rightarrow> nat \<Rightarrow> bool" where
  "utf8_continues p b =
     (if p = [0xE0] then 0xA0 \<le> b \<and> b \<le> 0xBF else if p = [0xED] then 0x80 \<le> b \<and> b \<le> 0x9F
      else if p = [0xF0] then 0x90 \<le> b \<and> b \<le> 0xBF else if p = [0xF4] then 0x80 \<le> b \<and> b \<le> 0x8F
      else 0x80 \<le> b \<and> b \<le> 0xBF)"

definition utf8_code :: "nat list \<Rightarrow> nat" where
  "utf8_code p = foldl (\<lambda>c b. c * 64 + b mod 64)
     (hd p mod (if length p = 2 then 32 else if length p = 3 then 16 else 8)) (tl p)"

definition utf8_start :: "nat \<Rightarrow> nat list \<times> str" where
  "utf8_start b =
     (if utf8_length b = 1 then ([], [b]) else if utf8_length b = 0 then ([], [replacement]) else ([b], []))"

definition utf8_step :: "nat list \<Rightarrow> nat \<Rightarrow> nat list \<times> str" where
  "utf8_step p b =
     (if p = [] then utf8_start b
      else if utf8_continues p b then
        (if Suc (length p) = utf8_length (hd p) then ([], [utf8_code (p @ [b])]) else (p @ [b], []))
      else case utf8_start b of (q, out) \<Rightarrow> (q, replacement # out))"

fun utf8_emit :: "nat list \<Rightarrow> nat list \<Rightarrow> nat list \<times> str" where
  "utf8_emit p [] = (p, [])"
| "utf8_emit p (b # bs) =
     (case utf8_step p b of (q, out) \<Rightarrow> case utf8_emit q bs of (r, out') \<Rightarrow> (r, out @ out'))"

definition utf8_text :: "nat list \<Rightarrow> str" where
  "utf8_text bs = (case utf8_emit [] bs of (p, out) \<Rightarrow> if p = [] then out else out @ [replacement])"

text \<open>A tokenizer in which every token stands for some bytes, \<open>vocab\<close>.\<close>

definition byte_level :: "(token \<Rightarrow> nat list) \<Rightarrow> token list \<Rightarrow> str" where
  "byte_level vocab ids = utf8_text (concat (map vocab ids))"

lemma utf8_emit_append:
  "utf8_emit p (bs @ cs) = (case utf8_emit p bs of (q, out) \<Rightarrow> case utf8_emit q cs of (r, out') \<Rightarrow> (r, out @ out'))"
  by (induction bs arbitrary: p) (auto split: prod.splits)

lemma utf8_text_settled: "prefix (settled (utf8_text bs)) (snd (utf8_emit [] bs))"
  by (cases "utf8_emit [] bs") (simp add: utf8_text_def)

lemma utf8_emit_prefix: "prefix (snd (utf8_emit [] bs)) (utf8_text (bs @ cs))"
  by (auto simp: utf8_text_def utf8_emit_append split: prod.splits)

lemma utf8_complete:
  assumes "complete (utf8_text bs)"
  shows "utf8_text (bs @ cs) = utf8_text bs @ utf8_text cs"
proof -
  obtain p out where e: "utf8_emit [] bs = (p, out)" by fastforce
  then have "p = []" using assms by (cases "p = []") (simp_all add: utf8_text_def)
  then show ?thesis using e by (auto simp: utf8_text_def utf8_emit_append split: prod.splits)
qed

lemma byte_level_append:
  "complete (byte_level vocab xs) \<Longrightarrow> byte_level vocab (xs @ ys) = byte_level vocab xs @ byte_level vocab ys"
  unfolding byte_level_def by (simp add: utf8_complete)

lemma byte_level_ok: "\<forall>xss. bd xss = map (byte_level vocab) xss \<Longrightarrow> tokenizer_ok bd (byte_level vocab)"
  unfolding tokenizer_ok_def
proof (intro conjI allI impI)
  fix xs t
  show "prefix (settled (byte_level vocab xs)) (byte_level vocab (xs @ [t]))"
    unfolding byte_level_def map_append concat_append
    by (rule prefix_order.trans[OF utf8_text_settled utf8_emit_prefix])
next
  fix hs bs cs :: "token list"
  assume a: "bs \<noteq> [] \<and> complete (byte_level vocab hs) \<and> complete (byte_level vocab (hs @ bs))"
  then have "byte_level vocab (hs @ bs) = byte_level vocab hs @ byte_level vocab bs"
    "byte_level vocab (hs @ bs @ cs) = byte_level vocab hs @ byte_level vocab (bs @ cs)"
    by (simp_all add: byte_level_append)
  then show "drop (length (byte_level vocab bs)) (byte_level vocab (bs @ cs)) =
      drop (length (byte_level vocab (hs @ bs))) (byte_level vocab (hs @ bs @ cs))" by simp
qed (simp_all add: byte_level_def utf8_text_def)

lemma settled_mono:
  assumes "tokenizer_ok bd dec"
  shows "prefix (settled (dec xs)) (settled (dec (xs @ ys)))"
proof (induction ys rule: rev_induct)
  case (snoc y ys)
  have "prefix (settled (dec (xs @ ys))) (settled (dec ((xs @ ys) @ [y])))"
    using tokenizer_okD(3)[OF assms, of "xs @ ys" y] prefix_settled_iff complete_settled by blast
  with snoc show ?case by (metis append.assoc prefix_order.trans)
qed simp

lemma decode_grows:
  assumes "tokenizer_ok bd dec" and "complete (dec xs)"
  shows "dec xs @ drop (length (dec xs)) (dec (xs @ ys)) = dec (xs @ ys)"
proof -
  have "prefix (dec xs) (dec (xs @ ys))"
    using settled_mono[OF assms(1), of xs ys] assms(2) prefix_settled prefix_order.trans
    by (metis settled_id)
  then show ?thesis by (auto elim!: prefixE)
qed

subsection \<open>Search and hold-back\<close>

lemma rfind_end_le: "rfind_end c t \<le> length t"
  by (induction t) (auto simp: Let_def)

lemma last_rfind_end: "rfind_end c t > 0 \<Longrightarrow> last (take (rfind_end c t) t) = c"
  by (induction t) (auto simp: Let_def split: if_splits)

lemma printable_settled:
  assumes "t = [] \<or> last t = replacement"
  shows "prefix (find_printable_text t) (settled t)"
proof (cases t rule: rev_cases)
  case (snoc xs x)
  then have t: "t = xs @ [replacement]" using assms by simp
  have "complete (take (rfind_end space t) t)"
    using last_rfind_end[of space t] by (cases "rfind_end space t") (auto simp: complete_def space_def replacement_def)
  then have "prefix (take (rfind_end space t) t) (settled t)"
    using prefix_settled_iff take_is_prefix by blast
  moreover have "complete xs" if "xs \<noteq> []" "is_chinese_char (last xs)"
    using that by (auto simp: complete_def is_chinese_char_def replacement_def)
  ultimately show ?thesis
    by (auto simp: t find_printable_text_def newline_def replacement_def is_chinese_char_def settled_id)
qed (simp add: find_printable_text_def)

lemma str_find_Some: "str_find sub t = Some n \<Longrightarrow> n + length sub \<le> length t \<and> prefix sub (drop n t)"
  by (induction t arbitrary: n) (auto split: if_splits dest: prefix_length_le)

lemma str_find_prefix:
  "str_find sub t = Some n \<Longrightarrow> prefix p t \<Longrightarrow> n + length sub \<le> length p \<Longrightarrow> str_find sub p \<noteq> None"
proof (induction t arbitrary: n p)
  case (Cons x xs)
  show ?case
  proof (cases "prefix sub (x # xs)")
    case True
    then have "n = 0" using Cons.prems by simp
    then have "prefix sub p" using True Cons.prems by (metis add_0 prefix_length_prefix)
    then show ?thesis by (cases p) auto
  next
    case False
    then obtain m where m: "str_find sub xs = Some m" "n = Suc m" using Cons.prems by auto
    then obtain p' where p: "p = x # p'" "prefix p' xs" using Cons.prems by (cases p) auto
    then show ?thesis using Cons.IH[OF m(1) p(2)] Cons.prems m by auto
  qed
qed (auto split: if_splits)

lemma holdback_scan_le: "holdback_scan t stop n \<le> n"
  by (induction n) auto

lemma holdback_scan_ge: "0 < j \<Longrightarrow> j \<le> n \<Longrightarrow> suffix (take j stop) t \<Longrightarrow> j \<le> holdback_scan t stop n"
  by (induction n) (auto simp: le_Suc_eq)

lemma holdback_fold:
  "foldl (\<lambda>hold stop. max hold (f stop)) a stops = Max (insert a (f ` set stops))"
proof (induction stops arbitrary: a)
  case (Cons s stops)
  have "insert a (f ` set (s # stops)) = insert a (insert (f s) (f ` set stops))" by auto
  with Cons show ?case by (cases "f ` set stops = {}") (auto simp: max.assoc max.commute)
qed simp

lemma holdback_ge: "stop \<in> set stops \<Longrightarrow>
   holdback_scan t stop (min (length stop - 1) (length t)) \<le> stop_prefix_holdback t stops"
  by (simp add: stop_prefix_holdback_def holdback_fold)

text \<open>Text that reaches into a stop string without completing it is withheld from its first
  character on.\<close>

lemma holdback_cut:
  assumes find: "str_find stop t = Some n" and O: "prefix out t" and none: "str_find stop out = None"
    and stop: "stop \<in> set stops"
  shows "length out - stop_prefix_holdback out stops \<le> n"
proof (cases "length out \<le> n")
  case False
  define j where "j = length out - n"
  have short: "length out < n + length stop"
    using str_find_prefix[OF find O] none by force
  have t: "n + length stop \<le> length t" "prefix stop (drop n t)" using str_find_Some[OF find] by auto
  then have "take (length stop) (drop n t) = stop" by (metis append_eq_conv_conj prefixE)
  moreover have "drop n out = take j (drop n t)"
    using O False by (auto simp: j_def elim!: prefixE)
  ultimately have "drop n out = take j stop"
    using short by (metis False j_def le_add_diff_inverse linorder_le_cases min_def nat_add_left_cancel_less not_less take_take)
  then have "suffix (take j stop) out" by (metis suffix_drop)
  then have "j \<le> holdback_scan out stop (min (length stop - 1) (length out))"
    using short False by (intro holdback_scan_ge) (auto simp: j_def)
  then have "j \<le> stop_prefix_holdback out stops" using holdback_ge[OF stop] le_trans by blast
  then show ?thesis using False by (simp add: j_def)
qed simp

section \<open>One message at a time\<close>

text \<open>The effect of one message on the state of its own request.\<close>

definition uid_step ::
  "(token list \<Rightarrow> str) \<Rightarrow> token set \<Rightarrow> detok_msg \<Rightarrow> decode_status option \<Rightarrow>
   decode_status option \<times> str" where
  "uid_step dec eos msg so =
     (let s = push_token eos msg (case so of None \<Rightarrow> fresh_status | Some s \<Rightarrow> s);
          (s1, output_str) = update_status s (drop (length (dec (surr_window s))) (dec (read_window s)));
          (s2, chunk) = emit_chunk msg s1 output_str
      in (if dm_finished msg then None else Some s2, chunk))"

fun step_all ::
  "(token list \<Rightarrow> str) \<Rightarrow> token set \<Rightarrow> detok_msg list \<Rightarrow> decode_map \<Rightarrow> decode_map \<times> str list" where
  "step_all dec eos [] st = (st, [])"
| "step_all dec eos (msg # msgs) st =
     (let (so, chunk) = uid_step dec eos msg (st (dm_uid msg));
          (st', chunks) = step_all dec eos msgs (st(dm_uid msg := so))
      in (st', chunk # chunks))"

abbreviation pushed :: "token set \<Rightarrow> decode_map \<Rightarrow> detok_msg \<Rightarrow> decode_status" where
  "pushed eos st msg \<equiv> push_token eos msg (status_of (dm_uid msg) st)"

lemma status_of_other [simp]: "v \<noteq> u \<Longrightarrow> status_of v (st(u := so)) = status_of v st"
  by (simp add: status_of_def)

lemma collect_windows_distinct:
  assumes "distinct (map dm_uid msgs)"
  shows "collect_windows eos msgs st =
     (fold (\<lambda>m st'. st'(dm_uid m \<mapsto> pushed eos st m)) msgs st,
      map (\<lambda>m. read_window (pushed eos st m)) msgs, map (\<lambda>m. surr_window (pushed eos st m)) msgs)"
  using assms
proof (induction msgs arbitrary: st)
  case (Cons m msgs)
  have same: "pushed eos (st(dm_uid m \<mapsto> s)) m' = pushed eos st m'" if "m' \<in> set msgs" for m' s
  proof -
    have "dm_uid m' \<noteq> dm_uid m" using Cons.prems that by (metis distinct.simps(2) image_eqI list.simps(9) set_map)
    then show ?thesis by simp
  qed
  have "fold (\<lambda>m' st'. st'(dm_uid m' \<mapsto> pushed eos (st(dm_uid m \<mapsto> s)) m')) msgs st0 =
        fold (\<lambda>m' st'. st'(dm_uid m' \<mapsto> pushed eos st m')) msgs st0" for s st0
    by (rule fold_cong) (simp_all add: same)
  with Cons show ?case by (simp add: Let_def same del: fun_upd_apply)
qed simp

lemma fold_upd_other: "u \<notin> f ` set ms \<Longrightarrow> fold (\<lambda>m st'. st'(f m \<mapsto> g m)) ms st u = st u"
  by (induction ms arbitrary: st) auto

lemma fold_upd_in:
  "distinct (map f ms) \<Longrightarrow> m \<in> set ms \<Longrightarrow> fold (\<lambda>m st'. st'(f m \<mapsto> g m)) ms st (f m) = Some (g m)"
  by (induction ms arbitrary: st) (auto simp: fold_upd_other)

lemma step_all_other: "u \<notin> dm_uid ` set msgs \<Longrightarrow> fst (step_all dec eos msgs st) u = st u"
  by (induction msgs arbitrary: st) (auto simp: split_def Let_def)

lemma length_step_all: "length (snd (step_all dec eos msgs st)) = length msgs"
  by (induction msgs arbitrary: st) (auto simp: split_def Let_def)

lemma deliver_one_eq:
  assumes "st1 (dm_uid m) = Some (pushed eos st m)"
  shows "deliver_one m (dec (read_window (pushed eos st m))) (dec (surr_window (pushed eos st m))) st1
    = Inr (st1(dm_uid m := fst (uid_step dec eos m (st (dm_uid m)))),
           snd (uid_step dec eos m (st (dm_uid m))))"
  using assms
  by (simp add: deliver_one_def uid_step_def status_of_def Let_def split: prod.splits)

lemma deliver_eq:
  assumes "distinct (map dm_uid msgs)" "\<And>m. m \<in> set msgs \<Longrightarrow> st1 (dm_uid m) = Some (pushed eos st m)"
  shows "deliver msgs (map (\<lambda>m. dec (read_window (pushed eos st m))) msgs)
                      (map (\<lambda>m. dec (surr_window (pushed eos st m))) msgs) st1
    = Inr (override_on st1 (fst (step_all dec eos msgs st)) (dm_uid ` set msgs),
           snd (step_all dec eos msgs st))"
  using assms
proof (induction msgs arbitrary: st st1)
  case (Cons m msgs)
  let ?so = "fst (uid_step dec eos m (st (dm_uid m)))"
  have out: "dm_uid m \<notin> dm_uid ` set msgs" and d: "distinct (map dm_uid msgs)" using Cons.prems by auto
  have same: "pushed eos (st(dm_uid m := ?so)) m' = pushed eos st m'" if "m' \<in> set msgs" for m'
  proof -
    have "dm_uid m' \<noteq> dm_uid m" using out that by (metis image_eqI)
    then show ?thesis by simp
  qed
  have pre: "(st1(dm_uid m := ?so)) (dm_uid m') = Some (pushed eos (st(dm_uid m := ?so)) m')"
    if "m' \<in> set msgs" for m'
  proof -
    have "dm_uid m' \<noteq> dm_uid m" using out that by (metis image_eqI)
    then show ?thesis using that Cons.prems(2)[of m'] by simp
  qed
  have "override_on (st1(dm_uid m := ?so)) (fst (step_all dec eos msgs (st(dm_uid m := ?so)))) (dm_uid ` set msgs)
      = override_on st1 (fst (step_all dec eos (m # msgs) st)) (dm_uid ` set (m # msgs))"
    using step_all_other[OF out, of dec eos "st(dm_uid m := ?so)"]
    by (auto simp: override_on_def fun_eq_iff Let_def split: prod.splits)
  moreover have "map (\<lambda>m'. dec (read_window (pushed eos (st(dm_uid m := ?so)) m'))) msgs =
      map (\<lambda>m'. dec (read_window (pushed eos st m'))) msgs"
    "map (\<lambda>m'. dec (surr_window (pushed eos (st(dm_uid m := ?so)) m'))) msgs =
      map (\<lambda>m'. dec (surr_window (pushed eos st m'))) msgs"
    using same by auto
  ultimately show ?case
    using Cons.IH[where st = "st(dm_uid m := ?so)" and ?st1.0 = "st1(dm_uid m := ?so)", OF d pre]
      Cons.prems(2)[of m] deliver_one_eq[of st1 m eos st dec]
    by (simp add: Let_def split_def del: fun_upd_apply map_eq_conv)
qed (simp add: override_on_def)

lemma detokenize_distinct_eq:
  assumes bd: "\<And>xss. bd xss = map dec xss" and d: "distinct (map dm_uid msgs)"
  shows "detokenize_distinct bd eos msgs st = Inr (step_all dec eos msgs st)"
proof -
  let ?st1 = "fold (\<lambda>m st'. st'(dm_uid m \<mapsto> pushed eos st m)) msgs st"
  have "override_on ?st1 (fst (step_all dec eos msgs st)) (dm_uid ` set msgs) =
        fst (step_all dec eos msgs st)"
    using fold_upd_other[of _ dm_uid msgs] step_all_other[of _ msgs dec eos st]
    by (auto simp: override_on_def fun_eq_iff)
  moreover have "deliver msgs (map (\<lambda>m. dec (read_window (pushed eos st m))) msgs)
                      (map (\<lambda>m. dec (surr_window (pushed eos st m))) msgs) ?st1
    = Inr (override_on ?st1 (fst (step_all dec eos msgs st)) (dm_uid ` set msgs),
           snd (step_all dec eos msgs st))"
    by (rule deliver_eq[OF d]) (rule fold_upd_in[OF d])
  ultimately show ?thesis
    by (simp add: detokenize_distinct_def collect_windows_distinct[OF d] bd comp_def)
qed

lemma detokenize_each_eq:
  assumes bd: "\<And>xss. bd xss = map dec xss"
  shows "detokenize_each bd eos msgs st = Inr (step_all dec eos msgs st)"
  by (induction msgs arbitrary: st)
    (auto simp: detokenize_distinct_eq[OF bd] Let_def split: prod.splits)

lemma detokenize_eq:
  assumes "\<And>xss. bd xss = map dec xss"
  shows "detokenize bd eos msgs st = Inr (step_all dec eos msgs st)"
proof (cases "card (set (map dm_uid msgs)) = length msgs")
  case True
  then have "distinct (map dm_uid msgs)" using card_distinct by (metis length_map)
  then show ?thesis using True by (simp add: detokenize_def detokenize_distinct_eq[OF assms])
qed (simp add: detokenize_def detokenize_each_eq[OF assms])

subsection \<open>One request among many\<close>

fun uid_run ::
  "(token list \<Rightarrow> str) \<Rightarrow> token set \<Rightarrow> detok_msg list \<Rightarrow> decode_status option \<Rightarrow>
   decode_status option \<times> str" where
  "uid_run dec eos [] so = (so, [])"
| "uid_run dec eos (msg # msgs) so =
     (let (so1, chunk) = uid_step dec eos msg so; (so2, rest) = uid_run dec eos msgs so1
      in (so2, chunk @ rest))"

text \<open>What a request received: the concatenation of the chunks tagged with its uid.\<close>

definition streamed :: "int \<Rightarrow> (int \<times> str) list \<Rightarrow> str" where
  "streamed uid outs = concat (map snd (filter (\<lambda>x. fst x = uid) outs))"

lemma streamed_simps [simp]:
  "streamed u [] = []" "streamed u (xs @ ys) = streamed u xs @ streamed u ys"
  "streamed u (x # xs) = (if fst x = u then snd x @ streamed u xs else streamed u xs)"
  by (simp_all add: streamed_def)

lemma step_all_uid:
  "uid_run dec eos (filter (\<lambda>m. dm_uid m = u) msgs) (st u) =
   (fst (step_all dec eos msgs st) u, streamed u (zip (map dm_uid msgs) (snd (step_all dec eos msgs st))))"
proof (induction msgs arbitrary: st)
  case (Cons m msgs)
  define st1 where "st1 = st(dm_uid m := fst (uid_step dec eos m (st (dm_uid m))))"
  have "st1 u = (if dm_uid m = u then fst (uid_step dec eos m (st u)) else st u)"
    by (simp add: st1_def)
  then show ?case
    using Cons[of st1] by (auto simp: split_def Let_def simp flip: st1_def)
qed simp

lemma uid_run_append:
  "uid_run dec eos (xs @ ys) so =
   (let (so1, a) = uid_run dec eos xs so; (so2, b) = uid_run dec eos ys so1 in (so2, a @ b))"
  by (induction xs arbitrary: so) (auto simp: split_def Let_def)

text \<open>The manager over a history of batches and discards.\<close>

datatype detok_event = Detok "detok_msg list" | Discard int

fun detok_run ::
  "(token list list \<Rightarrow> str list) \<Rightarrow> token set \<Rightarrow> detok_event list \<Rightarrow> decode_map \<Rightarrow>
   (decode_map \<times> (int \<times> str) list) res" where
  "detok_run bd eos [] st = Inr (st, [])"
| "detok_run bd eos (Detok msgs # es) st =
     res_bind (detokenize bd eos msgs st) (\<lambda>(st1, outs).
     res_bind (detok_run bd eos es st1) (\<lambda>(st2, rest).
       Inr (st2, zip (map dm_uid msgs) outs @ rest)))"
| "detok_run bd eos (Discard uid # es) st = detok_run bd eos es (discard uid st)"

fun msgs_for :: "int \<Rightarrow> detok_event list \<Rightarrow> detok_msg list" where
  "msgs_for u [] = []"
| "msgs_for u (Detok msgs # es) = filter (\<lambda>m. dm_uid m = u) msgs @ msgs_for u es"
| "msgs_for u (Discard v # es) = msgs_for u es"

lemma detok_run_uid:
  assumes bd: "\<And>xss. bd xss = map dec xss" and "Discard u \<notin> set es"
  shows "\<exists>st' outs. detok_run bd eos es st = Inr (st', outs) \<and>
     uid_run dec eos (msgs_for u es) (st u) = (st' u, streamed u outs)"
  using assms(2)
proof (induction es arbitrary: st)
  case (Cons e es)
  show ?case
  proof (cases e)
    case (Detok msgs)
    obtain st' outs where
      "detok_run bd eos es (fst (step_all dec eos msgs st)) = Inr (st', outs)"
      "uid_run dec eos (msgs_for u es) (fst (step_all dec eos msgs st) u) = (st' u, streamed u outs)"
      using Cons by fastforce
    then show ?thesis
      using step_all_uid[of dec eos u msgs st]
      by (cases "step_all dec eos msgs st") (simp add: Detok detokenize_eq[OF bd] uid_run_append)
  next
    case (Discard v)
    then have "u \<noteq> v" "discard v st u = st u" using Cons.prems by (auto simp: discard_def)
    then show ?thesis using Cons.IH[of "discard v st"] Cons.prems by (auto simp: Discard)
  qed
qed simp

section \<open>The streamed text is the decoded text\<close>

text \<open>What is known of a request after unfinished messages with the tokens \<open>ids\<close> that streamed
  the text \<open>e\<close>.\<close>

definition stream_inv :: "(token list \<Rightarrow> str) \<Rightarrow> token list \<Rightarrow> decode_status \<Rightarrow> str \<Rightarrow> bool" where
  "stream_inv dec ids s e \<longleftrightarrow>
     decoded_ids s = ids \<and> surr_offset s \<le> read_offset s \<and> read_offset s \<le> length ids \<and>
     (surr_offset s = read_offset s \<longrightarrow> read_offset s = 0) \<and>
     decoded_str s = dec (take (read_offset s) ids) \<and>
     complete (dec (take (read_offset s) ids)) \<and> complete (dec (take (surr_offset s) ids)) \<and>
     prefix e (settled (dec ids)) \<and> length e = sent_offset s"

lemma stream_inv_fresh:
  assumes "tokenizer_ok bd dec"
  shows "stream_inv dec [] fresh_status []"
  using tokenizer_okD(2)[OF assms] by (simp add: stream_inv_def fresh_status_def)

lemma window_text:
  assumes tok: "tokenizer_ok bd dec" and inv: "stream_inv dec ids s e"
  shows "drop (length (dec (surr_window (s\<lparr>decoded_ids := ids @ ts\<rparr>))))
            (dec (read_window (s\<lparr>decoded_ids := ids @ ts\<rparr>)))
       = drop (length (decoded_str s)) (dec (ids @ ts))"
proof (cases "surr_offset s = read_offset s")
  case True
  then show ?thesis
    using inv tokenizer_okD(2)[OF tok] by (simp add: stream_inv_def surr_window_def read_window_def)
next
  case False
  define as bs cs where "as = take (surr_offset s) ids"
    and "bs = drop (surr_offset s) (take (read_offset s) ids)"
    and "cs = drop (read_offset s) ids @ ts"
  have le: "surr_offset s \<le> read_offset s" "read_offset s \<le> length ids"
    using inv by (auto simp: stream_inv_def)
  have ab: "as @ bs = take (read_offset s) ids"
    using le by (metis as_def bs_def append_take_drop_id min.absorb1 take_take)
  have bc: "bs @ cs = drop (surr_offset s) (ids @ ts)"
    using le by (simp add: bs_def cs_def) (metis append_take_drop_id drop_append drop_take
        diff_is_0_eq drop0 length_take min.absorb2)
  have "bs \<noteq> []" using False le by (auto simp: bs_def)
  moreover have "complete (dec as)" "complete (dec (as @ bs))" "decoded_str s = dec (as @ bs)"
    using inv by (simp_all only: ab) (simp_all add: as_def stream_inv_def)
  ultimately have "drop (length (dec bs)) (dec (bs @ cs)) = drop (length (decoded_str s)) (dec (as @ bs @ cs))"
    using tokenizer_okD(4)[OF tok] by simp
  moreover have "as @ bs @ cs = ids @ ts"
    using ab by (simp add: cs_def flip: append_assoc)
  moreover have "surr_window (s\<lparr>decoded_ids := ids @ ts\<rparr>) = bs" "read_window (s\<lparr>decoded_ids := ids @ ts\<rparr>) = bs @ cs"
    using bc le by (simp_all add: surr_window_def read_window_def bs_def)
  ultimately show ?thesis by simp
qed

lemma update_output:
  assumes tok: "tokenizer_ok bd dec" and inv: "stream_inv dec ids s e"
    and upd: "update_status (s\<lparr>decoded_ids := ids @ ts\<rparr>)
       (drop (length (decoded_str s)) (dec (ids @ ts))) = (s1, out)"
  shows "prefix out (settled (dec (ids @ ts)))" and "complete (dec (ids @ ts)) \<Longrightarrow> out = dec (ids @ ts)"
    and "sent_offset s1 = sent_offset s" and "ts \<noteq> [] \<Longrightarrow> stream_inv dec (ids @ ts) s1 e"
proof -
  let ?new = "drop (length (decoded_str s)) (dec (ids @ ts))"
  have str: "decoded_str s = dec (take (read_offset s) ids)" and c: "complete (decoded_str s)"
    and r: "read_offset s \<le> length ids" using inv by (auto simp: stream_inv_def)
  have split: "decoded_str s @ ?new = dec (ids @ ts)"
    using decode_grows[OF tok c[unfolded str], of "drop (read_offset s) ids @ ts"]
    by (simp add: str flip: append_assoc)
  have settled: "settled (dec (ids @ ts)) = decoded_str s @ settled ?new"
    using split settled_append_complete[OF c] by metis
  have e: "prefix e (settled (dec (ids @ ts)))"
    using settled_mono[OF tok, of ids ts] inv prefix_order.trans by (auto simp: stream_inv_def)
  consider (commit) "?new \<noteq> []" "last ?new \<noteq> replacement" | (keep) "?new = [] \<or> last ?new = replacement"
    by blast
  then have "prefix out (settled (dec (ids @ ts))) \<and> (complete (dec (ids @ ts)) \<longrightarrow> out = dec (ids @ ts)) \<and>
    sent_offset s1 = sent_offset s \<and> (ts \<noteq> [] \<longrightarrow> stream_inv dec (ids @ ts) s1 e)"
  proof cases
    case commit
    then have "complete (dec (ids @ ts))" using split complete_append[of "decoded_str s" ?new]
      by (auto simp: complete_def)
    then show ?thesis
      using commit upd split e inv r
      by (auto simp: update_status_def Let_def settled_id stream_inv_def)
  next
    case keep
    have "complete ?new = (?new = [])" using keep by (auto simp: complete_def)
    then have "complete (dec (ids @ ts)) \<Longrightarrow> ?new = []"
      using split complete_append[of "decoded_str s" ?new] by auto
    moreover have "find_printable_text [] = []" by (simp add: find_printable_text_def)
    ultimately show ?thesis
      using keep upd split settled printable_settled[OF keep] e inv
      by (auto simp: update_status_def stream_inv_def)
  qed
  then show "prefix out (settled (dec (ids @ ts)))" "complete (dec (ids @ ts)) \<Longrightarrow> out = dec (ids @ ts)"
    "sent_offset s1 = sent_offset s" "ts \<noteq> [] \<Longrightarrow> stream_inv dec (ids @ ts) s1 e" by auto
qed

lemma emit_end_le: "emit_end m out \<le> length out"
  by (auto simp: emit_end_def split: option.split dest: str_find_Some)

lemma emit_chunk_text:
  assumes "prefix e z" "prefix out z" "length e = sent_offset s" "emit_chunk m s out = (s', chunk)"
  shows "e @ chunk = take (max (length e) (emit_end m out)) z"
    and "s' = s\<lparr>sent_offset := max (length e) (emit_end m out)\<rparr>"
proof -
  have "take (emit_end m out) out = take (emit_end m out) z"
    using assms(2) emit_end_le[of m out] by (auto elim!: prefixE)
  moreover have "e = take (length e) z" using assms(1) by (auto elim!: prefixE)
  moreover have "take a z @ drop a (take b z) = take b z" if "a \<le> b" for a b
    using that by (metis append_take_drop_id min.absorb1 take_take)
  moreover have "chunk = (if length e < emit_end m out then drop (length e) (take (emit_end m out) out) else [])"
    using assms(3,4) by (auto simp: emit_chunk_def Let_def)
  ultimately show "e @ chunk = take (max (length e) (emit_end m out)) z"
    by (metis append_Nil2 less_imp_le max.absorb1 max.absorb2 not_less)
  show "s' = s\<lparr>sent_offset := max (length e) (emit_end m out)\<rparr>"
    using assms(3,4) by (simp add: emit_chunk_def Let_def)
qed

lemma push_token_eq:
  assumes "decoded_ids s = ids"
  shows "push_token eos m s = s\<lparr>decoded_ids := ids @
     (if dm_finished m \<and> dm_next_token m \<in> eos then [] else [dm_next_token m])\<rparr>"
  using assms by (cases s) (simp add: push_token_def)

text \<open>The tokens a sequence of messages contributes: all of them, but for a final end token.\<close>

definition kept_tokens :: "token set \<Rightarrow> detok_msg list \<Rightarrow> token list" where
  "kept_tokens eos msgs =
     map dm_next_token (filter (\<lambda>m. \<not> (dm_finished m \<and> dm_next_token m \<in> eos)) msgs)"

abbreviation status_opt :: "decode_status option \<Rightarrow> decode_status" where
  "status_opt so \<equiv> (case so of None \<Rightarrow> fresh_status | Some s \<Rightarrow> s)"

lemma uid_step_stream:
  assumes tok: "tokenizer_ok bd dec" and inv: "stream_inv dec ids (status_opt so) e"
    and step: "uid_step dec eos m so = (so', chunk)"
    and ts: "ts = kept_tokens eos [m]"
  shows "\<exists>out. prefix out (settled (dec (ids @ ts))) \<and> (complete (dec (ids @ ts)) \<longrightarrow> out = dec (ids @ ts)) \<and>
    e @ chunk = take (max (length e) (emit_end m out)) (settled (dec (ids @ ts))) \<and>
    (if dm_finished m then so' = None
     else stream_inv dec (ids @ ts) (status_opt so') (e @ chunk))"
proof -
  let ?s = "status_opt so"
  have ids: "decoded_ids ?s = ids" using inv by (simp add: stream_inv_def)
  have push: "push_token eos m ?s = ?s\<lparr>decoded_ids := ids @ ts\<rparr>"
    using push_token_eq[OF ids, of eos m] by (simp add: ts kept_tokens_def)
  obtain s1 out where upd: "update_status (?s\<lparr>decoded_ids := ids @ ts\<rparr>)
       (drop (length (decoded_str ?s)) (dec (ids @ ts))) = (s1, out)" by fastforce
  obtain s2 where em: "emit_chunk m s1 out = (s2, chunk)" "so' = (if dm_finished m then None else Some s2)"
    using step window_text[OF tok inv, of ts]
    by (auto simp: uid_step_def push upd Let_def split: prod.splits)
  note out = update_output[OF tok inv upd]
  have e: "prefix e (settled (dec (ids @ ts)))" "length e = sent_offset s1"
    using inv settled_mono[OF tok, of ids ts] prefix_order.trans out(3)
    by (auto simp: stream_inv_def)
  note chunk = emit_chunk_text[OF e(1) out(1) e(2) em(1)]
  have "stream_inv dec (ids @ ts) s2 (e @ chunk)" if "\<not> dm_finished m"
  proof -
    have "stream_inv dec (ids @ ts) s1 e" using out(4) that by (simp add: ts kept_tokens_def)
    moreover have "length (take (max (length e) (emit_end m out)) (settled (dec (ids @ ts)))) =
        max (length e) (emit_end m out)"
      using e(1) out(1) emit_end_le[of m out] by (auto dest!: prefix_length_le)
    ultimately show ?thesis
      using chunk by (simp add: stream_inv_def take_is_prefix)
  qed
  then show ?thesis using out(1,2) chunk(1) em(2) by auto
qed

lemma uid_run_stream:
  assumes tok: "tokenizer_ok bd dec"
    and inv: "stream_inv dec ids (status_opt so) e" "length e \<le> b"
    and run: "\<forall>m\<in>set msgs. \<not> dm_finished m"
    and bound: "\<And>m out. m \<in> set msgs \<Longrightarrow> prefix out (settled (dec (ids @ kept_tokens eos msgs))) \<Longrightarrow> emit_end m out \<le> b"
    and res: "uid_run dec eos msgs so = (so', tx)"
  shows "stream_inv dec (ids @ kept_tokens eos msgs) (status_opt so') (e @ tx) \<and> length (e @ tx) \<le> b"
  using inv run bound res
proof (induction msgs arbitrary: ids so e tx)
  case (Cons m msgs)
  obtain so1 chunk rest where step: "uid_step dec eos m so = (so1, chunk)"
    and rest: "uid_run dec eos msgs so1 = (so', rest)" "tx = chunk @ rest"
    using Cons.prems(5) by (auto simp: Let_def split: prod.splits)
  define ids1 where "ids1 = ids @ kept_tokens eos [m]"
  have kept: "ids @ kept_tokens eos (m # msgs) = ids1 @ kept_tokens eos msgs"
    by (simp add: ids1_def kept_tokens_def)
  obtain out where out: "prefix out (settled (dec ids1))"
      "e @ chunk = take (max (length e) (emit_end m out)) (settled (dec ids1))"
      "stream_inv dec ids1 (status_opt so1) (e @ chunk)"
    using uid_step_stream[OF tok Cons.prems(1) step refl] Cons.prems(3) by (auto simp: ids1_def)
  have "prefix out (settled (dec (ids1 @ kept_tokens eos msgs)))"
    using out(1) settled_mono[OF tok] prefix_order.trans by blast
  then have "emit_end m out \<le> b" using Cons.prems(4)[of m out] kept by simp
  then have "length (e @ chunk) \<le> b" using out(2) Cons.prems(2) by simp
  from Cons.IH[OF out(3) this _ _ rest(1)] show ?case
    using Cons.prems(3,4) kept rest(2) by (metis append_assoc list.set_intros(2))
qed (simp add: kept_tokens_def)

text \<open>What a finished request should have received: its decoded text, cut where the stop string
  that ended it begins.\<close>

definition cut_at_stop :: "str option \<Rightarrow> str \<Rightarrow> str" where
  "cut_at_stop matched t =
     (case matched of None \<Rightarrow> t
      | Some stop \<Rightarrow> (if stop = [] then t else
          (case str_find stop t of None \<Rightarrow> t | Some n \<Rightarrow> take n t)))"

lemma emit_end_finished: "dm_finished m \<Longrightarrow> take (emit_end m t) t = cut_at_stop (dm_matched_stop m) t"
  by (auto simp: emit_end_def cut_at_stop_def split: option.split)

text \<open>The messages the scheduler sends for one request: all carry the request's stop strings, only
  the last is finished, and a stop string it names was not in the text before the last token.\<close>

definition reply_stream :: "(token list \<Rightarrow> str) \<Rightarrow> token set \<Rightarrow> detok_msg list \<Rightarrow> detok_msg \<Rightarrow> bool" where
  "reply_stream dec eos msgs fin \<longleftrightarrow>
     (\<forall>m\<in>set msgs. \<not> dm_finished m) \<and> dm_finished fin \<and>
     (case dm_matched_stop fin of None \<Rightarrow> True
      | Some stop \<Rightarrow> str_find stop (dec (kept_tokens eos msgs)) = None \<and>
          (\<forall>m\<in>set msgs. \<exists>stops. dm_stop_strs m = Some stops \<and> stop \<in> set stops))"

lemma str_find_Nil: "str_find [] t \<noteq> None"
  by (cases t) auto

lemma str_find_prefix_None: "str_find sub t = None \<Longrightarrow> prefix p t \<Longrightarrow> str_find sub p = None"
proof (induction t arbitrary: p)
  case (Cons x xs)
  then show ?case
    by (cases p) (auto split: if_splits dest: prefix_order.trans[of sub _ "x # xs"])
qed (auto split: if_splits)

lemma uid_run_final:
  assumes tok: "tokenizer_ok bd dec" and stream: "reply_stream dec eos msgs fin"
    and whole: "complete (dec (kept_tokens eos (msgs @ [fin])))"
  shows "uid_run dec eos (msgs @ [fin]) None =
     (None, cut_at_stop (dm_matched_stop fin) (dec (kept_tokens eos (msgs @ [fin]))))"
proof -
  define ids where "ids = kept_tokens eos msgs"
  define kept where "kept = kept_tokens eos (msgs @ [fin])"
  have kept: "kept = ids @ kept_tokens eos [fin]" by (simp add: ids_def kept_def kept_tokens_def)
  have fin: "dm_finished fin" using stream by (simp add: reply_stream_def)
  have mono: "prefix (settled (dec ids)) (dec kept)"
    using settled_mono[OF tok, of ids] whole settled_id by (metis kept kept_def)
  have bound: "emit_end m out \<le> emit_end fin (dec kept)"
    if m: "m \<in> set msgs" and out: "prefix out (settled (dec ids))" for m out
  proof (cases "take (emit_end fin (dec kept)) (dec kept) = dec kept")
    case True
    have "emit_end m out \<le> length out" by (rule emit_end_le)
    also have "\<dots> \<le> length (dec kept)" using out mono prefix_order.trans prefix_length_le by blast
    finally show ?thesis using True emit_end_le[of fin "dec kept"] by (metis length_take min.absorb2)
  next
    case False
    then obtain stop n where stop: "dm_matched_stop fin = Some stop" "stop \<noteq> []" "str_find stop (dec kept) = Some n"
      "emit_end fin (dec kept) = n"
      using fin by (auto simp: emit_end_def split: option.splits if_splits)
    obtain stops where stops: "dm_stop_strs m = Some stops" "stop \<in> set stops" "str_find stop (dec ids) = None"
      using stream stop m by (auto simp: reply_stream_def ids_def)
    have "str_find stop out = None"
      using stops(3) out prefix_settled prefix_order.trans str_find_prefix_None by blast
    moreover have "prefix out (dec kept)" using out mono prefix_order.trans by blast
    ultimately have "length out - stop_prefix_holdback out stops \<le> n"
      using holdback_cut stop stops by blast
    moreover have "\<not> dm_finished m" using stream m by (auto simp: reply_stream_def)
    ultimately show ?thesis using stops stop(4) by (auto simp: emit_end_def)
  qed
  obtain so1 tx where run: "uid_run dec eos msgs None = (so1, tx)" by fastforce
  have inv: "stream_inv dec ids (status_opt so1) tx \<and> length tx \<le> emit_end fin (dec kept)"
    using uid_run_stream[OF tok, of "[]" None "[]" "emit_end fin (dec kept)" msgs eos so1 tx]
      stream_inv_fresh[OF tok] stream bound run by (auto simp: ids_def reply_stream_def)
  obtain so2 chunk where step: "uid_step dec eos fin so1 = (so2, chunk)" by fastforce
  have "settled (dec kept) = dec kept" using whole settled_id by (simp add: kept_def)
  with uid_step_stream[OF tok _ step refl, of ids tx] inv fin whole
  have "tx @ chunk = take (emit_end fin (dec kept)) (dec kept) \<and> so2 = None"
    by (auto simp: kept_def[symmetric] kept[symmetric] max_def split: if_splits)
  then show ?thesis
    using run step emit_end_finished[OF fin] by (simp add: uid_run_append kept_def)
qed

text \<open>Whatever the text ends in, only a part of its settled text is sent.\<close>

lemma uid_run_prefix:
  assumes tok: "tokenizer_ok bd dec" and stream: "reply_stream dec eos msgs fin"
  shows "\<exists>tx. uid_run dec eos (msgs @ [fin]) None = (None, tx) \<and>
     prefix tx (settled (dec (kept_tokens eos (msgs @ [fin]))))"
proof -
  define ids where "ids = kept_tokens eos msgs"
  have kept: "kept_tokens eos (msgs @ [fin]) = ids @ kept_tokens eos [fin]" by (simp add: ids_def kept_tokens_def)
  have b: "emit_end m out \<le> length (settled (dec ids))" if "prefix out (settled (dec ids))" for m out
    using emit_end_le[of m out] prefix_length_le[OF that] by simp
  obtain so1 tx where run: "uid_run dec eos msgs None = (so1, tx)" by fastforce
  have inv: "stream_inv dec ids (status_opt so1) tx"
    using uid_run_stream[OF tok, of "[]" None "[]" "length (settled (dec ids))" msgs eos so1 tx]
      stream_inv_fresh[OF tok] stream b run by (auto simp: ids_def reply_stream_def)
  obtain so2 chunk where step: "uid_step dec eos fin so1 = (so2, chunk)" by fastforce
  obtain k where "tx @ chunk = take k (settled (dec (ids @ kept_tokens eos [fin])))"
    using uid_step_stream[OF tok inv step refl] by blast
  moreover have "so2 = None"
    using uid_step_stream[OF tok inv step refl] stream by (auto simp: reply_stream_def)
  ultimately show ?thesis using run step by (simp add: uid_run_append kept take_is_prefix)
qed

subsection \<open>Which requests hold state\<close>

text \<open>The uids with an unfinished message that no finished message or discard followed.\<close>

fun live_uids :: "detok_event list \<Rightarrow> int set \<Rightarrow> int set" where
  "live_uids [] live = live"
| "live_uids (Detok msgs # es) live =
     live_uids es (fold (\<lambda>m l. if dm_finished m then l - {dm_uid m} else insert (dm_uid m) l) msgs live)"
| "live_uids (Discard u # es) live = live_uids es (live - {u})"

lemma dom_uid_step:
  "(fst (uid_step dec eos m so) = None) = dm_finished m"
  by (simp add: uid_step_def Let_def split_def)

lemma dom_step_all:
  "dom (fst (step_all dec eos msgs st)) =
   fold (\<lambda>m l. if dm_finished m then l - {dm_uid m} else insert (dm_uid m) l) msgs (dom st)"
proof (induction msgs arbitrary: st)
  case (Cons m msgs)
  define so where "so = fst (uid_step dec eos m (st (dm_uid m)))"
  have "dom (st(dm_uid m := so)) = (if dm_finished m then dom st - {dm_uid m} else insert (dm_uid m) (dom st))"
    using dom_uid_step[of dec eos m "st (dm_uid m)"] by (cases so) (auto simp: so_def)
  then show ?case
    using Cons[of "st(dm_uid m := so)"]
    by (simp add: split_def Let_def so_def[symmetric] del: fun_upd_apply)
qed simp

lemma dom_detok_run:
  assumes bd: "\<And>xss. bd xss = map dec xss"
  shows "\<exists>st' outs. detok_run bd eos es st = Inr (st', outs) \<and> dom st' = live_uids es (dom st)"
proof (induction es arbitrary: st)
  case (Cons e es)
  show ?case
  proof (cases e)
    case (Detok msgs)
    then show ?thesis
      using Cons[of "fst (step_all dec eos msgs st)"] dom_step_all[of dec eos msgs st]
      by (cases "step_all dec eos msgs st") (auto simp: detokenize_eq[OF bd])
  next
    case (Discard u)
    have "dom (discard u st) = dom st - {u}" by (auto simp: discard_def)
    then show ?thesis using Cons[of "discard u st"] by (auto simp: Discard)
  qed
qed simp

section \<open>Properties\<close>

text \<open>A tokenizer for the witnesses: every token is one byte.\<close>

definition demo_dec :: "token list \<Rightarrow> str" where
  "demo_dec = byte_level (\<lambda>t. [nat t])"

definition demo_msg :: "int \<Rightarrow> token \<Rightarrow> bool \<Rightarrow> str option \<Rightarrow> detok_msg" where
  "demo_msg u t f stop = \<lparr>dm_uid = u, dm_next_token = t, dm_finished = f, dm_matched_stop = stop,
                          dm_stop_strs = Some [[66, 67]]\<rparr>"

text \<open>Request 1 sends \<open>A\<close>, the two halves of one character and \<open>B\<close>, then \<open>C\<close> completes its stop
  string; request 2 is aborted in between.\<close>

definition demo_events :: "detok_event list" where
  "demo_events =
     [Detok [demo_msg 1 65 False None, demo_msg 2 70 False None],
      Detok [demo_msg 1 195 False None, demo_msg 1 169 False None], Discard 2,
      Detok [demo_msg 1 66 False None],
      Detok [demo_msg 1 67 True (Some [66, 67])]]"

text \<open>
  C31: streaming refines one-shot decoding.  For a byte-level tokenizer (\<open>batch_decode\<close> decodes each sequence to
  the UTF-8 text of its tokens' bytes, invalid bytes replaced by U+FFFD, without clean-up), and for
  a request whose replies are as the scheduler sends them (only the last is finished, and a stop
  string that ended it is new with the last token and was announced in the earlier messages):
  whatever batches and discards of other requests are interleaved, the pieces the request
  receives join to a prefix of its decoded text, so nothing is ever repeated, changed or
  retracted, and its state is released.  If that text does not end in U+FFFD, the pieces are
  exactly the text, cut where the stop string begins: no character is lost and no part of the
  stop string is sent.  A text that does end in U+FFFD may lose its end, from the last
  complete word that was not yet sent.
\<close>

theorem detokenize_streams:
  assumes "\<forall>xss. bd xss = map (byte_level vocab) xss" and "Discard u \<notin> set es" and "msgs_for u es = msgs @ [fin]"
    and "reply_stream (byte_level vocab) eos msgs fin"
  shows "\<exists>st outs. detok_run bd eos es Map.empty = Inr (st, outs) \<and> st u = None \<and>
     prefix (streamed u outs) (settled (byte_level vocab (kept_tokens eos (msgs @ [fin])))) \<and>
     (complete (byte_level vocab (kept_tokens eos (msgs @ [fin]))) \<longrightarrow>
        streamed u outs = cut_at_stop (dm_matched_stop fin) (byte_level vocab (kept_tokens eos (msgs @ [fin]))))"
proof -
  note tok = byte_level_ok[OF assms(1)]
  obtain st outs where run: "detok_run bd eos es Map.empty = Inr (st, outs)"
    "uid_run (byte_level vocab) eos (msgs @ [fin]) None = (st u, streamed u outs)"
    using detok_run_uid[of bd "byte_level vocab" u es eos Map.empty] assms(1-3) by auto
  then show ?thesis
    using uid_run_prefix[OF tok assms(4)] uid_run_final[OF tok assms(4)] by auto
qed

theorem detokenize_streams_witness:
  "\<exists>st outs. detok_run (map demo_dec) {2} demo_events Map.empty = Inr (st, outs) \<and> st 1 = None \<and>
     streamed 1 outs = [65, 233]"
proof -
  let ?msgs = "[demo_msg 1 65 False None, demo_msg 1 195 False None, demo_msg 1 169 False None,
                demo_msg 1 66 False None]"
  let ?fin = "demo_msg 1 67 True (Some [66, 67])"
  have msgs: "msgs_for 1 demo_events = ?msgs @ [?fin]" "Discard 1 \<notin> set demo_events"
    by (simp_all add: demo_events_def demo_msg_def)
  note eval = byte_level_def utf8_text_def utf8_step_def utf8_start_def utf8_length_def utf8_continues_def
    utf8_code_def
  have stream: "reply_stream (byte_level (\<lambda>t. [nat t])) {2} ?msgs ?fin"
    by (simp add: reply_stream_def demo_msg_def kept_tokens_def eval)
  have full: "byte_level (\<lambda>t. [nat t]) (kept_tokens {2} (?msgs @ [?fin])) = [65, 233, 66, 67]"
    by (simp add: demo_msg_def kept_tokens_def eval)
  have "cut_at_stop (dm_matched_stop ?fin) [65, 233, 66, 67] = [65, 233]"
    by (simp add: cut_at_stop_def demo_msg_def)
  with detokenize_streams[of "map demo_dec", OF _ msgs(2,1) stream] full show ?thesis
    by (simp add: complete_def replacement_def demo_dec_def) blast
qed

text \<open>A request that is ended in the middle of a character loses the word in front of it: the
  one token \<open>ab\<close> and a first half of a character, finished, sends nothing.\<close>

lemma unfinished_tail_dropped:
  "map_sum id snd (detokenize (map (byte_level (\<lambda>t. [97, 98, 195]))) {} [demo_msg 1 0 True None] Map.empty) = Inr [[]]"
proof -
  let ?d = "byte_level (\<lambda>t. [97, 98, 195])"
  have d: "?d [0] = [97, 98, replacement]" "?d [] = []"
    by (simp_all add: byte_level_def utf8_text_def utf8_step_def utf8_start_def utf8_length_def)
  have p: "find_printable_text [97, 98, replacement] = []"
    by (simp add: find_printable_text_def is_chinese_char_def replacement_def newline_def space_def)
  show ?thesis
    by (simp add: detokenize_def detokenize_distinct_def push_token_def status_of_def fresh_status_def read_window_def
        surr_window_def deliver_one_def update_status_def emit_chunk_def emit_end_def demo_msg_def d p Let_def)
qed

text \<open>
  C32: batching is invisible.  When the tokenizer decodes each sequence of a batch on its own, a
  batch of messages gives the texts and the final state that its messages give one by one in
  order, whether or not a uid repeats, and no uid lookup fails.
\<close>

theorem detokenize_batching:
  assumes "\<forall>xss. bd xss = map dec xss"
  shows "detokenize bd eos msgs st = detokenize_each bd eos msgs st"
  using assms by (simp add: detokenize_eq[of bd dec] detokenize_each_eq[of bd dec])

theorem detokenize_batching_witness:
  "detokenize (map demo_dec) {2} [demo_msg 1 65 False None, demo_msg 2 70 False None] Map.empty =
   detokenize_each (map demo_dec) {2} [demo_msg 1 65 False None, demo_msg 2 70 False None] Map.empty"
  by (rule detokenize_batching[of _ demo_dec]) simp

text \<open>
  C33: no leaked state.  After any history the manager holds exactly the uids that have an
  unfinished message no finished message and no discard followed.
\<close>

theorem decode_map_live:
  assumes "\<forall>xss. bd xss = map dec xss"
  shows "\<exists>st outs. detok_run bd eos es Map.empty = Inr (st, outs) \<and> dom st = live_uids es {}"
  using dom_detok_run[of bd dec eos es Map.empty] assms by auto

theorem decode_map_live_witness:
  "\<exists>st outs. detok_run (map demo_dec) {2} (take 2 demo_events) Map.empty = Inr (st, outs) \<and>
     dom st = {1, 2}"
proof -
  have "live_uids (take 2 demo_events) {} = {1, 2}"
    by (auto simp: demo_events_def demo_msg_def)
  with decode_map_live[of "map demo_dec" demo_dec "{2}" "take 2 demo_events"] show ?thesis by simp
qed

end
