(* ===== verification/LinearStatePool.thy ===== *)
theory LinearStatePool
  imports Complex_Main Prelude
begin

text \<open>
  The per-request recurrent state of linear-attention layers
  (\<open>runtime/kvcache/linear_state_pool.py\<close>).  A slot holds a recurrent state of type \<open>'r\<close> and a
  short history of convolution inputs, one column \<open>'c\<close> per time step; both range over all
  layers, as the operations always act on all of them.  A tensor indexed by slot is a list, and
  an index out of range raises \<open>IndexError\<close>.  The pool also keeps one lane of intermediate states
  for speculative verification, whose commit may be deferred: the live slot is then stale until
  the pending step is materialized.  The main theorem shows that no client can tell.
\<close>

section \<open>Geometry\<close>

datatype torch_dtype = Float32 | Bfloat16 | Float16

definition itemsize :: "torch_dtype \<Rightarrow> nat" where
  "itemsize d = (case d of Float32 \<Rightarrow> 4 | Bfloat16 \<Rightarrow> 2 | Float16 \<Rightarrow> 2)"

definition ascii_lower :: "string \<Rightarrow> string" where
  "ascii_lower = map (\<lambda>c. let n = of_char c :: nat in if 65 \<le> n \<and> n \<le> 90 then char_of (n + 32) else c)"

definition SSM_DTYPES :: "(string \<times> torch_dtype) list" where
  "SSM_DTYPES = [(''float32'', Float32), (''bfloat16'', Bfloat16), (''float16'', Float16)]"

definition ssm_state_dtype :: "string \<Rightarrow> torch_dtype" where
  "ssm_state_dtype env =
     (case map_of SSM_DTYPES (ascii_lower env) of Some d \<Rightarrow> d | None \<Rightarrow> Float32)"

record gdn_group =
  g_layer_ids :: "int list"
  g_num_key_heads :: int
  g_num_value_heads :: int
  g_key_head_dim :: int
  g_value_head_dim :: int
  g_conv_kernel_dim :: int

definition linear_local_dims :: "gdn_group \<Rightarrow> int \<Rightarrow> (int \<times> int \<times> int) res" where
  "linear_local_dims grp tp_size =
     res_bind (div_even (g_num_key_heads grp) tp_size True) (\<lambda>local_k_heads.
     res_bind (div_even (g_num_value_heads grp) tp_size True) (\<lambda>local_v_heads.
       Inr (int (length (g_layer_ids grp)),
            2 * local_k_heads * g_key_head_dim grp + local_v_heads * g_value_head_dim grp,
            local_v_heads)))"

section \<open>The pool\<close>

text \<open>The shape of a model-owned auxiliary state without its slot dimension, its element type and
  its fill value, as the column filled with it.\<close>

record 'c aux_spec =
  ax_shape :: "nat list"
  ax_dtype :: torch_dtype
  ax_fill :: 'c

record ('c, 'r) pool =
  lp_group :: gdn_group
  lp_dims :: "int \<times> int \<times> int"
  lp_hist :: nat
  lp_num_slots :: nat
  lp_conv_dtype :: torch_dtype
  lp_rec_dtype :: torch_dtype
  conv_states :: "'c list list"
  recurrent_states :: "'r list"
  aux_states :: "(string \<times> 'c list list) list"
  aux_specs :: "(string \<times> 'c aux_spec) list"
  verify_steps :: nat
  verify_aux_inputs :: "(string \<times> 'c list) list"
  verify_recurrent_states :: "'r list option"
  verify_conv_inputs :: "'c list option"
  verify_state_indices :: "int list option"
  cached_initial_state_step :: "int option"
  pending_verify_state :: "(nat \<times> nat) option"
  free_slots :: "nat list"

definition padding_slot :: nat where "padding_slot = 0"

definition all_slots :: "nat \<Rightarrow> nat list" where
  "all_slots num_slots = [1..<num_slots]"

definition zero_conv :: "nat \<Rightarrow> nat \<Rightarrow> 'c::zero list list" where
  "zero_conv num_slots hist = replicate num_slots (replicate hist 0)"

definition pool_init ::
  "gdn_group \<Rightarrow> nat \<Rightarrow> torch_dtype \<Rightarrow> torch_dtype \<Rightarrow> int \<Rightarrow> ('c::zero, 'r::zero) pool res" where
  "pool_init grp num_slots dtype ssm_dtype tp_size =
     res_bind (linear_local_dims grp tp_size) (\<lambda>dims.
       let hist = nat (g_conv_kernel_dim grp - 1) in
       Inr \<lparr>lp_group = grp, lp_dims = dims, lp_hist = hist, lp_num_slots = num_slots,
            lp_conv_dtype = dtype, lp_rec_dtype = ssm_dtype,
            conv_states = zero_conv num_slots hist, recurrent_states = replicate num_slots 0,
            aux_states = [], aux_specs = [], verify_steps = 0, verify_aux_inputs = [],
            verify_recurrent_states = None, verify_conv_inputs = None, verify_state_indices = None,
            cached_initial_state_step = None, pending_verify_state = None,
            free_slots = all_slots num_slots\<rparr>)"

definition get_at :: "'a list \<Rightarrow> nat \<Rightarrow> 'a res" where
  "get_at xs i = (if i < length xs then Inr (xs ! i) else Inl IndexError)"

definition set_at :: "'a list \<Rightarrow> nat \<Rightarrow> 'a \<Rightarrow> 'a list res" where
  "set_at xs i x = (if i < length xs then Inr (xs[i := x]) else Inl IndexError)"

definition the_res :: "'a option \<Rightarrow> 'a res" where
  "the_res o' = (case o' of None \<Rightarrow> Inl TypeError | Some x \<Rightarrow> Inr x)"

subsection \<open>Verification transactions\<close>

text \<open>\<open>junk_r\<close> and \<open>junk_c\<close> stand for the contents of freshly allocated, unwritten memory.\<close>

definition enable_verify_transactions ::
  "'r \<Rightarrow> 'c \<Rightarrow> int \<Rightarrow> ('c, 'r) pool \<Rightarrow> ('c, 'r) pool res" where
  "enable_verify_transactions junk_r junk_c steps p =
     (if steps \<le> 0 \<or> steps = int (verify_steps p) then Inr p
      else if verify_steps p \<noteq> 0 then Inl ValueError
      else Inr (p\<lparr>verify_recurrent_states := Some (replicate (nat steps) junk_r),
                  verify_conv_inputs := Some (replicate (nat steps) junk_c),
                  verify_state_indices := Some [0],
                  verify_steps := nat steps\<rparr>))"

definition enable_deferred_verify_commits :: "('c, 'r) pool \<Rightarrow> ('c, 'r) pool res" where
  "enable_deferred_verify_commits p =
     (if verify_steps p = 0 then Inl RuntimeError
      else Inr (p\<lparr>cached_initial_state_step := Some (- 1)\<rparr>))"

definition materialize_verify_state :: "('c, 'r) pool \<Rightarrow> ('c, 'r) pool res" where
  "materialize_verify_state p =
     (case pending_verify_state p of
        None \<Rightarrow> Inr p
      | Some (slot, step) \<Rightarrow>
          res_bind (the_res (verify_recurrent_states p)) (\<lambda>states.
          res_bind (get_at states step) (\<lambda>r.
          res_bind (set_at (recurrent_states p) slot r) (\<lambda>recs.
          res_bind (the_res (cached_initial_state_step p)) (\<lambda>_.
            Inr (p\<lparr>recurrent_states := recs, pending_verify_state := None,
                   cached_initial_state_step := Some (- 1)\<rparr>))))))"

definition prepare_verify_state :: "nat \<Rightarrow> ('c, 'r) pool \<Rightarrow> ('c, 'r) pool res" where
  "prepare_verify_state live_slot p =
     (case pending_verify_state p of
        Some (slot, step) \<Rightarrow> if slot \<noteq> live_slot then materialize_verify_state p else Inr p
      | None \<Rightarrow> Inr p)"

text \<open>The history a convolution keeps after \<open>length\<close> verified inputs.\<close>

definition shift_history :: "nat \<Rightarrow> 'c list \<Rightarrow> 'c list \<Rightarrow> 'c list" where
  "shift_history len snapshot inputs =
     (let history = length snapshot in
      if len \<ge> history then take history (drop (len - history) inputs)
      else drop len snapshot @ take len inputs)"

fun commit_aux ::
  "nat \<Rightarrow> nat \<Rightarrow> nat \<Rightarrow> (string \<times> 'c list) list \<Rightarrow> (string \<times> 'c list list) list \<Rightarrow>
   (string \<times> 'c list list) list res" where
  "commit_aux snapshot_slot live_slot len [] auxs = Inr auxs"
| "commit_aux snapshot_slot live_slot len ((name, inputs) # rest) auxs =
     (case map_of auxs name of
        None \<Rightarrow> Inl KeyError
      | Some states \<Rightarrow>
          res_bind (get_at states snapshot_slot) (\<lambda>snap.
          res_bind (set_at states live_slot (shift_history len snap inputs)) (\<lambda>states'.
            commit_aux snapshot_slot live_slot len rest (AList.update name states' auxs))))"

definition commit_recurrent :: "nat \<Rightarrow> nat \<Rightarrow> 'r list \<Rightarrow> ('c, 'r) pool \<Rightarrow> ('c, 'r) pool res" where
  "commit_recurrent live_slot len states p =
     (case cached_initial_state_step p of
        Some _ \<Rightarrow>
          (case pending_verify_state p of
             Some (slot, _) \<Rightarrow>
               if slot \<noteq> live_slot then Inl RuntimeError
               else Inr (p\<lparr>pending_verify_state := Some (live_slot, len - 1),
                           cached_initial_state_step := Some (int len - 1)\<rparr>)
           | None \<Rightarrow> Inr (p\<lparr>pending_verify_state := Some (live_slot, len - 1),
                           cached_initial_state_step := Some (int len - 1)\<rparr>))
      | None \<Rightarrow>
          res_bind (get_at states (len - 1)) (\<lambda>r.
          res_bind (set_at (recurrent_states p) live_slot r) (\<lambda>recs.
            Inr (p\<lparr>recurrent_states := recs\<rparr>))))"

definition commit_verify_prefix :: "nat \<Rightarrow> nat \<Rightarrow> nat \<Rightarrow> ('c, 'r) pool \<Rightarrow> ('c, 'r) pool res" where
  "commit_verify_prefix snapshot_slot live_slot len p =
     (case (verify_recurrent_states p, verify_conv_inputs p) of
        (Some states, Some inputs) \<Rightarrow>
          if \<not> (1 \<le> len \<and> len \<le> verify_steps p) then Inl RuntimeError
          else
            res_bind (commit_recurrent live_slot len states p) (\<lambda>p1.
            res_bind (get_at (conv_states p1) snapshot_slot) (\<lambda>snap.
            res_bind (set_at (conv_states p1) live_slot (shift_history len snap inputs)) (\<lambda>convs.
            res_bind (commit_aux snapshot_slot live_slot len (verify_aux_inputs p1) (aux_states p1))
              (\<lambda>auxs. Inr (p1\<lparr>conv_states := convs, aux_states := auxs\<rparr>)))))
      | _ \<Rightarrow> Inl RuntimeError)"

definition ensure_aux_verify_inputs ::
  "'c \<Rightarrow> string \<Rightarrow> ('c, 'r) pool \<Rightarrow> (('c, 'r) pool \<times> 'c list) res" where
  "ensure_aux_verify_inputs junk_c name p =
     (case (map_of (aux_states p) name, map_of (aux_specs p) name) of
        (Some states, Some spec) \<Rightarrow>
          if verify_steps p = 0 \<or> length (ax_shape spec) \<noteq> 2 then Inl RuntimeError
          else (case map_of (verify_aux_inputs p) name of
                  Some inputs \<Rightarrow> Inr (p, inputs)
                | None \<Rightarrow>
                    let inputs = replicate (verify_steps p) junk_c in
                    Inr (p\<lparr>verify_aux_inputs := AList.update name inputs (verify_aux_inputs p)\<rparr>,
                         inputs))
      | _ \<Rightarrow> Inl KeyError)"

subsection \<open>Slots\<close>

definition num_free_slots :: "('c, 'r) pool \<Rightarrow> nat" where
  "num_free_slots p = length (free_slots p)"

definition alloc :: "nat \<Rightarrow> ('c, 'r) pool \<Rightarrow> (('c, 'r) pool \<times> nat list) res" where
  "alloc n p =
     (if n > length (free_slots p) then Inl RuntimeError
      else Inr (p\<lparr>free_slots := take (length (free_slots p) - n) (free_slots p)\<rparr>,
                take n (rev (free_slots p))))"

definition reclaim_all_slots :: "('c, 'r) pool \<Rightarrow> ('c, 'r) pool res" where
  "reclaim_all_slots p =
     res_bind (materialize_verify_state p) (\<lambda>p.
       Inr (p\<lparr>free_slots := all_slots (lp_num_slots p)\<rparr>))"

definition aux_last :: "nat list \<Rightarrow> nat" where
  "aux_last shape = (if shape = [] then 1 else last shape)"

definition aux_full :: "nat \<Rightarrow> 'c aux_spec \<Rightarrow> 'c list list" where
  "aux_full num_slots spec = replicate num_slots (replicate (aux_last (ax_shape spec)) (ax_fill spec))"

definition pool_rebuild :: "nat \<Rightarrow> ('c::zero, 'r::zero) pool \<Rightarrow> ('c, 'r) pool res" where
  "pool_rebuild num_slots p =
     res_bind (materialize_verify_state p) (\<lambda>p.
       Inr (p\<lparr>conv_states := zero_conv num_slots (lp_hist p),
              recurrent_states := replicate num_slots 0,
              aux_states := map (\<lambda>(name, spec). (name, aux_full num_slots spec)) (aux_specs p),
              lp_num_slots := num_slots, free_slots := all_slots num_slots\<rparr>))"

definition free :: "nat list \<Rightarrow> ('c, 'r) pool \<Rightarrow> ('c, 'r) pool res" where
  "free slots p =
     res_bind (materialize_verify_state p) (\<lambda>p.
       Inr (p\<lparr>free_slots := free_slots p @ slots\<rparr>))"

fun set_all :: "nat list \<Rightarrow> 'a \<Rightarrow> 'a list \<Rightarrow> 'a list res" where
  "set_all [] x xs = Inr xs"
| "set_all (i # is) x xs = res_bind (set_at xs i x) (\<lambda>xs'. set_all is x xs')"

fun map_aux ::
  "(string \<Rightarrow> 'c list list \<Rightarrow> 'c list list res) \<Rightarrow> (string \<times> 'c list list) list \<Rightarrow>
   (string \<times> 'c list list) list res" where
  "map_aux f [] = Inr []"
| "map_aux f ((name, states) # rest) =
     res_bind (f name states) (\<lambda>states'.
     res_bind (map_aux f rest) (\<lambda>rest'. Inr ((name, states') # rest')))"

definition clear_slots :: "nat list \<Rightarrow> ('c::zero, 'r::zero) pool \<Rightarrow> ('c, 'r) pool res" where
  "clear_slots slots p =
     res_bind (materialize_verify_state p) (\<lambda>p.
     res_bind (set_all slots (replicate (lp_hist p) 0) (conv_states p)) (\<lambda>convs.
     res_bind (set_all slots 0 (recurrent_states p)) (\<lambda>recs.
     res_bind (map_aux (\<lambda>name states.
         (case map_of (aux_specs p) name of
            None \<Rightarrow> Inl KeyError
          | Some spec \<Rightarrow> set_all slots (replicate (aux_last (ax_shape spec)) (ax_fill spec)) states))
       (aux_states p)) (\<lambda>auxs.
       Inr (p\<lparr>conv_states := convs, recurrent_states := recs, aux_states := auxs\<rparr>)))))"

definition reset :: "nat \<Rightarrow> ('c::zero, 'r::zero) pool \<Rightarrow> ('c, 'r) pool res" where
  "reset table_idx p = clear_slots [table_idx] p"

definition copy_at :: "nat \<Rightarrow> nat \<Rightarrow> 'a list \<Rightarrow> 'a list res" where
  "copy_at src dst xs = res_bind (get_at xs src) (\<lambda>x. set_at xs dst x)"

definition copy_from :: "nat \<Rightarrow> nat \<Rightarrow> ('c, 'r) pool \<Rightarrow> ('c, 'r) pool res" where
  "copy_from src dst p =
     res_bind (materialize_verify_state p) (\<lambda>p.
     res_bind (copy_at src dst (conv_states p)) (\<lambda>convs.
     res_bind (copy_at src dst (recurrent_states p)) (\<lambda>recs.
     res_bind (map_aux (\<lambda>_. copy_at src dst) (aux_states p)) (\<lambda>auxs.
       Inr (p\<lparr>conv_states := convs, recurrent_states := recs, aux_states := auxs\<rparr>)))))"

definition snapshot_verify_inputs :: "nat \<Rightarrow> nat \<Rightarrow> ('c, 'r) pool \<Rightarrow> ('c, 'r) pool res" where
  "snapshot_verify_inputs src dst p =
     (if verify_steps p = 0 then Inl RuntimeError
      else
        res_bind (copy_at src dst (conv_states p)) (\<lambda>convs.
        res_bind (map_aux (\<lambda>_. copy_at src dst) (aux_states p)) (\<lambda>auxs.
          Inr (p\<lparr>conv_states := convs, aux_states := auxs\<rparr>))))"

definition ensure_aux_state ::
  "string \<Rightarrow> 'c aux_spec \<Rightarrow> ('c, 'r) pool \<Rightarrow> (('c, 'r) pool \<times> 'c list list) res" where
  "ensure_aux_state name spec p =
     (if map_of (aux_specs p) name \<notin> {None, Some spec} then Inl ValueError
      else (case map_of (aux_states p) name of
              Some states \<Rightarrow> Inr (p, states)
            | None \<Rightarrow>
                let states = aux_full (lp_num_slots p) spec in
                Inr (p\<lparr>aux_specs := AList.update name spec (aux_specs p),
                       aux_states := AList.update name states (aux_states p)\<rparr>, states)))"

definition is_linear_layer :: "int \<Rightarrow> ('c, 'r) pool \<Rightarrow> bool" where
  "is_linear_layer layer_id p = (layer_id \<in> set (g_layer_ids (lp_group p)))"

definition conv_state :: "nat \<Rightarrow> ('c, 'r) pool \<Rightarrow> 'c list res" where
  "conv_state table_idx p = get_at (conv_states p) table_idx"

definition recurrent_state :: "nat \<Rightarrow> ('c, 'r) pool \<Rightarrow> (('c, 'r) pool \<times> 'r) res" where
  "recurrent_state table_idx p =
     res_bind (materialize_verify_state p) (\<lambda>p.
     res_bind (get_at (recurrent_states p) table_idx) (\<lambda>r. Inr (p, r)))"

subsection \<open>Sizing\<close>

record qwen4_args =
  q_ple_conv_kernel_size :: int
  q_ngram_size :: int
  q_ple_layer_ids :: "int list"
  q_hc_count :: int

text \<open>The configuration fields the sizing reads; an absent attribute is \<open>None\<close>.\<close>

record pool_config =
  c_linear_groups :: "gdn_group list"
  c_model_type :: string
  c_hidden_size :: int
  c_qwen4_exp_args :: "qwen4_args option"
  c_dtype :: torch_dtype
  c_ssm_env :: string
  c_tp_size :: int
  c_speculative_tokens :: "int option"
  c_speculative_method :: "string option"
  c_max_running_req :: int
  c_cache_type :: string
  c_linear_state_cache_ratio :: rat

definition linear_attention_group :: "pool_config \<Rightarrow> gdn_group option res" where
  "linear_attention_group config =
     (case c_linear_groups config of
        [] \<Rightarrow> Inr None
      | [grp] \<Rightarrow> Inr (Some grp)
      | _ \<Rightarrow> Inl ValueError)"

definition bytes_per_slot :: "('c, 'r) pool \<Rightarrow> int res" where
  "bytes_per_slot p =
     (if lp_num_slots p = 0 then Inl IndexError
      else (case lp_dims p of (n_layers, conv_dim, v_heads) \<Rightarrow>
        Inr (n_layers * conv_dim * int (lp_hist p) * int (itemsize (lp_conv_dtype p))
           + n_layers * v_heads * g_key_head_dim (lp_group p) * g_value_head_dim (lp_group p)
             * int (itemsize (lp_rec_dtype p))
           + (\<Sum>(name, spec) \<leftarrow> aux_specs p.
                int (prod_list (ax_shape spec) * itemsize (ax_dtype spec))))))"

definition linear_state_bytes_per_req ::
  "gdn_group \<Rightarrow> int \<Rightarrow> torch_dtype \<Rightarrow> torch_dtype \<Rightarrow> int res" where
  "linear_state_bytes_per_req grp tp_size dtype ssm_dtype =
     res_bind (linear_local_dims grp tp_size) (\<lambda>(n_layers, local_conv_dim, local_v_heads).
       let conv_elems = local_conv_dim * (g_conv_kernel_dim grp - 1);
           rec_elems = local_v_heads * g_key_head_dim grp * g_value_head_dim grp;
           conv_bytes = conv_elems * int (itemsize dtype);
           rec_bytes = rec_elems * int (itemsize ssm_dtype)
       in Inr (n_layers * (conv_bytes + rec_bytes)))"

definition verify_transaction_bytes ::
  "gdn_group \<Rightarrow> int \<Rightarrow> torch_dtype \<Rightarrow> torch_dtype \<Rightarrow> int \<Rightarrow> int res" where
  "verify_transaction_bytes grp tp_size dtype ssm_dtype steps =
     res_bind (linear_local_dims grp tp_size) (\<lambda>(n_layers, local_conv_dim, local_v_heads).
       let recurrent = local_v_heads * g_key_head_dim grp * g_value_head_dim grp;
           per_step = recurrent * int (itemsize ssm_dtype) + local_conv_dim * int (itemsize dtype)
       in Inr (n_layers * steps * per_step))"

definition speculative_tokens :: "pool_config \<Rightarrow> int" where
  "speculative_tokens config = (case c_speculative_tokens config of None \<Rightarrow> 0 | Some n \<Rightarrow> n)"

definition verify_transaction_steps :: "pool_config \<Rightarrow> int" where
  "verify_transaction_steps config =
     (let steps = speculative_tokens config;
          mode = (case c_speculative_method config of None \<Rightarrow> ''none'' | Some s \<Rightarrow> s)
      in if mode = ''dflash2'' then steps
         else if steps > 0 \<and> mode = ''mtp'' \<and>
           c_model_type config \<in> {''qwen3_5'', ''qwen3_5_moe'', ''glm5_next'', ''qwen4_exp''}
         then steps + 1 else 0)"

definition py_int :: "rat \<Rightarrow> int" where
  "py_int x = (if x \<ge> 0 then \<lfloor>x\<rfloor> else \<lceil>x\<rceil>)"

definition linear_pool_num_slots :: "pool_config \<Rightarrow> int" where
  "linear_pool_num_slots config =
     (let mr = c_max_running_req config in
      if c_cache_type config \<noteq> ''hybrid_radix'' then
        mr + 1 + (if speculative_tokens config > 0 then 1 else 0)
      else
        let n_cache = max 4 (py_int (c_linear_state_cache_ratio config * of_int mr))
        in 4 * mr + n_cache + 1)"

definition linear_pool_min_slots :: "pool_config \<Rightarrow> int" where
  "linear_pool_min_slots config =
     (let mr = c_max_running_req config in
      if c_cache_type config \<noteq> ''hybrid_radix'' then
        mr + 1 + (if speculative_tokens config > 0 then 1 else 0)
      else 4 * mr + 1)"

definition state_pool_bytes :: "pool_config \<Rightarrow> int option \<Rightarrow> int res" where
  "state_pool_bytes config num_slots =
     res_bind (linear_attention_group config) (\<lambda>linear_group.
     case linear_group of
       None \<Rightarrow> Inr 0
     | Some grp \<Rightarrow>
         let slots = (case num_slots of Some n \<Rightarrow> n | None \<Rightarrow> linear_pool_num_slots config);
             dtype = c_dtype config; ssm = ssm_state_dtype (c_ssm_env config);
             steps = verify_transaction_steps config in
         res_bind (linear_state_bytes_per_req grp (c_tp_size config) dtype ssm) (\<lambda>base.
           let ple = (case c_qwen4_exp_args config of
                        None \<Rightarrow> 0
                      | Some qwen \<Rightarrow>
                          int (length (q_ple_layer_ids qwen)) * q_hc_count qwen * c_hidden_size config
                          * ((q_ple_conv_kernel_size qwen - 1) * q_ngram_size qwen)
                          * int (itemsize dtype));
               total = (base + ple) * slots in
           if steps = 0 then Inr total
           else
             let total = total + (case c_qwen4_exp_args config of
                        None \<Rightarrow> 0
                      | Some qwen \<Rightarrow>
                          int (length (q_ple_layer_ids qwen)) * q_hc_count qwen * c_hidden_size config
                          * steps * int (itemsize dtype)) in
             res_bind (verify_transaction_bytes grp (c_tp_size config) dtype ssm steps) (\<lambda>extra.
               Inr (total + extra))))"

section \<open>The engine's use of the pool\<close>

text \<open>
  One linear layer stack applied to the inputs \<open>xs\<close> of one request: each input carries what the
  recurrence consumes and the column the convolution remembers.  \<open>upd\<close> is the recurrence of the
  GPU kernel; it is a parameter.  A verification pass leaves the live recurrent state alone and
  writes the state after every input into the intermediate lane, starting from the cached step
  when there is one; the convolution history moves on in place.
\<close>

definition last_n :: "nat \<Rightarrow> 'a list \<Rightarrow> 'a list" where
  "last_n n xs = drop (length xs - n) xs"

fun scan_states :: "('x \<Rightarrow> 'r \<Rightarrow> 'r) \<Rightarrow> 'r \<Rightarrow> 'x list \<Rightarrow> 'r list" where
  "scan_states upd r [] = []"
| "scan_states upd r (x # xs) = upd x r # scan_states upd (upd x r) xs"

definition conv_advance :: "nat \<Rightarrow> 'c list \<Rightarrow> ('c, 'r) pool \<Rightarrow> ('c, 'r) pool res" where
  "conv_advance live cols p =
     res_bind (get_at (conv_states p) live) (\<lambda>c.
     res_bind (set_at (conv_states p) live (last_n (lp_hist p) (c @ cols))) (\<lambda>convs.
       Inr (p\<lparr>conv_states := convs\<rparr>)))"

definition verify_start :: "nat \<Rightarrow> 'r list \<Rightarrow> ('c, 'r) pool \<Rightarrow> 'r res" where
  "verify_start live states p =
     (case cached_initial_state_step p of
        Some k \<Rightarrow> if k \<ge> 0 then get_at states (nat k) else get_at (recurrent_states p) live
      | None \<Rightarrow> get_at (recurrent_states p) live)"

definition gdn_verify_forward ::
  "('x \<Rightarrow> 'r \<Rightarrow> 'r) \<Rightarrow> nat \<Rightarrow> ('x \<times> 'c) list \<Rightarrow> ('c, 'r) pool \<Rightarrow> ('c, 'r) pool res" where
  "gdn_verify_forward upd live xs p =
     res_bind (conv_advance live (map snd xs) p) (\<lambda>p.
       case (verify_recurrent_states p, verify_conv_inputs p) of
         (Some states, Some inputs) \<Rightarrow>
           if length xs > verify_steps p then Inl RuntimeError
           else
             res_bind (verify_start live states p) (\<lambda>r0.
               Inr (p\<lparr>verify_conv_inputs := Some (map snd xs @ drop (length xs) inputs),
                      verify_recurrent_states :=
                        Some (scan_states upd r0 (map fst xs) @ drop (length xs) states)\<rparr>))
       | _ \<Rightarrow> Inl RuntimeError)"

definition gdn_decode_forward ::
  "('x \<Rightarrow> 'r \<Rightarrow> 'r) \<Rightarrow> nat \<Rightarrow> ('x \<times> 'c) list \<Rightarrow> ('c, 'r) pool \<Rightarrow> ('c, 'r) pool res" where
  "gdn_decode_forward upd live xs p =
     res_bind (conv_advance live (map snd xs) p) (\<lambda>p.
     res_bind (get_at (recurrent_states p) live) (\<lambda>r0.
     res_bind (set_at (recurrent_states p) live (fold upd (map fst xs) r0)) (\<lambda>recs.
       Inr (p\<lparr>recurrent_states := recs\<rparr>))))"

text \<open>\<open>Engine.forward_batch\<close>: who owns the intermediate lane is settled first; a verification
  snapshots the live slot, runs and commits the accepted prefix.\<close>

definition forward_prepare :: "nat option \<Rightarrow> ('c, 'r) pool \<Rightarrow> ('c, 'r) pool res" where
  "forward_prepare verify_live p =
     (if cached_initial_state_step p \<noteq> None then
        (case verify_live of
           Some live \<Rightarrow> prepare_verify_state live p
         | None \<Rightarrow> materialize_verify_state p)
      else Inr p)"

definition verify_round ::
  "('x \<Rightarrow> 'r \<Rightarrow> 'r) \<Rightarrow> bool \<Rightarrow> nat \<Rightarrow> nat \<Rightarrow> ('x \<times> 'c) list \<Rightarrow> nat \<Rightarrow> ('c, 'r) pool \<Rightarrow>
   ('c, 'r) pool res" where
  "verify_round upd light live scratch xs len p =
     res_bind (forward_prepare (Some live) p) (\<lambda>p.
     res_bind (if light then snapshot_verify_inputs live scratch p else copy_from live scratch p) (\<lambda>p.
     res_bind (gdn_verify_forward upd live xs p) (\<lambda>p.
       commit_verify_prefix scratch live len p)))"

definition decode_round ::
  "('x \<Rightarrow> 'r \<Rightarrow> 'r) \<Rightarrow> nat \<Rightarrow> ('x \<times> 'c) list \<Rightarrow> ('c, 'r) pool \<Rightarrow> ('c, 'r) pool res" where
  "decode_round upd live xs p =
     res_bind (forward_prepare None p) (\<lambda>p. gdn_decode_forward upd live xs p)"

text \<open>What the engine and the cache manager do to the pool, as one operation each.\<close>

datatype ('x, 'c) pool_op =
    Verify bool nat nat "('x \<times> 'c) list" nat
  | Decode nat "('x \<times> 'c) list"
  | Clear "nat list"
  | Restore nat nat
  | Free "nat list"

fun pool_step ::
  "('x \<Rightarrow> 'r \<Rightarrow> 'r) \<Rightarrow> ('x, 'c) pool_op \<Rightarrow> ('c::zero, 'r::zero) pool \<Rightarrow> ('c, 'r) pool res" where
  "pool_step upd (Verify light live scratch xs len) p = verify_round upd light live scratch xs len p"
| "pool_step upd (Decode live xs) p = decode_round upd live xs p"
| "pool_step upd (Clear slots) p = clear_slots slots p"
| "pool_step upd (Restore src dst) p = copy_from src dst p"
| "pool_step upd (Free slots) p = free slots p"

fun pool_steps ::
  "('x \<Rightarrow> 'r \<Rightarrow> 'r) \<Rightarrow> ('x, 'c) pool_op list \<Rightarrow> ('c::zero, 'r::zero) pool \<Rightarrow> ('c, 'r) pool res" where
  "pool_steps upd [] p = Inr p"
| "pool_steps upd (x # xs) p = res_bind (pool_step upd x p) (\<lambda>p. pool_steps upd xs p)"

section \<open>The abstract states\<close>

text \<open>
  The specification has no lanes, no pending commits and no snapshots: a slot holds a recurrent
  state and a history, a forward pass applies the inputs it keeps, and the scratch slot of a
  verification is nobody's.
\<close>

type_synonym ('c, 'r) states = "nat \<Rightarrow> ('r \<times> 'c list) option"

definition advance ::
  "('x \<Rightarrow> 'r \<Rightarrow> 'r) \<Rightarrow> nat \<Rightarrow> ('x \<times> 'c) list \<Rightarrow> 'r \<times> 'c list \<Rightarrow> 'r \<times> 'c list" where
  "advance upd hist xs s =
     (fold upd (map fst xs) (fst s), last_n hist (snd s @ map snd xs))"

fun spec_step ::
  "('x \<Rightarrow> 'r \<Rightarrow> 'r) \<Rightarrow> nat \<Rightarrow> ('x, 'c) pool_op \<Rightarrow> ('c::zero, 'r::zero) states \<Rightarrow> ('c, 'r) states" where
  "spec_step upd hist (Verify light live scratch xs len) sp =
     sp(live := map_option (advance upd hist (take len xs)) (sp live), scratch := None)"
| "spec_step upd hist (Decode live xs) sp = sp(live := map_option (advance upd hist xs) (sp live))"
| "spec_step upd hist (Clear slots) sp =
     (\<lambda>s. if s \<in> set slots then Some (0, replicate hist 0) else sp s)"
| "spec_step upd hist (Restore src dst) sp = sp(dst := sp src)"
| "spec_step upd hist (Free slots) sp = sp"

definition spec_steps ::
  "('x \<Rightarrow> 'r \<Rightarrow> 'r) \<Rightarrow> nat \<Rightarrow> ('x, 'c) pool_op list \<Rightarrow> ('c::zero, 'r::zero) states \<Rightarrow> ('c, 'r) states" where
  "spec_steps upd hist ops sp = fold (spec_step upd hist) ops sp"

text \<open>The operations a client may issue against a pool of \<open>n\<close> slots and \<open>k\<close> verification steps.\<close>

fun op_ok :: "nat \<Rightarrow> nat \<Rightarrow> ('x, 'c) pool_op \<Rightarrow> bool" where
  "op_ok n k (Verify light live scratch xs len) =
     (live < n \<and> scratch < n \<and> live \<noteq> scratch \<and> 1 \<le> len \<and> len \<le> length xs \<and> length xs \<le> k)"
| "op_ok n k (Decode live xs) = (live < n)"
| "op_ok n k (Clear slots) = (\<forall>s\<in>set slots. s < n)"
| "op_ok n k (Restore src dst) = (src < n \<and> dst < n)"
| "op_ok n k (Free slots) = True"

definition eff_rec :: "('c, 'r) pool \<Rightarrow> nat \<Rightarrow> 'r" where
  "eff_rec p s =
     (case pending_verify_state p of
        Some (slot, step) \<Rightarrow>
          if slot = s then the (verify_recurrent_states p) ! step else recurrent_states p ! s
      | None \<Rightarrow> recurrent_states p ! s)"

definition pool_ok :: "('c, 'r) pool \<Rightarrow> bool" where
  "pool_ok p \<longleftrightarrow>
     length (conv_states p) = lp_num_slots p \<and> (\<forall>c\<in>set (conv_states p). length c = lp_hist p) \<and>
     length (recurrent_states p) = lp_num_slots p \<and>
     verify_aux_inputs p = [] \<and>
     (\<forall>(name, states)\<in>set (aux_states p).
        length states = lp_num_slots p \<and> map_of (aux_specs p) name \<noteq> None) \<and>
     (case verify_recurrent_states p of
        None \<Rightarrow> verify_steps p = 0
      | Some states \<Rightarrow> length states = verify_steps p) \<and>
     (case verify_conv_inputs p of
        None \<Rightarrow> verify_steps p = 0
      | Some inputs \<Rightarrow> length inputs = verify_steps p) \<and>
     (case pending_verify_state p of
        None \<Rightarrow> cached_initial_state_step p \<in> {None, Some (- 1)}
      | Some (slot, step) \<Rightarrow> slot < lp_num_slots p \<and> step < verify_steps p \<and>
          cached_initial_state_step p = Some (int step))"

definition pool_rep :: "('c, 'r) pool \<Rightarrow> ('c, 'r) states \<Rightarrow> bool" where
  "pool_rep p sp \<longleftrightarrow>
     pool_ok p \<and>
     (\<forall>s r c. s < lp_num_slots p \<and> sp s = Some (r, c) \<longrightarrow> eff_rec p s = r \<and> conv_states p ! s = c)"

subsection \<open>Lists\<close>

lemma get_at_ok [simp]: "i < length xs \<Longrightarrow> get_at xs i = Inr (xs ! i)"
  by (simp add: get_at_def)

lemma set_at_ok [simp]: "i < length xs \<Longrightarrow> set_at xs i x = Inr (xs[i := x])"
  by (simp add: set_at_def)

lemma copy_at_ok [simp]: "i < length xs \<Longrightarrow> j < length xs \<Longrightarrow> copy_at i j xs = Inr (xs[j := xs ! i])"
  by (simp add: copy_at_def)

lemma set_all_ok:
  "(\<forall>i\<in>set is. i < length xs) \<Longrightarrow>
   set_all is x xs = Inr (map (\<lambda>i. if i \<in> set is then x else xs ! i) [0..<length xs])"
proof (induction "is" arbitrary: xs)
  case Nil
  then show ?case by (simp add: map_nth)
next
  case (Cons i ls)
  have "map (\<lambda>j. if j \<in> set ls then x else xs[i := x] ! j) [0..<length xs] =
      map (\<lambda>j. if j \<in> set (i # ls) then x else xs ! j) [0..<length xs]"
    by (auto simp: nth_list_update)
  then show ?case using Cons.IH[of "xs[i := x]"] Cons.prems by simp
qed

lemma map_aux_ok:
  "(\<forall>(name, states)\<in>set auxs. f name states = Inr (g name states)) \<Longrightarrow>
   map_aux f auxs = Inr (map (\<lambda>(name, states). (name, g name states)) auxs)"
  by (induction auxs) auto

lemma length_scan_states [simp]: "length (scan_states upd r xs) = length xs"
  by (induction xs arbitrary: r) auto

lemma nth_scan_states:
  "i < length xs \<Longrightarrow> scan_states upd r xs ! i = fold upd (take (Suc i) xs) r"
proof (induction xs arbitrary: r i)
  case (Cons x xs)
  then show ?case by (cases i) auto
qed simp

lemma length_last_n [simp]: "length (last_n n xs) = min n (length xs)"
  by (auto simp: last_n_def)

text \<open>Both branches of the commit keep the last columns of the old history and the accepted
  inputs.\<close>

lemma shift_history_eq:
  assumes "len \<le> length inputs"
  shows "shift_history len snapshot inputs = last_n (length snapshot) (snapshot @ take len inputs)"
proof (cases "length snapshot \<le> len")
  case True
  have "take (length snapshot) (drop (len - length snapshot) inputs) = drop (len - length snapshot) (take len inputs)"
    using True by (simp add: drop_take)
  then show ?thesis using True assms by (simp add: shift_history_def Let_def last_n_def)
qed (use assms in \<open>simp add: shift_history_def Let_def last_n_def\<close>)

subsection \<open>Materializing\<close>

definition at_rest :: "('c, 'r) pool \<Rightarrow> ('c, 'r) pool" where
  "at_rest p = p\<lparr>recurrent_states := map (eff_rec p) [0..<lp_num_slots p], pending_verify_state := None,
     cached_initial_state_step :=
       (if pending_verify_state p = None then cached_initial_state_step p else Some (- 1))\<rparr>"

lemma materialize_ok:
  assumes "pool_ok p"
  shows "materialize_verify_state p = Inr (at_rest p)"
proof (cases "pending_verify_state p")
  case None
  have "map (eff_rec p) [0..<lp_num_slots p] = recurrent_states p"
    using assms None by (intro nth_equalityI) (auto simp: pool_ok_def eff_rec_def)
  then show ?thesis using None by (simp add: materialize_verify_state_def at_rest_def)
next
  case (Some sk)
  obtain s k where sk: "sk = (s, k)" by fastforce
  obtain vs where vs: "verify_recurrent_states p = Some vs" "k < length vs" "s < length (recurrent_states p)"
    "cached_initial_state_step p \<noteq> None"
    using assms Some sk by (auto simp: pool_ok_def split: option.splits)
  have "map (eff_rec p) [0..<lp_num_slots p] = (recurrent_states p)[s := vs ! k]"
    using assms Some vs sk
    by (intro nth_equalityI) (auto simp: pool_ok_def eff_rec_def nth_list_update)
  then show ?thesis
    using Some vs sk by (auto simp: materialize_verify_state_def at_rest_def the_res_def)
qed

lemma at_rest_simps [simp]:
  "pending_verify_state (at_rest p) = None" "conv_states (at_rest p) = conv_states p"
  "lp_num_slots (at_rest p) = lp_num_slots p" "lp_hist (at_rest p) = lp_hist p"
  "verify_steps (at_rest p) = verify_steps p" "aux_states (at_rest p) = aux_states p"
  "aux_specs (at_rest p) = aux_specs p" "verify_recurrent_states (at_rest p) = verify_recurrent_states p"
  "verify_conv_inputs (at_rest p) = verify_conv_inputs p" "verify_aux_inputs (at_rest p) = verify_aux_inputs p"
  "length (recurrent_states (at_rest p)) = lp_num_slots p"
  "s < lp_num_slots p \<Longrightarrow> recurrent_states (at_rest p) ! s = eff_rec p s"
  "s < lp_num_slots p \<Longrightarrow> eff_rec (at_rest p) s = eff_rec p s"
  by (simp_all add: at_rest_def) (simp add: eff_rec_def)

lemma at_rest_cached: "pool_ok p \<Longrightarrow> cached_initial_state_step (at_rest p) \<in> {None, Some (- 1)}"
  by (auto simp: at_rest_def pool_ok_def split: option.splits)

lemma at_rest_ok: "pool_ok p \<Longrightarrow> pool_ok (at_rest p)"
  using at_rest_cached[of p] unfolding pool_ok_def by (auto split: option.splits)

lemma at_rest_rep: "pool_rep p sp \<Longrightarrow> pool_rep (at_rest p) sp"
  using at_rest_ok by (auto simp: pool_rep_def)

text \<open>A pool at rest: its slots are what the recurrent states say.\<close>

lemma eff_rest [simp]: "pending_verify_state p = None \<Longrightarrow> eff_rec p s = recurrent_states p ! s"
  by (simp add: eff_rec_def)

lemma pool_okD:
  assumes "pool_ok p"
  shows "length (conv_states p) = lp_num_slots p" "length (recurrent_states p) = lp_num_slots p"
    "verify_aux_inputs p = []"
    "\<And>name states. (name, states) \<in> set (aux_states p) \<Longrightarrow>
       length states = lp_num_slots p \<and> map_of (aux_specs p) name \<noteq> None"
    "\<And>s. s < lp_num_slots p \<Longrightarrow> length (conv_states p ! s) = lp_hist p"
    "\<And>states. verify_recurrent_states p = Some states \<Longrightarrow> length states = verify_steps p"
    "\<And>inputs. verify_conv_inputs p = Some inputs \<Longrightarrow> length inputs = verify_steps p"
    "0 < verify_steps p \<Longrightarrow> verify_recurrent_states p \<noteq> None \<and> verify_conv_inputs p \<noteq> None"
  using assms unfolding pool_ok_def by (auto split: option.splits)

lemma rep_update:
  assumes "pool_rep p sp" and "pending_verify_state p = None"
    and "length recs = lp_num_slots p" "length convs = lp_num_slots p"
    and "\<And>c. c \<in> set convs \<Longrightarrow> length c = lp_hist p"
    and "\<forall>(name, states)\<in>set auxs. length states = lp_num_slots p \<and> map_of (aux_specs p) name \<noteq> None"
    and "\<And>s r c. s < lp_num_slots p \<Longrightarrow> sp' s = Some (r, c) \<Longrightarrow> recs ! s = r \<and> convs ! s = c"
  shows "pool_rep (p\<lparr>conv_states := convs, recurrent_states := recs, aux_states := auxs\<rparr>) sp'"
  using assms unfolding pool_rep_def by (auto simp: pool_ok_def eff_rec_def split: option.splits)

subsection \<open>Every operation refines its specification\<close>

lemma clear_refines:
  assumes rep: "pool_rep p sp" and slots: "\<forall>s\<in>set slots. s < lp_num_slots p"
  shows "\<exists>p'. clear_slots slots p = Inr p' \<and> lp_num_slots p' = lp_num_slots p \<and>
     lp_hist p' = lp_hist p \<and> verify_steps p' = verify_steps p \<and>
     pool_rep p' (\<lambda>s. if s \<in> set slots then Some (0, replicate (lp_hist p) 0) else sp s)"
proof -
  let ?q = "at_rest p"
  have ok: "pool_ok p" and qrep: "pool_rep ?q sp" and q: "pool_ok ?q"
    using rep at_rest_rep by (auto simp: pool_rep_def)
  note D = pool_okD[OF ok]
  define convs where "convs = map (\<lambda>i. if i \<in> set slots then replicate (lp_hist p) 0 else conv_states p ! i) [0..<lp_num_slots p]"
  define recs where "recs = map (\<lambda>i. if i \<in> set slots then 0 else recurrent_states ?q ! i) [0..<lp_num_slots p]"
  define g where "g name states = (case map_of (aux_specs p) name of None \<Rightarrow> states
     | Some spec \<Rightarrow> map (\<lambda>i. if i \<in> set slots then replicate (aux_last (ax_shape spec)) (ax_fill spec) else states ! i) [0..<lp_num_slots p])"
    for name and states :: "'a list list"
  have aux: "map_aux (\<lambda>name states.
         (case map_of (aux_specs p) name of
            None \<Rightarrow> Inl KeyError
          | Some spec \<Rightarrow> set_all slots (replicate (aux_last (ax_shape spec)) (ax_fill spec)) states))
       (aux_states p) = Inr (map (\<lambda>(name, states). (name, g name states)) (aux_states p))"
    using D(4) slots by (intro map_aux_ok) (auto simp: g_def set_all_ok split: option.splits)
  have "clear_slots slots p = Inr (?q\<lparr>conv_states := convs, recurrent_states := recs,
      aux_states := map (\<lambda>(name, states). (name, g name states)) (aux_states p)\<rparr>)"
    using slots D(1) aux
    by (simp add: clear_slots_def materialize_ok[OF ok] set_all_ok convs_def recs_def)
  moreover have "pool_rep (?q\<lparr>conv_states := convs, recurrent_states := recs,
      aux_states := map (\<lambda>(name, states). (name, g name states)) (aux_states p)\<rparr>)
      (\<lambda>s. if s \<in> set slots then Some (0, replicate (lp_hist p) 0) else sp s)"
  proof (rule rep_update[OF qrep])
    show "\<forall>(name, states)\<in>set (map (\<lambda>(name, states). (name, g name states)) (aux_states p)).
       length states = lp_num_slots ?q \<and> map_of (aux_specs ?q) name \<noteq> None"
      using D(4) by (auto simp: g_def split: option.splits)
    fix s r c
    assume "s < lp_num_slots ?q" "(if s \<in> set slots then Some (0, replicate (lp_hist p) 0) else sp s) = Some (r, c)"
    then show "recs ! s = r \<and> convs ! s = c"
      using qrep by (auto simp: recs_def convs_def pool_rep_def split: if_splits)
  qed (use D(5) in \<open>auto simp: recs_def convs_def\<close>)
  ultimately show ?thesis by simp
qed

lemma copy_aux_ok:
  assumes "pool_ok p" "src < lp_num_slots p" "dst < lp_num_slots p"
  shows "map_aux (\<lambda>_. copy_at src dst) (aux_states p) =
     Inr (map (\<lambda>(name, states). (name, states[dst := states ! src])) (aux_states p))"
  using pool_okD(4)[OF assms(1)] assms(2,3) by (intro map_aux_ok) auto

lemma copy_refines:
  assumes rep: "pool_rep p sp" and slots: "src < lp_num_slots p" "dst < lp_num_slots p"
  shows "\<exists>p'. copy_from src dst p = Inr p' \<and> lp_num_slots p' = lp_num_slots p \<and>
     lp_hist p' = lp_hist p \<and> verify_steps p' = verify_steps p \<and>
     pending_verify_state p' = None \<and> pool_rep p' (sp(dst := sp src))"
proof -
  let ?q = "at_rest p"
  have ok: "pool_ok p" and qrep: "pool_rep ?q sp" using rep at_rest_rep by (auto simp: pool_rep_def)
  note D = pool_okD[OF ok]
  let ?auxs = "map (\<lambda>(name, states). (name, states[dst := states ! src])) (aux_states p)"
  let ?p = "?q\<lparr>conv_states := (conv_states p)[dst := conv_states p ! src],
      recurrent_states := (recurrent_states ?q)[dst := recurrent_states ?q ! src], aux_states := ?auxs\<rparr>"
  have "copy_from src dst p = Inr ?p"
    using slots D(1) copy_aux_ok[OF ok slots] by (simp add: copy_from_def materialize_ok[OF ok])
  moreover have "pool_rep ?p (sp(dst := sp src))"
  proof (rule rep_update[OF qrep])
    show "\<forall>(name, states)\<in>set ?auxs. length states = lp_num_slots ?q \<and> map_of (aux_specs ?q) name \<noteq> None"
      using D(4) by auto
    show "length c = lp_hist ?q" if "c \<in> set ((conv_states p)[dst := conv_states p ! src])" for c
      using that D(1,5) slots by (auto simp: in_set_conv_nth nth_list_update split: if_splits)
    fix s r c
    assume "s < lp_num_slots ?q" "(sp(dst := sp src)) s = Some (r, c)"
    then show "(recurrent_states ?q)[dst := recurrent_states ?q ! src] ! s = r \<and>
        (conv_states p)[dst := conv_states p ! src] ! s = c"
      using qrep slots D(1) by (auto simp: pool_rep_def nth_list_update split: if_splits)
  qed (use D(1) in simp_all)
  ultimately show ?thesis by simp
qed

lemma free_refines:
  assumes "pool_rep p sp"
  shows "\<exists>p'. free slots p = Inr p' \<and> lp_num_slots p' = lp_num_slots p \<and> lp_hist p' = lp_hist p \<and>
     verify_steps p' = verify_steps p \<and> pool_rep p' sp"
proof -
  have "pool_rep (q\<lparr>free_slots := xs\<rparr>) sp = pool_rep q sp" for q :: "('a, 'b) pool" and xs
    by (simp add: pool_rep_def pool_ok_def eff_rec_def cong: option.case_cong prod.case_cong if_cong)
  then have "pool_rep (at_rest p\<lparr>free_slots := xs\<rparr>) sp" for xs
    using at_rest_rep[OF assms] by simp
  then show ?thesis using assms by (simp add: free_def materialize_ok pool_rep_def)
qed

lemma conv_advance_ok:
  assumes "pool_ok p" "live < lp_num_slots p"
  shows "conv_advance live cols p =
     Inr (p\<lparr>conv_states := (conv_states p)[live := last_n (lp_hist p) (conv_states p ! live @ cols)]\<rparr>)"
  using pool_okD(1)[OF assms(1)] assms(2) by (simp add: conv_advance_def)

lemma decode_refines:
  assumes rep: "pool_rep p sp" and live: "live < lp_num_slots p"
  shows "\<exists>p'. decode_round upd live xs p = Inr p' \<and> lp_num_slots p' = lp_num_slots p \<and>
     lp_hist p' = lp_hist p \<and> verify_steps p' = verify_steps p \<and>
     pool_rep p' (sp(live := map_option (advance upd (lp_hist p) xs) (sp live)))"
proof -
  define q where "q = (if cached_initial_state_step p \<noteq> None then at_rest p else p)"
  have ok: "pool_ok p" using rep by (simp add: pool_rep_def)
  have q: "forward_prepare None p = Inr q" "pool_rep q sp" "pending_verify_state q = None"
    "lp_num_slots q = lp_num_slots p" "lp_hist q = lp_hist p" "verify_steps q = verify_steps p"
    using rep ok at_rest_rep
    by (auto simp: q_def forward_prepare_def materialize_ok pool_ok_def split: option.splits)
  have qok: "pool_ok q" using q(2) by (simp add: pool_rep_def)
  note D = pool_okD[OF qok]
  let ?convs = "(conv_states q)[live := last_n (lp_hist q) (conv_states q ! live @ map snd xs)]"
  let ?recs = "(recurrent_states q)[live := fold upd (map fst xs) (recurrent_states q ! live)]"
  have "decode_round upd live xs p = Inr (q\<lparr>conv_states := ?convs, recurrent_states := ?recs, aux_states := aux_states q\<rparr>)"
    using conv_advance_ok[OF qok, of live] live q D(2)
    by (simp add: decode_round_def gdn_decode_forward_def)
  moreover have "pool_rep (q\<lparr>conv_states := ?convs, recurrent_states := ?recs, aux_states := aux_states q\<rparr>)
      (sp(live := map_option (advance upd (lp_hist p) xs) (sp live)))"
  proof (rule rep_update[OF q(2,3)])
    show "length c = lp_hist q" if "c \<in> set ?convs" for c
      using that D(1,5) live q(4) by (auto simp: in_set_conv_nth nth_list_update split: if_splits)
    fix s r c
    assume "s < lp_num_slots q" "(sp(live := map_option (advance upd (lp_hist p) xs) (sp live))) s = Some (r, c)"
    then show "?recs ! s = r \<and> ?convs ! s = c"
      using q(2,3,4,5) live D(1,2)
      by (auto simp: pool_rep_def advance_def nth_list_update split: if_splits)
  qed (use D q in auto)
  ultimately show ?thesis using q by simp
qed

lemma rep_forget: "pool_rep p sp \<Longrightarrow> pool_rep p (sp(s := None))"
  by (auto simp: pool_rep_def)

lemma prepare_stage:
  assumes rep: "pool_rep p sp"
  shows "\<exists>q. forward_prepare (Some live) p = Inr q \<and> pool_rep q sp \<and>
     (\<forall>s k. pending_verify_state q = Some (s, k) \<longrightarrow> s = live) \<and>
     lp_num_slots q = lp_num_slots p \<and> lp_hist q = lp_hist p \<and> verify_steps q = verify_steps p"
proof -
  have ok: "pool_ok p" using rep by (simp add: pool_rep_def)
  show ?thesis
  proof (cases "\<exists>s k. pending_verify_state p = Some (s, k) \<and> s \<noteq> live")
    case True
    then obtain s k where s: "pending_verify_state p = Some (s, k)" "s \<noteq> live" by blast
    then have "cached_initial_state_step p \<noteq> None" using ok by (auto simp: pool_ok_def)
    then show ?thesis
      using s at_rest_rep[OF rep]
      by (simp add: forward_prepare_def prepare_verify_state_def materialize_ok[OF ok])
  next
    case False
    then have "forward_prepare (Some live) p = Inr p"
      by (auto simp: forward_prepare_def prepare_verify_state_def split: option.splits)
    then show ?thesis using False rep by auto
  qed
qed

lemma light_stage:
  assumes rep: "pool_rep q sp" and slots: "live < lp_num_slots q" "scratch < lp_num_slots q" "live \<noteq> scratch"
    and steps: "0 < verify_steps q"
  shows "\<exists>q'. snapshot_verify_inputs live scratch q = Inr q' \<and> pool_rep q' (sp(scratch := None)) \<and>
     conv_states q' ! scratch = conv_states q' ! live \<and>
     pending_verify_state q' = pending_verify_state q \<and>
     lp_num_slots q' = lp_num_slots q \<and> lp_hist q' = lp_hist q \<and> verify_steps q' = verify_steps q"
proof -
  have ok: "pool_ok q" using rep by (simp add: pool_rep_def)
  note D = pool_okD[OF ok]
  let ?auxs = "map (\<lambda>(name, states). (name, states[scratch := states ! live])) (aux_states q)"
  let ?convs = "(conv_states q)[scratch := conv_states q ! live]"
  let ?q = "q\<lparr>conv_states := ?convs, aux_states := ?auxs\<rparr>"
  have eq: "snapshot_verify_inputs live scratch q = Inr ?q"
    using slots steps D(1) copy_aux_ok[OF ok slots(1,2)] by (simp add: snapshot_verify_inputs_def)
  have len: "length c = lp_hist q" if "c \<in> set ?convs" for c
    using that D(1,5) slots by (auto simp: in_set_conv_nth nth_list_update split: if_splits)
  have aux: "\<forall>(name, states)\<in>set ?auxs. length states = lp_num_slots q \<and> map_of (aux_specs q) name \<noteq> None"
    using D(4) by auto
  have "pool_ok ?q"
    using ok len aux unfolding pool_ok_def by (simp cong: option.case_cong prod.case_cong if_cong)
  moreover have "eff_rec ?q s = eff_rec q s" for s
    by (simp add: eff_rec_def cong: option.case_cong prod.case_cong if_cong)
  ultimately have "pool_rep ?q (sp(scratch := None))"
    using rep by (auto simp: pool_rep_def)
  then show ?thesis using eq slots D(1) by simp
qed

lemma commit_stage:
  assumes rep: "pool_rep q sp" and slots: "live < lp_num_slots q" "scratch < lp_num_slots q" "live \<noteq> scratch"
    and len: "1 \<le> len" "len \<le> length xs" "length xs \<le> verify_steps q"
    and owner: "\<forall>s k. pending_verify_state q = Some (s, k) \<longrightarrow> s = live"
    and snap: "conv_states q ! scratch = conv_states q ! live"
  shows "\<exists>q'. res_bind (gdn_verify_forward upd live xs q) (commit_verify_prefix scratch live len) = Inr q' \<and>
     pool_rep q' (sp(live := map_option (advance upd (lp_hist q) (take len xs)) (sp live))) \<and>
     lp_num_slots q' = lp_num_slots q \<and> lp_hist q' = lp_hist q \<and> verify_steps q' = verify_steps q"
proof -
  have ok: "pool_ok q" using rep by (simp add: pool_rep_def)
  note D = pool_okD[OF ok]
  obtain vs ins where vs: "verify_recurrent_states q = Some vs" "verify_conv_inputs q = Some ins"
    "length vs = verify_steps q" "length ins = verify_steps q"
    using D(6,7,8) len by force
  define cols where "cols = map snd xs"
  define ins' where "ins' = cols @ drop (length xs) ins"
  define vs' where "vs' = scan_states upd (eff_rec q live) (map fst xs) @ drop (length xs) vs"
  define r where "r = fold upd (map fst (take len xs)) (eff_rec q live)"
  define conv where "conv = last_n (lp_hist q) (conv_states q ! live @ take len cols)"
  have start: "verify_start live vs q = Inr (eff_rec q live)"
    using ok owner vs slots D(2)
    by (cases "pending_verify_state q") (auto simp: verify_start_def pool_ok_def eff_rec_def)
  let ?q1 = "q\<lparr>conv_states := (conv_states q)[live := last_n (lp_hist q) (conv_states q ! live @ cols)],
      verify_conv_inputs := Some ins', verify_recurrent_states := Some vs'\<rparr>"
  have start1: "verify_start live vs (q\<lparr>conv_states := x\<rparr>) = verify_start live vs q" for x
    by (simp add: verify_start_def cong: option.case_cong if_cong)
  have fwd: "gdn_verify_forward upd live xs q = Inr ?q1"
    using conv_advance_ok[OF ok slots(1), of cols] vs len start start1
    by (simp add: gdn_verify_forward_def cols_def ins'_def vs'_def)
  have lens: "length vs' = verify_steps q" "length ins' = verify_steps q"
    using len vs by (auto simp: vs'_def ins'_def cols_def)
  have vr: "vs' ! (len - 1) = r"
  proof -
    have "len - 1 < length xs" using len by linarith
    then have "vs' ! (len - 1) = scan_states upd (eff_rec q live) (map fst xs) ! (len - 1)"
      using len by (auto simp: vs'_def nth_append)
    then show ?thesis using len by (simp add: nth_scan_states r_def take_map)
  qed
  have shift: "shift_history len (conv_states q ! scratch) ins' = conv"
  proof -
    have "take len ins' = take len cols" using len by (simp add: ins'_def cols_def)
    moreover have "len \<le> length ins'" using len lens by simp
    ultimately show ?thesis using D(5)[OF slots(1)] snap by (simp add: shift_history_eq conv_def)
  qed
  let ?convs = "(conv_states q)[live := conv]"
  have convlen: "length c = lp_hist q" if "c \<in> set ?convs" for c
    using that D(1,5) slots len by (auto simp: in_set_conv_nth nth_list_update conv_def split: if_splits)
  let ?sp = "sp(live := map_option (advance upd (lp_hist q) (take len xs)) (sp live))"
  have want: "(s = live \<longrightarrow> r' = r \<and> c = conv) \<and> (s \<noteq> live \<longrightarrow> recurrent_states q ! s = r' \<and> conv_states q ! s = c)"
    if slot: "s < lp_num_slots q" "?sp s = Some (r', c)" for s r' c
  proof (cases "s = live")
    case True
    then obtain rc where rc: "sp live = Some rc" "(r', c) = advance upd (lp_hist q) (take len xs) rc"
      using slot by auto
    then have "eff_rec q live = fst rc \<and> conv_states q ! live = snd rc"
      using rep slots(1) unfolding pool_rep_def by (metis prod.collapse)
    with rc(2) show ?thesis using True by (simp add: r_def conv_def cols_def take_map advance_def)
  next
    case False
    then have "eff_rec q s = r' \<and> conv_states q ! s = c" using that rep by (auto simp: pool_rep_def)
    moreover have "eff_rec q s = recurrent_states q ! s"
      using owner False by (auto simp: eff_rec_def split: option.split)
    ultimately show ?thesis using False by simp
  qed
  show ?thesis
  proof (cases "cached_initial_state_step q")
    case None
    let ?q' = "?q1\<lparr>conv_states := ?convs, recurrent_states := (recurrent_states q)[live := r]\<rparr>"
    have "commit_verify_prefix scratch live len ?q1 = Inr ?q'"
      using None len lens vr shift slots D(1,2,3) by (simp add: commit_verify_prefix_def commit_recurrent_def)
    moreover have "pending_verify_state q = None" using ok None by (auto simp: pool_ok_def split: option.splits)
    then have "pool_rep ?q' ?sp"
      using ok lens convlen want D(1,2) slots None unfolding pool_rep_def pool_ok_def
      by (auto simp: eff_rec_def nth_list_update)
    ultimately show ?thesis using fwd by simp
  next
    case (Some k)
    let ?q' = "?q1\<lparr>conv_states := ?convs, pending_verify_state := Some (live, len - 1),
        cached_initial_state_step := Some (int len - 1)\<rparr>"
    have "commit_verify_prefix scratch live len ?q1 = Inr ?q'"
      using Some len lens shift slots D(1,3) owner
      by (auto simp: commit_verify_prefix_def commit_recurrent_def split: option.split)
    moreover have "pool_rep ?q' ?sp"
      using ok lens convlen want D(1,2) slots len vr unfolding pool_rep_def pool_ok_def
      by (auto simp: eff_rec_def nth_list_update of_nat_diff)
    ultimately show ?thesis using fwd by simp
  qed
qed

lemma verify_refines:
  assumes rep: "pool_rep p sp" and op: "op_ok (lp_num_slots p) (verify_steps p) (Verify light live scratch xs len)"
  shows "\<exists>p'. verify_round upd light live scratch xs len p = Inr p' \<and>
     pool_rep p' (spec_step upd (lp_hist p) (Verify light live scratch xs len) sp) \<and>
     lp_num_slots p' = lp_num_slots p \<and> lp_hist p' = lp_hist p \<and> verify_steps p' = verify_steps p"
proof -
  obtain q where q: "forward_prepare (Some live) p = Inr q" "pool_rep q sp"
    "\<forall>s k. pending_verify_state q = Some (s, k) \<longrightarrow> s = live"
    "lp_num_slots q = lp_num_slots p" "lp_hist q = lp_hist p" "verify_steps q = verify_steps p"
    using prepare_stage[OF rep] by blast
  have slots: "live < lp_num_slots q" "scratch < lp_num_slots q" "live \<noteq> scratch" "0 < verify_steps q"
    using op q by auto
  obtain q2 where q2: "(if light then snapshot_verify_inputs live scratch q else copy_from live scratch q) = Inr q2"
    "pool_rep q2 (sp(scratch := None))" "conv_states q2 ! scratch = conv_states q2 ! live"
    "\<forall>s k. pending_verify_state q2 = Some (s, k) \<longrightarrow> s = live"
    "lp_num_slots q2 = lp_num_slots q" "lp_hist q2 = lp_hist q" "verify_steps q2 = verify_steps q"
  proof (cases light)
    case True
    then show ?thesis using light_stage[OF q(2) slots] q(3) that by auto
  next
    case False
    obtain q' where q': "copy_from live scratch q = Inr q'" "pool_rep q' (sp(scratch := sp live))"
      "lp_num_slots q' = lp_num_slots q" "lp_hist q' = lp_hist q" "verify_steps q' = verify_steps q"
      "pending_verify_state q' = None"
      using copy_refines[OF q(2) slots(1,2)] by blast
    have "conv_states q' ! scratch = conv_states q' ! live"
      using q'(1) slots pool_okD(1)[of q] q(2)
      by (auto simp: copy_from_def materialize_ok pool_rep_def copy_aux_ok res_bind_eq_Inr nth_list_update)
    moreover have "pool_rep q' (sp(scratch := None))" using rep_forget[OF q'(2), of scratch] by simp
    ultimately show ?thesis using that q' False by auto
  qed
  have bounds: "1 \<le> len" "len \<le> length xs" "length xs \<le> verify_steps q2" "live < lp_num_slots q2" "scratch < lp_num_slots q2"
    using op q q2 slots by auto
  obtain q3 where "res_bind (gdn_verify_forward upd live xs q2) (commit_verify_prefix scratch live len) = Inr q3"
    "pool_rep q3 ((sp(scratch := None))(live := map_option (advance upd (lp_hist q2) (take len xs)) ((sp(scratch := None)) live)))"
    "lp_num_slots q3 = lp_num_slots q2" "lp_hist q3 = lp_hist q2" "verify_steps q3 = verify_steps q2"
    using commit_stage[OF q2(2) bounds(4,5) slots(3) bounds(1,2,3) q2(4,3)] by blast
  moreover have "(sp(scratch := None))(live := map_option (advance upd (lp_hist q2) (take len xs)) ((sp(scratch := None)) live)) =
      spec_step upd (lp_hist p) (Verify light live scratch xs len) sp"
    using slots q q2 by (simp add: fun_upd_twist)
  ultimately show ?thesis using q q2 by (simp add: verify_round_def)
qed

lemma pool_step_refines:
  assumes rep: "pool_rep p sp" and op: "op_ok (lp_num_slots p) (verify_steps p) x"
  shows "\<exists>p'. pool_step upd x p = Inr p' \<and> pool_rep p' (spec_step upd (lp_hist p) x sp) \<and>
     lp_num_slots p' = lp_num_slots p \<and> lp_hist p' = lp_hist p \<and> verify_steps p' = verify_steps p"
proof (cases x)
  case (Verify light live scratch xs len)
  then show ?thesis using verify_refines[OF rep, where light = light and upd = upd] op by auto
next
  case (Decode live xs)
  then show ?thesis using decode_refines[OF rep, of live upd xs] op by auto
next
  case (Clear slots)
  then show ?thesis using clear_refines[OF rep, of slots] op by auto
next
  case (Restore src dst)
  then show ?thesis using copy_refines[OF rep, of src dst] op by auto
next
  case (Free slots)
  then show ?thesis using free_refines[OF rep, of slots] op by auto
qed

lemma pool_steps_refine:
  assumes "pool_rep p sp" and "\<forall>x\<in>set ops. op_ok (lp_num_slots p) (verify_steps p) x"
  shows "\<exists>p'. pool_steps upd ops p = Inr p' \<and> pool_rep p' (spec_steps upd (lp_hist p) ops sp) \<and>
     lp_num_slots p' = lp_num_slots p"
  using assms
proof (induction ops arbitrary: p sp)
  case (Cons x ops)
  obtain p' where p': "pool_step upd x p = Inr p'" "pool_rep p' (spec_step upd (lp_hist p) x sp)"
    "lp_num_slots p' = lp_num_slots p" "lp_hist p' = lp_hist p" "verify_steps p' = verify_steps p"
    using pool_step_refines[OF Cons.prems(1), of x upd] Cons.prems(2) by auto
  show ?case using Cons.IH[OF p'(2)] Cons.prems(2) p' by (simp add: spec_steps_def)
qed (simp add: spec_steps_def)

lemma read_slot:
  assumes "pool_rep p sp" "s < lp_num_slots p" "sp s = Some (r, c)"
  shows "recurrent_state s p = Inr (at_rest p, r)" "conv_state s p = Inr c"
  using assms pool_okD(1,2)[of p]
  by (auto simp: pool_rep_def recurrent_state_def materialize_ok conv_state_def)

lemma startup_rep:
  fixes p0 p1 p2 :: "('c::zero, 'r::zero) pool"
  assumes "pool_init grp n dtype ssm tp = Inr p0"
    and "enable_verify_transactions junk_r junk_c steps p0 = Inr p1"
    and "if deferred then enable_deferred_verify_commits p1 = Inr p2 else p2 = p1"
  shows "pool_rep p2 (\<lambda>s. Some (0, replicate (lp_hist p2) 0)) \<and> lp_num_slots p2 = n \<and>
     verify_steps p2 = nat steps \<and> lp_hist p2 = nat (g_conv_kernel_dim grp - 1) \<and>
     free_slots p2 = all_slots n"
  using assms
  by (cases deferred)
    (auto simp: pool_init_def enable_verify_transactions_def enable_deferred_verify_commits_def
      res_bind_eq_Inr Let_def pool_rep_def pool_ok_def eff_rec_def zero_conv_def split: if_splits)

section \<open>Properties\<close>

text \<open>
  C34: deferred commits are invisible.  From start-up, with deferred commits or without, any
  sequence of verification rounds (whose last inputs may be rejected), decode passes, restores,
  clears and frees over any slots succeeds, and every slot then reads as the state and the
  convolution history of exactly the inputs that were kept for it, unless it last served as
  scratch space.
\<close>

theorem deferred_commits_refine:
  fixes p0 p1 p2 :: "('c::zero, 'r::zero) pool"
  assumes "pool_init grp n dtype ssm tp = Inr p0"
    and "enable_verify_transactions junk_r junk_c steps p0 = Inr p1"
    and "if deferred then enable_deferred_verify_commits p1 = Inr p2 else p2 = p1"
    and "\<forall>x\<in>set ops. op_ok n (nat steps) x" and "s < n"
    and "spec_steps upd (lp_hist p2) ops (\<lambda>s. Some (0, replicate (lp_hist p2) 0)) s = Some (r, c)"
  shows "\<exists>p' q. pool_steps upd ops p2 = Inr p' \<and> recurrent_state s p' = Inr (q, r) \<and>
     conv_state s p' = Inr c"
  using pool_steps_refine[of p2 _ ops upd] startup_rep[OF assms(1,2,3)] assms(4,5,6)
    read_slot[of _ _ s r c] by metis

definition demo_group :: gdn_group where
  "demo_group = \<lparr>g_layer_ids = [0, 1], g_num_key_heads = 4, g_num_value_heads = 8,
     g_key_head_dim = 2, g_value_head_dim = 2, g_conv_kernel_dim = 4\<rparr>"

definition demo_upd :: "int \<Rightarrow> int \<Rightarrow> int" where
  "demo_upd x r = 2 * r + x"

text \<open>Two requests take turns on the one lane; the second restores from the first.\<close>

definition demo_ops :: "(int, int) pool_op list" where
  "demo_ops =
     [Verify True 1 3 [(1, 10), (2, 20), (3, 30)] 2, Verify True 1 3 [(4, 40), (5, 50)] 1,
      Restore 1 2, Verify False 2 3 [(1, 60)] 1, Decode 1 [(7, 70)]]"

definition demo_pool :: "bool \<Rightarrow> (int, int) pool" where
  "demo_pool deferred =
     (case pool_init demo_group 4 Bfloat16 Float32 2 of
        Inl _ \<Rightarrow> undefined
      | Inr p \<Rightarrow> p\<lparr>verify_steps := 3, verify_recurrent_states := Some [9, 9, 9],
          verify_conv_inputs := Some [9, 9, 9], verify_state_indices := Some [0],
          cached_initial_state_step := (if deferred then Some (- 1) else None)\<rparr>)"

theorem deferred_commits_refine_witness:
  "\<exists>p' q. pool_steps demo_upd demo_ops (demo_pool True) = Inr p' \<and>
     recurrent_state 1 p' = Inr (q, 31) \<and> conv_state 1 p' = Inr [20, 40, 70]"
proof (rule deferred_commits_refine[where deferred = True and n = 4 and steps = 3 and grp = demo_group
      and dtype = Bfloat16 and ssm = Float32 and tp = 2 and junk_r = 9 and junk_c = 9])
  show "pool_init demo_group 4 Bfloat16 Float32 2 = Inr ((demo_pool True)\<lparr>verify_steps := 0,
     verify_recurrent_states := None, verify_conv_inputs := None,
     verify_state_indices := None, cached_initial_state_step := None\<rparr>)"
    by (simp add: demo_pool_def pool_init_def linear_local_dims_def div_even_def demo_group_def Let_def)
  show "enable_verify_transactions 9 9 3 ((demo_pool True)\<lparr>verify_steps := 0,
      verify_recurrent_states := None, verify_conv_inputs := None,
     verify_state_indices := None, cached_initial_state_step := None\<rparr>) =
    Inr ((demo_pool True)\<lparr>cached_initial_state_step := None\<rparr>)"
    by (simp add: enable_verify_transactions_def demo_pool_def pool_init_def linear_local_dims_def
        div_even_def demo_group_def Let_def eval_nat_numeral)
  show "if True then enable_deferred_verify_commits ((demo_pool True)\<lparr>cached_initial_state_step := None\<rparr>) =
      Inr (demo_pool True) else demo_pool True = (demo_pool True)\<lparr>cached_initial_state_step := None\<rparr>"
    by (simp add: enable_deferred_verify_commits_def demo_pool_def pool_init_def linear_local_dims_def
        div_even_def demo_group_def Let_def)
  have "lp_hist (demo_pool True) = 3"
    by (simp add: demo_pool_def pool_init_def linear_local_dims_def div_even_def demo_group_def Let_def)
  then show "spec_steps demo_upd (lp_hist (demo_pool True)) demo_ops
      (\<lambda>s. Some (0, replicate (lp_hist (demo_pool True)) 0)) 1 = Some (31, [20, 40, 70])"
    by (simp add: spec_steps_def demo_ops_def advance_def demo_upd_def last_n_def eval_nat_numeral)
qed (simp_all add: demo_ops_def)

text \<open>
  C35: slots are handed out once.  When the free list and the slots in use make up all slots but
  the padding slot, an allocation raises exactly when it asks for more than are free; otherwise
  it returns that many distinct slots, none of them in use and none the padding slot, and freeing
  them again restores the free list up to order.
\<close>

theorem alloc_partition:
  assumes "pool_ok p" and "mset (free_slots p) + mset held = mset (all_slots (lp_num_slots p))"
  shows "case alloc n p of
      Inl e \<Rightarrow> e = RuntimeError \<and> num_free_slots p < n
    | Inr (p', got) \<Rightarrow> length got = n \<and> distinct (got @ held) \<and> padding_slot \<notin> set (got @ held) \<and>
        set got \<subseteq> set (free_slots p) \<and> mset (free_slots p') + mset (got @ held) = mset (all_slots (lp_num_slots p)) \<and>
        (\<exists>p''. free got p' = Inr p'' \<and> mset (free_slots p'') = mset (free_slots p))"
proof (cases "length (free_slots p) < n")
  case False
  let ?k = "length (free_slots p) - n"
  let ?p = "p\<lparr>free_slots := take ?k (free_slots p)\<rparr>"
  have got: "take n (rev (free_slots p)) = rev (drop ?k (free_slots p))"
    using False by (simp add: take_rev)
  have m: "mset (take ?k (free_slots p)) + mset (drop ?k (free_slots p)) = mset (free_slots p)"
    by (metis append_take_drop_id mset_append)
  have all: "distinct (all_slots (lp_num_slots p))" "padding_slot \<notin> set (all_slots (lp_num_slots p))"
    by (simp_all add: all_slots_def padding_slot_def)
  then have "distinct (free_slots p @ held)" "set (free_slots p @ held) = set (all_slots (lp_num_slots p))"
    using assms(2) by (metis mset_append mset_eq_imp_distinct_iff, metis mset_append mset_eq_setD)
  then have "distinct (rev (drop ?k (free_slots p)) @ held)" "padding_slot \<notin> set (rev (drop ?k (free_slots p)) @ held)"
    using all(2) by (auto dest: in_set_dropD simp del: set_drop_subset)
  moreover have "pool_ok ?p"
    using assms(1) by (simp add: pool_ok_def cong: option.case_cong prod.case_cong if_cong)
  then have "free (rev (drop ?k (free_slots p))) ?p =
      Inr (at_rest ?p\<lparr>free_slots := take ?k (free_slots p) @ rev (drop ?k (free_slots p))\<rparr>)"
    by (simp add: free_def materialize_ok) (simp add: at_rest_def)
  ultimately show ?thesis
    using False assms(2) m got
    by (auto simp: alloc_def num_free_slots_def simp flip: add.assoc dest: in_set_dropD)
qed (simp add: alloc_def num_free_slots_def)

theorem alloc_partition_witness:
  "case alloc 2 ((demo_pool True)\<lparr>free_slots := [1, 3]\<rparr>) of
      Inl e \<Rightarrow> False
    | Inr (p', got) \<Rightarrow> set got = {1, 3}"
proof -
  let ?p = "(demo_pool True)\<lparr>free_slots := [1, 3]\<rparr>"
  have ok: "pool_ok ?p"
    by (simp add: pool_ok_def demo_pool_def pool_init_def linear_local_dims_def div_even_def
        demo_group_def Let_def zero_conv_def eval_nat_numeral)
  have "lp_num_slots ?p = 4"
    by (simp add: demo_pool_def pool_init_def linear_local_dims_def div_even_def demo_group_def Let_def)
  then have "mset (free_slots ?p) + mset [2] = mset (all_slots (lp_num_slots ?p))"
    by (simp add: all_slots_def upt_rec eval_nat_numeral)
  from alloc_partition[OF ok this, of 2] show ?thesis
    by (auto simp: alloc_def num_free_slots_def)
qed

text \<open>The bytes of the tensors that \<open>enable_verify_transactions\<close> and \<open>enable_deferred_verify_commits\<close> allocate, from
  their shapes; the indices and the accepted step are \<open>int32\<close>.\<close>

definition verify_tensor_bytes :: "('c, 'r) pool \<Rightarrow> int" where
  "verify_tensor_bytes p =
     (case lp_dims p of (n_layers, conv_dim, v_heads) \<Rightarrow>
        n_layers * int (verify_steps p) * v_heads * g_key_head_dim (lp_group p)
          * g_value_head_dim (lp_group p) * int (itemsize (lp_rec_dtype p))
      + n_layers * int (verify_steps p) * conv_dim * int (itemsize (lp_conv_dtype p)))
      + (case verify_state_indices p of None \<Rightarrow> 0 | Some indices \<Rightarrow> 4 * int (length indices))
      + (case cached_initial_state_step p of None \<Rightarrow> 0 | Some _ \<Rightarrow> 4)"

text \<open>
  C36: the budget is what start-up allocates, up to a few bytes.  For a model without auxiliary states (no
  \<open>qwen4_exp_args\<close>) the pool that the engine builds takes slots times the bytes of a slot plus
  the tensors of the verification lane.  The bytes the engine budgets for it are that number less four
  for the index tensor and, with deferred commits, four for the accepted step, which the
  budget leaves out; with no verification it is exact.  And the pool has at least the slots below
  which admission would deadlock.
\<close>

theorem startup_pool_bytes:
  fixes p0 p1 p2 :: "('c::zero, 'r::zero) pool"
  assumes "c_linear_groups config = [grp]" and "c_qwen4_exp_args config = None"
    and "0 \<le> c_max_running_req config" and "0 \<le> verify_transaction_steps config"
    and "1 \<le> g_conv_kernel_dim grp"
    and "pool_init grp (nat (linear_pool_num_slots config)) (c_dtype config)
           (ssm_state_dtype (c_ssm_env config)) (c_tp_size config) = Inr p0"
    and "enable_verify_transactions junk_r junk_c (verify_transaction_steps config) p0 = Inr p1"
    and "if deferred then enable_deferred_verify_commits p1 = Inr p2 else p2 = p1"
  shows "\<exists>b. bytes_per_slot p2 = Inr b \<and>
     state_pool_bytes config None = Inr (b * int (lp_num_slots p2) + verify_tensor_bytes p2
       - (if verify_transaction_steps config = 0 then 0 else if deferred then 8 else 4)) \<and>
     linear_pool_min_slots config \<le> int (lp_num_slots p2)"
proof -
  let ?n = "linear_pool_num_slots config" and ?k = "verify_transaction_steps config"
  obtain layers conv_dim v_heads where dims: "linear_local_dims grp (c_tp_size config) = Inr (layers, conv_dim, v_heads)"
    using assms(6) by (auto simp: pool_init_def res_bind_eq_Inr)
  have n: "1 \<le> ?n" "linear_pool_min_slots config \<le> ?n"
    using assms(3) by (auto simp: linear_pool_num_slots_def linear_pool_min_slots_def Let_def)
  have p1: "lp_num_slots p1 = nat ?n" "lp_dims p1 = (layers, conv_dim, v_heads)" "lp_group p1 = grp"
    "lp_hist p1 = nat (g_conv_kernel_dim grp - 1)" "lp_conv_dtype p1 = c_dtype config"
    "lp_rec_dtype p1 = ssm_state_dtype (c_ssm_env config)" "aux_specs p1 = []" "verify_steps p1 = nat ?k"
    "verify_state_indices p1 = (if ?k = 0 then None else Some [0])" "cached_initial_state_step p1 = None"
    using assms(4,6,7) dims
    by (auto simp: pool_init_def enable_verify_transactions_def Let_def split: if_splits)
  have p2: "lp_num_slots p2 = nat ?n" "lp_dims p2 = (layers, conv_dim, v_heads)" "lp_group p2 = grp"
    "lp_hist p2 = nat (g_conv_kernel_dim grp - 1)" "lp_conv_dtype p2 = c_dtype config"
    "lp_rec_dtype p2 = ssm_state_dtype (c_ssm_env config)" "aux_specs p2 = []" "verify_steps p2 = nat ?k"
    "verify_state_indices p2 = (if ?k = 0 then None else Some [0])"
    "cached_initial_state_step p2 = (if deferred then Some (- 1) else None)" "deferred \<Longrightarrow> ?k \<noteq> 0"
    using assms(4,8) p1 by (auto simp: enable_deferred_verify_commits_def split: if_splits)
  define b where "b = layers * (conv_dim * (g_conv_kernel_dim grp - 1) * int (itemsize (c_dtype config))
     + v_heads * g_key_head_dim grp * g_value_head_dim grp * int (itemsize (ssm_state_dtype (c_ssm_env config))))"
  have "bytes_per_slot p2 = Inr b"
    using n p2 assms(5) by (simp add: bytes_per_slot_def b_def algebra_simps)
  moreover have "linear_state_bytes_per_req grp (c_tp_size config) (c_dtype config) (ssm_state_dtype (c_ssm_env config)) = Inr b"
    by (simp add: linear_state_bytes_per_req_def dims b_def Let_def)
  then have "state_pool_bytes config None = Inr (b * ?n + verify_tensor_bytes p2
      - (if ?k = 0 then 0 else if deferred then 8 else 4))"
    using assms(1,2,4) p2 dims
    by (auto simp: state_pool_bytes_def linear_attention_group_def verify_transaction_bytes_def
        verify_tensor_bytes_def Let_def algebra_simps)
  ultimately show ?thesis using n p2 by simp
qed

definition demo_config :: pool_config where
  "demo_config = \<lparr>c_linear_groups = [demo_group], c_model_type = ''qwen3_5'', c_hidden_size = 16,
     c_qwen4_exp_args = None, c_dtype = Bfloat16, c_ssm_env = ''Float32'', c_tp_size = 2,
     c_speculative_tokens = Some 2, c_speculative_method = Some ''mtp'', c_max_running_req = 2,
     c_cache_type = ''hybrid_radix'', c_linear_state_cache_ratio = 3\<rparr>"

theorem startup_pool_bytes_witness:
  "\<exists>p0 p1 p2 :: (int, int) pool. \<exists>b.
     pool_init demo_group 15 Bfloat16 Float32 2 = Inr p0 \<and>
     enable_verify_transactions 0 0 3 p0 = Inr p1 \<and> enable_deferred_verify_commits p1 = Inr p2 \<and>
     bytes_per_slot p2 = Inr b \<and> state_pool_bytes demo_config None = Inr (b * 15 + verify_tensor_bytes p2 - 8)"
proof -
  have c: "c_linear_groups demo_config = [demo_group]" "c_qwen4_exp_args demo_config = None"
    "0 \<le> c_max_running_req demo_config" "verify_transaction_steps demo_config = 3"
    "1 \<le> g_conv_kernel_dim demo_group" "linear_pool_num_slots demo_config = 15"
    "c_dtype demo_config = Bfloat16" "ssm_state_dtype (c_ssm_env demo_config) = Float32"
    "c_tp_size demo_config = 2"
    by (simp_all add: demo_config_def demo_group_def verify_transaction_steps_def speculative_tokens_def
        linear_pool_num_slots_def py_int_def ssm_state_dtype_def ascii_lower_def SSM_DTYPES_def Let_def)
  obtain p0 :: "(int, int) pool" where p0: "pool_init demo_group 15 Bfloat16 Float32 2 = Inr p0"
    by (simp add: pool_init_def linear_local_dims_def div_even_def demo_group_def Let_def)
  have "verify_steps p0 = 0" "lp_num_slots p0 = 15"
    using p0 by (auto simp: pool_init_def res_bind_eq_Inr Let_def)
  then obtain p1 where p1: "enable_verify_transactions 0 0 3 p0 = Inr p1" "lp_num_slots p1 = 15" "verify_steps p1 = 3"
    by (simp add: enable_verify_transactions_def)
  then obtain p2 where p2: "enable_deferred_verify_commits p1 = Inr p2" "lp_num_slots p2 = 15"
    by (simp add: enable_deferred_verify_commits_def)
  show ?thesis
    using startup_pool_bytes[of demo_config demo_group p0 0 0 p1 True p2] c p0 p1 p2 by auto
qed

end
