(* ===== verification/PrefixStore.thy ===== *)
theory PrefixStore
  imports Prelude "HOL-Library.List_Lexorder" "HOL-Library.Char_ord" "HOL-Library.Product_Lexorder"
begin

text \<open>
  The on-disk prefix store: \<open>RootQuota\<close> of \<open>runtime/checkpoint/quota.py\<close> and \<open>PrefixStore\<close> of
  \<open>runtime/checkpoint/store.py\<close>.  Several worker processes share a root directory with one
  namespace directory per identity; a process holds the lock of its own namespace, and admission
  under the root lock evicts records of namespaces nobody holds, then records of its own.  The
  file system is explicit state.  Between two steps of one process other processes may change it:
  the interference is a function \<open>env\<close> the loops take as an argument.  Statistics counters, the
  contents of records and the release of page caches are not modelled.
\<close>

section \<open>The file system\<close>

datatype store_error =
    StoreFull
  | StoreBusy
  | StoreUnavailable
  | RecordError
  | FileNotFoundError
  | OSError
  | PyError py_error

record fs_file =
  fi_name :: string
  fi_regular :: bool
  fi_size :: int
  fi_mtime :: int
  fi_inode :: nat

text \<open>An entry of the root directory.  For a directory: whether its \<open>.lock\<close> file exists, whether
  another process holds that lock, and its other entries.\<close>

record fs_dir =
  di_name :: string
  di_is_dir :: bool
  di_lock :: bool
  di_held :: bool
  di_files :: "fs_file list"

text \<open>The contents of \<open>.quota.json\<close>: absent, not of the required form, or three integers.\<close>

datatype quota_file = NoFile | Garbage | Meta int int int

record prefix_root =
  pr_entries :: "fs_dir list"
  pr_limits :: quota_file

definition hex_digit :: "char \<Rightarrow> bool" where
  "hex_digit c = (c \<in> set ''0123456789abcdef'')"

definition is_hex :: "nat \<Rightarrow> string \<Rightarrow> bool" where
  "is_hex n s = (length s = n \<and> list_all hex_digit s)"

definition HEX :: "string \<Rightarrow> bool" where
  "HEX s = is_hex 64 s"

definition TEMP :: "string \<Rightarrow> bool" where
  "TEMP s = (length s = 106 \<and> take 5 s = ''.tmp-'' \<and> is_hex 64 (take 64 (drop 5 s)) \<and>
     take 1 (drop 69 s) = ''-'' \<and> is_hex 32 (take 32 (drop 70 s)) \<and> drop 102 s = ''.pxc'')"

definition committed :: "string \<Rightarrow> bool" where
  "committed s = (length s \<ge> 4 \<and> drop (length s - 4) s = ''.pxc'' \<and> HEX (take (length s - 4) s))"

definition QUOTA_TEMP :: "string \<Rightarrow> bool" where
  "QUOTA_TEMP s = (length s = 43 \<and> take 7 s = ''.quota-'' \<and> is_hex 32 (take 32 (drop 7 s)) \<and>
     drop 39 s = ''.tmp'')"

definition MAX_SCAN_ENTRIES :: nat where "MAX_SCAN_ENTRIES = 32768"

definition is_namespace :: "fs_dir \<Rightarrow> bool" where
  "is_namespace d = (HEX (di_name d) \<and> di_is_dir d)"

text \<open>\<open>_lease\<close>: the lock file exists and nobody holds it.\<close>

definition lease :: "fs_dir \<Rightarrow> bool" where
  "lease d = (di_lock d \<and> \<not> di_held d)"

definition counted :: "fs_file \<Rightarrow> bool" where
  "counted f = (fi_regular f \<and> (TEMP (fi_name f) \<or> committed (fi_name f)))"

section \<open>Root quota\<close>

record root_usage =
  u_nbytes :: int
  u_records :: int
  u_namespaces :: int

type_synonym candidate = "int \<times> string \<times> string \<times> nat"

record scan_acc =
  sa_inspected :: nat
  sa_nbytes :: int
  sa_records :: int
  sa_namespaces :: int
  sa_victim :: "candidate option"

definition better :: "candidate \<Rightarrow> candidate option \<Rightarrow> candidate option" where
  "better c v = (case v of None \<Rightarrow> Some c | Some v \<Rightarrow> if c < v then Some c else Some v)"

fun scan_files ::
  "string \<Rightarrow> bool \<Rightarrow> fs_file list \<Rightarrow> scan_acc \<Rightarrow> fs_file list \<times> (store_error + scan_acc)" where
  "scan_files ns inactive [] acc = ([], Inr acc)"
| "scan_files ns inactive (f # fs) acc =
     (let acc = acc\<lparr>sa_inspected := Suc (sa_inspected acc)\<rparr> in
      if sa_inspected acc > MAX_SCAN_ENTRIES then (f # fs, Inl StoreFull)
      else if \<not> counted f then
        (case scan_files ns inactive fs acc of (fs', r) \<Rightarrow> (f # fs', r))
      else if TEMP (fi_name f) \<and> inactive then scan_files ns inactive fs acc
      else
        (let acc = acc\<lparr>sa_nbytes := sa_nbytes acc + fi_size f, sa_records := sa_records acc + 1,
                       sa_victim := (if inactive \<and> committed (fi_name f)
                         then better (fi_mtime f, ns, fi_name f, fi_inode f) (sa_victim acc)
                         else sa_victim acc)\<rparr>
         in case scan_files ns inactive fs acc of (fs', r) \<Rightarrow> (f # fs', r)))"

text \<open>\<open>_scan\<close>: the bound on root entries counts every entry; an empty namespace nobody holds is
  removed, and its own namespace is never inactive.  The lock file is listed before the others.\<close>

fun scan_dirs ::
  "string \<Rightarrow> nat \<Rightarrow> fs_dir list \<Rightarrow> scan_acc \<Rightarrow> fs_dir list \<times> (store_error + scan_acc)" where
  "scan_dirs own seen [] acc = ([], Inr acc)"
| "scan_dirs own seen (d # ds) acc =
     (if seen \<ge> MAX_SCAN_ENTRIES then (d # ds, Inl StoreFull)
      else if \<not> is_namespace d then
        (case scan_dirs own (Suc seen) ds acc of (ds', r) \<Rightarrow> (d # ds', r))
      else
        (let inactive = (di_name d \<noteq> own \<and> lease d) in
         if inactive \<and> di_files d = [] then scan_dirs own (Suc seen) ds acc
         else
           (let acc = acc\<lparr>sa_namespaces := sa_namespaces acc + 1,
                          sa_inspected := sa_inspected acc + (if di_lock d then 1 else 0)\<rparr> in
            if sa_inspected acc > MAX_SCAN_ENTRIES then (d # ds, Inl StoreFull)
            else case scan_files (di_name d) inactive (di_files d) acc of
              (fs, Inl e) \<Rightarrow> (d\<lparr>di_files := fs\<rparr> # ds, Inl e)
            | (fs, Inr acc) \<Rightarrow>
                (case scan_dirs own (Suc seen) ds acc of (ds', r) \<Rightarrow> (d\<lparr>di_files := fs\<rparr> # ds', r)))))"

definition scan_start :: scan_acc where
  "scan_start = \<lparr>sa_inspected = 0, sa_nbytes = 0, sa_records = 0, sa_namespaces = 0, sa_victim = None\<rparr>"

definition scan ::
  "string \<Rightarrow> prefix_root \<Rightarrow> prefix_root \<times> (store_error + root_usage \<times> candidate option)" where
  "scan own root =
     (case scan_dirs own 0 (pr_entries root) scan_start of
        (ds, Inl e) \<Rightarrow> (root\<lparr>pr_entries := ds\<rparr>, Inl e)
      | (ds, Inr acc) \<Rightarrow>
          (root\<lparr>pr_entries := ds\<rparr>,
           Inr (\<lparr>u_nbytes = sa_nbytes acc, u_records = sa_records acc,
                u_namespaces = sa_namespaces acc\<rparr>, sa_victim acc)))"

definition find_dir :: "string \<Rightarrow> prefix_root \<Rightarrow> fs_dir option" where
  "find_dir ns root = find (\<lambda>d. di_name d = ns \<and> di_is_dir d) (pr_entries root)"

definition find_file :: "string \<Rightarrow> string \<Rightarrow> prefix_root \<Rightarrow> fs_file option" where
  "find_file ns name root =
     (case find_dir ns root of None \<Rightarrow> None
      | Some d \<Rightarrow> find (\<lambda>f. fi_name f = name) (di_files d))"

fun update_entries :: "string \<Rightarrow> (fs_file list \<Rightarrow> fs_file list) \<Rightarrow> fs_dir list \<Rightarrow> fs_dir list" where
  "update_entries ns g [] = []"
| "update_entries ns g (d # ds) =
     (if di_name d = ns \<and> di_is_dir d then d\<lparr>di_files := g (di_files d)\<rparr> # ds
      else d # update_entries ns g ds)"

definition update_dir :: "string \<Rightarrow> (fs_file list \<Rightarrow> fs_file list) \<Rightarrow> prefix_root \<Rightarrow> prefix_root" where
  "update_dir ns g root = root\<lparr>pr_entries := update_entries ns g (pr_entries root)\<rparr>"

definition unlink :: "string \<Rightarrow> string \<Rightarrow> prefix_root \<Rightarrow> prefix_root" where
  "unlink ns name root = update_dir ns (filter (\<lambda>f. fi_name f \<noteq> name)) root"

definition unlink_victim ::
  "(string \<Rightarrow> bool) \<Rightarrow> candidate \<Rightarrow> prefix_root \<Rightarrow> prefix_root \<times> (store_error + unit)" where
  "unlink_victim fails victim root =
     (case victim of (mtime, ns, name, inode) \<Rightarrow>
        (case find_dir ns root of
           None \<Rightarrow> (root, Inl StoreBusy)
         | Some d \<Rightarrow>
             if \<not> lease d then (root, Inl StoreBusy)
             else (case find_file ns name root of
                     None \<Rightarrow> (root, Inl FileNotFoundError)
                   | Some f \<Rightarrow>
                       if fi_inode f \<noteq> inode then (root, Inl StoreBusy)
                       else if fails name then (root, Inl OSError)
                       else (unlink ns name root, Inr ()))))"

section \<open>The store\<close>

record disk_entry =
  de_key :: string
  de_consumed :: int
  de_nbytes :: int

record prefix_store =
  st_namespace :: string
  st_quota_bytes :: int
  st_max_records :: int
  st_max_record_bytes :: int
  st_entries :: "disk_entry list"
  st_pins :: "string \<Rightarrow> nat"
  st_bytes :: int
  st_reserved_bytes :: int
  st_failed :: bool
  st_closed :: bool

definition record_name :: "string \<Rightarrow> string" where
  "record_name key = key @ ''.pxc''"

text \<open>\<open>_evict_one\<close>: a victim that cannot be unlinked, because its file is gone or the system refuses,
  goes back to the end of the index.  \<open>fails\<close> tells of which file names the removal fails.\<close>

definition evict_one ::
  "(string \<Rightarrow> bool) \<Rightarrow> prefix_store \<Rightarrow> prefix_root \<Rightarrow> prefix_store \<times> prefix_root \<times> (store_error + bool)" where
  "evict_one fails st root =
     (case find (\<lambda>e. st_pins st (de_key e) = 0) (st_entries st) of
        None \<Rightarrow> (st, root, Inr False)
      | Some victim \<Rightarrow>
          let st1 = st\<lparr>st_entries := filter (\<lambda>e. de_key e \<noteq> de_key victim) (st_entries st),
                       st_bytes := st_bytes st - de_nbytes victim\<rparr>;
              gone = (find_file (st_namespace st) (record_name (de_key victim)) root = None) in
          if gone \<or> fails (record_name (de_key victim)) then
            (st1\<lparr>st_entries := st_entries st1 @ [victim], st_bytes := st_bytes st1 + de_nbytes victim\<rparr>, root,
             Inl (if gone then FileNotFoundError else OSError))
          else (st1, unlink (st_namespace st) (record_name (de_key victim)) root, Inr True))"

definition usage_fits :: "prefix_store \<Rightarrow> int \<Rightarrow> int \<Rightarrow> int \<Rightarrow> root_usage \<Rightarrow> bool" where
  "usage_fits st added_bytes added_records added_namespaces usage =
     (u_nbytes usage + added_bytes \<le> st_quota_bytes st \<and>
      u_records usage + added_records \<le> st_max_records st \<and>
      u_namespaces usage + added_namespaces \<le> st_max_records st + 1)"

fun enforce_loop ::
  "(string \<Rightarrow> bool) \<Rightarrow> (nat \<Rightarrow> prefix_root \<Rightarrow> prefix_root) \<Rightarrow> int \<Rightarrow> int \<Rightarrow> int \<Rightarrow> nat \<Rightarrow> prefix_store \<Rightarrow> prefix_root \<Rightarrow>
   prefix_store \<times> prefix_root \<times> (store_error + root_usage)" where
  "enforce_loop fails env ab ar an 0 st root = (st, root, Inl (PyError OutOfFuel))"
| "enforce_loop fails env ab ar an (Suc fuel) st root =
     (case scan (st_namespace st) root of
        (root1, Inl e) \<Rightarrow> (st, root1, Inl e)
      | (root1, Inr (usage, victim)) \<Rightarrow>
          if usage_fits st ab ar an usage then (st, root1, Inr usage)
          else
            (let root2 = env fuel root1 in
             case victim of
               Some v \<Rightarrow>
                 (case unlink_victim fails v root2 of
                    (root3, Inl e) \<Rightarrow> (st, root3, Inl e)
                  | (root3, Inr _) \<Rightarrow> enforce_loop fails env ab ar an fuel st root3)
             | None \<Rightarrow>
                 (case evict_one fails st root2 of
                    (st3, root3, Inl e) \<Rightarrow> (st3, root3, Inl e)
                  | (st3, root3, Inr evicted) \<Rightarrow>
                      if evicted then enforce_loop fails env ab ar an fuel st3 root3
                      else (st3, root3, Inl StoreFull))))"

definition total_files :: "prefix_root \<Rightarrow> nat" where
  "total_files root = (\<Sum>d\<leftarrow>pr_entries root. length (di_files d))"

text \<open>\<open>enforce\<close> with one round per file and a last one: every round that goes on has removed a
  file.\<close>

definition enforce ::
  "(string \<Rightarrow> bool) \<Rightarrow> (nat \<Rightarrow> prefix_root \<Rightarrow> prefix_root) \<Rightarrow> int \<Rightarrow> int \<Rightarrow> int \<Rightarrow> prefix_store \<Rightarrow> prefix_root \<Rightarrow>
   prefix_store \<times> prefix_root \<times> (store_error + root_usage)" where
  "enforce fails env ab ar an st root =
     (if ab > st_quota_bytes st \<or> ar > st_max_records st then (st, root, Inl StoreFull)
      else enforce_loop fails env ab ar an (Suc (total_files root)) st root)"

fun make_room_loop ::
  "(string \<Rightarrow> bool) \<Rightarrow> nat \<Rightarrow> int \<Rightarrow> prefix_store \<Rightarrow> prefix_root \<Rightarrow> prefix_store \<times> prefix_root \<times> (store_error + unit)" where
  "make_room_loop fails 0 nbytes st root = (st, root, Inl (PyError OutOfFuel))"
| "make_room_loop fails (Suc fuel) nbytes st root =
     (if st_bytes st + st_reserved_bytes st + nbytes > st_quota_bytes st \<or>
         int (length (st_entries st)) \<ge> st_max_records st then
        (case evict_one fails st root of
           (st1, root1, Inl e) \<Rightarrow> (st1, root1, Inl e)
         | (st1, root1, Inr evicted) \<Rightarrow>
             if evicted then make_room_loop fails fuel nbytes st1 root1 else (st1, root1, Inl StoreFull))
      else (st, root, Inr ()))"

definition make_room ::
  "(string \<Rightarrow> bool) \<Rightarrow> int \<Rightarrow> prefix_store \<Rightarrow> prefix_root \<Rightarrow> prefix_store \<times> prefix_root \<times> (store_error + unit)" where
  "make_room fails nbytes st root =
     (if nbytes > st_quota_bytes st then (st, root, Inl StoreFull)
      else make_room_loop fails (Suc (length (st_entries st))) nbytes st root)"

section \<open>Limits of the root\<close>

definition target_limits :: "prefix_store \<Rightarrow> quota_file" where
  "target_limits st = Meta 1 (st_quota_bytes st) (st_max_records st)"

text \<open>\<open>check_limits\<close> removes the temporary files an interrupted update left behind; the scan
  stops at the entry beyond the bound.\<close>

fun sweep_quota_temps :: "nat \<Rightarrow> fs_dir list \<Rightarrow> fs_dir list \<times> (store_error + unit)" where
  "sweep_quota_temps seen [] = ([], Inr ())"
| "sweep_quota_temps seen (d # ds) =
     (if seen \<ge> MAX_SCAN_ENTRIES then (d # ds, Inl StoreFull)
      else (case sweep_quota_temps (Suc seen) ds of (ds', r) \<Rightarrow>
        (if \<not> di_is_dir d \<and> QUOTA_TEMP (di_name d) then ds' else d # ds', r)))"

definition read_limits :: "prefix_root \<Rightarrow> (store_error + quota_file)" where
  "read_limits root =
     (case pr_limits root of
        NoFile \<Rightarrow> Inr NoFile
      | Garbage \<Rightarrow> Inl RecordError
      | Meta v b r \<Rightarrow>
          if v \<noteq> 1 \<or> \<not> (1 \<le> b \<and> b \<le> 2 ^ 50) \<or> \<not> (1 \<le> r \<and> r \<le> 4096) then Inl RecordError
          else Inr (Meta v b r))"

fun all_inactive :: "string \<Rightarrow> nat \<Rightarrow> fs_dir list \<Rightarrow> store_error + unit" where
  "all_inactive own seen [] = Inr ()"
| "all_inactive own seen (d # ds) =
     (if seen \<ge> MAX_SCAN_ENTRIES then Inl StoreFull
      else if is_namespace d \<and> di_name d \<noteq> own \<and> \<not> lease d then Inl StoreBusy
      else all_inactive own (Suc seen) ds)"

definition check_limits ::
  "bool \<Rightarrow> prefix_store \<Rightarrow> prefix_root \<Rightarrow> prefix_root \<times> (store_error + quota_file)" where
  "check_limits allow_update st root =
     (case read_limits root of
        Inl e \<Rightarrow> (root, Inl e)
      | Inr limits \<Rightarrow>
          (case sweep_quota_temps 0 (pr_entries root) of
             (ds, Inl e) \<Rightarrow> (root\<lparr>pr_entries := ds\<rparr>, Inl e)
           | (ds, Inr _) \<Rightarrow>
               (let root1 = root\<lparr>pr_entries := ds\<rparr> in
                if limits = target_limits st then (root1, Inr limits)
                else if \<not> allow_update then (root1, Inl StoreBusy)
                else (case all_inactive (st_namespace st) 0 (pr_entries root1) of
                        Inl e \<Rightarrow> (root1, Inl e)
                      | Inr _ \<Rightarrow> (root1, Inr limits)))))"

datatype fault_point = NoFault | BeforeCreate | BeforeReplace | AfterReplace

text \<open>\<open>commit_limits\<close> replaces the file atomically: a failure before the rename leaves the old one, a
  failure to sync the directory leaves the new one.\<close>

definition commit_limits :: "fault_point \<Rightarrow> quota_file \<Rightarrow> prefix_store \<Rightarrow> prefix_root \<Rightarrow> prefix_root \<times> (store_error + unit)" where
  "commit_limits fault limits st root =
     (if limits = target_limits st then (root, Inr ())
      else if fault \<in> {BeforeCreate, BeforeReplace} then (root, Inl OSError)
      else (root\<lparr>pr_limits := target_limits st\<rparr>, if fault = AfterReplace then Inl OSError else Inr ()))"

section \<open>Publication\<close>

definition pin :: "string \<Rightarrow> prefix_store \<Rightarrow> prefix_store \<times> bool" where
  "pin key st =
     (if key \<notin> de_key ` set (st_entries st) \<or> st_closed st \<or> st_failed st then (st, False)
      else (st\<lparr>st_pins := (st_pins st)(key := Suc (st_pins st key))\<rparr>, True))"

definition unpin :: "string \<Rightarrow> prefix_store \<Rightarrow> store_error + prefix_store" where
  "unpin key st =
     (if st_pins st key = 0 then Inl (PyError AssertionError)
      else Inr (st\<lparr>st_pins := (st_pins st)(key := st_pins st key - 1)\<rparr>))"

definition move_to_end :: "string \<Rightarrow> prefix_store \<Rightarrow> prefix_store" where
  "move_to_end key st =
     st\<lparr>st_entries := filter (\<lambda>e. de_key e \<noteq> key) (st_entries st) @
                     filter (\<lambda>e. de_key e = key) (st_entries st)\<rparr>"

text \<open>
  What publication takes from its source: the key, the number of tokens, the predicted size and
  the size \<open>write_record\<close> writes, and whether its compatibility is the store's.  \<open>io_writer_busy\<close> and
  \<open>io_root_busy\<close> say that another thread has the writer lock or another process the root lock,
  \<open>io_unlink_fails\<close> which files an eviction cannot remove, \<open>io_fault\<close> where an input/output error of the
  publication strikes, if any, and \<open>io_cleanup\<close> which of the two removals of the handler fails, if
  any; inode, time stamp and the random part of the temporary name come from the system.
\<close>

record record_source =
  rs_compatible :: bool
  rs_key :: string
  rs_tokens :: int
  rs_predicted :: int
  rs_actual :: int

datatype cleanup_point = CleanupWorks | FinalFails | TempFails

record io_world =
  io_writer_busy :: bool
  io_root_busy :: bool
  io_unlink_fails :: "string \<Rightarrow> bool"
  io_fault :: fault_point
  io_cleanup :: cleanup_point
  io_uuid :: string
  io_inode :: nat
  io_mtime :: int

definition temp_name :: "string \<Rightarrow> io_world \<Rightarrow> string" where
  "temp_name key w = ''.tmp-'' @ key @ ''-'' @ io_uuid w @ ''.pxc''"

definition new_file :: "string \<Rightarrow> int \<Rightarrow> io_world \<Rightarrow> fs_file" where
  "new_file name nbytes w =
     \<lparr>fi_name = name, fi_regular = True, fi_size = nbytes, fi_mtime = io_mtime w, fi_inode = io_inode w\<rparr>"

text \<open>Creating a file, and renaming over whatever had the final name.\<close>

definition create_file :: "string \<Rightarrow> fs_file \<Rightarrow> prefix_root \<Rightarrow> prefix_root" where
  "create_file ns f root = update_dir ns (\<lambda>fs. fs @ [f]) root"

definition replace_file :: "string \<Rightarrow> string \<Rightarrow> fs_file \<Rightarrow> prefix_root \<Rightarrow> prefix_root" where
  "replace_file ns temp f root =
     update_dir ns (\<lambda>fs. filter (\<lambda>g. fi_name g \<noteq> temp \<and> fi_name g \<noteq> fi_name f) fs @ [f]) root"

text \<open>The \<open>try\<close> block of \<open>_write_owned\<close>: the file system after it, and whether the exception handler
  runs and finds the record renamed.\<close>

definition publish_file ::
  "io_world \<Rightarrow> record_source \<Rightarrow> string \<Rightarrow> prefix_root \<Rightarrow> prefix_root \<times> (store_error \<times> bool) option" where
  "publish_file w src ns root =
     (let temp = new_file (temp_name (rs_key src) w) (rs_actual src) w;
          final = new_file (record_name (rs_key src)) (rs_actual src) w in
      if io_fault w = BeforeCreate \<or> find_file ns (fi_name temp) root \<noteq> None then (root, Some (OSError, False))
      else
        (let root1 = create_file ns temp root in
         if rs_actual src \<noteq> rs_predicted src then (root1, Some (PyError AssertionError, False))
         else if io_fault w = BeforeReplace then (root1, Some (OSError, False))
         else
           (let root2 = replace_file ns (temp_name (rs_key src) w) final root1 in
            if io_fault w = AfterReplace then (root2, Some (OSError, True)) else (root2, None))))"

definition write_owned ::
  "(nat \<Rightarrow> prefix_root \<Rightarrow> prefix_root) \<Rightarrow> io_world \<Rightarrow> record_source \<Rightarrow> prefix_store \<Rightarrow> prefix_root \<Rightarrow>
   prefix_store \<times> prefix_root \<times> (store_error + disk_entry)" where
  "write_owned env w src st root =
     (if st_closed st \<or> st_failed st then (st, root, Inl StoreUnavailable)
      else if \<not> rs_compatible src then (st, root, Inl RecordError)
      else case find (\<lambda>e. de_key e = rs_key src) (st_entries st) of
        Some e \<Rightarrow> (move_to_end (rs_key src) st, root, Inr e)
      | None \<Rightarrow>
          if rs_predicted src > st_max_record_bytes st then (st, root, Inl StoreFull)
          else case make_room (io_unlink_fails w) (rs_predicted src) st root of
            (st1, root1, Inl e) \<Rightarrow> (st1, root1, Inl e)
          | (st1, root1, Inr _) \<Rightarrow>
              (case enforce (io_unlink_fails w) env (rs_predicted src) 1 0 st1 root1 of
                 (st2, root2, Inl e) \<Rightarrow> (st2, root2, Inl e)
               | (st2, root2, Inr _) \<Rightarrow>
                   (case publish_file w src (st_namespace st2) root2 of
                      (root3, None) \<Rightarrow>
                        (let e = \<lparr>de_key = rs_key src, de_consumed = rs_tokens src,
                                  de_nbytes = rs_actual src\<rparr> in
                         (st2\<lparr>st_entries := st_entries st2 @ [e],
                              st_bytes := st_bytes st2 + rs_actual src, st_reserved_bytes := 0\<rparr>,
                          root3, Inr e))
                    | (root3, Some (err, renamed)) \<Rightarrow>
                        if renamed \<and> io_cleanup w = FinalFails then
                          (st2\<lparr>st_failed := True, st_reserved_bytes := 0\<rparr>, root3, Inl err)
                        else
                          (let root4 = (if renamed then unlink (st_namespace st2) (record_name (rs_key src)) root3
                                        else root3) in
                           if io_cleanup w = TempFails then
                             (st2\<lparr>st_failed := True, st_reserved_bytes := 0\<rparr>, root4, Inl err)
                           else
                             (st2\<lparr>st_reserved_bytes := 0\<rparr>,
                              unlink (st_namespace st2) (temp_name (rs_key src) w) root4, Inl err)))))"

text \<open>\<open>write\<close>: the store's own writer lock, then the lock of the root, neither of them waited for.\<close>

definition store_write ::
  "(nat \<Rightarrow> prefix_root \<Rightarrow> prefix_root) \<Rightarrow> io_world \<Rightarrow> record_source \<Rightarrow> prefix_store \<Rightarrow> prefix_root \<Rightarrow>
   prefix_store \<times> prefix_root \<times> (store_error + disk_entry)" where
  "store_write env w src st root =
     (if io_writer_busy w \<or> io_root_busy w then (st, root, Inl StoreBusy)
      else case check_limits False st root of
        (root1, Inl e) \<Rightarrow> (st, root1, Inl e)
      | (root1, Inr _) \<Rightarrow> write_owned env w src st root1)"

section \<open>Termination of eviction\<close>

lemma total_update:
  assumes "find_dir ns root = Some d"
  shows "total_files (update_dir ns g root) + length (di_files d) = total_files root + length (g (di_files d))"
proof -
  have "find (\<lambda>d. di_name d = ns \<and> di_is_dir d) ds = Some d \<Longrightarrow>
      (\<Sum>d\<leftarrow>update_entries ns g ds. length (di_files d)) + length (di_files d) =
      (\<Sum>d\<leftarrow>ds. length (di_files d)) + length (g (di_files d))" for ds
    by (induction ds) (auto split: if_splits)
  then show ?thesis using assms by (simp add: find_dir_def total_files_def update_dir_def)
qed

lemma unlink_total:
  assumes "find_file ns name root = Some f"
  shows "total_files (unlink ns name root) < total_files root"
proof -
  obtain d where d: "find_dir ns root = Some d" "find (\<lambda>f. fi_name f = name) (di_files d) = Some f"
    using assms by (auto simp: find_file_def split: option.splits)
  then have "f \<in> set (di_files d)" "fi_name f = name" by (auto simp: find_Some_iff)
  then have "length (filter (\<lambda>f. fi_name f \<noteq> name) (di_files d)) < length (di_files d)"
    by (intro length_filter_less[of f]) auto
  then show ?thesis using total_update[OF d(1), of "filter (\<lambda>f. fi_name f \<noteq> name)"] by (simp add: unlink_def)
qed

lemma scan_files_length: "length (fst (scan_files ns inactive fs acc)) \<le> length fs"
proof (induction fs arbitrary: acc)
  case (Cons f fs)
  have "length (fst (scan_files ns inactive fs a)) \<le> Suc (length fs)" for a
    using Cons[of a] by simp
  then show ?case using Cons by (auto simp: Let_def split_def)
qed simp

lemma scan_dirs_total:
  "(\<Sum>d\<leftarrow>fst (scan_dirs own n ds acc). length (di_files d)) \<le> (\<Sum>d\<leftarrow>ds. length (di_files d))"
proof (induction ds arbitrary: n acc)
  case (Cons d ds)
  let ?m = "\<lambda>ds. \<Sum>d\<leftarrow>ds. length (di_files d)"
  have le: "?m (fst (scan_dirs own k ds a)) \<le> length (di_files d) + ?m ds" for k a
    using Cons[of k a] by simp
  have step: "length (fst (scan_files x y (di_files d) a)) + ?m (fst (scan_dirs own k ds b)) \<le> length (di_files d) + ?m ds"
    for x y a k b using scan_files_length[of x y "di_files d" a] Cons[of k b] by (rule add_mono)
  have step': "length (fst (scan_files x y (di_files d) a)) + ?m ds \<le> length (di_files d) + ?m ds"
    for x y a using scan_files_length[of x y "di_files d" a] by simp
  show ?case
    using le step step' Cons
    by (auto simp: Let_def split_def split: sum.split)
qed simp

lemma scan_total: "total_files (fst (scan own root)) \<le> total_files root"
  using scan_dirs_total[of own 0 "pr_entries root" scan_start]
  by (auto simp: scan_def total_files_def split: prod.split sum.split)

lemma scan_error: "scan own root = (root1, Inl e) \<Longrightarrow> e = StoreFull"
proof -
  have files: "snd (scan_files ns inactive fs acc) = Inl e \<Longrightarrow> e = StoreFull" for ns inactive fs acc e
    by (induction fs arbitrary: acc) (auto simp: Let_def split_def split: if_splits)
  have "snd (scan_dirs own n ds acc) = Inl e \<Longrightarrow> e = StoreFull" for n ds acc e
  proof (induction ds arbitrary: n acc)
    case (Cons d ds)
    then show ?case
      using files by (auto simp: Let_def split_def split: if_splits sum.splits)
  qed simp
  then show "scan own root = (root1, Inl e) \<Longrightarrow> e = StoreFull"
    by (auto simp: scan_def split: prod.splits sum.splits) (metis snd_conv)
qed

lemma unlink_victim_total:
  assumes "unlink_victim fails v root = (root', r)"
  shows "r = Inr () \<Longrightarrow> total_files root' < total_files root" and "r \<noteq> Inl (PyError OutOfFuel)"
  using assms unlink_total
  by (auto simp: unlink_victim_def split: prod.splits option.splits if_splits)

lemma evict_one_total:
  assumes "evict_one fails st root = (st', root', r)"
  shows "r = Inr True \<Longrightarrow> total_files root' < total_files root" and "r \<noteq> Inl (PyError OutOfFuel)"
    and "st_quota_bytes st' = st_quota_bytes st" "st_max_records st' = st_max_records st"
    "st_namespace st' = st_namespace st"
  using assms unlink_total
  by (auto simp: evict_one_def Let_def split: option.splits if_splits)

lemma enforce_loop_ends:
  assumes "\<And>i r. total_files (env i r) \<le> total_files r" and "total_files root < fuel"
  shows "case snd (snd (enforce_loop fails env ab ar an fuel st root)) of
      Inl e \<Rightarrow> e \<noteq> PyError OutOfFuel | Inr usage \<Rightarrow> usage_fits st ab ar an usage"
  using assms(2)
proof (induction fuel arbitrary: st root)
  case (Suc fuel)
  have fits: "usage_fits st' ab ar an u = usage_fits st ab ar an u"
    if "st_quota_bytes st' = st_quota_bytes st" "st_max_records st' = st_max_records st" for st' u
    using that by (simp add: usage_fits_def)
  obtain root1 r1 where scan: "scan (st_namespace st) root = (root1, r1)" by fastforce
  have root1: "total_files root1 \<le> total_files root" using scan_total[of "st_namespace st" root] scan by simp
  show ?case
  proof (cases r1)
    case (Inl e)
    then show ?thesis using scan scan_error[of "st_namespace st" root root1 e] by simp
  next
    case (Inr uv)
    obtain usage victim where uv: "uv = (usage, victim)" by fastforce
    show ?thesis
    proof (cases "usage_fits st ab ar an usage")
      case True
      then show ?thesis using scan Inr uv by simp
    next
      case no: False
      have root2: "total_files (env fuel root1) \<le> fuel" using assms(1)[of fuel root1] root1 Suc.prems by linarith
      show ?thesis
      proof (cases victim)
        case None
        obtain st3 root3 r3 where ev: "evict_one fails st (env fuel root1) = (st3, root3, r3)" by (metis prod_cases3)
        show ?thesis
        proof (cases "r3 = Inr True")
          case True
          have "total_files root3 < fuel" using evict_one_total(1)[OF ev True] root2 by linarith
          from Suc.IH[OF this, of st3] show ?thesis
            using scan Inr uv no None ev True fits[of st3] evict_one_total(3,4)[OF ev]
            by (simp split: sum.split_asm sum.split)
        next
          case False
          then show ?thesis
            using scan Inr uv no None ev evict_one_total(2)[OF ev] by (cases r3) auto
        qed
      next
        case (Some v)
        obtain root3 r3 where un: "unlink_victim fails v (env fuel root1) = (root3, r3)" by fastforce
        show ?thesis
        proof (cases r3)
          case (Inl e)
          then show ?thesis
            using scan \<open>r1 = Inr uv\<close> uv no Some un unlink_victim_total(2)[OF un] by simp
        next
          case (Inr u)
          then have "total_files root3 < fuel" using unlink_victim_total(1)[OF un] root2 by simp
          from Suc.IH[OF this, of st] show ?thesis
            using scan \<open>r1 = Inr uv\<close> uv no Some un Inr by simp
        qed
      qed
    qed
  qed
qed simp

subsection \<open>Namespaces other processes hold\<close>

lemma scan_files_active [simp]: "fst (scan_files ns False fs acc) = fs"
  by (induction fs arbitrary: acc) (auto simp: Let_def split_def)

lemma scan_dirs_active:
  assumes inactive: "(di_name x \<noteq> own \<and> lease x) = False"
  shows "\<exists>a. fst (scan_dirs own n (x # ds) acc) = x # a"
  unfolding scan_dirs.simps inactive Let_def split_def
  by (auto simp: scan_files_active split: sum.split)

lemma scan_dirs_keep:
  "find (\<lambda>d. di_name d = p \<and> di_is_dir d) ds = Some d \<Longrightarrow> p = own \<or> \<not> lease d \<Longrightarrow>
   find (\<lambda>d. di_name d = p \<and> di_is_dir d) (fst (scan_dirs own n ds acc)) = Some d"
proof (induction ds arbitrary: n acc)
  case (Cons x ds)
  show ?case
  proof (cases "di_name x = p \<and> di_is_dir x")
    case True
    then have d: "x = d" "\<not> (di_name x \<noteq> own \<and> lease x)" using Cons.prems by auto
    have inactive: "(di_name x \<noteq> own \<and> lease x) = False" using d by simp
    then obtain a where "fst (scan_dirs own n (x # ds) acc) = x # a"
      using scan_dirs_active by blast
    then show ?thesis using True d(1) by simp
  next
    case False
    let ?P = "\<lambda>d. di_name d = p \<and> di_is_dir d"
    have rest: "find ?P ds = Some d" using Cons.prems(1) False by simp
    have IH: "find ?P (fst (scan_dirs own k ds a)) = Some d" for k a
      using Cons.IH[OF rest Cons.prems(2)] .
    have skip: "find ?P (x\<lparr>di_files := fs\<rparr> # l) = find ?P l" for fs l using False by auto
    have skip0: "find ?P (x # l) = find ?P l" for l using False by auto
    show ?thesis
      unfolding scan_dirs.simps Let_def split_def
      by (simp add: IH rest skip skip0 del: find.simps split: sum.split)
  qed
qed simp

lemma scan_keep:
  assumes "find_dir p root = Some d" "p = own \<or> \<not> lease d"
  shows "find_dir p (fst (scan own root)) = Some d"
  using scan_dirs_keep[of p "pr_entries root" d own 0 scan_start] assms
  by (auto simp: find_dir_def scan_def split: prod.split sum.split)

lemma find_update:
  "find_dir p (update_dir ns g root) =
   (if p = ns then map_option (\<lambda>d. d\<lparr>di_files := g (di_files d)\<rparr>) (find_dir ns root) else find_dir p root)"
proof -
  have "find (\<lambda>d. di_name d = p \<and> di_is_dir d) (update_entries ns g ds) =
     (if p = ns then map_option (\<lambda>d. d\<lparr>di_files := g (di_files d)\<rparr>) (find (\<lambda>d. di_name d = ns \<and> di_is_dir d) ds)
      else find (\<lambda>d. di_name d = p \<and> di_is_dir d) ds)" for ds
    by (induction ds) auto
  then show ?thesis by (simp add: find_dir_def update_dir_def)
qed

lemma enforce_loop_inv:
  assumes scan: "\<And>st root. I st root \<Longrightarrow> I st (fst (scan (st_namespace st) root))"
    and env: "\<And>st root i. I st root \<Longrightarrow> I st (env i root)"
    and victim: "\<And>st root v. I st root \<Longrightarrow> I st (fst (unlink_victim fails v root))"
    and evict: "\<And>st root st' root' r. I st root \<Longrightarrow> evict_one fails st root = (st', root', r) \<Longrightarrow> I st' root'"
    and start: "I st root"
    and res: "enforce_loop fails env ab ar an fuel st root = (st', root', r)"
  shows "I st' root'"
  using start res
proof (induction fuel arbitrary: st root)
  case (Suc fuel)
  obtain root1 r1 where s: "scan (st_namespace st) root = (root1, r1)" by fastforce
  have i1: "I st root1" using scan[OF Suc.prems(1)] s by simp
  show ?case
  proof (cases r1)
    case (Inl e)
    then show ?thesis using Suc.prems(2) s i1 by simp
  next
    case (Inr uv)
    obtain usage v where uv: "uv = (usage, v)" by fastforce
    show ?thesis
    proof (cases "usage_fits st ab ar an usage")
      case True
      then show ?thesis using Suc.prems(2) s i1 Inr uv by simp
    next
      case no: False
      have i2: "I st (env fuel root1)" using env[OF i1] .
      show ?thesis
      proof (cases v)
        case None
        obtain st3 root3 r3 where ev: "evict_one fails st (env fuel root1) = (st3, root3, r3)" by (metis prod_cases3)
        have i3: "I st3 root3" using evict[OF i2 ev] .
        show ?thesis
        proof (cases "r3 = Inr True")
          case True
          then show ?thesis using Suc.IH[OF i3] Suc.prems(2) s Inr uv no None ev by simp
        next
          case False
          then show ?thesis using i3 Suc.prems(2) s Inr uv no None ev by (cases r3) auto
        qed
      next
        case (Some c)
        obtain root3 r3 where un: "unlink_victim fails c (env fuel root1) = (root3, r3)" by fastforce
        have i3: "I st root3" using victim[OF i2, of c] un by simp
        then show ?thesis using Suc.IH[OF i3] Suc.prems(2) s \<open>r1 = Inr uv\<close> uv no Some un by (cases r3) auto
      qed
    qed
  qed
qed simp

lemma unlink_victim_keep:
  assumes "find_dir p root = Some d" "\<not> lease d"
  shows "find_dir p (fst (unlink_victim fails v root)) = Some d"
proof (cases v)
  case (fields m ns name ino)
  then show ?thesis
    using assms by (auto simp: unlink_victim_def unlink_def find_update split: option.split)
qed

lemma evict_one_root:
  "evict_one fails st root = (st', root', r) \<Longrightarrow> p \<noteq> st_namespace st \<Longrightarrow> find_dir p root' = find_dir p root"
  by (auto simp: evict_one_def Let_def unlink_def find_update split: option.splits if_splits)

lemma enforce_loop_protects:
  assumes "\<And>i r. find_dir p (env i r) = find_dir p r" and "p \<noteq> st_namespace st"
    and "find_dir p root = Some d" "di_held d" and "enforce_loop fails env ab ar an fuel st root = (st', root', r)"
  shows "find_dir p root' = Some d"
proof -
  let ?I = "\<lambda>st root. st_namespace st \<noteq> p \<and> find_dir p root = Some d"
  have d: "\<not> lease d" using assms(4) by (simp add: lease_def)
  have "?I st' root'"
  proof (rule enforce_loop_inv[of ?I, OF _ _ _ _ _ assms(5)])
    show "?I st (fst (scan (st_namespace st) root))" if "?I st root" for st root
      using that scan_keep d by blast
    show "?I st (env i root)" if "?I st root" for st root i using that assms(1) by simp
    show "?I st (fst (unlink_victim fails v root))" if "?I st root" for st root v
      using that unlink_victim_keep d by blast
    show "?I st' root'" if "?I st root" "evict_one fails st root = (st', root', r)" for st root st' root' r
      using that evict_one_root[OF that(2), of p] evict_one_total(5)[OF that(2)] by auto
  qed (use assms in auto)
  then show ?thesis by simp
qed

section \<open>The store and its directory agree\<close>

definition index_ok :: "prefix_store \<Rightarrow> bool" where
  "index_ok st \<longleftrightarrow>
     distinct (map de_key (st_entries st)) \<and> st_bytes st = (\<Sum>e\<leftarrow>st_entries st. de_nbytes e) \<and>
     st_reserved_bytes st = 0 \<and> st_bytes st \<le> st_quota_bytes st \<and>
     int (length (st_entries st)) \<le> st_max_records st \<and>
     (\<forall>e\<in>set (st_entries st). 0 \<le> de_nbytes e \<and> HEX (de_key e))"

definition files_ok :: "disk_entry list \<Rightarrow> fs_file list \<Rightarrow> bool" where
  "files_ok es fs \<longleftrightarrow>
     distinct (map fi_name fs) \<and> (\<forall>f\<in>set fs. \<not> TEMP (fi_name f)) \<and>
     (\<forall>f\<in>set fs. committed (fi_name f) \<longrightarrow> fi_regular f) \<and>
     (\<lambda>f. (fi_name f, fi_size f)) ` {f \<in> set fs. committed (fi_name f)} =
     (\<lambda>e. (record_name (de_key e), de_nbytes e)) ` set es"

definition disk_ok :: "prefix_store \<Rightarrow> prefix_root \<Rightarrow> bool" where
  "disk_ok st root \<longleftrightarrow>
     (case find_dir (st_namespace st) root of None \<Rightarrow> False
      | Some d \<Rightarrow> di_held d \<and> files_ok (st_entries st) (di_files d))"

definition store_ok :: "prefix_store \<Rightarrow> prefix_root \<Rightarrow> bool" where
  "store_ok st root \<longleftrightarrow>
     HEX (st_namespace st) \<and> index_ok st \<and> (\<not> st_failed st \<longrightarrow> disk_ok st root)"

lemma record_name_eq [simp]: "record_name a = record_name b \<longleftrightarrow> a = b"
  by (simp add: record_name_def)

lemma committed_record [simp]: "committed (record_name key) = HEX key"
  by (simp add: committed_def record_name_def)

lemma TEMP_temp_name:
  assumes "HEX key" "is_hex 32 (io_uuid w)"
  shows "TEMP (temp_name key w)"
  using assms by (simp add: TEMP_def temp_name_def HEX_def is_hex_def numeral_eq_Suc)

lemma TEMP_not_record: "HEX key \<Longrightarrow> \<not> TEMP (record_name key)"
  by (simp add: TEMP_def record_name_def HEX_def is_hex_def)

lemma files_ok_remove:
  assumes "files_ok es fs" and "distinct (map de_key es)"
  shows "files_ok (filter (\<lambda>e. de_key e \<noteq> k) es) (filter (\<lambda>f. fi_name f \<noteq> record_name k) fs)"
proof -
  let ?A = "(\<lambda>f. (fi_name f, fi_size f)) ` {f \<in> set fs. committed (fi_name f)}"
  let ?B = "(\<lambda>e. (record_name (de_key e), de_nbytes e)) ` set es"
  have "(\<lambda>f. (fi_name f, fi_size f)) ` {f \<in> set (filter (\<lambda>f. fi_name f \<noteq> record_name k) fs). committed (fi_name f)}
      = {x \<in> ?A. fst x \<noteq> record_name k}" by auto
  moreover have "(\<lambda>e. (record_name (de_key e), de_nbytes e)) ` set (filter (\<lambda>e. de_key e \<noteq> k) es)
      = {x \<in> ?B. fst x \<noteq> record_name k}" by auto
  moreover have "?A = ?B" using assms(1) by (simp add: files_ok_def)
  ultimately have "(\<lambda>f. (fi_name f, fi_size f)) ` {f \<in> set (filter (\<lambda>f. fi_name f \<noteq> record_name k) fs). committed (fi_name f)}
      = (\<lambda>e. (record_name (de_key e), de_nbytes e)) ` set (filter (\<lambda>e. de_key e \<noteq> k) es)" by simp
  then show ?thesis
    using assms(1) unfolding files_ok_def by (auto simp: distinct_map_filter)
qed

lemma files_ok_find:
  assumes "files_ok es fs" "e \<in> set es" "HEX (de_key e)"
  shows "find (\<lambda>f. fi_name f = record_name (de_key e)) fs \<noteq> None"
proof -
  have "(record_name (de_key e), de_nbytes e) \<in> (\<lambda>f. (fi_name f, fi_size f)) ` {f \<in> set fs. committed (fi_name f)}"
    using assms(1,2) by (auto simp: files_ok_def)
  then show ?thesis by (auto simp: find_None_iff)
qed

lemma files_ok_fresh:
  assumes "files_ok es fs" "k \<notin> de_key ` set es" "f \<in> set fs" "HEX k"
  shows "fi_name f \<noteq> record_name k"
proof
  assume name: "fi_name f = record_name k"
  then have "(fi_name f, fi_size f) \<in> (\<lambda>e. (record_name (de_key e), de_nbytes e)) ` set es"
    using assms unfolding files_ok_def by (metis (mono_tags, lifting) committed_record image_eqI mem_Collect_eq)
  then show False using name assms(2) by auto
qed

lemma files_ok_add:
  assumes "files_ok es fs" "de_key e \<notin> de_key ` set es" "HEX (de_key e)"
    and f: "fi_name f = record_name (de_key e)" "fi_size f = de_nbytes e" "fi_regular f"
  shows "files_ok (es @ [e]) (fs @ [f])"
proof -
  have "{g \<in> set (fs @ [f]). committed (fi_name g)} = insert f {g \<in> set fs. committed (fi_name g)}"
    using f assms(3) by auto
  moreover have "fi_name f \<notin> fi_name ` set fs" using files_ok_fresh[OF assms(1,2) _ assms(3)] f(1) by (metis imageE)
  ultimately show ?thesis
    using assms(1) f TEMP_not_record[OF assms(3)] assms(3) unfolding files_ok_def by auto
qed

text \<open>One own eviction.\<close>

definition kept_from :: "prefix_store \<Rightarrow> prefix_store \<Rightarrow> bool" where
  "kept_from st0 st \<longleftrightarrow>
     set (st_entries st) \<subseteq> set (st_entries st0) \<and> st_pins st = st_pins st0 \<and>
     (\<forall>e\<in>set (st_entries st0). st_pins st0 (de_key e) > 0 \<longrightarrow> e \<in> set (st_entries st)) \<and>
     st_namespace st = st_namespace st0 \<and> st_quota_bytes st = st_quota_bytes st0 \<and>
     st_max_records st = st_max_records st0 \<and> st_failed st = st_failed st0 \<and> st_closed st = st_closed st0"

lemma kept_from_refl [simp]: "kept_from st st"
  by (simp add: kept_from_def)

lemma kept_from_trans: "kept_from a b \<Longrightarrow> kept_from b c \<Longrightarrow> kept_from a c"
  unfolding kept_from_def by auto

lemma sum_remove_key:
  assumes "distinct (map de_key es)" "v \<in> set es"
  shows "(\<Sum>e\<leftarrow>filter (\<lambda>e. de_key e \<noteq> de_key v) es. de_nbytes e) = (\<Sum>e\<leftarrow>es. de_nbytes e) - de_nbytes v"
    and "length (filter (\<lambda>e. de_key e \<noteq> de_key v) es) < length es"
proof -
  show "(\<Sum>e\<leftarrow>filter (\<lambda>e. de_key e \<noteq> de_key v) es. de_nbytes e) = (\<Sum>e\<leftarrow>es. de_nbytes e) - de_nbytes v"
    using assms
  proof (induction es)
    case (Cons a es)
    show ?case
    proof (cases "a = v")
      case True
      then have "filter (\<lambda>e. de_key e \<noteq> de_key v) es = es"
        using Cons.prems by (intro filter_True) (auto simp: image_iff)
      then show ?thesis using True by simp
    next
      case False
      then have "v \<in> set es" "de_key a \<noteq> de_key v" using Cons.prems by auto
      then show ?thesis using Cons by simp
    qed
  qed simp
  show "length (filter (\<lambda>e. de_key e \<noteq> de_key v) es) < length es"
    using assms(2) by (intro length_filter_less[of v]) auto
qed

lemma move_to_end_ok:
  assumes "store_ok st root" "distinct (map de_key (st_entries st))"
  shows "store_ok (move_to_end k st) root" "set (st_entries (move_to_end k st)) = set (st_entries st)"
proof -
  let ?es = "filter (\<lambda>e. de_key e \<noteq> k) (st_entries st) @ filter (\<lambda>e. de_key e = k) (st_entries st)"
  have m: "mset ?es = mset (st_entries st)"
    using multiset_partition[of "mset (st_entries st)" "\<lambda>e. de_key e \<noteq> k"] by simp
  then have "set ?es = set (st_entries st)" "length ?es = length (st_entries st)"
    using mset_eq_setD mset_eq_length by blast+
  moreover have "(\<Sum>e\<leftarrow>?es. de_nbytes e) = (\<Sum>e\<leftarrow>st_entries st. de_nbytes e)"
    using arg_cong[OF m, of "\<lambda>M. sum_mset (image_mset de_nbytes M)"]
    by (simp only: mset_map[symmetric] sum_mset_sum_list)
  moreover have "distinct (map de_key ?es)"
    using m assms(2) by (metis mset_eq_imp_distinct_iff mset_map)
  ultimately show "store_ok (move_to_end k st) root" "set (st_entries (move_to_end k st)) = set (st_entries st)"
    using assms(1)
    by (auto simp: move_to_end_def store_ok_def index_ok_def disk_ok_def files_ok_def split: option.splits)
qed

lemma filter_key_only:
  assumes "distinct (map de_key es)" "v \<in> set es"
  shows "filter (\<lambda>e. de_key e = de_key v) es = [v]"
  using assms
proof (induction es)
  case (Cons a es)
  show ?case
  proof (cases "a = v")
    case True
    then have "filter (\<lambda>e. de_key e = de_key v) es = []"
      using Cons.prems by (auto simp: filter_empty_conv image_iff)
    then show ?thesis using True by simp
  next
    case False
    then have "v \<in> set es" "de_key a \<noteq> de_key v" using Cons.prems by auto
    then show ?thesis using Cons by simp
  qed
qed simp

text \<open>A victim that could not be unlinked is back in the index, at its end.\<close>

lemma evict_one_restores:
  assumes "evict_one fails st root = (st', root', Inl e)" "distinct (map de_key (st_entries st))"
  shows "\<exists>k. st' = move_to_end k st" "root' = root" "e \<noteq> PyError OutOfFuel"
proof -
  obtain v where v: "find (\<lambda>e. st_pins st (de_key e) = 0) (st_entries st) = Some v"
    using assms(1) by (cases "find (\<lambda>e. st_pins st (de_key e) = 0) (st_entries st)") (auto simp: evict_one_def)
  then have "v \<in> set (st_entries st)" by (auto simp: find_Some_iff)
  note sole = filter_key_only[OF assms(2) this]
  show "\<exists>k. st' = move_to_end k st" "root' = root" "e \<noteq> PyError OutOfFuel"
    using assms(1) v sole
    by (auto simp: evict_one_def Let_def move_to_end_def split: if_splits intro!: exI[of _ "de_key v"])
qed

lemma evict_one_ok:
  assumes ok: "store_ok st root" "\<not> st_failed st" and ev: "evict_one fails st root = (st', root', r)"
  shows "store_ok st' root'" and "kept_from st st'"
    and "r = Inr True \<and> length (st_entries st') < length (st_entries st) \<or>
      r = Inr False \<and> st' = st \<and> root' = root \<or> (\<exists>e. r = Inl e \<and> e \<noteq> PyError OutOfFuel)"
proof -
  obtain d where d: "find_dir (st_namespace st) root = Some d" "di_held d" "files_ok (st_entries st) (di_files d)"
    using ok by (auto simp: store_ok_def disk_ok_def split: option.splits)
  have ix: "index_ok st" using ok by (simp add: store_ok_def)
  then have keys: "distinct (map de_key (st_entries st))" by (simp add: index_ok_def)
  have "store_ok st' root' \<and> kept_from st st' \<and>
    (r = Inr True \<and> length (st_entries st') < length (st_entries st) \<or>
      r = Inr False \<and> st' = st \<and> root' = root \<or> (\<exists>e. r = Inl e \<and> e \<noteq> PyError OutOfFuel))"
  proof (cases r)
    case (Inl e)
    note restored = evict_one_restores[OF ev[unfolded Inl] keys]
    then obtain k where k: "st' = move_to_end k st" by blast
    have "kept_from st st'"
      using move_to_end_ok(2)[OF ok(1) keys, of k] by (simp add: kept_from_def k) (simp add: move_to_end_def)
    then show ?thesis using move_to_end_ok(1)[OF ok(1) keys] k restored(2,3) Inl by simp
  next
    case (Inr b)
    show ?thesis
    proof (cases "find (\<lambda>e. st_pins st (de_key e) = 0) (st_entries st)")
      case None
      then show ?thesis using ev ok by (simp add: evict_one_def)
    next
      case (Some v)
      then have v: "v \<in> set (st_entries st)" "st_pins st (de_key v) = 0"
        by (auto simp: find_Some_iff)
      have ev': "st' = st\<lparr>st_entries := filter (\<lambda>e. de_key e \<noteq> de_key v) (st_entries st),
            st_bytes := st_bytes st - de_nbytes v\<rparr>"
        "root' = unlink (st_namespace st) (record_name (de_key v)) root" "r = Inr True"
        using ev Some Inr by (auto simp: evict_one_def Let_def split: if_splits)
      note sum = sum_remove_key[OF keys v(1)]
      have "0 \<le> de_nbytes v" using ix v(1) by (simp add: index_ok_def)
      then have "index_ok st'"
        using ix sum by (auto simp: index_ok_def ev'(1) distinct_map_filter)
      moreover have "disk_ok st' root'"
        using d files_ok_remove[OF d(3) keys] by (simp add: disk_ok_def ev' unlink_def find_update)
      moreover have "kept_from st st'"
        using v keys by (auto simp: kept_from_def ev'(1))
      ultimately show ?thesis using ok sum(2) by (auto simp: store_ok_def ev'(1,3))
    qed
  qed
  then show "store_ok st' root'" "kept_from st st'"
    "r = Inr True \<and> length (st_entries st') < length (st_entries st) \<or>
      r = Inr False \<and> st' = st \<and> root' = root \<or> (\<exists>e. r = Inl e \<and> e \<noteq> PyError OutOfFuel)"
    by blast+
qed

lemma make_room_loop_ok:
  assumes "store_ok st root" "\<not> st_failed st" "length (st_entries st) < fuel"
    and "make_room_loop fails fuel n st root = (st', root', r)"
  shows "store_ok st' root' \<and> kept_from st st' \<and> r \<noteq> Inl (PyError OutOfFuel) \<and>
    (r = Inr () \<longrightarrow> st_bytes st' + n \<le> st_quota_bytes st' \<and> int (length (st_entries st')) < st_max_records st')"
  using assms
proof (induction fuel arbitrary: st root)
  case (Suc fuel)
  show ?case
  proof (cases "st_bytes st + st_reserved_bytes st + n > st_quota_bytes st \<or> int (length (st_entries st)) \<ge> st_max_records st")
    case True
    obtain st1 root1 r1 where ev: "evict_one fails st root = (st1, root1, r1)" by (metis prod_cases3)
    note one = evict_one_ok[OF Suc.prems(1,2) ev]
    show ?thesis
    proof (cases "r1 = Inr True")
      case evicted: True
      then have "length (st_entries st1) < fuel" "\<not> st_failed st1"
        using one(2,3) Suc.prems(2,3) by (auto simp: kept_from_def)
      moreover have "make_room_loop fails fuel n st1 root1 = (st', root', r)"
        using Suc.prems(4) True ev evicted by simp
      ultimately show ?thesis
        using Suc.IH[OF one(1)] kept_from_trans[OF one(2)] by blast
    next
      case False
      then show ?thesis using one Suc.prems(1,4) True ev by auto
    qed
  next
    case False
    then show ?thesis using Suc.prems by (auto simp: store_ok_def index_ok_def)
  qed
qed simp

lemma make_room_ok:
  assumes "store_ok st root" "\<not> st_failed st" "make_room fails n st root = (st', root', r)"
  shows "store_ok st' root' \<and> kept_from st st' \<and> r \<noteq> Inl (PyError OutOfFuel) \<and>
    (r = Inr () \<longrightarrow> st_bytes st' + n \<le> st_quota_bytes st' \<and> int (length (st_entries st')) < st_max_records st')"
proof (cases "n > st_quota_bytes st")
  case False
  then show ?thesis
    using assms make_room_loop_ok[of st root "Suc (length (st_entries st))" fails n st' root' r]
    by (simp add: make_room_def)
qed (use assms in \<open>auto simp: make_room_def\<close>)

text \<open>Interference that adds no files and leaves one's own directory alone.\<close>

definition quiet :: "string \<Rightarrow> (nat \<Rightarrow> prefix_root \<Rightarrow> prefix_root) \<Rightarrow> bool" where
  "quiet own env \<longleftrightarrow>
     (\<forall>i r. total_files (env i r) \<le> total_files r \<and> find_dir own (env i r) = find_dir own r)"

lemma disk_ok_cong:
  "find_dir (st_namespace st) root' = find_dir (st_namespace st) root \<Longrightarrow> disk_ok st root' = disk_ok st root"
  by (simp add: disk_ok_def)

lemma enforce_ok:
  assumes ok: "store_ok st root" "\<not> st_failed st" and env: "quiet (st_namespace st) env"
    and res: "enforce fails env ab ar an st root = (st', root', r)"
  shows "store_ok st' root' \<and> kept_from st st'"
proof (cases "ab > st_quota_bytes st \<or> ar > st_max_records st")
  case True
  then show ?thesis using ok res by (auto simp: enforce_def)
next
  case False
  let ?I = "\<lambda>st' root. store_ok st' root \<and> kept_from st st'"
  have run: "enforce_loop fails env ab ar an (Suc (total_files root)) st root = (st', root', r)"
    using False res by (simp add: enforce_def)
  have keep: "store_ok s root'" if "store_ok s root" "\<not> st_failed s"
      "\<And>d. find_dir (st_namespace s) root = Some d \<Longrightarrow> di_held d \<Longrightarrow> find_dir (st_namespace s) root' = Some d"
    for s root root'
    using that by (auto simp: store_ok_def disk_ok_def split: option.splits)
  have kept: "\<not> st_failed s \<and> st_namespace s = st_namespace st" if "kept_from st s" for s
    using that ok by (simp add: kept_from_def)
  show ?thesis
  proof (rule enforce_loop_inv[of ?I, OF _ _ _ _ _ run])
    show "?I s (fst (scan (st_namespace s) root))" if s: "?I s root" for s root
    proof
      show "store_ok s (fst (scan (st_namespace s) root))"
      proof (rule keep)
        show "store_ok s root" "\<not> st_failed s" using s kept by simp_all
        show "find_dir (st_namespace s) (fst (scan (st_namespace s) root)) = Some d"
          if "find_dir (st_namespace s) root = Some d" for d
          using scan_keep[OF that] by simp
      qed
    qed (use s in simp)
    show "?I s (env i root)" if s: "?I s root" for s root i
    proof
      show "store_ok s (env i root)"
      proof (rule keep)
        show "store_ok s root" "\<not> st_failed s" using s kept by simp_all
        show "find_dir (st_namespace s) (env i root) = Some d"
          if "find_dir (st_namespace s) root = Some d" for d
          using that env s kept[of s] by (simp add: quiet_def)
      qed
    qed (use s in simp)
    show "?I s (fst (unlink_victim fails v root))" if s: "?I s root" for s root v
    proof
      show "store_ok s (fst (unlink_victim fails v root))"
      proof (rule keep)
        show "store_ok s root" "\<not> st_failed s" using s kept by simp_all
        show "find_dir (st_namespace s) (fst (unlink_victim fails v root)) = Some d"
          if "find_dir (st_namespace s) root = Some d" "di_held d" for d
          using unlink_victim_keep[OF that(1)] that(2) by (simp add: lease_def)
      qed
    qed (use s in simp)
    show "?I s' root'" if s: "?I s root" and ev: "evict_one fails s root = (s', root', r)" for s root s' root' r
    proof -
      have "\<not> st_failed s" using kept s by blast
      with evict_one_ok[OF conjunct1[OF s] _ ev] have "store_ok s' root'" "kept_from s s'" by blast+
      then show ?thesis using kept_from_trans s by blast
    qed
  qed (use ok in simp)
qed

lemma enforce_ends:
  assumes "\<And>i r. total_files (env i r) \<le> total_files r"
  shows "case snd (snd (enforce fails env ab ar an st root)) of
      Inl e \<Rightarrow> e \<noteq> PyError OutOfFuel | Inr usage \<Rightarrow> usage_fits st ab ar an usage"
  using enforce_loop_ends[OF assms, where fuel = "Suc (total_files root)" and ab = ab and ar = ar and an = an and st = st and root = root]
  by (auto simp: enforce_def)

subsection \<open>Root usage\<close>

definition counted_bytes :: "fs_file list \<Rightarrow> int" where
  "counted_bytes fs = (\<Sum>f\<leftarrow>filter counted fs. fi_size f)"

definition counted_records :: "fs_file list \<Rightarrow> int" where
  "counted_records fs = int (length (filter counted fs))"

definition root_bytes :: "prefix_root \<Rightarrow> int" where
  "root_bytes root = (\<Sum>d\<leftarrow>filter is_namespace (pr_entries root). counted_bytes (di_files d))"

definition root_records :: "prefix_root \<Rightarrow> int" where
  "root_records root = (\<Sum>d\<leftarrow>filter is_namespace (pr_entries root). counted_records (di_files d))"

lemma counted_simps [simp]:
  "counted_bytes [] = 0" "counted_records [] = 0"
  "counted_bytes (f # fs) = (if counted f then fi_size f else 0) + counted_bytes fs"
  "counted_records (f # fs) = (if counted f then 1 else 0) + counted_records fs"
  "counted_bytes (fs @ gs) = counted_bytes fs + counted_bytes gs"
  "counted_records (fs @ gs) = counted_records fs + counted_records gs"
  by (simp_all add: counted_bytes_def counted_records_def)

lemma scan_files_usage:
  "scan_files ns inactive fs acc = (fs', Inr acc') \<Longrightarrow>
   sa_nbytes acc' = sa_nbytes acc + counted_bytes fs' \<and> sa_records acc' = sa_records acc + counted_records fs'"
proof (induction fs arbitrary: acc fs')
  case (Cons f fs)
  show ?case
    using Cons.prems Cons.IH
    by (auto simp: Let_def split: if_splits prod.splits)
qed simp

lemma scan_dirs_usage:
  "scan_dirs own n ds acc = (ds', Inr acc') \<Longrightarrow>
   sa_nbytes acc' = sa_nbytes acc + (\<Sum>d\<leftarrow>filter is_namespace ds'. counted_bytes (di_files d)) \<and>
   sa_records acc' = sa_records acc + (\<Sum>d\<leftarrow>filter is_namespace ds'. counted_records (di_files d))"
proof (induction ds arbitrary: n acc ds')
  case (Cons d ds)
  have ns: "is_namespace (d\<lparr>di_files := fs\<rparr>) = is_namespace d" for fs by (simp add: is_namespace_def)
  show ?case
    using Cons.prems
    by (auto simp: Let_def ns split: if_splits prod.splits sum.splits dest!: Cons.IH scan_files_usage)
qed simp

lemma scan_usage:
  "scan own root = (root1, Inr (usage, v)) \<Longrightarrow>
   u_nbytes usage = root_bytes root1 \<and> u_records usage = root_records root1"
  using scan_dirs_usage[of own 0 "pr_entries root" scan_start]
  by (auto simp: scan_def scan_start_def root_bytes_def root_records_def split: prod.splits sum.splits)

lemma enforce_loop_usage:
  "enforce_loop fails env ab ar an fuel st root = (st', root', Inr usage) \<Longrightarrow>
   u_nbytes usage = root_bytes root' \<and> u_records usage = root_records root'"
proof (induction fuel arbitrary: st root)
  case (Suc fuel)
  then show ?case
    using scan_usage by (auto simp: Let_def split: prod.splits sum.splits if_splits option.splits)
qed simp

lemma root_update:
  assumes "find_dir ns root = Some d" "is_namespace d"
  shows "root_bytes (update_dir ns g root) = root_bytes root - counted_bytes (di_files d) + counted_bytes (g (di_files d))"
    and "root_records (update_dir ns g root) = root_records root - counted_records (di_files d) + counted_records (g (di_files d))"
proof -
  have ns: "is_namespace (x\<lparr>di_files := fs\<rparr>) = is_namespace x" for x fs by (simp add: is_namespace_def)
  have "find (\<lambda>d. di_name d = ns \<and> di_is_dir d) ds = Some d \<Longrightarrow>
     (\<Sum>d\<leftarrow>filter is_namespace (update_entries ns g ds). h (di_files d)) =
     (\<Sum>d\<leftarrow>filter is_namespace ds. h (di_files d)) - h (di_files d) + h (g (di_files d))" for ds and h :: "fs_file list \<Rightarrow> int"
    using assms(2) by (induction ds) (auto simp: ns split: if_splits)
  then show "root_bytes (update_dir ns g root) = root_bytes root - counted_bytes (di_files d) + counted_bytes (g (di_files d))"
    "root_records (update_dir ns g root) = root_records root - counted_records (di_files d) + counted_records (g (di_files d))"
    using assms(1) by (simp_all add: find_dir_def root_bytes_def root_records_def update_dir_def)
qed

subsection \<open>Publication\<close>

lemma update_update: "update_dir ns g (update_dir ns h root) = update_dir ns (\<lambda>fs. g (h fs)) root"
proof -
  have "update_entries ns g (update_entries ns h ds) = update_entries ns (\<lambda>fs. g (h fs)) ds" for ds
    by (induction ds) auto
  then show ?thesis by (simp add: update_dir_def)
qed

lemma check_limits_ok:
  assumes "check_limits allow_update st root = (root', r)"
  shows "find_dir p root' = find_dir p root" and "r \<noteq> Inl (PyError OutOfFuel)"
proof -
  have sweep: "find (\<lambda>d. di_name d = p \<and> di_is_dir d) (fst (sweep_quota_temps n ds)) =
      find (\<lambda>d. di_name d = p \<and> di_is_dir d) ds" for n ds
    by (induction ds arbitrary: n) (auto simp: split_def)
  have err: "snd (sweep_quota_temps n ds) = Inl e \<Longrightarrow> e = StoreFull" for n ds e
    by (induction ds arbitrary: n) (auto simp: split_def split: if_splits)
  have busy: "all_inactive own n ds = Inl e \<Longrightarrow> e \<in> {StoreFull, StoreBusy}" for own n ds e
    by (induction ds arbitrary: n) (auto split: if_splits)
  show "find_dir p root' = find_dir p root"
    using assms sweep[of 0 "pr_entries root"]
    by (auto simp: check_limits_def find_dir_def Let_def split: sum.splits prod.splits if_splits)
  have limits: "read_limits root = Inl e \<Longrightarrow> e = RecordError" for e
    by (auto simp: read_limits_def split: quota_file.splits if_splits)
  show "r \<noteq> Inl (PyError OutOfFuel)"
    using assms limits busy err[of 0 "pr_entries root"]
    by (auto simp: check_limits_def Let_def split: sum.splits prod.splits if_splits)
qed

lemma fresh_names:
  assumes fs: "files_ok es fs" and key: "HEX k" "k \<notin> de_key ` set es" and uuid: "is_hex 32 (io_uuid w)"
  shows "\<forall>f\<in>set fs. fi_name f \<noteq> temp_name k w \<and> fi_name f \<noteq> record_name k"
    and "temp_name k w \<noteq> record_name k"
  using fs TEMP_temp_name[OF key(1) uuid] files_ok_fresh[OF fs key(2) _ key(1)] TEMP_not_record[OF key(1)]
  by (auto simp: files_ok_def)

lemma filter_fresh: "\<forall>f\<in>set fs. P f \<Longrightarrow> filter P fs = fs"
  by simp

text \<open>The directory after the block is the old one with the record, or what the handler restores to
  the old one.\<close>

lemma publish_ok:
  assumes d: "find_dir ns root = Some d" and fs: "files_ok es (di_files d)"
    and key: "HEX (rs_key src)" "rs_key src \<notin> de_key ` set es" and uuid: "is_hex 32 (io_uuid w)"
    and pub: "publish_file w src ns root = (root', res)"
  shows "res = None \<Longrightarrow> rs_actual src = rs_predicted src \<and>
      (\<exists>g. root' = update_dir ns g root \<and> g (di_files d) = di_files d @ [new_file (record_name (rs_key src)) (rs_actual src) w])"
    and "res = Some (err, renamed) \<Longrightarrow> err \<noteq> PyError OutOfFuel \<and>
      find_dir ns (unlink ns (temp_name (rs_key src) w)
        (if renamed then unlink ns (record_name (rs_key src)) root' else root')) = Some d"
proof -
  let ?t = "temp_name (rs_key src) w" and ?r = "record_name (rs_key src)"
  note fresh = fresh_names[OF fs key uuid]
  have nt: "find_file ns ?t root = None"
    using fresh(1) d by (auto simp: find_file_def find_None_iff)
  have f1: "filter (\<lambda>f. fi_name f \<noteq> ?t) (di_files d) = di_files d"
    "filter (\<lambda>f. fi_name f \<noteq> ?r) (di_files d) = di_files d"
    "filter (\<lambda>f. fi_name f \<noteq> ?t \<and> fi_name f \<noteq> ?r) (di_files d) = di_files d"
    using fresh(1) by (auto intro!: filter_fresh)
  have same: "d\<lparr>di_files := di_files d\<rparr> = d" by simp
  show "res = None \<Longrightarrow> rs_actual src = rs_predicted src \<and>
      (\<exists>g. root' = update_dir ns g root \<and> g (di_files d) = di_files d @ [new_file ?r (rs_actual src) w])"
    using pub nt f1
    by (auto simp: publish_file_def Let_def create_file_def replace_file_def update_update new_file_def
        split: if_splits intro!: exI[of _ "\<lambda>fs. filter (\<lambda>g. fi_name g \<noteq> ?t \<and> fi_name g \<noteq> ?r)
          (fs @ [new_file ?t (rs_actual src) w]) @ [new_file ?r (rs_actual src) w]"])
  show "res = Some (err, renamed) \<Longrightarrow> err \<noteq> PyError OutOfFuel \<and>
      find_dir ns (unlink ns ?t (if renamed then unlink ns ?r root' else root')) = Some d"
    using pub nt f1 d fresh(2) same
    by (auto simp: publish_file_def Let_def create_file_def replace_file_def unlink_def update_update
        find_update new_file_def split: if_splits)
qed

lemma store_ok_cong:
  "st_namespace st' = st_namespace st \<Longrightarrow> index_ok st' \<Longrightarrow> st_failed st' = st_failed st \<Longrightarrow>
   st_entries st' = st_entries st \<Longrightarrow> find_dir (st_namespace st) root' = find_dir (st_namespace st) root \<Longrightarrow>
   store_ok st root \<Longrightarrow> store_ok st' root'"
  by (simp add: store_ok_def disk_ok_def split: option.splits)

lemma kept_room:
  assumes "index_ok st1" "index_ok st2" "kept_from st1 st2"
  shows "st_bytes st2 \<le> st_bytes st1" "length (st_entries st2) \<le> length (st_entries st1)"
proof -
  have d: "distinct (st_entries st1)" "distinct (st_entries st2)" and sub: "set (st_entries st2) \<subseteq> set (st_entries st1)"
    using assms by (auto simp: index_ok_def kept_from_def distinct_map)
  have "(\<Sum>e\<in>set (st_entries st2). de_nbytes e) \<le> (\<Sum>e\<in>set (st_entries st1). de_nbytes e)"
    using sub assms(1) by (intro sum_mono2) (auto simp: index_ok_def)
  then show "st_bytes st2 \<le> st_bytes st1"
    using assms(1,2) d by (simp add: index_ok_def sum_list_distinct_conv_sum_set)
  show "length (st_entries st2) \<le> length (st_entries st1)"
    using d sub by (metis card_mono distinct_card finite_set)
qed

lemma publish_last:
  assumes ok: "store_ok st root" and go: "\<not> st_failed st" and key: "HEX (rs_key src)"
    and new: "rs_key src \<notin> de_key ` set (st_entries st)" and uuid: "is_hex 32 (io_uuid w)"
    and size: "0 \<le> rs_predicted src"
    and room: "st_bytes st + rs_predicted src \<le> st_quota_bytes st" "int (length (st_entries st)) < st_max_records st"
    and pub: "publish_file w src (st_namespace st) root = (root', res)"
  shows "res = None \<Longrightarrow>
      store_ok (st\<lparr>st_entries := st_entries st @ [\<lparr>de_key = rs_key src, de_consumed = rs_tokens src,
          de_nbytes = rs_actual src\<rparr>], st_bytes := st_bytes st + rs_actual src, st_reserved_bytes := 0\<rparr>) root' \<and>
      root_bytes root' = root_bytes root + rs_predicted src \<and> root_records root' = root_records root + 1"
    and "res = Some (err, renamed) \<Longrightarrow> err \<noteq> PyError OutOfFuel \<and>
      store_ok (st\<lparr>st_reserved_bytes := 0\<rparr>) (unlink (st_namespace st) (temp_name (rs_key src) w)
        (if renamed then unlink (st_namespace st) (record_name (rs_key src)) root' else root'))"
proof -
  obtain d where d: "find_dir (st_namespace st) root = Some d" "di_held d" "files_ok (st_entries st) (di_files d)"
    using ok go by (auto simp: store_ok_def disk_ok_def split: option.splits)
  have ns: "is_namespace d"
    using d(1) ok by (auto simp: find_dir_def find_Some_iff is_namespace_def store_ok_def)
  have ix: "index_ok st" "HEX (st_namespace st)" using ok by (simp_all add: store_ok_def)
  let ?f = "new_file (record_name (rs_key src)) (rs_actual src) w"
  let ?e = "\<lparr>de_key = rs_key src, de_consumed = rs_tokens src, de_nbytes = rs_actual src\<rparr>"
  let ?st = "st\<lparr>st_entries := st_entries st @ [?e], st_bytes := st_bytes st + rs_actual src, st_reserved_bytes := 0\<rparr>"
  note p = publish_ok[OF d(1,3) key new uuid pub]
  show "store_ok ?st root' \<and> root_bytes root' = root_bytes root + rs_predicted src \<and>
      root_records root' = root_records root + 1" if none: "res = None"
  proof -
    obtain g where g: "rs_actual src = rs_predicted src" "root' = update_dir (st_namespace st) g root"
      "g (di_files d) = di_files d @ [?f]" using p(1)[OF none] by blast
    have "files_ok (st_entries st @ [?e]) (di_files d @ [?f])"
      using d(3) new key by (intro files_ok_add) (simp_all add: new_file_def)
    then have "disk_ok ?st root'" using d g by (simp add: disk_ok_def find_update)
    moreover have "index_ok ?st"
      using ix(1) new key size room g(1) by (auto simp: index_ok_def)
    moreover have "counted ?f" using key by (simp add: counted_def new_file_def)
    ultimately show ?thesis
      using ix(2) root_update[OF d(1) ns, of g] g by (simp add: store_ok_def) (simp add: new_file_def)
  qed
  show "err \<noteq> PyError OutOfFuel \<and>
      store_ok (st\<lparr>st_reserved_bytes := 0\<rparr>) (unlink (st_namespace st) (temp_name (rs_key src) w)
        (if renamed then unlink (st_namespace st) (record_name (rs_key src)) root' else root'))"
    if some: "res = Some (err, renamed)"
  proof
    show "store_ok (st\<lparr>st_reserved_bytes := 0\<rparr>) (unlink (st_namespace st) (temp_name (rs_key src) w)
        (if renamed then unlink (st_namespace st) (record_name (rs_key src)) root' else root'))"
      using p(2)[OF some] d(1) ix(1) by (intro store_ok_cong[OF _ _ _ _ _ ok]) (auto simp: index_ok_def)
  qed (use p(2)[OF some] in blast)
qed

lemma enforce_usage:
  assumes "enforce fails env ab ar an st root = (st', root', Inr usage)"
  shows "u_nbytes usage = root_bytes root' \<and> u_records usage = root_records root'"
  using assms enforce_loop_usage by (auto simp: enforce_def simp del: enforce_loop.simps split: if_splits)

lemma enforce_protects:
  assumes "enforce fails env ab ar an st root = (st', root', res)"
    and "p \<noteq> st_namespace st" "find_dir p root = Some d" "di_held d" "\<forall>i r. find_dir p (env i r) = find_dir p r"
  shows "find_dir p root' = Some d"
proof (cases "ab > st_quota_bytes st \<or> ar > st_max_records st")
  case True
  then show ?thesis using assms(1,3) by (auto simp: enforce_def)
next
  case False
  then have run: "enforce_loop fails env ab ar an (Suc (total_files root)) st root = (st', root', res)"
    using assms(1) by (simp add: enforce_def del: enforce_loop.simps)
  have env: "\<And>i r. find_dir p (env i r) = find_dir p r" using assms(5) by blast
  show ?thesis by (rule enforce_loop_protects[OF env assms(2-4) run])
qed

text \<open>The last part of a publication: the record enters the index, or the handler cleans up.\<close>

lemma publish_new:
  assumes ok: "store_ok st root" and env: "quiet (st_namespace st) env" and key: "HEX (rs_key src)"
    and uuid: "is_hex 32 (io_uuid w)" and size: "0 \<le> rs_predicted src"
    and go: "\<not> st_closed st" "\<not> st_failed st" and new: "rs_key src \<notin> de_key ` set (st_entries st)"
  shows "case write_owned env w src st root of (st', root', res) \<Rightarrow>
     store_ok st' root' \<and>
     (\<forall>e\<in>set (st_entries st). 0 < st_pins st (de_key e) \<longrightarrow> e \<in> set (st_entries st')) \<and>
     (st_failed st' \<longrightarrow> st_failed st \<or> io_cleanup w \<noteq> CleanupWorks) \<and>
     (case res of
        Inl err \<Rightarrow> err \<noteq> PyError OutOfFuel
      | Inr e \<Rightarrow> e \<in> set (st_entries st') \<and> de_key e = rs_key src \<and>
          (e \<notin> set (st_entries st) \<longrightarrow>
             root_bytes root' \<le> st_quota_bytes st \<and> root_records root' \<le> st_max_records st))"
proof -
  have none: "find (\<lambda>e. de_key e = rs_key src) (st_entries st) = None"
    using new by (auto simp: find_None_iff image_iff)
  show ?thesis
  proof (cases "\<not> rs_compatible src \<or> rs_predicted src > st_max_record_bytes st")
    case True
    then show ?thesis using ok go none by (auto simp: write_owned_def)
  next
    case False
    then have fits: "rs_compatible src" "\<not> rs_predicted src > st_max_record_bytes st" by simp_all
    obtain st1 root1 r1 where mr: "make_room (io_unlink_fails w) (rs_predicted src) st root = (st1, root1, r1)" by (metis prod_cases3)
    note m = make_room_ok[OF ok go(2) mr]
    have go1: "\<not> st_failed st1" "st_namespace st1 = st_namespace st" using m go by (auto simp: kept_from_def)
    show ?thesis
    proof (cases r1)
      case (Inl e)
      then show ?thesis using m mr go none fits by (auto simp: write_owned_def kept_from_def)
    next
      case (Inr u)
      obtain st2 root2 r2 where en: "enforce (io_unlink_fails w) env (rs_predicted src) 1 0 st1 root1 = (st2, root2, r2)" by (metis prod_cases3)
      have e: "store_ok st2 root2" "kept_from st1 st2"
        using enforce_ok[of st1 root1 env, OF _ go1(1) _ en] m env go1(2) by auto
      have ends: "case r2 of Inl e \<Rightarrow> e \<noteq> PyError OutOfFuel | Inr usage \<Rightarrow> usage_fits st1 (rs_predicted src) 1 0 usage"
        using enforce_ends[where fails = "io_unlink_fails w" and env = env and root = root1 and ab = "rs_predicted src" and ar = 1 and an = 0 and st = st1] en env by (simp add: quiet_def)
      have kept: "kept_from st st2" using kept_from_trans m e(2) by blast
      show ?thesis
      proof (cases r2)
        case (Inl err)
        then show ?thesis
          using mr en e ends kept Inr go none fits by (auto simp: write_owned_def kept_from_def)
      next
        case usage: (Inr usage)
        obtain root3 res where pub: "publish_file w src (st_namespace st2) root2 = (root3, res)" by fastforce
        have go2: "\<not> st_failed st2" and new2: "rs_key src \<notin> de_key ` set (st_entries st2)"
          using kept go new by (auto simp: kept_from_def)
        have ix: "index_ok st1" "index_ok st2" using m e(1) by (simp_all add: store_ok_def)
        have room: "st_bytes st2 + rs_predicted src \<le> st_quota_bytes st2"
          "int (length (st_entries st2)) < st_max_records st2"
          using m Inr kept_room[OF ix e(2)] e(2) by (auto simp: kept_from_def)
        note last = publish_last[OF e(1) go2 key new2 uuid size room pub]
        have us: "u_nbytes usage = root_bytes root2 \<and> u_records usage = root_records root2"
          using en usage by (auto dest: enforce_usage)
        have q: "st_quota_bytes st1 = st_quota_bytes st" "st_max_records st1 = st_max_records st"
          using m by (auto simp: kept_from_def)
        have fit: "root_bytes root2 + rs_predicted src \<le> st_quota_bytes st" "root_records root2 + 1 \<le> st_max_records st"
          using ends usage us q by (auto simp: usage_fits_def)
        have failed: "store_ok (st2\<lparr>st_failed := True, st_reserved_bytes := 0\<rparr>) root" for root
          using e(1) by (simp add: store_ok_def index_ok_def)
        have pins: "\<forall>x\<in>set (st_entries st). 0 < st_pins st (de_key x) \<longrightarrow> x \<in> set (st_entries st2)"
          using kept by (simp add: kept_from_def)
        show ?thesis
        proof (cases res)
          case None
          then show ?thesis
            using mr en Inr usage go none fits pub last(1)[OF None] fit pins go2
            by (auto simp: write_owned_def Let_def)
        next
          case (Some er)
          obtain err renamed where er: "er = (err, renamed)" by fastforce
          then show ?thesis
            using mr en Inr usage go none fits pub last(2)[of err renamed] Some pins go2 failed
            by (auto simp: write_owned_def Let_def)
        qed
      qed
    qed
  qed
qed

section \<open>Properties\<close>

text \<open>
  C38: eviction ends.  Whichever removals the system refuses and whatever other processes do
  between two steps, as long as they add no files
  (admission is serialized by the root lock), \<open>enforce\<close> returns within one round per file; a
  return without an exception means that the scanned usage plus the addition fits bytes, records
  and namespaces; and a directory that some process holds, and that its holder does not change
  meanwhile, has lost nothing.
\<close>

theorem enforce_terminates:
  assumes "\<forall>i r. total_files (env i r) \<le> total_files r"
  shows "case enforce fails env ab ar an st root of (st', root', res) \<Rightarrow>
     (case res of
        Inl e \<Rightarrow> e \<noteq> PyError OutOfFuel
      | Inr usage \<Rightarrow> usage_fits st ab ar an usage \<and>
          u_nbytes usage = root_bytes root' \<and> u_records usage = root_records root') \<and>
     (\<forall>p d. p \<noteq> st_namespace st \<and> find_dir p root = Some d \<and> di_held d \<and>
        (\<forall>i r. find_dir p (env i r) = find_dir p r) \<longrightarrow> find_dir p root' = Some d)"
proof -
  obtain st' root' res where run: "enforce fails env ab ar an st root = (st', root', res)" by (metis prod_cases3)
  have ends: "case res of Inl e \<Rightarrow> e \<noteq> PyError OutOfFuel | Inr usage \<Rightarrow> usage_fits st ab ar an usage"
    using enforce_ends[where fails = fails and env = env and root = root and ab = ab and ar = ar and an = an and st = st] assms run by simp
  have usage: "u_nbytes usage = root_bytes root' \<and> u_records usage = root_records root'" if "res = Inr usage" for usage
    using run that by (auto dest: enforce_usage)
  have held: "find_dir p root' = Some d"
    if "p \<noteq> st_namespace st" "find_dir p root = Some d" "di_held d" "\<forall>i r. find_dir p (env i r) = find_dir p r" for p d
    using enforce_protects[OF run that] .
  show ?thesis using run ends usage held by (cases res) auto
qed

definition demo_hex :: "char \<Rightarrow> string" where
  "demo_hex c = replicate 64 c"

lemma demo_hex_simps [simp]:
  "demo_hex a = demo_hex b \<longleftrightarrow> a = b" "HEX (demo_hex a) = hex_digit a"
  by (auto simp: demo_hex_def HEX_def is_hex_def list_all_iff)

lemma hex_digits [simp]:
  "hex_digit CHR ''a''" "hex_digit CHR ''b''" "hex_digit CHR ''c''" "hex_digit CHR ''e''"
  "hex_digit CHR ''1''" "hex_digit CHR ''2''" "hex_digit CHR ''4''"
  by (simp_all add: hex_digit_def)

text \<open>Namespace \<open>a\<close> is one's own, nobody holds \<open>b\<close>, another process holds \<open>c\<close>.\<close>

definition demo_root :: prefix_root where
  "demo_root =
     \<lparr>pr_entries =
        [\<lparr>di_name = demo_hex CHR ''a'', di_is_dir = True, di_lock = True, di_held = True, di_files = []\<rparr>,
         \<lparr>di_name = demo_hex CHR ''b'', di_is_dir = True, di_lock = True, di_held = False, di_files =
            [\<lparr>fi_name = record_name (demo_hex CHR ''1''), fi_regular = True, fi_size = 60, fi_mtime = 5, fi_inode = 10\<rparr>]\<rparr>,
         \<lparr>di_name = demo_hex CHR ''c'', di_is_dir = True, di_lock = True, di_held = True, di_files =
            [\<lparr>fi_name = record_name (demo_hex CHR ''2''), fi_regular = True, fi_size = 30, fi_mtime = 3, fi_inode = 11\<rparr>]\<rparr>],
      pr_limits = Meta 1 100 4\<rparr>"

definition demo_store :: prefix_store where
  "demo_store =
     \<lparr>st_namespace = demo_hex CHR ''a'', st_quota_bytes = 100, st_max_records = 4,
      st_max_record_bytes = 100, st_entries = [], st_pins = (\<lambda>_. 0), st_bytes = 0,
      st_reserved_bytes = 0, st_failed = False, st_closed = False\<rparr>"

lemmas demo_evals = enforce_def total_files_def demo_root_def demo_store_def scan_def scan_start_def
  is_namespace_def lease_def counted_def TEMP_not_record MAX_SCAN_ENTRIES_def better_def usage_fits_def
  unlink_victim_def find_dir_def find_file_def unlink_def update_dir_def

theorem enforce_terminates_witness:
  "case enforce (\<lambda>_. False) (\<lambda>_ r. r) 50 1 0 demo_store demo_root of
     (st', root', Inr usage) \<Rightarrow> u_nbytes usage = 30 \<and> root_bytes root' = 30
   | _ \<Rightarrow> False"
proof -
  have run: "case enforce (\<lambda>_. False) (\<lambda>_ r. r) 50 1 0 demo_store demo_root of
     (st', root', Inr usage) \<Rightarrow> u_nbytes usage = 30 | _ \<Rightarrow> False"
    by (simp add: demo_evals)
  show ?thesis
    using enforce_terminates[where fails = "\<lambda>_. False" and env = "\<lambda>_ r. r" and ab = 50 and ar = 1 and an = 0 and st = demo_store
        and root = demo_root] run
    by (auto split: prod.splits sum.splits)
qed

text \<open>
  C39: publication keeps index, disk and quota in step.  From a consistent store, a write ends with
  a consistent store: the index lists exactly the records on disk, no temporary file remains, its
  bytes and records respect the quota, and no pinned record is gone.  This covers a busy writer
  lock or root lock, a source of another compatibility, every set of files the system refuses to
  remove during an eviction (the victim returns to the index), and an error before the temporary
  file exists, before the rename and after it; only a failed clean-up after such an error leaves
  the files out of step, and then the store refuses all further work.  The write always returns,
  and a successful publication leaves the whole root within its quota.
\<close>

theorem store_write_consistent:
  assumes "store_ok st root" and "quiet (st_namespace st) env" and "HEX (rs_key src)"
    and "is_hex 32 (io_uuid w)" and "0 \<le> rs_predicted src"
  shows "case store_write env w src st root of (st', root', res) \<Rightarrow>
     store_ok st' root' \<and>
     (\<forall>e\<in>set (st_entries st). 0 < st_pins st (de_key e) \<longrightarrow> e \<in> set (st_entries st')) \<and>
     (st_failed st' \<longrightarrow> st_failed st \<or> io_cleanup w \<noteq> CleanupWorks) \<and>
     (case res of
        Inl err \<Rightarrow> err \<noteq> PyError OutOfFuel
      | Inr e \<Rightarrow> e \<in> set (st_entries st') \<and> de_key e = rs_key src \<and>
          (e \<notin> set (st_entries st) \<longrightarrow>
             root_bytes root' \<le> st_quota_bytes st \<and> root_records root' \<le> st_max_records st))"
proof -
  obtain root1 r1 where chk: "check_limits False st root = (root1, r1)" by fastforce
  have ok1: "store_ok st root1"
    using assms(1) check_limits_ok(1)[OF chk] by (intro store_ok_cong[OF refl _ refl refl _ assms(1)]) (auto simp: store_ok_def)
  have ix: "distinct (map de_key (st_entries st))" using assms(1) by (simp add: store_ok_def index_ok_def)
  show ?thesis
  proof (cases "io_writer_busy w \<or> io_root_busy w")
    case True
    then show ?thesis using assms(1) by (auto simp: store_write_def)
  next
    case idle: False
    show ?thesis
    proof (cases "(\<exists>e. r1 = Inl e) \<or> st_closed st \<or> st_failed st \<or> \<not> rs_compatible src")
      case True
      then show ?thesis
        using idle chk ok1 check_limits_ok(2)[OF chk] by (cases r1) (auto simp: store_write_def write_owned_def)
    next
      case False
      then obtain l where go: "r1 = Inr l" "\<not> st_closed st" "\<not> st_failed st" "rs_compatible src" by (cases r1) auto
      show ?thesis
      proof (cases "find (\<lambda>e. de_key e = rs_key src) (st_entries st)")
        case (Some e)
        then have "e \<in> set (st_entries st)" "de_key e = rs_key src" by (auto simp: find_Some_iff)
        then show ?thesis
          using idle chk go Some move_to_end_ok[OF ok1 ix, of "rs_key src"]
          by (simp add: store_write_def write_owned_def) (simp add: move_to_end_def)
      next
        case None
        then have new: "rs_key src \<notin> de_key ` set (st_entries st)" by (auto simp: find_None_iff)
        show ?thesis using publish_new[OF ok1 assms(2-5) go(2,3) new] idle chk go None
          by (simp add: store_write_def split: prod.splits)
      qed
    qed
  qed
qed

definition demo_source :: record_source where
  "demo_source = \<lparr>rs_compatible = True, rs_key = demo_hex CHR ''4'', rs_tokens = 7, rs_predicted = 50, rs_actual = 50\<rparr>"

definition demo_world :: "fault_point \<Rightarrow> io_world" where
  "demo_world p = \<lparr>io_writer_busy = False, io_root_busy = False, io_unlink_fails = (\<lambda>_. False), io_fault = p, io_cleanup = CleanupWorks, io_uuid = replicate 32 CHR ''e'',
     io_inode = 99, io_mtime = 8\<rparr>"

theorem store_write_consistent_witness:
  "case store_write (\<lambda>_ r. r) (demo_world NoFault) demo_source demo_store demo_root of
     (st', root', Inr e) \<Rightarrow> store_ok st' root' \<and> root_bytes root' \<le> 100 \<and> st_bytes st' = 50
   | _ \<Rightarrow> False"
proof -
  have "store_ok demo_store demo_root"
    by (simp add: store_ok_def index_ok_def disk_ok_def files_ok_def demo_store_def demo_root_def
        find_dir_def)
  moreover have "quiet (st_namespace demo_store) (\<lambda>_ r. r)" by (simp add: quiet_def)
  moreover have "HEX (rs_key demo_source)" "is_hex 32 (io_uuid (demo_world NoFault))" "0 \<le> rs_predicted demo_source"
    by (simp_all add: demo_source_def demo_world_def is_hex_def list_all_iff)
  moreover have "case store_write (\<lambda>_ r. r) (demo_world NoFault) demo_source demo_store demo_root of
     (st', root', Inr e) \<Rightarrow> st_bytes st' = 50 | _ \<Rightarrow> False"
    by (simp add: demo_evals store_write_def check_limits_def read_limits_def target_limits_def
        write_owned_def make_room_def publish_file_def new_file_def temp_name_def find_file_def
        create_file_def replace_file_def demo_source_def demo_world_def Let_def)
  moreover have "st_entries demo_store = []" "st_quota_bytes demo_store = 100" by (simp_all add: demo_store_def)
  ultimately show ?thesis
    using store_write_consistent[of demo_store demo_root "\<lambda>_ r. r" demo_source "demo_world NoFault"]
    by (auto split: prod.splits sum.splits)
qed

end
