(* ===== verification/ReasoningParser.thy ===== *)
theory ReasoningParser
  imports Detokenize
begin

text \<open>
  Separating the reasoning of a completion from its answer (\<open>serving/reasoning_parser.py\<close>): the
  base parser with its one-shot and its streaming mode, and the four protocols that only choose
  its markers.  Text is a list of code points, as in \<open>Detokenize\<close>.  The streaming parser sees
  the text in arbitrary chunks, so it holds back what may be the start of a marker; the result
  is that it splits the text where the one-shot parser does, however the text is cut.  The
  parsers with a grammar of their own (Harmony, MiniMax-M3, Muse) are not modelled.
\<close>

section \<open>Text\<close>

definition cps :: "string \<Rightarrow> str" where
  "cps s = map of_char s"

text \<open>\<open>str.isspace\<close> of one code point.\<close>

definition py_space :: "nat \<Rightarrow> bool" where
  "py_space c = (9 \<le> c \<and> c \<le> 13 \<or> 28 \<le> c \<and> c \<le> 32 \<or> c = 0x85 \<or> c = 0xA0 \<or> c = 0x1680 \<or>
     0x2000 \<le> c \<and> c \<le> 0x200A \<or> c = 0x2028 \<or> c = 0x2029 \<or> c = 0x202F \<or> c = 0x205F \<or> c = 0x3000)"

definition lstrip :: "str \<Rightarrow> str" where
  "lstrip s = dropWhile py_space s"

definition rstrip :: "str \<Rightarrow> str" where
  "rstrip s = rev (dropWhile py_space (rev s))"

definition strip :: "str \<Rightarrow> str" where
  "strip s = rstrip (lstrip s)"

text \<open>\<open>text.replace(tok, "")\<close>.\<close>

function remove_all :: "str \<Rightarrow> str \<Rightarrow> str" where
  "remove_all tok s =
     (if tok = [] then s
      else case str_find tok s of
        None \<Rightarrow> s
      | Some i \<Rightarrow> take i s @ remove_all tok (drop (i + length tok) s))"
  by pat_completeness auto
termination
proof (relation "measure (length \<circ> snd)")
  show "((tok, drop (i + length tok) s), tok, s) \<in> measure (length \<circ> snd)"
    if "tok \<noteq> []" "str_find tok s = Some i" for tok s i
    using str_find_Some[OF that(2)] that(1) by (cases tok) auto
qed simp

declare remove_all.simps [simp del]

definition strip_special_tokens :: "str \<Rightarrow> str list \<Rightarrow> str" where
  "strip_special_tokens s tokens = foldl (\<lambda>s tok. if tok = [] then s else remove_all tok s) s tokens"

section \<open>The parser\<close>

record parse_result =
  reasoning_text :: str
  normal_text :: str

record reasoning_parser =
  think_start :: str
  think_end :: str
  tool_start :: "str option"
  force_reasoning :: bool
  stream_reasoning :: bool
  in_reasoning :: bool
  rp_buffer :: str
  stripped_think_start :: bool

definition TOOL_HOLD_MAX :: nat where "TOOL_HOLD_MAX = 512"

definition new_parser :: "str \<Rightarrow> str \<Rightarrow> str option \<Rightarrow> bool \<Rightarrow> bool \<Rightarrow> reasoning_parser" where
  "new_parser ts te tool force stream =
     \<lparr>think_start = ts, think_end = te, tool_start = tool, force_reasoning = force,
      stream_reasoning = stream, in_reasoning = force, rp_buffer = [], stripped_think_start = False\<rparr>"

definition detect_and_parse :: "reasoning_parser \<Rightarrow> str \<Rightarrow> parse_result" where
  "detect_and_parse p s =
     (if \<not> (in_reasoning p \<or> str_find (think_start p) s \<noteq> None) then \<lparr>reasoning_text = [], normal_text = s\<rparr>
      else
        (let processed = strip (remove_all (think_start p) s) in
         case str_find (think_end p) processed of
           None \<Rightarrow>
             (case tool_start p of
                None \<Rightarrow> \<lparr>reasoning_text = processed, normal_text = []\<rparr>
              | Some tok \<Rightarrow>
                  (case str_find tok processed of
                     None \<Rightarrow> \<lparr>reasoning_text = processed, normal_text = []\<rparr>
                   | Some i \<Rightarrow> \<lparr>reasoning_text = strip (take i processed), normal_text = drop i processed\<rparr>))
         | Some i \<Rightarrow>
             \<lparr>reasoning_text = take i processed,
              normal_text = strip (drop (i + length (think_end p)) processed)\<rparr>))"

text \<open>\<open>_split_trailing_partial\<close>: how much to hold back.  The scan for one token goes down from its
  longest proper prefix and stops at the best length so far.\<close>

fun partial_scan :: "str \<Rightarrow> str \<Rightarrow> nat \<Rightarrow> nat \<Rightarrow> nat" where
  "partial_scan s tok best 0 = best"
| "partial_scan s tok best (Suc k) =
     (if Suc k \<le> best then best
      else if suffix (take (Suc k) tok) s then Suc k
      else partial_scan s tok best k)"

definition tool_on :: "reasoning_parser \<Rightarrow> bool" where
  "tool_on p = (case tool_start p of None \<Rightarrow> False | Some tok \<Rightarrow> tok \<noteq> [])"

definition tracked :: "reasoning_parser \<Rightarrow> str list" where
  "tracked p =
     [think_end p] @ (if stripped_think_start p then [] else [think_start p]) @
     (if tool_on p then [the (tool_start p)] else [])"

definition split_trailing_partial :: "reasoning_parser \<Rightarrow> str \<Rightarrow> str \<times> str" where
  "split_trailing_partial p s =
     (let best = foldl (\<lambda>best tok. partial_scan s tok best (min (length tok - 1) (length s))) 0 (tracked p) in
      if best = 0 then (s, []) else (take (length s - best) s, drop (length s - best) s))"

text \<open>The three parts of \<open>parse_streaming_increment\<close>: the opening marker, the closing and the tool
  marker, and text without a marker.\<close>

definition open_think :: "reasoning_parser \<Rightarrow> str \<Rightarrow> reasoning_parser \<times> str" where
  "open_think p s =
     (if stripped_think_start p then (p, s)
      else case str_find (think_start p) s of
        None \<Rightarrow> (p, s)
      | Some i \<Rightarrow>
          (p\<lparr>stripped_think_start := True, in_reasoning := True\<rparr>,
           take i s @ drop (i + length (think_start p)) s))"

definition plain_text :: "reasoning_parser \<Rightarrow> str \<Rightarrow> reasoning_parser \<times> parse_result" where
  "plain_text p s =
     (case split_trailing_partial p s of (safe, held) \<Rightarrow>
        if in_reasoning p \<and> \<not> stream_reasoning p then
          (p\<lparr>rp_buffer := s\<rparr>, \<lparr>reasoning_text = [], normal_text = []\<rparr>)
        else if in_reasoning p then (p\<lparr>rp_buffer := held\<rparr>, \<lparr>reasoning_text = safe, normal_text = []\<rparr>)
        else (p\<lparr>rp_buffer := held\<rparr>, \<lparr>reasoning_text = [], normal_text = safe\<rparr>))"

definition parse_body :: "reasoning_parser \<Rightarrow> str \<Rightarrow> reasoning_parser \<times> parse_result" where
  "parse_body p s =
     (case (if in_reasoning p then str_find (think_end p) s else None) of
        Some i \<Rightarrow>
          (p\<lparr>rp_buffer := [], in_reasoning := False\<rparr>,
           \<lparr>reasoning_text = rstrip (take i s), normal_text = drop (i + length (think_end p)) s\<rparr>)
      | None \<Rightarrow>
          (case (if in_reasoning p \<and> tool_on p then str_find (the (tool_start p)) s else None) of
             Some i \<Rightarrow>
               if length (drop i s) > TOOL_HOLD_MAX then
                 (p\<lparr>rp_buffer := [], in_reasoning := False\<rparr>,
                  \<lparr>reasoning_text = take i s, normal_text = drop i s\<rparr>)
               else (p\<lparr>rp_buffer := drop i s\<rparr>, \<lparr>reasoning_text = take i s, normal_text = []\<rparr>)
           | None \<Rightarrow> plain_text p s))"

definition parse_streaming_increment :: "str \<Rightarrow> reasoning_parser \<Rightarrow> reasoning_parser \<times> parse_result" where
  "parse_streaming_increment new p =
     (case open_think p (rp_buffer p @ new) of (p, s) \<Rightarrow> parse_body p s)"

definition flush :: "reasoning_parser \<Rightarrow> reasoning_parser \<times> parse_result" where
  "flush p =
     (let buf = rp_buffer p; p = p\<lparr>rp_buffer := []\<rparr> in
      if buf = [] then (p, \<lparr>reasoning_text = [], normal_text = []\<rparr>)
      else if tool_on p \<and> prefix (the (tool_start p)) (lstrip buf) then
        (p\<lparr>in_reasoning := False\<rparr>, \<lparr>reasoning_text = [], normal_text = buf\<rparr>)
      else if in_reasoning p then (p, \<lparr>reasoning_text = buf, normal_text = []\<rparr>)
      else (p, \<lparr>reasoning_text = [], normal_text = buf\<rparr>))"

text \<open>A whole response: the deltas a client receives, added up.\<close>

fun parse_chunks :: "str list \<Rightarrow> reasoning_parser \<Rightarrow> reasoning_parser \<times> parse_result" where
  "parse_chunks [] p = (p, \<lparr>reasoning_text = [], normal_text = []\<rparr>)"
| "parse_chunks (new # news) p =
     (case parse_streaming_increment new p of (p1, r1) \<Rightarrow>
        (case parse_chunks news p1 of (p2, r2) \<Rightarrow>
           (p2, \<lparr>reasoning_text = reasoning_text r1 @ reasoning_text r2,
                 normal_text = normal_text r1 @ normal_text r2\<rparr>)))"

definition parse_stream :: "reasoning_parser \<Rightarrow> str list \<Rightarrow> parse_result" where
  "parse_stream p news =
     (case parse_chunks news p of (p1, r1) \<Rightarrow>
        (case flush p1 of (p2, r2) \<Rightarrow>
           \<lparr>reasoning_text = reasoning_text r1 @ reasoning_text r2,
            normal_text = normal_text r1 @ normal_text r2\<rparr>))"

section \<open>The protocols\<close>

definition THINK_START_TOKEN :: str where "THINK_START_TOKEN = cps ''<think>''"
definition THINK_END_TOKEN :: str where "THINK_END_TOKEN = cps ''</think>''"
definition DSML_TOKEN :: str where "DSML_TOKEN = 0xFF5C # cps ''DSML'' @ [0xFF5C]"

definition BOS_TOKEN :: str where
  "BOS_TOKEN = cps ''<'' @ [0xFF5C] @ cps ''begin'' @ [0x2581] @ cps ''of'' @ [0x2581] @ cps ''sentence'' @
     [0xFF5C] @ cps ''>''"

definition EOS_TOKEN :: str where
  "EOS_TOKEN = cps ''<'' @ [0xFF5C] @ cps ''end'' @ [0x2581] @ cps ''of'' @ [0x2581] @ cps ''sentence'' @
     [0xFF5C] @ cps ''>''"

definition DSV4_SPECIAL_TOKENS :: "str list" where
  "DSV4_SPECIAL_TOKENS = [BOS_TOKEN, EOS_TOKEN, THINK_START_TOKEN, THINK_END_TOKEN]"

definition deepseek_v32_parser :: "bool \<Rightarrow> bool \<Rightarrow> reasoning_parser" where
  "deepseek_v32_parser = new_parser THINK_START_TOKEN THINK_END_TOKEN (Some (cps ''<'' @ DSML_TOKEN))"

definition think_parser :: "bool \<Rightarrow> bool \<Rightarrow> reasoning_parser" where
  "think_parser = new_parser THINK_START_TOKEN THINK_END_TOKEN None"

definition kimi_k3_parser :: "bool \<Rightarrow> bool \<Rightarrow> reasoning_parser" where
  "kimi_k3_parser = new_parser (cps ''<|open|>think<|sep|>'')
     (cps ''<|close|>think<|sep|>'' @ cps ''<|open|>response<|sep|>'') (Some (cps ''<|open|>tools<|sep|>''))"

definition gemma_thought_parser :: "bool \<Rightarrow> bool \<Rightarrow> reasoning_parser" where
  "gemma_thought_parser = new_parser (cps ''<|channel>thought'' @ [newline]) (cps ''<channel|>'') None"

text \<open>What the markers of a protocol must satisfy: a tool marker does not occur in the closing
  marker, and neither begins or ends with white space.\<close>

definition solid :: "str \<Rightarrow> bool" where
  "solid tok = (tok \<noteq> [] \<and> \<not> py_space (hd tok) \<and> \<not> py_space (last tok))"

definition markers_ok :: "reasoning_parser \<Rightarrow> bool" where
  "markers_ok p =
     (think_start p \<noteq> [] \<and> solid (think_end p) \<and>
      (case tool_start p of None \<Rightarrow> True
       | Some tok \<Rightarrow> solid tok \<and> str_find tok (think_end p) = None))"

section \<open>Occurrences of a marker\<close>

lemma str_find_eq_None: "s \<noteq> [] \<Longrightarrow> str_find s t = None \<longleftrightarrow> (\<forall>m. \<not> prefix s (drop m t))"
proof (induction t)
  case (Cons x t)
  have "(\<forall>m. \<not> prefix s (drop m (x # t))) \<longleftrightarrow> \<not> prefix s (x # t) \<and> (\<forall>m. \<not> prefix s (drop m t))"
    by (metis drop0 drop_Suc_Cons not0_implies_Suc)
  then show ?case using Cons by auto
qed auto

lemma str_find_eq_Some:
  "s \<noteq> [] \<Longrightarrow> str_find s t = Some n \<longleftrightarrow> prefix s (drop n t) \<and> (\<forall>m<n. \<not> prefix s (drop m t))"
proof (induction t arbitrary: n)
  case (Cons x t)
  show ?case
  proof (cases n)
    case 0
    then show ?thesis by auto
  next
    case (Suc k)
    have "(\<forall>m<Suc k. \<not> prefix s (drop m (x # t))) \<longleftrightarrow> \<not> prefix s (x # t) \<and> (\<forall>m<k. \<not> prefix s (drop m t))"
      by (auto simp: less_Suc_eq_0_disj)
    then show ?thesis using Cons Suc by auto
  qed
qed auto

text \<open>An occurrence in a longer text that is not one in the shorter leaves a prefix of the marker
  at the end of the shorter text.\<close>

lemma prefix_extend:
  assumes "prefix s (drop m (b @ c))" "\<not> prefix s (drop m b)" "m \<le> length b"
  shows "prefix (drop m b) s"
  using assms by (auto simp: prefix_append)

lemma str_find_shift:
  assumes "s \<noteq> []" "\<forall>m<length r. \<not> prefix s (drop m (r @ t))"
  shows "str_find s (r @ t) = map_option (\<lambda>i. length r + i) (str_find s t)"
proof (cases "str_find s t")
  case None
  have "\<not> prefix s (drop m (r @ t))" for m
    using assms(2) None str_find_eq_None[OF assms(1), of t] by (cases "m < length r") auto
  then have "str_find s (r @ t) = None" using str_find_eq_None[OF assms(1), of "r @ t"] by blast
  then show ?thesis using None by simp
next
  case (Some i)
  then have "prefix s (drop i t)" "\<forall>m<i. \<not> prefix s (drop m t)" using assms(1) by (simp_all add: str_find_eq_Some)
  moreover have "\<not> prefix s (drop m (r @ t))" if "m < length r + i" for m
    using assms(2) that calculation(2) by (cases "m < length r") auto
  ultimately have "str_find s (r @ t) = Some (length r + i)"
    using assms(1) str_find_eq_Some[of s "r @ t" "length r + i"] by simp
  then show ?thesis using Some by simp
qed

lemma str_find_first_longer:
  assumes "s \<noteq> []" "str_find s b = Some i" "prefix b t"
  shows "str_find s t = Some i"
proof -
  have b: "prefix s (drop i b)" "\<forall>m<i. \<not> prefix s (drop m b)" using assms by (simp_all add: str_find_eq_Some)
  have "i + length s \<le> length b" using str_find_Some[OF assms(2)] by simp
  obtain c where t: "t = b @ c" using assms(3) by (auto simp: prefix_def)
  have "\<not> prefix s (drop m t)" if "m < i" for m
  proof
    assume "prefix s (drop m t)"
    then have "prefix (drop m b) s"
      using prefix_extend[of s m b c] that b(2) \<open>i + length s \<le> length b\<close> by (auto simp: t)
    then show False using prefix_length_le[of "drop m b" s] that \<open>i + length s \<le> length b\<close> by simp
  qed
  then show ?thesis using b(1) assms(1) \<open>i + length s \<le> length b\<close> by (simp add: str_find_eq_Some t prefix_append)
qed

section \<open>Holding back\<close>

lemma partial_scan_ge: "best \<le> partial_scan s tok best k"
  by (induction k) auto

lemma partial_scan_le: "best \<le> n \<Longrightarrow> k \<le> n \<Longrightarrow> partial_scan s tok best k \<le> n"
  by (induction k) auto

lemma partial_scan_finds: "j \<le> k \<Longrightarrow> suffix (take j tok) s \<Longrightarrow> j \<le> partial_scan s tok best k"
  by (induction k) (auto simp: le_Suc_eq)

lemma fold_partial:
  "best \<le> length s \<Longrightarrow>
   best \<le> foldl (\<lambda>best tok. partial_scan s tok best (min (length tok - 1) (length s))) best toks \<and>
   foldl (\<lambda>best tok. partial_scan s tok best (min (length tok - 1) (length s))) best toks \<le> length s"
proof (induction toks arbitrary: best)
  case (Cons tok toks)
  let ?b = "partial_scan s tok best (min (length tok - 1) (length s))"
  have "best \<le> ?b" "?b \<le> length s" using Cons.prems by (simp_all add: partial_scan_ge partial_scan_le)
  then show ?case using Cons.IH[of ?b] by auto
qed auto

lemma fold_partial_finds:
  assumes "best \<le> length s" "tok \<in> set toks" "j < length tok" "suffix (take j tok) s"
  shows "j \<le> foldl (\<lambda>best tok. partial_scan s tok best (min (length tok - 1) (length s))) best toks"
  using assms(1,2)
proof (induction toks arbitrary: best)
  case (Cons t toks)
  let ?b = "partial_scan s t best (min (length t - 1) (length s))"
  have b: "?b \<le> length s" using Cons.prems(1) by (simp add: partial_scan_le)
  show ?case
  proof (cases "tok = t")
    case True
    have "j \<le> length s" using assms(3,4) suffix_length_le by fastforce
    then have "j \<le> ?b" using True assms(3,4) by (intro partial_scan_finds) auto
    then show ?thesis using fold_partial[OF b, of toks] by simp
  next
    case False
    then show ?thesis using Cons.IH[OF b] Cons.prems by simp
  qed
qed simp

lemma split_trailing_partial_ok:
  assumes "split_trailing_partial p s = (safe, held)"
  shows "s = safe @ held" "\<And>tok m. tok \<in> set (tracked p) \<Longrightarrow> m < length safe \<Longrightarrow> prefix (drop m s) tok \<Longrightarrow> drop m s = tok"
proof -
  define best where "best = foldl (\<lambda>best tok. partial_scan s tok best (min (length tok - 1) (length s))) 0 (tracked p)"
  have le: "best \<le> length s" unfolding best_def using fold_partial[of 0 s "tracked p"] by simp
  have sp: "safe = take (length s - best) s" "held = drop (length s - best) s"
    using assms by (auto simp: split_trailing_partial_def Let_def best_def split: if_splits)
  show "s = safe @ held" by (simp add: sp)
  show "drop m s = tok" if t: "tok \<in> set (tracked p)" "m < length safe" "prefix (drop m s) tok" for tok m
  proof (rule ccontr)
    assume "drop m s \<noteq> tok"
    then have "length (drop m s) < length tok" using t(3) by (metis prefix_length_less strict_prefix_def)
    moreover have "take (length (drop m s)) tok = drop m s" using t(3) by (auto simp: prefix_def)
    ultimately have "length (drop m s) \<le> best"
      unfolding best_def using t(1) by (intro fold_partial_finds[of _ _ tok]) (auto simp: suffix_drop)
    then show False using t(2) le by (simp add: sp)
  qed
qed

lemma str_find_part:
  assumes "s \<noteq> []" "str_find s (a @ u @ b) = None"
  shows "str_find s u = None"
proof -
  have "\<not> prefix s (drop m u)" for m
  proof
    assume p: "prefix s (drop m u)"
    then have "m \<le> length u" using assms(1) by (cases "m \<le> length u") auto
    then have "prefix s (drop (length a + m) (a @ u @ b))" using p by (simp add: prefix_append)
    then show False using assms str_find_eq_None[of s "a @ u @ b"] by blast
  qed
  then show ?thesis using assms(1) str_find_eq_None[of s u] by blast
qed

section \<open>Where a response is split\<close>

text \<open>At the first closing marker, white space before it dropped; or, when the model went straight
  to its tool block, at the first tool marker.\<close>

definition splits_at_closer :: "str \<Rightarrow> str \<Rightarrow> str \<Rightarrow> str \<Rightarrow> bool" where
  "splits_at_closer te body R N \<longleftrightarrow>
     (\<exists>e ws. str_find te body = Some e \<and> take e body = R @ ws \<and> list_all py_space ws \<and>
        N = drop (e + length te) body)"

definition splits_at_tool :: "str option \<Rightarrow> str \<Rightarrow> str \<Rightarrow> str \<Rightarrow> bool" where
  "splits_at_tool tool body R N \<longleftrightarrow> body = R @ N \<and>
     (case tool of None \<Rightarrow> N = []
      | Some tok \<Rightarrow> (case str_find tok body of None \<Rightarrow> N = [] | Some i \<Rightarrow> length R = i))"

lemma closer_longer: "te \<noteq> [] \<Longrightarrow> splits_at_closer te b R N \<Longrightarrow> splits_at_closer te (b @ c) R (N @ c)"
  unfolding splits_at_closer_def
proof (elim exE conjE)
  fix e ws
  assume te: "te \<noteq> []" and e: "str_find te b = Some e" "take e b = R @ ws" "list_all py_space ws"
    and N: "N = drop (e + length te) b"
  have "e + length te \<le> length b" using str_find_Some[OF e(1)] by simp
  then show "\<exists>e ws. str_find te (b @ c) = Some e \<and> take e (b @ c) = R @ ws \<and> list_all py_space ws \<and>
      N @ c = drop (e + length te) (b @ c)"
    using str_find_first_longer[OF te e(1), of "b @ c"] e(2,3) N by (intro exI[of _ e] exI[of _ ws]) auto
qed

lemma rstrip_split: obtains ws where "s = rstrip s @ ws" "list_all py_space ws"
proof
  show "s = rstrip s @ rev (takeWhile py_space (rev s))"
    by (metis rev_append rev_rev_ident rstrip_def takeWhile_dropWhile_id)
  show "list_all py_space (rev (takeWhile py_space (rev s)))"
    by (auto simp: list_all_iff dest: set_takeWhileD)
qed

definition held_back :: "str \<Rightarrow> str \<Rightarrow> str \<Rightarrow> bool" where
  "held_back tok b R = (\<forall>m<length R. \<not> prefix (drop m b) tok)"

text \<open>While the parser is in the reasoning: \<open>b\<close> is the text so far and \<open>R\<close> what it has passed on.\<close>

definition thinking :: "reasoning_parser \<Rightarrow> str \<Rightarrow> str \<Rightarrow> bool" where
  "thinking p b R \<longleftrightarrow>
     b = R @ rp_buffer p \<and> str_find (think_end p) b = None \<and> held_back (think_end p) b R \<and>
     (case tool_start p of None \<Rightarrow> True
      | Some tok \<Rightarrow> str_find tok b = None \<and> held_back tok b R \<or> str_find tok b = Some (length R))"

lemma held_back_extend:
  assumes "s \<noteq> []" "str_find s (R @ buf) = None" "held_back s (R @ buf) R"
  shows "\<forall>m<length R. \<not> prefix s (drop m (R @ buf @ c))"
  using assms prefix_extend[of s _ "R @ buf" c] unfolding held_back_def str_find_eq_None[OF assms(1)]
  by (metis append_assoc length_append nat_le_linear not_less trans_le_add1 order.strict_implies_order)

lemma held_back_safe:
  assumes "s \<noteq> []" "str_find s (R @ buf) = None" "held_back s (R @ buf) R"
    and "str_find s (R @ buf @ c) = None" and split: "split_trailing_partial p (buf @ c) = (safe, held)"
    and "s \<in> set (tracked p)"
  shows "held_back s (R @ buf @ c) (R @ safe)"
  unfolding held_back_def
proof (intro allI impI notI)
  fix m assume m: "m < length (R @ safe)" and p: "prefix (drop m (R @ buf @ c)) s"
  show False
  proof (cases "m < length R")
    case True
    then have "prefix (drop m (R @ buf)) s" using append_prefixD[of "drop m R @ buf" c s] p True by simp
    then show False using assms(3) True by (simp add: held_back_def)
  next
    case False
    then have "drop (m - length R) (buf @ c) = s"
      using split_trailing_partial_ok(2)[OF split assms(6), of "m - length R"] m p by simp
    then have "prefix s (drop m (R @ buf @ c))" using False by simp
    then show False using assms(1,4) str_find_eq_None[of s "R @ buf @ c"] by blast
  qed
qed

section \<open>One chunk\<close>

definition same_markers :: "reasoning_parser \<Rightarrow> reasoning_parser \<Rightarrow> bool" where
  "same_markers p p' \<longleftrightarrow> think_start p' = think_start p \<and> think_end p' = think_end p \<and>
     tool_start p' = tool_start p \<and> stream_reasoning p' = stream_reasoning p"

lemma plain_text_ok:
  assumes "plain_text p s = (p', r)"
  shows "same_markers p p'" "in_reasoning p' = in_reasoning p"
    "stripped_think_start p' = stripped_think_start p"
    "in_reasoning p \<Longrightarrow> normal_text r = [] \<and> s = reasoning_text r @ rp_buffer p'"
    "\<not> in_reasoning p \<Longrightarrow> reasoning_text r = [] \<and> s = normal_text r @ rp_buffer p'"
    "in_reasoning p \<Longrightarrow> reasoning_text r = [] \<or> (\<exists>held. split_trailing_partial p s = (reasoning_text r, held))"
    "\<not> in_reasoning p \<Longrightarrow> split_trailing_partial p s = (normal_text r, rp_buffer p')"
  using assms split_trailing_partial_ok(1)[of p s]
  by (auto simp: plain_text_def same_markers_def split: prod.splits if_splits)

lemma parse_body_markers:
  assumes "parse_body p s = (p', r)"
  shows "same_markers p p'" "stripped_think_start p' = stripped_think_start p"
  using assms plain_text_ok(1,3)[of p s p' r]
  by (auto simp: parse_body_def same_markers_def split: option.splits if_splits)

text \<open>What a parser has passed on, and what it still holds, after the text \<open>b\<close>.\<close>

definition split_inv :: "reasoning_parser \<Rightarrow> str \<Rightarrow> str \<Rightarrow> str \<Rightarrow> bool" where
  "split_inv p b R N \<longleftrightarrow>
     (if in_reasoning p then thinking p b R \<and> N = []
      else splits_at_closer (think_end p) b R (N @ rp_buffer p) \<or>
        (\<exists>tok. tool_start p = Some tok \<and> str_find tok b = Some (length R) \<and> b = R @ N @ rp_buffer p \<and>
          TOOL_HOLD_MAX < length (N @ rp_buffer p)))"

lemma tracked_markers:
  "think_end p \<in> set (tracked p)" "tool_start p = Some tok \<Longrightarrow> tok \<noteq> [] \<Longrightarrow> tok \<in> set (tracked p)"
  "\<not> stripped_think_start p \<Longrightarrow> think_start p \<in> set (tracked p)"
  by (auto simp: tracked_def tool_on_def)

lemma markers_okD:
  assumes "markers_ok p"
  shows "think_start p \<noteq> []" "think_end p \<noteq> []" "tool_start p = Some tok \<Longrightarrow> tok \<noteq> []"
    "tool_start p = Some tok \<Longrightarrow> str_find tok (think_end p) = None"
    "tool_on p \<longleftrightarrow> tool_start p \<noteq> None"
  using assms by (auto simp: markers_ok_def solid_def tool_on_def split: option.splits)

text \<open>A tool marker that has begun cannot be inside a closing marker that is still arriving.\<close>

lemma held_back_tool:
  assumes "tok \<noteq> []" "str_find tok te = None" "prefix tok (drop (length R) b)" "R = take (length R) b"
  shows "held_back te b R"
  unfolding held_back_def
proof (intro allI impI notI)
  fix m assume m: "m < length R" and p: "prefix (drop m b) te"
  have "prefix tok (drop (length R - m) (drop m b))" using assms(3) m by simp
  then have "prefix tok (drop (length R - m) te)" using p by (auto simp: prefix_def)
  then show False using assms(1,2) str_find_eq_None by blast
qed

lemma held_back_tool_at:
  assumes "tok \<noteq> []" "str_find tok te = None" "str_find tok s = Some i"
  shows "held_back te (R @ s) (R @ take i s)"
proof (rule held_back_tool[OF assms(1,2)])
  have len: "length (R @ take i s) = length R + i" using str_find_Some[OF assms(3)] by simp
  show "prefix tok (drop (length (R @ take i s)) (R @ s))"
    unfolding len using assms(3) str_find_eq_Some[OF assms(1)] by simp
  show "R @ take i s = take (length (R @ take i s)) (R @ s)" unfolding len by simp
qed

lemma held_back_longer: "held_back s b R \<Longrightarrow> length R \<le> length b \<Longrightarrow> held_back s (b @ c) R"
  using append_prefixD[of "drop _ b" c s] by (auto simp: held_back_def)

lemma plain_held:
  assumes pl: "plain_text p (rp_buffer p @ c) = (p', r)" and inr: "in_reasoning p" and b: "b = R @ rp_buffer p"
    and s: "s \<noteq> []" "str_find s b = None" "held_back s b R" "str_find s (b @ c) = None" "s \<in> set (tracked p)"
  shows "held_back s (b @ c) (R @ reasoning_text r)"
  using plain_text_ok(6)[OF pl inr]
proof (elim disjE exE)
  assume "reasoning_text r = []"
  then show ?thesis using held_back_longer[OF s(3)] by (simp add: b)
next
  fix held assume "split_trailing_partial p (rp_buffer p @ c) = (reasoning_text r, held)"
  then show ?thesis using held_back_safe[OF s(1) _ _ _ _ s(5), of R "rp_buffer p" c] s b by simp
qed

lemma thinkingD:
  assumes "thinking p b R"
  shows "b = R @ rp_buffer p" "str_find (think_end p) b = None" "held_back (think_end p) b R"
    "tool_start p = Some tok \<Longrightarrow> str_find tok b = None \<and> held_back tok b R \<or> str_find tok b = Some (length R)"
proof -
  show "b = R @ rp_buffer p" "str_find (think_end p) b = None" "held_back (think_end p) b R"
    using assms unfolding thinking_def by blast+
  have "case tool_start p of None \<Rightarrow> True
    | Some tok \<Rightarrow> str_find tok b = None \<and> held_back tok b R \<or> str_find tok b = Some (length R)"
    using assms unfolding thinking_def by blast
  then show "str_find tok b = None \<and> held_back tok b R \<or> str_find tok b = Some (length R)"
    if "tool_start p = Some tok" using that by simp
qed

text \<open>A marker of the whole text is found in what the parser still holds.\<close>

lemma thinking_find:
  assumes ok: "markers_ok p" and th: "thinking p b R"
  shows "str_find (think_end p) (b @ c) = map_option (\<lambda>i. length R + i) (str_find (think_end p) (rp_buffer p @ c))"
    and "tool_start p = Some tok \<Longrightarrow>
      str_find tok (b @ c) = map_option (\<lambda>i. length R + i) (str_find tok (rp_buffer p @ c))"
proof -
  note b = thinkingD[OF th]
  have bc: "b @ c = R @ rp_buffer p @ c" using b(1) by simp
  have te: "think_end p \<noteq> []" using markers_okD(2)[OF ok] .
  show "str_find (think_end p) (b @ c) = map_option (\<lambda>i. length R + i) (str_find (think_end p) (rp_buffer p @ c))"
    using str_find_shift[OF te held_back_extend[OF te]] b(1-3) by simp
  show "str_find tok (b @ c) = map_option (\<lambda>i. length R + i) (str_find tok (rp_buffer p @ c))"
    if t: "tool_start p = Some tok"
  proof -
    have tok: "tok \<noteq> []" using markers_okD(3)[OF ok t] .
    have "\<forall>m<length R. \<not> prefix tok (drop m (R @ rp_buffer p @ c))"
      using b(4)[OF t]
    proof
      assume "str_find tok b = None \<and> held_back tok b R"
      then show ?thesis using held_back_extend[OF tok, of R "rp_buffer p" c] b(1) by simp
    next
      assume "str_find tok b = Some (length R)"
      then have "str_find tok (b @ c) = Some (length R)" by (rule str_find_first_longer[OF tok]) simp
      then show ?thesis
        using str_find_eq_Some[OF tok, of "R @ rp_buffer p @ c" "length R"] unfolding bc by blast
    qed
    then show ?thesis unfolding bc by (rule str_find_shift[OF tok])
  qed
qed

lemma thinking_closer:
  assumes ok: "markers_ok p" and th: "thinking p b R"
    and s: "s = rp_buffer p @ c" and e: "str_find (think_end p) s = Some i"
  shows "splits_at_closer (think_end p) (b @ c) (R @ rstrip (take i s)) (drop (i + length (think_end p)) s)"
proof -
  obtain ws where ws: "take i s = rstrip (take i s) @ ws" "list_all py_space ws" using rstrip_split by blast
  have "b @ c = R @ s" using thinkingD(1)[OF th] by (simp add: s)
  then show ?thesis
    unfolding splits_at_closer_def using thinking_find(1)[OF ok th, of c, folded s] e ws
    by (intro exI[of _ "length R + i"] exI[of _ ws]) simp
qed

lemma thinking_plain:
  assumes ok: "markers_ok p" and inr: "in_reasoning p" and th: "thinking p b R"
    and none: "str_find (think_end p) (b @ c) = None"
    and notool: "\<And>tok. tool_start p = Some tok \<Longrightarrow> str_find tok (b @ c) = None"
    and pl: "plain_text p (rp_buffer p @ c) = (p', r)"
  shows "split_inv p' (b @ c) (R @ reasoning_text r) (normal_text r)"
proof -
  note b = thinkingD[OF th] and q = plain_text_ok[OF pl]
  have same: "think_end p' = think_end p" "tool_start p' = tool_start p" using q(1) by (simp_all add: same_markers_def)
  have "held_back (think_end p) (b @ c) (R @ reasoning_text r)"
    by (rule plain_held[OF pl inr b(1) markers_okD(2)[OF ok] b(2,3) none tracked_markers(1)])
  moreover have "held_back tok (b @ c) (R @ reasoning_text r)" if t: "tool_start p = Some tok" for tok
  proof -
    note tok = markers_okD(3)[OF ok t]
    have "str_find tok b \<noteq> Some (length R)"
      using notool[OF t] str_find_first_longer[OF tok, of b "length R" "b @ c"] by auto
    then have "str_find tok b = None" "held_back tok b R" using b(4)[OF t] by auto
    then show ?thesis by (rule plain_held[OF pl inr b(1) tok _ _ notool[OF t] tracked_markers(2)[OF t tok]])
  qed
  moreover have "b @ c = (R @ reasoning_text r) @ rp_buffer p'" "normal_text r = []" "in_reasoning p'"
    using q(2,4) inr b(1) by simp_all
  ultimately show ?thesis using none notool same by (auto simp: split_inv_def thinking_def split: option.splits)
qed

lemma thinking_tool:
  assumes ok: "markers_ok p" and inr: "in_reasoning p" and th: "thinking p b R"
    and s: "s = rp_buffer p @ c" and none: "str_find (think_end p) s = None"
    and t: "tool_start p = Some tok" and i: "str_find tok s = Some i" and step: "parse_body p s = (p', r)"
  shows "split_inv p' (b @ c) (R @ reasoning_text r) (normal_text r)"
proof -
  have same: "think_end p' = think_end p" "tool_start p' = tool_start p"
    using parse_body_markers(1)[OF step] by (simp_all add: same_markers_def)
  have body: "parse_body p s = (if length (drop i s) > TOOL_HOLD_MAX then
        (p\<lparr>rp_buffer := [], in_reasoning := False\<rparr>, \<lparr>reasoning_text = take i s, normal_text = drop i s\<rparr>)
      else (p\<lparr>rp_buffer := drop i s\<rparr>, \<lparr>reasoning_text = take i s, normal_text = []\<rparr>))"
    using none inr t i markers_okD(5)[OF ok] by (simp add: parse_body_def)
  have bc: "b @ c = R @ s" using thinkingD(1)[OF th] by (simp add: s)
  have len: "length (R @ take i s) = length R + i" using str_find_Some[OF i] by simp
  have found: "str_find tok (b @ c) = Some (length (R @ take i s))"
    using thinking_find(2)[OF ok th t, of c, folded s] i unfolding len by simp
  have split: "b @ c = (R @ take i s) @ drop i s" by (simp only: bc append_assoc append_take_drop_id)
  show ?thesis
  proof (cases "length (drop i s) > TOOL_HOLD_MAX")
    case True
    then have r: "reasoning_text r = take i s" "normal_text r = drop i s" "rp_buffer p' = []" "\<not> in_reasoning p'"
      using step unfolding body by auto
    then show ?thesis using True found same t split unfolding split_inv_def r(1,2) by auto
  next
    case False
    then have r: "reasoning_text r = take i s" "normal_text r = []" "rp_buffer p' = drop i s" "in_reasoning p'"
      using step inr unfolding body by auto
    have "held_back (think_end p) (b @ c) (R @ take i s)"
      unfolding bc by (rule held_back_tool_at[OF markers_okD(3,4)[OF ok t] i])
    moreover have "str_find (think_end p) (b @ c) = None" using thinking_find(1)[OF ok th, of c] none unfolding s by simp
    ultimately have "thinking p' (b @ c) (R @ take i s)"
      unfolding thinking_def r(3) same t using split found by simp
    then show ?thesis using r by (simp add: split_inv_def)
  qed
qed

lemma thinking_step:
  assumes ok: "markers_ok p" and inr: "in_reasoning p" and th: "thinking p b R"
    and step: "parse_body p (rp_buffer p @ c) = (p', r)"
  shows "split_inv p' (b @ c) (R @ reasoning_text r) (normal_text r)"
proof (cases "str_find (think_end p) (rp_buffer p @ c)")
  case (Some i)
  have p': "\<not> in_reasoning p'" "rp_buffer p' = []" "think_end p' = think_end p"
    "reasoning_text r = rstrip (take i (rp_buffer p @ c))"
    "normal_text r = drop (i + length (think_end p)) (rp_buffer p @ c)"
    using step inr Some by (auto simp: parse_body_def simp del: take_append drop_append)
  show ?thesis using thinking_closer[OF ok th refl Some] p'(1-3) unfolding p'(4,5) by (simp add: split_inv_def)
next
  case end_none: None
  then have none: "str_find (think_end p) (b @ c) = None" using thinking_find(1)[OF ok th, of c] by simp
  show ?thesis
  proof (cases "\<exists>tok i. tool_start p = Some tok \<and> str_find tok (rp_buffer p @ c) = Some i")
    case True
    then show ?thesis using thinking_tool[OF ok inr th refl end_none _ _ step] by blast
  next
    case False
    then have t: "str_find tok (rp_buffer p @ c) = None" if "tool_start p = Some tok" for tok using that by auto
    then have "plain_text p (rp_buffer p @ c) = (p', r)"
      using step end_none inr markers_okD(5)[OF ok] by (cases "tool_start p") (simp_all add: parse_body_def)
    moreover have "str_find tok (b @ c) = None" if "tool_start p = Some tok" for tok
      using t[OF that] thinking_find(2)[OF ok th that, of c] by simp
    ultimately show ?thesis by (intro thinking_plain[OF ok inr th none])
  qed
qed

lemma answer_step:
  assumes te: "think_end p \<noteq> []" "\<And>tok. tool_start p = Some tok \<Longrightarrow> tok \<noteq> []"
    and out: "\<not> in_reasoning p" and inv: "split_inv p b R N"
    and step: "parse_body p (rp_buffer p @ c) = (p', r)"
  shows "split_inv p' (b @ c) (R @ reasoning_text r) (N @ normal_text r)"
proof -
  have "plain_text p (rp_buffer p @ c) = (p', r)" using step out by (simp add: parse_body_def)
  note q = plain_text_ok[OF this]
  have r: "reasoning_text r = []" "rp_buffer p @ c = normal_text r @ rp_buffer p'" using q(5)[OF out] by auto
  have m: "think_end p' = think_end p" "tool_start p' = tool_start p" using q(1) by (simp_all add: same_markers_def)
  from inv out consider "splits_at_closer (think_end p) b R (N @ rp_buffer p)"
    | tok where "tool_start p = Some tok" "str_find tok b = Some (length R)" "b = R @ N @ rp_buffer p"
        "TOOL_HOLD_MAX < length (N @ rp_buffer p)"
    by (auto simp: split_inv_def)
  then show ?thesis
  proof cases
    case 1
    then show ?thesis using closer_longer[OF te(1) 1, of c] r q(2) m out by (simp add: split_inv_def)
  next
    case (2 tok)
    have "str_find tok (b @ c) = Some (length R)"
      using str_find_first_longer[OF te(2)[OF 2(1)] 2(2), of "b @ c"] by simp
    moreover have "b @ c = R @ N @ normal_text r @ rp_buffer p'" using 2(3) r(2) by simp
    moreover have "TOOL_HOLD_MAX < length (N @ normal_text r @ rp_buffer p')"
      using 2(4) arg_cong[OF r(2), of length] by simp
    ultimately show ?thesis using r(1) q(2) m out 2(1) by (auto simp: split_inv_def)
  qed
qed

lemma split_inv_buffer: "split_inv p b R N \<Longrightarrow> \<exists>a. b = a @ rp_buffer p"
  unfolding split_inv_def thinking_def splits_at_closer_def
  by (metis append.assoc append_take_drop_id)

lemma chunk_step:
  assumes ok: "markers_ok p" and inv: "split_inv p b R N" and no: "str_find (think_start p) (b @ c @ d) = None"
    and step: "parse_streaming_increment c p = (p', r)"
  shows "split_inv p' (b @ c) (R @ reasoning_text r) (N @ normal_text r) \<and> same_markers p p'"
proof -
  obtain a where "b = a @ rp_buffer p" using split_inv_buffer[OF inv] by blast
  then have "str_find (think_start p) (rp_buffer p @ c) = None"
    using str_find_part[OF markers_okD(1)[OF ok], of a "rp_buffer p @ c" d] no by simp
  then have "parse_body p (rp_buffer p @ c) = (p', r)"
    using step by (simp add: parse_streaming_increment_def open_think_def split: if_splits)
  note body = this
  show ?thesis
  proof (cases "in_reasoning p")
    case True
    then have "thinking p b R" "N = []" using inv by (simp_all add: split_inv_def)
    then show ?thesis using thinking_step[OF ok True _ body] parse_body_markers(1)[OF body] by simp
  next
    case False
    show ?thesis
      using answer_step[OF markers_okD(2,3)[OF ok] False inv body] parse_body_markers(1)[OF body] by simp
  qed
qed

lemma markers_ok_same: "same_markers p p' \<Longrightarrow> markers_ok p' = markers_ok p"
  by (simp add: same_markers_def markers_ok_def split: option.splits)

lemma same_markers_trans: "same_markers p q \<Longrightarrow> same_markers q r \<Longrightarrow> same_markers p r"
  by (simp add: same_markers_def)

lemma chunks_ok:
  assumes "markers_ok p" "split_inv p b R N" "str_find (think_start p) (b @ concat news) = None"
    and "parse_chunks news p = (p', r)"
  shows "split_inv p' (b @ concat news) (R @ reasoning_text r) (N @ normal_text r) \<and> same_markers p p'"
  using assms
proof (induction news arbitrary: p b R N p' r)
  case Nil
  then show ?case by (auto simp: same_markers_def)
next
  case (Cons c news)
  obtain p1 r1 where one: "parse_streaming_increment c p = (p1, r1)" by fastforce
  obtain p2 r2 where rest: "parse_chunks news p1 = (p2, r2)" by fastforce
  have s: "split_inv p1 (b @ c) (R @ reasoning_text r1) (N @ normal_text r1)" "same_markers p p1"
    using chunk_step[OF Cons.prems(1,2) _ one, of "concat news"] Cons.prems(3) by simp_all
  have "str_find (think_start p1) ((b @ c) @ concat news) = None" using Cons.prems(3) s(2) by (simp add: same_markers_def)
  then have "split_inv p2 ((b @ c) @ concat news) ((R @ reasoning_text r1) @ reasoning_text r2)
      ((N @ normal_text r1) @ normal_text r2) \<and> same_markers p1 p2"
    using Cons.IH[OF _ s(1) _ rest] Cons.prems(1) markers_ok_same[OF s(2)] by blast
  then show ?case using Cons.prems(4) one rest same_markers_trans[OF s(2)] by auto
qed

lemma parse_body_buffer: "parse_body (p\<lparr>rp_buffer := x\<rparr>) s = parse_body p s"
  by (simp add: parse_body_def plain_text_def split_trailing_partial_def tracked_def tool_on_def
      split: option.splits prod.splits)

text \<open>Before a written opening marker is complete, everything is held.\<close>

definition unopened :: "reasoning_parser \<Rightarrow> str \<Rightarrow> bool" where
  "unopened p b = (\<not> in_reasoning p \<and> \<not> stripped_think_start p \<and> rp_buffer p = b \<and> strict_prefix b (think_start p))"

lemma opening_held:
  assumes "unopened p b" and short: "strict_prefix (b @ c) (think_start p)"
    and step: "parse_streaming_increment c p = (p', r)"
  shows "unopened p' (b @ c)" "reasoning_text r = []" "normal_text r = []" "same_markers p p'"
proof -
  have p: "\<not> in_reasoning p" "\<not> stripped_think_start p" "rp_buffer p = b" using assms(1) by (auto simp: unopened_def)
  have len: "length (b @ c) < length (think_start p)" using short by (rule prefix_length_less)
  then have "str_find (think_start p) (b @ c) = None" using str_find_Some[of "think_start p" "b @ c"] by fastforce
  then have pl: "plain_text p (b @ c) = (p', r)"
    using step p by (simp add: parse_streaming_increment_def open_think_def parse_body_def)
  note q = plain_text_ok[OF pl]
  have "normal_text r = []"
  proof (rule ccontr)
    assume "normal_text r \<noteq> []"
    then have "drop 0 (b @ c) = think_start p"
      using split_trailing_partial_ok(2)[OF q(7)[OF p(1)] tracked_markers(3)[OF p(2)], of 0] short by simp
    then show False using len by simp
  qed
  then show "unopened p' (b @ c)" "reasoning_text r = []" "normal_text r = []" "same_markers p p'"
    using q(1-3) q(5)[OF p(1)] p short by (auto simp: unopened_def same_markers_def)
qed

lemma opening_done:
  assumes ok: "markers_ok p" and o: "unopened p b" and t: "b @ c = think_start p @ d"
    and step: "parse_streaming_increment c p = (p', r)"
  shows "split_inv p' d (reasoning_text r) (normal_text r)" "same_markers p p'"
proof -
  let ?q = "p\<lparr>stripped_think_start := True, in_reasoning := True, rp_buffer := []\<rparr>"
  have "str_find (think_start p) (b @ c) = Some 0"
    using markers_okD(1)[OF ok] str_find_eq_Some[of "think_start p" "b @ c" 0] by (simp add: t)
  then have "parse_body (p\<lparr>stripped_think_start := True, in_reasoning := True\<rparr>) d = (p', r)"
    using step o by (simp add: parse_streaming_increment_def open_think_def unopened_def t)
  then have body: "parse_body ?q (rp_buffer ?q @ d) = (p', r)"
    using parse_body_buffer[where p = "p\<lparr>stripped_think_start := True, in_reasoning := True\<rparr>" and x = "[]" and s = d] by simp
  have q: "markers_ok ?q" "thinking ?q [] []"
    using ok markers_okD(2,3)[OF ok] by (auto simp: markers_ok_def thinking_def held_back_def split: option.splits)
  show "split_inv p' d (reasoning_text r) (normal_text r)"
    using thinking_step[OF q(1) _ q(2) body] by simp
  show "same_markers p p'" using parse_body_markers(1)[OF body] by (simp add: same_markers_def)
qed

lemma opening_chunks:
  assumes "markers_ok p" "unopened p b" "b @ concat news = think_start p @ body"
    and "str_find (think_start p) body = None" and "parse_chunks news p = (p', r)"
  shows "split_inv p' body (reasoning_text r) (normal_text r) \<and> same_markers p p'"
  using assms
proof (induction news arbitrary: p b p' r)
  case Nil
  then show ?case by (auto simp: unopened_def strict_prefix_def prefix_def)
next
  case (Cons c news)
  obtain p1 r1 where one: "parse_streaming_increment c p = (p1, r1)" by fastforce
  obtain p2 r2 where rest: "parse_chunks news p1 = (p2, r2)" by fastforce
  have sum: "p' = p2" "reasoning_text r = reasoning_text r1 @ reasoning_text r2" "normal_text r = normal_text r1 @ normal_text r2"
    using Cons.prems(5) one rest by auto
  have t: "(b @ c) @ concat news = think_start p @ body" using Cons.prems(3) by simp
  show ?case
  proof (cases "prefix (think_start p) (b @ c)")
    case True
    then obtain d where d: "b @ c = think_start p @ d" by (auto simp: prefix_def)
    then have body: "d @ concat news = body" using t by simp
    note o = opening_done[OF Cons.prems(1,2) d one]
    have "str_find (think_start p1) (d @ concat news) = None" using Cons.prems(4) o(2) body by (simp add: same_markers_def)
    then show ?thesis
      using chunks_ok[OF _ o(1) _ rest] markers_ok_same[OF o(2)] Cons.prems(1) same_markers_trans[OF o(2)] body sum by simp
  next
    case False
    then have short: "strict_prefix (b @ c) (think_start p)"
      using t by (metis append_eq_append_conv2 prefixI strict_prefixI prefix_order.eq_iff)
    note o = opening_held[OF Cons.prems(2) short one]
    then show ?thesis
      using Cons.IH[OF _ o(1) _ _ rest] t Cons.prems(1,4) markers_ok_same[OF o(4)] same_markers_trans[OF o(4)] sum
      by (simp add: same_markers_def)
  qed
qed

section \<open>The end of the stream\<close>

lemma tool_on_buffer [simp]: "tool_on (p\<lparr>rp_buffer := x\<rparr>) = tool_on p"
  by (simp add: tool_on_def)

lemma flush_ok:
  assumes ok: "markers_ok p" and inv: "split_inv p b R N" and step: "flush p = (p', r)"
  shows "splits_at_closer (think_end p) b (R @ reasoning_text r) (N @ normal_text r) \<or>
     splits_at_tool (tool_start p) b (R @ reasoning_text r) (N @ normal_text r) \<and>
     (str_find (think_end p) b = None \<or> TOOL_HOLD_MAX < length (N @ normal_text r))"
proof (cases "in_reasoning p")
  case False
  then have "reasoning_text r = []" "normal_text r = rp_buffer p"
    using step by (auto simp: flush_def Let_def split: if_splits)
  then show ?thesis using inv False by (auto simp: split_inv_def splits_at_tool_def)
next
  case True
  then have th: "thinking p b R" "N = []" using inv by (simp_all add: split_inv_def)
  then have b: "b = R @ rp_buffer p" "str_find (think_end p) b = None" unfolding thinking_def by blast+
  show ?thesis
  proof (cases "\<exists>tok. tool_start p = Some tok \<and> str_find tok b = Some (length R)")
    case True
    then obtain tok where tok: "tool_start p = Some tok" "str_find tok b = Some (length R)" by blast
    have "solid tok" using ok tok(1) by (simp add: markers_ok_def)
    moreover have "prefix tok (rp_buffer p)"
      using tok(2) str_find_eq_Some[OF markers_okD(3)[OF ok tok(1)], of b "length R"] b(1) by simp
    ultimately have "lstrip (rp_buffer p) = rp_buffer p" "prefix tok (rp_buffer p)" "rp_buffer p \<noteq> []"
      by (auto simp: solid_def lstrip_def prefix_def dropWhile_append3 neq_Nil_conv)
    then have "reasoning_text r = []" "normal_text r = rp_buffer p"
      using step tok(1) markers_okD(5)[OF ok] by (auto simp: flush_def Let_def split: if_splits)
    then show ?thesis using b tok th(2) by (simp add: splits_at_tool_def)
  next
    case False
    then have none: "case tool_start p of None \<Rightarrow> True | Some tok \<Rightarrow> str_find tok b = None"
      using th(1) by (auto simp: thinking_def split: option.splits)
    have "\<not> prefix tok (lstrip (rp_buffer p))" if tok: "tool_start p = Some tok" for tok
    proof
      assume "prefix tok (lstrip (rp_buffer p))"
      then have "prefix tok (drop (length R + length (takeWhile py_space (rp_buffer p))) b)"
        by (simp add: b(1) lstrip_def dropWhile_eq_drop)
      then show False using none tok str_find_eq_None[OF markers_okD(3)[OF ok tok], of b] by auto
    qed
    then have "reasoning_text r = rp_buffer p" "normal_text r = []"
      using step True markers_okD(5)[OF ok] by (auto simp: flush_def Let_def split: if_splits)
    then show ?thesis using b none th(2) by (auto simp: splits_at_tool_def split: option.splits)
  qed
qed

section \<open>The one-shot parser\<close>

lemma drop_spaces: "list_all py_space w \<Longrightarrow> dropWhile py_space (w @ s) = dropWhile py_space s"
  by (induction w) auto

lemma rstrip_spaces [simp]: "list_all py_space w \<Longrightarrow> rstrip (s @ w) = rstrip s"
  using drop_spaces[of "rev w" "rev s"] by (simp add: rstrip_def)

lemma strip_all_spaces: "list_all py_space s \<Longrightarrow> strip s = []"
  using drop_spaces[of s "[]"] by (auto simp: strip_def lstrip_def rstrip_def dest: set_dropWhileD)

lemma strip_spaces:
  assumes "list_all py_space a" "list_all py_space w"
  shows "strip (a @ s @ w) = strip s"
proof (cases "\<forall>c\<in>set s. py_space c")
  case True
  then have "list_all py_space (a @ s @ w)" "list_all py_space s" using assms by (auto simp: list_all_iff)
  then show ?thesis using strip_all_spaces by metis
next
  case False
  then have "lstrip (a @ s @ w) = lstrip s @ w"
    using drop_spaces[OF assms(1), of "s @ w"] by (auto simp: lstrip_def dropWhile_append1)
  then show ?thesis using assms(2) by (simp add: strip_def)
qed

lemma strip_split:
  obtains a w where "s = a @ strip s @ w" "list_all py_space a" "list_all py_space w"
proof -
  obtain w where w: "lstrip s = strip s @ w" "list_all py_space w" unfolding strip_def using rstrip_split by blast
  have "s = takeWhile py_space s @ strip s @ w" using w(1) by (metis lstrip_def takeWhile_dropWhile_id)
  moreover have "list_all py_space (takeWhile py_space s)" by (auto simp: list_all_iff dest: set_takeWhileD)
  ultimately show ?thesis using w(2) by (rule that)
qed

lemma strip_strip [simp]: "strip (strip s) = strip s"
  using strip_split[of s] strip_spaces by metis

text \<open>A marker without white space at its ends is found at the same place after stripping.\<close>

lemma str_find_spaces:
  assumes tok: "solid tok" and a: "list_all py_space a" and w: "list_all py_space w"
  shows "str_find tok (a @ t @ w) = map_option (\<lambda>i. length a + i) (str_find tok t)"
proof -
  have ne: "tok \<noteq> []" using tok by (simp add: solid_def)
  have "\<not> prefix tok (drop m (a @ t @ w))" if "m < length a" for m
  proof
    assume "prefix tok (drop m (a @ t @ w))"
    then have "hd tok = a ! m" using that ne by (metis drop_append hd_append2 hd_drop_conv_nth drop_eq_Nil not_less prefix_def)
    then show False using tok a that by (auto simp: solid_def list_all_length)
  qed
  then have "str_find tok (a @ t @ w) = map_option (\<lambda>i. length a + i) (str_find tok (t @ w))"
    by (intro str_find_shift[OF ne]) simp
  moreover have "str_find tok (t @ w) = str_find tok t"
  proof (cases "str_find tok t")
    case (Some i)
    then show ?thesis using str_find_first_longer[OF ne Some, of "t @ w"] by simp
  next
    case None
    have "\<not> prefix tok (drop m (t @ w))" for m
    proof
      assume "prefix tok (drop m (t @ w))"
      moreover have "\<not> prefix tok (drop m t)" using None str_find_eq_None[OF ne, of t] by blast
      ultimately obtain us where us: "tok = drop m t @ us" "prefix us (drop (m - length t) w)" "us \<noteq> []"
        by (auto simp: prefix_append)
      then have "last tok \<in> set us" by simp
      then have "last tok \<in> set w" using us(2) set_mono_prefix in_set_dropD by fastforce
      then show False using tok w by (auto simp: solid_def list_all_iff)
    qed
    then show ?thesis using None str_find_eq_None[OF ne, of "t @ w"] by simp
  qed
  ultimately show ?thesis by simp
qed

lemma remove_all_none: "str_find tok s = None \<Longrightarrow> remove_all tok s = s"
  by (subst remove_all.simps) simp

lemma remove_all_once:
  assumes "tok \<noteq> []" "str_find tok s = None"
  shows "remove_all tok (tok @ s) = s"
proof -
  have "str_find tok (tok @ s) = Some 0" using str_find_eq_Some[OF assms(1), of "tok @ s" 0] by simp
  then show ?thesis using assms by (subst remove_all.simps) (simp add: remove_all_none)
qed

definition same_split :: "reasoning_parser \<Rightarrow> str \<Rightarrow> parse_result \<Rightarrow> bool" where
  "same_split p s r =
     (strip (reasoning_text r) = strip (reasoning_text (detect_and_parse p s)) \<and>
      strip (normal_text r) = strip (normal_text (detect_and_parse p s)))"

lemma one_shot_body:
  assumes ok: "markers_ok p" and no: "str_find (think_start p) body = None"
    and s: "s = (if in_reasoning p then [] else think_start p) @ body"
  shows "detect_and_parse p s = detect_and_parse (p\<lparr>in_reasoning := True\<rparr>) body"
proof -
  have ts: "think_start p \<noteq> []" using markers_okD(1)[OF ok] .
  have "in_reasoning p \<or> str_find (think_start p) s \<noteq> None"
    using str_find_eq_Some[OF ts, of "think_start p @ body" 0] by (auto simp: s)
  moreover have "remove_all (think_start p) s = body"
    using remove_all_none[OF no] remove_all_once[OF ts no] by (simp add: s)
  ultimately show ?thesis using remove_all_none[OF no] by (simp add: detect_and_parse_def Let_def cong: option.case_cong)
qed

lemma str_find_strip:
  assumes "solid tok" "body = a @ strip body @ w" "list_all py_space a" "list_all py_space w"
  shows "str_find tok body = map_option (\<lambda>i. length a + i) (str_find tok (strip body))"
  by (subst assms(2)) (rule str_find_spaces[OF assms(1,3,4)])

lemma one_shot_closer:
  assumes ok: "markers_ok p" and inr: "in_reasoning p" and no: "str_find (think_start p) body = None"
    and sp: "splits_at_closer (think_end p) body (reasoning_text r) (normal_text r)"
  shows "same_split p body r"
proof -
  obtain a w where b: "body = a @ strip body @ w" and sps: "list_all py_space a" "list_all py_space w"
    using strip_split by blast
  obtain e ws where e: "str_find (think_end p) body = Some e" "take e body = reasoning_text r @ ws"
    "list_all py_space ws" "normal_text r = drop (e + length (think_end p)) body"
    using sp by (auto simp: splits_at_closer_def)
  have "solid (think_end p)" using ok by (simp add: markers_ok_def)
  from str_find_strip[OF this b sps] e(1)
  obtain i where i: "str_find (think_end p) (strip body) = Some i" "e = length a + i"
    by (cases "str_find (think_end p) (strip body)") auto
  have len: "i + length (think_end p) \<le> length (strip body)" using str_find_Some[OF i(1)] by simp
  have "take e body = a @ take i (strip body)" "drop (e + length (think_end p)) body = drop (i + length (think_end p)) (strip body) @ w"
    using len by (subst b; simp add: i(2))+
  then have t: "strip (take e body) = strip (take i (strip body))"
    "strip (normal_text r) = strip (drop (i + length (think_end p)) (strip body))"
    using strip_spaces[OF sps(1), of "[]"] strip_spaces[of "[]", OF _ sps(2)] e(4) by simp_all
  have "strip (take e body) = strip (reasoning_text r)" using strip_spaces[of "[]", OF _ e(3)] e(2) by simp
  then show ?thesis
    using t i(1) inr remove_all_none[OF no] by (simp add: same_split_def detect_and_parse_def Let_def)
qed

lemma one_shot_tool:
  assumes ok: "markers_ok p" and inr: "in_reasoning p" and no: "str_find (think_start p) body = None"
    and none: "str_find (think_end p) body = None"
    and sp: "splits_at_tool (tool_start p) body (reasoning_text r) (normal_text r)"
  shows "same_split p body r"
proof -
  obtain a w where b: "body = a @ strip body @ w" and sps: "list_all py_space a" "list_all py_space w"
    using strip_split by blast
  have "solid (think_end p)" using ok by (simp add: markers_ok_def)
  from str_find_strip[OF this b sps] none
  have none': "str_find (think_end p) (strip body) = None" by simp
  have body: "body = reasoning_text r @ normal_text r" using sp by (simp add: splits_at_tool_def)
  show ?thesis
  proof (cases "\<exists>tok i. tool_start p = Some tok \<and> str_find tok body = Some i")
    case False
    then have "normal_text r = []" "\<And>tok. tool_start p = Some tok \<Longrightarrow> str_find tok body = None"
      using sp by (auto simp: splits_at_tool_def split: option.splits)
    moreover have "str_find tok (strip body) = None" if "tool_start p = Some tok" for tok
      using str_find_strip[OF _ b sps, of tok] calculation(2)[OF that] that ok
      by (simp add: markers_ok_def)
    ultimately show ?thesis
      using none' inr remove_all_none[OF no] body
      by (simp add: same_split_def detect_and_parse_def Let_def strip_all_spaces split: option.splits)
  next
    case True
    then obtain tok e where tok: "tool_start p = Some tok" "str_find tok body = Some e" by blast
    have len: "length (reasoning_text r) = e" using sp tok by (simp add: splits_at_tool_def)
    have "solid tok" using ok tok(1) by (simp add: markers_ok_def)
    from str_find_strip[OF this b sps] tok(2)
    obtain i where i: "str_find tok (strip body) = Some i" "e = length a + i"
      by (cases "str_find tok (strip body)") auto
    have il: "i \<le> length (strip body)" using str_find_Some[OF i(1)] by simp
    have "take e body = a @ take i (strip body)" "drop e body = drop i (strip body) @ w"
      using il by (subst b; simp add: i(2))+
    moreover have "take e body = reasoning_text r" "drop e body = normal_text r" using len by (simp_all add: body)
    ultimately have "strip (reasoning_text r) = strip (take i (strip body))"
      "strip (normal_text r) = strip (drop i (strip body))"
      using strip_spaces[OF sps(1), of "[]"] strip_spaces[of "[]", OF _ sps(2)] by simp_all
    then show ?thesis using none' i(1) tok(1) inr remove_all_none[OF no] by (simp add: same_split_def detect_and_parse_def Let_def)
  qed
qed

section \<open>Streaming and one-shot parsing agree\<close>

lemma shipped_markers_ok:
  "markers_ok (deepseek_v32_parser force stream)" "markers_ok (think_parser force stream)"
  "markers_ok (kimi_k3_parser force stream)" "markers_ok (gemma_thought_parser force stream)"
  by (simp_all add: markers_ok_def solid_def deepseek_v32_parser_def think_parser_def kimi_k3_parser_def
      gemma_thought_parser_def new_parser_def cps_def py_space_def THINK_START_TOKEN_def THINK_END_TOKEN_def
      DSML_TOKEN_def newline_def)

lemma parse_stream_ok:
  assumes p: "p = new_parser ts te tool force stream" and ok: "markers_ok p"
    and t: "concat news = (if force then [] else ts) @ body" and no: "str_find ts body = None"
  shows "splits_at_closer te body (reasoning_text (parse_stream p news)) (normal_text (parse_stream p news)) \<or>
     splits_at_tool tool body (reasoning_text (parse_stream p news)) (normal_text (parse_stream p news)) \<and>
     (str_find te body = None \<or> TOOL_HOLD_MAX < length (normal_text (parse_stream p news)))"
proof -
  obtain p1 r1 where one: "parse_chunks news p = (p1, r1)" by fastforce
  obtain p2 r2 where two: "flush p1 = (p2, r2)" by fastforce
  have te: "ts \<noteq> []" "te \<noteq> []" "\<And>tok. tool = Some tok \<Longrightarrow> tok \<noteq> []"
    using markers_okD(1-3)[OF ok] by (simp_all add: p new_parser_def)
  have "split_inv p1 body (reasoning_text r1) (normal_text r1) \<and> same_markers p p1"
  proof (cases force)
    case True
    have "split_inv p [] [] []"
      using te True by (auto simp: p new_parser_def split_inv_def thinking_def held_back_def split: option.splits)
    then show ?thesis using chunks_ok[OF ok _ _ one, of "[]" "[]" "[]"] t True no by (simp add: p new_parser_def)
  next
    case False
    then have "unopened p []" using te(1) by (auto simp: unopened_def p new_parser_def strict_prefix_def)
    then show ?thesis using opening_chunks[OF ok _ _ _ one, of "[]" body] t False no by (simp add: p new_parser_def)
  qed
  moreover have "markers_ok p1" using calculation markers_ok_same ok by blast
  moreover have "think_end p1 = te" "tool_start p1 = tool" using calculation(1) by (simp_all add: p same_markers_def new_parser_def)
  ultimately show ?thesis using flush_ok[OF _ _ two, of body] one two by (auto simp: parse_stream_def)
qed

text \<open>A completion that never opens its reasoning is passed on unchanged.\<close>

lemma silent_chunks:
  assumes "think_start p \<noteq> []" "\<not> in_reasoning p" "\<not> stripped_think_start p"
    and "str_find (think_start p) (rp_buffer p @ concat news) = None" "parse_chunks news p = (p1, r)"
  shows "reasoning_text r = [] \<and> normal_text r @ rp_buffer p1 = rp_buffer p @ concat news \<and> \<not> in_reasoning p1"
  using assms
proof (induction news arbitrary: p p1 r)
  case (Cons new news)
  let ?s = "rp_buffer p @ new"
  obtain safe held where sp: "split_trailing_partial p ?s = (safe, held)" by fastforce
  have s: "?s = safe @ held" using split_trailing_partial_ok(1)[OF sp] .
  have "str_find (think_start p) ?s = None"
    using str_find_part[OF Cons.prems(1), of "[]" ?s "concat news"] Cons.prems(4) by simp
  then have step: "parse_streaming_increment new p = (p\<lparr>rp_buffer := held\<rparr>, \<lparr>reasoning_text = [], normal_text = safe\<rparr>)"
    using Cons.prems(2,3) sp
    by (simp add: parse_streaming_increment_def open_think_def parse_body_def plain_text_def)
  obtain p2 r2 where rest: "parse_chunks news (p\<lparr>rp_buffer := held\<rparr>) = (p2, r2)" by fastforce
  have "rp_buffer p @ concat (new # news) = safe @ held @ concat news" using arg_cong[OF s, of "\<lambda>l. l @ concat news"] by simp
  then have "str_find (think_start p) (safe @ (held @ concat news) @ []) = None" using Cons.prems(4) by (metis append_Nil2)
  from str_find_part[OF Cons.prems(1) this]
  have "str_find (think_start p) (held @ concat news) = None" .
  then have "reasoning_text r2 = [] \<and> normal_text r2 @ rp_buffer p2 = held @ concat news \<and> \<not> in_reasoning p2"
    using Cons.IH[OF _ _ _ _ rest] Cons.prems(1-3) by simp
  then show ?case using Cons.prems(5) step rest s by auto
qed simp

lemma silent_stream:
  assumes "ts \<noteq> []" "str_find ts (concat news) = None"
  shows "parse_stream (new_parser ts te tool False stream) news = \<lparr>reasoning_text = [], normal_text = concat news\<rparr>"
    and "detect_and_parse (new_parser ts te tool False stream) (concat news) = \<lparr>reasoning_text = [], normal_text = concat news\<rparr>"
proof -
  let ?p = "new_parser ts te tool False stream"
  obtain p1 r where run: "parse_chunks news ?p = (p1, r)" by fastforce
  have "reasoning_text r = [] \<and> normal_text r @ rp_buffer p1 = concat news \<and> \<not> in_reasoning p1"
    using silent_chunks[OF _ _ _ _ run] assms by (simp add: new_parser_def)
  then show "parse_stream ?p news = \<lparr>reasoning_text = [], normal_text = concat news\<rparr>"
    using run by (auto simp: parse_stream_def flush_def Let_def)
  show "detect_and_parse ?p (concat news) = \<lparr>reasoning_text = [], normal_text = concat news\<rparr>"
    using assms(2) by (simp add: detect_and_parse_def new_parser_def)
qed

text \<open>An opening marker in the answer: the streaming parser passes it on, the one-shot parser
  removes it.\<close>

lemma later_opener_differs:
  "normal_text (parse_stream (think_parser False True) [cps ''<think>a</think>b <think> c'']) = cps ''b <think> c''"
  "normal_text (detect_and_parse (think_parser False True) (cps ''<think>a</think>b <think> c'')) = cps ''b  c''"
proof -
  let ?s = "cps ''<think>a</think>b <think> c''"
  have one: "parse_streaming_increment ?s (think_parser False True) =
      ((think_parser False True)\<lparr>stripped_think_start := True\<rparr>,
       \<lparr>reasoning_text = cps ''a'', normal_text = cps ''b <think> c''\<rparr>)"
    by (simp add: parse_streaming_increment_def open_think_def parse_body_def think_parser_def new_parser_def
        THINK_START_TOKEN_def THINK_END_TOKEN_def cps_def rstrip_def py_space_def)
  show "normal_text (parse_stream (think_parser False True) [?s]) = cps ''b <think> c''"
    using one by (simp add: parse_stream_def flush_def think_parser_def new_parser_def)
  have "remove_all THINK_START_TOKEN ?s = cps ''a</think>b  c''"
    by (simp add: remove_all.simps[of _ "_ # _"] remove_all_none THINK_START_TOKEN_def cps_def)
  then show "normal_text (detect_and_parse (think_parser False True) ?s) = cps ''b  c''"
    by (simp add: detect_and_parse_def think_parser_def new_parser_def)
      (simp add: THINK_START_TOKEN_def THINK_END_TOKEN_def cps_def strip_def rstrip_def lstrip_def py_space_def)
qed

text \<open>
  C40: chunks do not matter, for a completion whose only opening marker, if any, is at its very
  start: one that starts in the reasoning (\<open>force\<close>), or with the opening marker, and does not repeat
  it in \<open>body\<close>.  However such a completion is cut into chunks, and whether reasoning is streamed or
  buffered, the deltas add up to a split of the completion at its first closing marker, or at its
  first tool marker when the model never closed its reasoning: nothing is lost, repeated or
  reordered, no marker leaks, and up to white space at the ends the two texts are those of the
  one-shot parser.  The one exception is the bounded hold: a tool marker before the closing marker
  ends the reasoning once more than \<open>TOOL_HOLD_MAX\<close> characters follow it.  And a completion that
  never opens its reasoning is passed on unchanged by both parsers.  A completion that repeats the
  opening marker is outside this statement, and the two parsers differ there
  (\<open>later_opener_differs\<close>); so is one with text before its opening marker.
\<close>

theorem reasoning_stream_splits:
  assumes "p = new_parser ts te tool force stream" and "markers_ok p"
    and "concat news = (if force then [] else ts) @ body" and "str_find ts body = None"
  shows "(case parse_stream p news of r \<Rightarrow>
     (splits_at_closer te body (reasoning_text r) (normal_text r) \<or>
        str_find te body = None \<and> splits_at_tool tool body (reasoning_text r) (normal_text r)) \<and>
     strip (reasoning_text r) = strip (reasoning_text (detect_and_parse p (concat news))) \<and>
     strip (normal_text r) = strip (normal_text (detect_and_parse p (concat news))) \<or>
     str_find te body \<noteq> None \<and> TOOL_HOLD_MAX < length (normal_text r) \<and>
     splits_at_tool tool body (reasoning_text r) (normal_text r)) \<and>
   (\<forall>chunks. \<not> force \<and> str_find ts (concat chunks) = None \<longrightarrow>
     parse_stream p chunks = \<lparr>reasoning_text = [], normal_text = concat chunks\<rparr> \<and>
     detect_and_parse p (concat chunks) = \<lparr>reasoning_text = [], normal_text = concat chunks\<rparr>)" (is "?splits \<and> ?silent")
proof
  show ?silent using silent_stream[of ts] markers_okD(1)[OF assms(2)] assms(1) by (simp add: new_parser_def)
  show ?splits
  proof -
    let ?r = "parse_stream p news" let ?q = "p\<lparr>in_reasoning := True\<rparr>"
    have shot: "detect_and_parse p (concat news) = detect_and_parse ?q body"
      using assms by (intro one_shot_body) (simp_all add: new_parser_def)
    have q: "markers_ok ?q" "in_reasoning ?q" "str_find (think_start ?q) body = None" "think_end ?q = te" "tool_start ?q = tool"
      using assms markers_ok_same[of p ?q] by (simp_all add: same_markers_def new_parser_def)
    have "same_split ?q body ?r" if "splits_at_closer te body (reasoning_text ?r) (normal_text ?r)"
      using one_shot_closer[OF q(1-3)] q(4) that by simp
    moreover have "same_split ?q body ?r"
      if "str_find te body = None" "splits_at_tool tool body (reasoning_text ?r) (normal_text ?r)"
      using one_shot_tool[OF q(1-3)] q(4,5) that by simp
    ultimately show ?thesis
      using parse_stream_ok[OF assms] unfolding same_split_def shot
      by (cases "str_find te body = None") auto
  qed
qed

theorem reasoning_stream_splits_witness:
  "case parse_stream (deepseek_v32_parser True True) [cps ''ab'', cps ''c. <'', cps ''/thi'', cps ''nk> ok''] of r \<Rightarrow>
     strip (reasoning_text r) = cps ''abc.'' \<and> strip (normal_text r) = cps ''ok''"
proof -
  let ?p = "deepseek_v32_parser True True" let ?body = "cps ''abc. </think> ok''"
  let ?news = "[cps ''ab'', cps ''c. <'', cps ''/thi'', cps ''nk> ok'']"
  let ?tool = "cps ''<'' @ DSML_TOKEN"
  have defs: "?p = new_parser THINK_START_TOKEN THINK_END_TOKEN (Some ?tool) True True"
    by (simp add: deepseek_v32_parser_def)
  have body: "concat ?news = (if True then [] else THINK_START_TOKEN) @ ?body" by (simp add: cps_def)
  have none: "str_find THINK_START_TOKEN ?body = None" "str_find ?tool ?body = None"
    by (simp_all add: THINK_START_TOKEN_def DSML_TOKEN_def cps_def)
  have shot: "detect_and_parse ?p (concat ?news) = \<lparr>reasoning_text = cps ''abc. '', normal_text = cps ''ok''\<rparr>"
    using remove_all_none[OF none(1)]
    by (simp add: body detect_and_parse_def deepseek_v32_parser_def new_parser_def)
      (simp add: cps_def THINK_END_TOKEN_def strip_def rstrip_def lstrip_def py_space_def)
  have "\<not> splits_at_tool (Some ?tool) ?body R N" if "TOOL_HOLD_MAX < length N" for R N
    using that none(2) by (auto simp: splits_at_tool_def)
  then show ?thesis
    using reasoning_stream_splits[OF defs shipped_markers_ok(1) body none(1)] shot
    by (simp add: cps_def strip_def rstrip_def lstrip_def py_space_def) blast
qed

end
