(* ===== verification/Spec2Isabelle.thy ===== *)
theory Spec2Isabelle
  imports PrefillClaims Policy Speculation EventRings MessageTypes SchedClaims Detokenize LinearStatePool
    PrefixStore ReasoningParser
begin

text \<open>
  \<^bold>\<open>Verification library of the sparklab inference runtime\<close> (\<open>src/python/sparklab\<close>).

  \<^bold>\<open>The program.\<close>  A front end sends prompts to tokenizer workers; these send token ids to a
  scheduler process, which batches requests, hands out pages of a KV cache, shares prefixes
  between requests through a radix tree, runs the model and returns tokens; the tokenizer workers
  turn tokens back into streamed text.  The development follows that path.

  \<^bold>\<open>Shared vocabulary.\<close>  \<open>Prelude\<close> holds exceptions as values (\<open>'a res\<close>, \<open>Inl\<close> for a raise), the
  integer helpers of \<open>utils/misc.py\<close>, dictionaries as association lists and slices.
  \<open>OutOfFuel\<close> marks a bounded unfolding of a \<open>while\<close> loop; it is never the result, see below.

  \<^bold>\<open>KV pages and prefixes.\<close>
  \<^item> \<open>PrefixCache\<close>: \<open>runtime/kvcache/base.py\<close>, the interface every prefix cache implements, as a
    locale with the laws the cache manager needs; \<open>NaiveCache\<close> (\<open>naive_cache.py\<close>) and the radix
    tree interpret it.
  \<^item> \<open>RadixNode\<close>, \<open>Heapq\<close>, \<open>RadixCache\<close>: \<open>runtime/kvcache/radix_cache.py\<close>, the node store, the
    tree walk and node split, Python's \<open>heapq\<close>, and the cache with its two size counters.
    \<open>RadixProps\<close>, \<open>RadixEvict\<close> and \<open>RadixSpec\<close> prove the invariant, relate the tree to the set of
    cached prefixes (\<open>content\<close>) and give the contract; \<open>RadixRuns\<close> follows time stamps through
    walks, a whole eviction as a sequence of removals (\<open>lru_run\<close>), and sequences of calls from
    the empty cache (\<open>cache_run\<close>); \<open>RadixClaims\<close> states the properties: longest match, exact
    insertion, exact and least-recently-used eviction, exact counters, balanced locks.
  \<^item> \<open>Request\<close> (\<open>core.py\<close>), \<open>Managers\<close> (\<open>scheduler/table.py\<close>, \<open>scheduler/decode.py\<close>),
    \<open>CacheManager\<close> (\<open>scheduler/cache.py\<close>, the plain and naive paths) with \<open>CacheManagerInv\<close> and
    \<open>CacheManagerUse\<close>: every page is free, owned by one row or in the cache.
  \<^item> \<open>Prefill\<close>, \<open>PrefillInv\<close>, \<open>PrefillClaims\<close>: admission and chunking (\<open>scheduler/prefill.py\<close>).
  \<^item> \<open>SwaPool\<close> (\<open>kvcache/hybrid_swa_pool.py\<close>): the slot allocator of the sliding-window pool.
  \<^item> \<open>CacheBudget\<close> (\<open>engine/cache_budget.py\<close>): the split of device memory between KV pages and
    expert slots.
  \<^item> \<open>LinearStatePool\<close> (\<open>kvcache/linear_state_pool.py\<close>, its use in \<open>engine/engine.py\<close> and in the
    gated-delta layer): slots of recurrent state and the verify transactions of speculative
    decoding.  Committing a verified prefix at once and committing it on the next read are shown
    to give every slot the same contents; the budgeted bytes of the pool are its allocated bytes
    up to the index and step tensors of the verification lane (4 or 8 bytes).
  \<^item> \<open>PrefixStore\<close> (\<open>runtime/checkpoint/quota.py\<close>, \<open>store.py\<close>): the on-disk prefix files that worker
    processes share.  Enforcing the quota ends, and publication keeps index, disk and quota in step.
    Faults are arguments: which locks are busy, which files an eviction cannot remove
    (\<open>io_unlink_fails\<close>), where an error strikes a publication and whether its clean-up works.
    Errors of the directory scans and of sweeping leftover temporary files are not modelled.

  \<^bold>\<open>The loop.\<close>  \<open>Scheduler\<close> models \<open>scheduler/scheduler.py\<close>: inbound messages, aborts with their
  tombstones, draining a batch, launching the next, the overlapped and the plain loop.
  \<open>SchedInv\<close> states its invariant as a locale over the contract of the prefix cache; \<open>SchedDrain\<close>,
  \<open>SchedMsg\<close>, \<open>SchedLaunch\<close> and \<open>SchedLoop\<close> show that every part keeps it; \<open>SchedClaims\<close> interprets
  the locale on the radix tree and states the end-to-end properties: nothing leaks, no slot and no
  row has two owners, and every request gets a terminal reply, after which only acknowledgements
  of aborts are sent for it.  \<open>Policy\<close> (\<open>scheduler/policy.py\<close>) and \<open>Speculation\<close>
  (\<open>scheduler/speculation.py\<close>, \<open>engine/adaptive_dflash.py\<close>) are the decisions the loop takes;
  the coordinated choice of several ranks is modelled with the packet rank zero broadcasts, the
  check each rank makes on it and the sum of their votes.

  \<^bold>\<open>Messages and text.\<close>  \<open>Messages\<close> (\<open>message/*.py\<close>, the queues of \<open>utils/mp.py\<close>): the tagged
  encoding is a round trip for every message class.  The class map of a decoder is the whole
  \<open>globals()\<close> of its module, imported functions included.  \<open>MessageTypes\<close>: whatever record
  arrives, the decoder raises or returns what its tag names, and every instance in it has exactly
  the declared fields.  \<open>EventRings\<close> (\<open>serving/request_ring.py\<close>,
  \<open>daemon/logring.py\<close>): bounded logs that clients poll.  \<open>Detokenize\<close>
  (\<open>tokenizer/detokenize.py\<close>): streaming refines one-shot decoding; the manager takes any
  \<open>batch_decode\<close>, and the property is for a byte-level tokenizer (\<open>byte_level\<close>: the UTF-8 text of the
  bytes of the tokens, with U+FFFD for invalid ones).  \<open>ReasoningParser\<close>
  (\<open>serving/reasoning_parser.py\<close>): reasoning and answer are split at the same place whether a
  completion is parsed at once or in chunks, as long as its only opening marker is at its start.

  \<^bold>\<open>Loops and fuel.\<close>  Loops over a tree or a heap take fuel.  \<open>radix_fuel\<close> is the number of nodes
  ever created plus one, and every walk, lock, unlock and eviction visits a node at most once, so
  the contract of \<open>RadixSpec\<close> proves a result and not only partial correctness.  The sifting
  loops of \<open>Heapq\<close> run for the length of the heap.  \<open>enforce\<close> of \<open>PrefixStore\<close> has one round per
  file and one more, since a round that goes on has removed a file; \<open>make_room\<close> has one per index
  entry and one more.  All other recursion is structural.

  \<^bold>\<open>Parameters.\<close>  The model's forward pass (the sampled tokens), clocks, numpy, msgpack, ZeroMQ and
  the tokenizer are arguments; what is relied on is a named hypothesis.  Floating-point numbers of
  policies are rationals, so rounding is not modelled.

  \<^bold>\<open>Not modelled.\<close>  The hybrid and the sliding-window radix trees and the paths of the scheduler
  and cache manager that use them; exact checkpoint endpoints, the contents of
  prefix records and their recovery; image prompts beyond their effect
  on the budget; device tensors, CUDA graphs and kernels; model code; sockets, process control,
  HTTP and the command line; tool-call grammars and the reasoning parsers that have
  one; model file conversion.
\<close>

end
